(* ===== verification/Prelude.thy ===== *)
theory Prelude
  imports Main "HOL-Library.Word"
begin

text \<open>
  Shared vocabulary of the OScelot development: the C integer types of
  \<^verbatim>\<open>student-distrib/types.h\<close> as fixed-width words, byte-level reads of
  little-endian integers, C strings, and the generic lemmas on words and lists that
  the component theories use.

  Conventions used everywhere:
  \<^item> \<open>u8\<close>, \<open>u16\<close>, \<open>u32\<close> are machine words; arithmetic on them wraps.  An
    \<open>i32\<close> is the same 32-bit word read as two's complement (\<open>sint\<close>), so the C
    result \<open>-1\<close> is the word \<open>-1\<close>.
  \<^item> a C string that is only read is the list of its bytes before the terminating NUL
    (\<open>cstring\<close>); \<open>cs s i\<close> is the C expression \<open>s[i]\<close>, which is NUL at the end.
    A pointer that may be NULL is an \<open>option\<close>.
  \<^item> memory that is written through pointers is a total function from 32-bit addresses
    to bytes (\<open>mem\<close>).
\<close>

unbundle bit_operations_syntax

type_synonym u8 = "8 word"
type_synonym u16 = "16 word"
type_synonym u32 = "32 word"
type_synonym i32 = "32 word"
type_synonym cstring = "u8 list"
type_synonym mem = "u32 \<Rightarrow> u8"
type_synonym ports = "(u8 \<times> u16) list"

named_theorems frame_simps \<open>what an operation leaves unchanged\<close>
named_theorems inv_intros \<open>operations that keep their component's invariant\<close>
named_theorems mem_simps \<open>reads of memory after writes\<close>

section \<open>Bytes, characters and C strings\<close>

definition byte_of :: "char \<Rightarrow> u8" where
  "byte_of c = of_char c"

text \<open>A C string literal: the bytes of a HOL string.\<close>

definition lit :: "string \<Rightarrow> cstring" where
  "lit s = map byte_of s"

text \<open>\<open>cs s i\<close> reads \<open>s[i]\<close>: the byte, or the terminating NUL.\<close>

definition cs :: "cstring \<Rightarrow> nat \<Rightarrow> u8" where
  "cs s i = (if i < length s then s ! i else 0)"

text \<open>A list that is really the content of a C string: no NUL inside.\<close>

definition wf_cstring :: "cstring \<Rightarrow> bool" where
  "wf_cstring s \<longleftrightarrow> 0 \<notin> set s"

lemma cs_less [simp]: "i < length s \<Longrightarrow> cs s i = s ! i"
  by (simp add: cs_def)

lemma cs_length [simp]: "length s \<le> i \<Longrightarrow> cs s i = 0"
  by (simp add: cs_def)

lemma wf_cstring_nth: "wf_cstring s \<Longrightarrow> i < length s \<Longrightarrow> s ! i \<noteq> 0"
  by (metis nth_mem wf_cstring_def)

lemma cs_eq_0_iff: "wf_cstring s \<Longrightarrow> cs s i = 0 \<longleftrightarrow> length s \<le> i"
  by (auto simp: cs_def wf_cstring_nth not_less)

section \<open>Little-endian integers in byte arrays\<close>

text \<open>The 32-bit little-endian integer at byte offset \<open>i\<close> of a byte array.\<close>

definition le32 :: "(nat \<Rightarrow> u8) \<Rightarrow> nat \<Rightarrow> u32" where
  "le32 f i = ucast (f i) OR push_bit 8 (ucast (f (i + 1)))
     OR push_bit 16 (ucast (f (i + 2))) OR push_bit 24 (ucast (f (i + 3)))"

text \<open>The same read through a pointer, as \<open>*(uint32_t * )p\<close> does on x86.\<close>

definition rd32 :: "mem \<Rightarrow> u32 \<Rightarrow> u32" where
  "rd32 m p = le32 (\<lambda>i. m (p + of_nat i)) 0"

lemma le32_cong: "(\<And>k. k < 4 \<Longrightarrow> f (i + k) = g (j + k)) \<Longrightarrow> le32 f i = le32 g j"
proof -
  assume h: "\<And>k. k < 4 \<Longrightarrow> f (i + k) = g (j + k)"
  have "f i = g j" using h[of 0] by simp
  then show ?thesis using h[of 1] h[of 2] h[of 3] by (simp add: le32_def)
qed

section \<open>Generic lemmas on words and lists\<close>

lemma unat_less_32: "unat (x :: u32) < 4294967296"
  using unsigned_less[of x] by simp

lemma unat_Suc_less: "(x :: u32) < y \<Longrightarrow> unat (x + 1) = Suc (unat x)"
  using unat_less_32[of y] by (simp add: word_less_nat_alt unat_word_ariths)

lemma word_less_Suc_le: "(x :: u32) < y \<Longrightarrow> x + 1 \<le> y"
  by (simp add: inc_le)

lemma unat_dec: "(x :: u32) \<noteq> 0 \<Longrightarrow> unat (x - 1) = unat x - 1 \<and> 0 < unat x"
  by (metis unat_gt_0 unat_minus_one)

lemma unat_dec_less: "(x :: u32) \<noteq> 0 \<Longrightarrow> unat (x - 1) < unat x"
  using unat_dec[of x] by simp

lemma unat_of_nat_32: "n < 4294967296 \<Longrightarrow> unat (of_nat n :: u32) = n"
  by (simp add: unat_of_nat take_bit_eq_mod)

lemma unat_neg1_32: "unat (-1 :: u32) = 4294967295"
  by (simp add: unsigned_minus_1_eq_mask mask_eq_exp_minus_1)

lemma nth_take_while_lt: "i < length (takeWhile P xs) \<Longrightarrow> P (xs ! i)"
  by (metis nth_mem set_takeWhileD takeWhile_nth)

lemma takeWhile_stop: "length (takeWhile P xs) < length xs \<Longrightarrow> \<not> P (xs ! length (takeWhile P xs))"
  by (rule nth_length_takeWhile)

end
