(* ===== verification/CMem.thy ===== *)
theory CMem
  imports Prelude
begin

text \<open>
  The memory and string routines of \<^verbatim>\<open>student-distrib/lib.c\<close> over a flat memory.
  The inline assembly of \<open>memset\<close>, \<open>memcpy\<close>, \<open>memmove\<close>, \<open>memset_word\<close> and
  \<open>memset_dword\<close> is translated instruction by instruction into loops over the
  registers it uses (\<open>edi\<close>, \<open>esi\<close>, \<open>ecx\<close>, \<open>edx\<close>, \<open>al\<close>/\<open>eax\<close>); each is
  then shown equal to one block write (\<open>blit\<close>).

  A loop that runs past the end of its buffer when no terminating NUL is there
  (\<open>strlen\<close>, \<open>strcpy\<close>, \<open>itoa\<close> with a bad radix) is a
  \<^theory_text>\<open>partial_function (option)\<close>: \<open>None\<close> means that it does not return.
\<close>

section \<open>Block writes\<close>

text \<open>\<open>blit m s f n\<close> stores the bytes \<open>f 0, \<dots>, f (n - 1)\<close> at \<open>s\<close>.\<close>

definition blit :: "mem \<Rightarrow> u32 \<Rightarrow> (nat \<Rightarrow> u8) \<Rightarrow> nat \<Rightarrow> mem" where
  "blit m s f n = (\<lambda>a. if unat (a - s) < n then f (unat (a - s)) else m a)"

text \<open>The array that a pointer denotes.\<close>

definition arr :: "mem \<Rightarrow> u32 \<Rightarrow> nat \<Rightarrow> u8" where
  "arr m p i = m (p + of_nat i)"

lemma unat_diff_of_nat:
  assumes "k < 2 ^ 32"
  shows "unat ((x :: u32) - of_nat k) = (if k \<le> unat x then unat x - k else unat x + 2 ^ 32 - k)"
  using assms unat_less_32[of x]
  by (simp add: unat_sub_if_size word_size unat_of_nat take_bit_eq_mod)

lemma blit_0 [simp]: "blit m s f 0 = m"
  by (simp add: blit_def)

lemma blit_cong: "(\<And>i. i < n \<Longrightarrow> f i = g i) \<Longrightarrow> blit m s f n = blit m s g n"
  by (auto simp: blit_def)

lemma upd_blit: "m(s := b) = blit m s (\<lambda>_. b) 1"
  by (auto simp: blit_def fun_eq_iff unat_eq_0)

lemma blit_blit:
  assumes "k + n \<le> 2 ^ 32" and "k < 2 ^ 32"
  shows "blit (blit m s f k) (s + of_nat k) g n = blit m s (\<lambda>i. if i < k then f i else g (i - k)) (k + n)"
proof
  fix a
  have "a - (s + of_nat k) = (a - s) - of_nat k" by (simp add: algebra_simps)
  then have d: "unat (a - (s + of_nat k)) =
    (if k \<le> unat (a - s) then unat (a - s) - k else unat (a - s) + 2 ^ 32 - k)"
    by (simp only: unat_diff_of_nat[OF assms(2)])
  show "blit (blit m s f k) (s + of_nat k) g n a =
      blit m s (\<lambda>i. if i < k then f i else g (i - k)) (k + n) a"
    using assms unfolding blit_def d by auto
qed

lemma arr_blit_same: "n \<le> 2 ^ 32 \<Longrightarrow> i < n \<Longrightarrow> arr (blit m s f n) s i = f i"
  by (simp add: arr_def blit_def unat_of_nat_32)

lemma arr_add: "arr m (p + of_nat k) i = arr m p (k + i)"
  by (simp add: arr_def add.assoc)

lemma rd32_cong: "(\<And>k. k < 4 \<Longrightarrow> arr m' p k = arr m p k) \<Longrightarrow> rd32 m' p = rd32 m p"
  unfolding rd32_def by (rule le32_cong) (simp add: arr_def)

lemma blit_arr_other: "n \<le> unat (a - s) \<Longrightarrow> blit m s f n a = m a"
  by (simp add: blit_def)

section \<open>memset, memset_word, memset_dword (lib.c)\<close>

definition byte :: "nat \<Rightarrow> u32 \<Rightarrow> u8" where
  "byte k v = ucast (drop_bit (8 * k) v)"

definition store32 :: "mem \<Rightarrow> u32 \<Rightarrow> u32 \<Rightarrow> mem" where
  "store32 m p v = m(p := byte 0 v, p + 1 := byte 1 v, p + 2 := byte 2 v, p + 3 := byte 3 v)"

definition store16 :: "mem \<Rightarrow> u32 \<Rightarrow> u32 \<Rightarrow> mem" where
  "store16 m p v = m(p := byte 0 v, p + 1 := byte 1 v)"

text \<open>\<open>rep stosl\<close> and \<open>rep stosw\<close> with the direction flag clear; the final \<open>edi\<close>
  is returned.\<close>

function rep_stosl :: "u32 \<Rightarrow> mem \<Rightarrow> u32 \<Rightarrow> u32 \<Rightarrow> mem \<times> u32" where
  "rep_stosl eax m edi ecx =
     (if ecx = 0 then (m, edi) else rep_stosl eax (store32 m edi eax) (edi + 4) (ecx - 1))"
  by pat_completeness auto
termination
  by (relation "measure (\<lambda>(eax, m, edi, ecx). unat ecx)") (auto simp: unat_dec_less)

function rep_stosw :: "u32 \<Rightarrow> mem \<Rightarrow> u32 \<Rightarrow> u32 \<Rightarrow> mem \<times> u32" where
  "rep_stosw eax m edi ecx =
     (if ecx = 0 then (m, edi) else rep_stosw eax (store16 m edi eax) (edi + 2) (ecx - 1))"
  by pat_completeness auto
termination
  by (relation "measure (\<lambda>(eax, m, edi, ecx). unat ecx)") (auto simp: unat_dec_less)

text \<open>The tail loop \<open>.memset_bottom\<close>, one byte at a time.\<close>

function memset_bottom :: "u8 \<Rightarrow> mem \<Rightarrow> u32 \<Rightarrow> u32 \<Rightarrow> mem" where
  "memset_bottom al m edi edx =
     (if edx = 0 then m else memset_bottom al (m(edi := al)) (edi + 1) (edx - 1))"
  by pat_completeness auto
termination
  by (relation "measure (\<lambda>(al, m, edi, edx). unat edx)") (auto simp: unat_dec_less)

text \<open>\<open>.memset_top\<close>: bytes until \<open>edi\<close> is aligned, then the aligned block.\<close>

function memset_top :: "u32 \<Rightarrow> mem \<Rightarrow> u32 \<Rightarrow> u32 \<Rightarrow> mem" where
  "memset_top eax m edi ecx =
     (if ecx = 0 then m
      else if edi AND 3 = 0
      then let edx = ecx;
               ecx = drop_bit 2 ecx;
               edx = edx AND 3;
               (m, edi) = rep_stosl eax m edi ecx
           in memset_bottom (ucast eax) m edi edx
      else memset_top eax (m(edi := ucast eax)) (edi + 1) (ecx - 1))"
  by pat_completeness auto
termination
  by (relation "measure (\<lambda>(eax, m, edi, ecx). unat ecx)") (auto simp: unat_dec_less)

definition memset :: "mem \<Rightarrow> u32 \<Rightarrow> i32 \<Rightarrow> u32 \<Rightarrow> mem" where
  "memset m s c n =
     (let c = c AND 0xFF
      in memset_top (push_bit 24 c OR push_bit 16 c OR push_bit 8 c OR c) m s n)"

definition memset_word :: "mem \<Rightarrow> u32 \<Rightarrow> i32 \<Rightarrow> u32 \<Rightarrow> mem" where
  "memset_word m s c n = fst (rep_stosw c m s n)"

definition memset_dword :: "mem \<Rightarrow> u32 \<Rightarrow> i32 \<Rightarrow> u32 \<Rightarrow> mem" where
  "memset_dword m s c n = fst (rep_stosl c m s n)"

declare rep_stosl.simps [simp del] rep_stosw.simps [simp del]
  memset_bottom.simps [simp del] memset_top.simps [simp del]

text \<open>A store is a block write of its bytes.\<close>

lemma blit_upd:
  assumes "Suc n \<le> 2 ^ 32"
  shows "(blit m s f n)(s + of_nat n := b) = blit m s (f(n := b)) (Suc n)"
proof -
  have "(blit m s f n)(s + of_nat n := b) = blit (blit m s f n) (s + of_nat n) (\<lambda>_. b) 1"
    by (rule upd_blit)
  also have "\<dots> = blit m s (f(n := b)) (Suc n)"
    using assms by (subst blit_blit) (auto intro: blit_cong)
  finally show ?thesis .
qed

lemma blit_next: "Suc n \<le> 2 ^ 32 \<Longrightarrow> (blit m s f n)(s + of_nat n := f n) = blit m s f (Suc n)"
  by (simp add: blit_upd del: fun_upd_apply)

lemma store16_blit: "store16 m p v = blit m p (\<lambda>i. byte i v) 2"
proof -
  have "store16 m p v = (blit m p (\<lambda>_. byte 0 v) 1)(p + of_nat 1 := byte 1 v)"
    by (simp add: store16_def upd_blit)
  also have "\<dots> = blit m p ((\<lambda>_. byte 0 v)(1 := byte 1 v)) (Suc 1)"
    by (rule blit_upd) simp
  finally show ?thesis by (simp add: numeral_2_eq_2) (auto intro: blit_cong simp: less_Suc_eq)
qed

lemma store32_blit: "store32 m p v = blit m p (\<lambda>i. byte i v) 4"
proof -
  have "store32 m p v = ((store16 m p v)(p + of_nat 2 := byte 2 v))(p + of_nat 3 := byte 3 v)"
    by (simp add: store16_def store32_def)
  also have "\<dots> = (blit m p ((\<lambda>i. byte i v)(2 := byte 2 v)) (Suc 2))(p + of_nat 3 := byte 3 v)"
    by (subst store16_blit, subst blit_upd) simp_all
  also have "\<dots> = blit m p ((\<lambda>i. byte i v)(2 := byte 2 v, 3 := byte 3 v)) (Suc 3)"
    using blit_upd[of 3 m p "(\<lambda>i. byte i v)(2 := byte 2 v)"] by (simp add: numeral_3_eq_3)
  finally show ?thesis by (simp add: eval_nat_numeral) (auto intro: blit_cong)
qed

lemma blit_period:
  assumes "0 < n" and "0 < k" and "k * n \<le> 2 ^ 32" and "k < 2 ^ 32"
  shows "blit (blit m s f k) (s + of_nat k) (\<lambda>i. f (i mod k)) (k * (n - 1)) = blit m s (\<lambda>i. f (i mod k)) (k * n)"
proof -
  have kn: "k + k * (n - 1) = k * n" using assms(1) by (cases n) simp_all
  have "blit (blit m s f k) (s + of_nat k) (\<lambda>i. f (i mod k)) (k * (n - 1)) =
    blit m s (\<lambda>i. if i < k then f i else f ((i - k) mod k)) (k + k * (n - 1))"
    using assms kn by (intro blit_blit) auto
  also have "\<dots> = blit m s (\<lambda>i. f (i mod k)) (k + k * (n - 1))"
    by (rule blit_cong) (auto simp: le_mod_geq)
  finally show ?thesis by (simp only: kn)
qed

lemma rep_stosl_blit:
  "4 * unat ecx \<le> 2 ^ 32 \<Longrightarrow>
    rep_stosl eax m edi ecx = (blit m edi (\<lambda>i. byte (i mod 4) eax) (4 * unat ecx), edi + 4 * ecx)"
proof (induction eax m edi ecx rule: rep_stosl.induct)
  case (1 eax m edi ecx)
  show ?case
  proof (cases "ecx = 0")
    case False
    note d = unat_dec[OF False]
    have step: "blit (store32 m edi eax) (edi + of_nat 4) (\<lambda>i. byte (i mod 4) eax) (4 * unat (ecx - 1))
      = blit m edi (\<lambda>i. byte (i mod 4) eax) (4 * unat ecx)"
      using blit_period[of "unat ecx" 4 m edi "\<lambda>i. byte i eax"] d "1.prems"
      by (simp add: store32_blit)
    have "rep_stosl eax (store32 m edi eax) (edi + 4) (ecx - 1) =
      (blit (store32 m edi eax) (edi + 4) (\<lambda>i. byte (i mod 4) eax) (4 * unat (ecx - 1)), edi + 4 + 4 * (ecx - 1))"
      using "1.IH"[OF False] "1.prems" d by simp
    with step False show ?thesis
      by (simp add: rep_stosl.simps[of eax m edi ecx] algebra_simps)
  qed (simp add: rep_stosl.simps)
qed

lemma rep_stosw_blit:
  "2 * unat ecx \<le> 2 ^ 32 \<Longrightarrow>
    rep_stosw eax m edi ecx = (blit m edi (\<lambda>i. byte (i mod 2) eax) (2 * unat ecx), edi + 2 * ecx)"
proof (induction eax m edi ecx rule: rep_stosw.induct)
  case (1 eax m edi ecx)
  show ?case
  proof (cases "ecx = 0")
    case False
    note d = unat_dec[OF False]
    have step: "blit (store16 m edi eax) (edi + of_nat 2) (\<lambda>i. byte (i mod 2) eax) (2 * unat (ecx - 1))
      = blit m edi (\<lambda>i. byte (i mod 2) eax) (2 * unat ecx)"
      using blit_period[of "unat ecx" 2 m edi "\<lambda>i. byte i eax"] d "1.prems"
      by (simp add: store16_blit)
    have "rep_stosw eax (store16 m edi eax) (edi + 2) (ecx - 1) =
      (blit (store16 m edi eax) (edi + 2) (\<lambda>i. byte (i mod 2) eax) (2 * unat (ecx - 1)), edi + 2 + 2 * (ecx - 1))"
      using "1.IH"[OF False] "1.prems" d by simp
    with step False show ?thesis
      by (simp add: rep_stosw.simps[of eax m edi ecx] algebra_simps)
  qed (simp add: rep_stosw.simps)
qed

lemma blit_const_step:
  assumes "(n :: u32) \<noteq> 0"
  shows "blit (m(s := b)) (s + 1) (\<lambda>_. b) (unat (n - 1)) = blit m s (\<lambda>_. b) (unat n)"
  using blit_blit[of 1 "unat (n - 1)" m s "\<lambda>_. b" "\<lambda>_. b"] unat_dec[OF assms] unat_less_32[of n]
  by (simp add: upd_blit)

lemma memset_bottom_blit: "memset_bottom al m edi edx = blit m edi (\<lambda>_. al) (unat edx)"
proof (induction al m edi edx rule: memset_bottom.induct)
  case (1 al m edi edx)
  show ?case
    by (subst memset_bottom.simps) (use "1.IH" in \<open>simp add: blit_const_step del: fun_upd_apply\<close>)
qed

lemma div4_split: "4 * unat (drop_bit 2 (n :: u32)) + unat (n AND 3) = unat n"
proof -
  have "n AND 3 = take_bit 2 n" by (simp add: take_bit_eq_mask mask_eq_exp_minus_1)
  then have "n AND 3 = n mod 4" by (simp add: take_bit_eq_mod)
  then show ?thesis by (simp add: drop_bit_eq_div unat_div unat_mod)
qed

lemma memset_top_blit:
  "\<forall>k < 4. byte k eax = b \<Longrightarrow> memset_top eax m edi ecx = blit m edi (\<lambda>_. b) (unat ecx)"
proof (induction eax m edi ecx rule: memset_top.induct)
  case (1 eax m edi ecx)
  have al: "ucast eax = b" using "1.prems"[rule_format, of 0] by (simp add: byte_def)
  show ?case
  proof (cases "ecx \<noteq> 0 \<and> edi AND 3 = 0")
    case True
    let ?k = "4 * unat (drop_bit 2 ecx)"
    have k: "?k + unat (ecx AND 3) = unat ecx" by (rule div4_split)
    have "blit m edi (\<lambda>i. byte (i mod 4) eax) ?k = blit m edi (\<lambda>_. b) ?k"
      using "1.prems" by (intro blit_cong) auto
    moreover have "of_nat ?k = 4 * drop_bit 2 ecx" by simp
    ultimately show ?thesis
      using True al k unat_less_32[of ecx] blit_blit[of ?k "unat (ecx AND 3)" m edi "\<lambda>_. b" "\<lambda>_. b"]
      by (subst memset_top.simps) (simp add: rep_stosl_blit memset_bottom_blit)
  next
    case False
    then show ?thesis
      by (subst memset_top.simps) (use "1.IH" "1.prems" al in \<open>auto simp: blit_const_step simp del: fun_upd_apply\<close>)
  qed
qed

lemma memset_eax:
  "k < 4 \<Longrightarrow> byte k (push_bit 24 (c AND 0xFF) OR push_bit 16 (c AND 0xFF) OR push_bit 8 (c AND 0xFF)
     OR (c AND 0xFF)) = ucast c"
proof -
  assume "k < 4"
  then have "k = 0 \<or> k = 1 \<or> k = 2 \<or> k = 3" by arith
  moreover have "c AND 0xFF = take_bit 8 c" by (simp add: take_bit_eq_mask mask_eq_exp_minus_1)
  ultimately show ?thesis
    by (elim disjE) (auto intro!: bit_word_eqI simp: byte_def bit_simps)
qed

lemma memset_blit: "memset m s c n = blit m s (\<lambda>_. ucast c) (unat n)"
  unfolding memset_def Let_def by (rule memset_top_blit) (use memset_eax in blast)

text \<open>The word-wise \<open>memset\<close> stores the low byte of \<open>c\<close> at each of the \<open>n\<close>
  addresses from \<open>s\<close> on and changes nothing else, for every start alignment and length.\<close>

theorem memset_correct: "memset m s c n = blit m s (\<lambda>_. ucast c) (unat n)"
  by (rule memset_blit)

section \<open>memcpy and memmove (lib.c)\<close>

text \<open>\<open>rep movsl\<close> and \<open>rep movsb\<close>, forwards and (direction flag set) backwards;
  the registers \<open>edi\<close> and \<open>esi\<close> after \<open>rep movsl\<close> are returned.\<close>

function rep_movsl :: "mem \<Rightarrow> u32 \<Rightarrow> u32 \<Rightarrow> u32 \<Rightarrow> mem \<times> u32 \<times> u32" where
  "rep_movsl m edi esi ecx =
     (if ecx = 0 then (m, edi, esi)
      else rep_movsl (store32 m edi (rd32 m esi)) (edi + 4) (esi + 4) (ecx - 1))"
  by pat_completeness auto
termination
  by (relation "measure (\<lambda>(m, edi, esi, ecx). unat ecx)") (auto simp: unat_dec_less)

function rep_movsb :: "mem \<Rightarrow> u32 \<Rightarrow> u32 \<Rightarrow> u32 \<Rightarrow> mem" where
  "rep_movsb m edi esi ecx =
     (if ecx = 0 then m else rep_movsb (m(edi := m esi)) (edi + 1) (esi + 1) (ecx - 1))"
  by pat_completeness auto
termination
  by (relation "measure (\<lambda>(m, edi, esi, ecx). unat ecx)") (auto simp: unat_dec_less)

function rep_movsb_down :: "mem \<Rightarrow> u32 \<Rightarrow> u32 \<Rightarrow> u32 \<Rightarrow> mem" where
  "rep_movsb_down m edi esi ecx =
     (if ecx = 0 then m else rep_movsb_down (m(edi := m esi)) (edi - 1) (esi - 1) (ecx - 1))"
  by pat_completeness auto
termination
  by (relation "measure (\<lambda>(m, edi, esi, ecx). unat ecx)") (auto simp: unat_dec_less)

text \<open>\<open>.memcpy_bottom\<close> is the byte loop \<open>movb; addl; addl; subl\<close>, the same steps as
  \<open>rep movsb\<close> counted in \<open>edx\<close>.\<close>

function memcpy_top :: "mem \<Rightarrow> u32 \<Rightarrow> u32 \<Rightarrow> u32 \<Rightarrow> mem" where
  "memcpy_top m edi esi ecx =
     (if ecx = 0 then m
      else if edi AND 3 = 0
      then let edx = ecx;
               ecx = drop_bit 2 ecx;
               edx = edx AND 3;
               (m, edi, esi) = rep_movsl m edi esi ecx
           in rep_movsb m edi esi edx
      else memcpy_top (m(edi := m esi)) (edi + 1) (esi + 1) (ecx - 1))"
  by pat_completeness auto
termination
  by (relation "measure (\<lambda>(m, edi, esi, ecx). unat ecx)") (auto simp: unat_dec_less)

definition memcpy :: "mem \<Rightarrow> u32 \<Rightarrow> u32 \<Rightarrow> u32 \<Rightarrow> mem" where
  "memcpy m dest src n = memcpy_top m dest src n"

text \<open>\<open>memmove\<close> also returns the direction flag it leaves behind: \<open>cld\<close> at the start,
  \<open>std\<close> before a backward copy and no \<open>cld\<close> after it.\<close>

definition memmove :: "mem \<Rightarrow> u32 \<Rightarrow> u32 \<Rightarrow> u32 \<Rightarrow> mem \<times> bool" where
  "memmove m dest src n =
     (if dest \<le> src then (rep_movsb m dest src n, False)
      else (rep_movsb_down m (dest + n - 1) (src + n - 1) n, True))"

declare rep_movsl.simps [simp del] rep_movsb.simps [simp del]
  rep_movsb_down.simps [simp del] memcpy_top.simps [simp del]

text \<open>Copying the first \<open>k\<close> of \<open>n\<close> bytes and then the rest is copying all \<open>n\<close>, as long
  as the destination does not start inside the source (distances are taken modulo
  \<open>2 ^ 32\<close>).\<close>

definition copy_ok :: "u32 \<Rightarrow> u32 \<Rightarrow> nat \<Rightarrow> bool" where
  "copy_ok dest src n \<longleftrightarrow> dest = src \<or> n \<le> unat (dest - src)"

lemma arr_after_prefix:
  assumes "copy_ok d s n" and "k \<le> j" and "j < n" and "n \<le> 2 ^ 32"
  shows "arr (blit m d (arr m s) k) s j = arr m s j"
proof (cases "d = s")
  case True
  with assms show ?thesis by (simp add: arr_def blit_def unat_of_nat_32)
next
  case False
  define D where "D = d - s"
  have e: "s + of_nat j - d = of_nat j - D" by (simp add: D_def)
  have "unat (of_nat j - D) = (if unat D \<le> j then j - unat D else j + 2 ^ 32 - unat D)"
    using assms by (simp add: unat_sub_if_size word_size unat_of_nat_32)
  moreover have "n \<le> unat D" using assms(1) False by (simp add: copy_ok_def D_def)
  ultimately have "k \<le> unat (s + of_nat j - d)"
    using assms(2,3) unat_less_32[of D] by (simp add: e)
  then show ?thesis by (simp add: arr_def blit_def)
qed

lemma copy_split:
  assumes "copy_ok d s n" and "k \<le> n" and "n \<le> 2 ^ 32" and "k < 2 ^ 32"
  shows "blit (blit m d (arr m s) k) (d + of_nat k)
      (arr (blit m d (arr m s) k) (s + of_nat k)) (n - k) = blit m d (arr m s) n"
proof -
  have "blit (blit m d (arr m s) k) (d + of_nat k)
      (arr (blit m d (arr m s) k) (s + of_nat k)) (n - k) =
    blit m d (\<lambda>i. if i < k then arr m s i else arr (blit m d (arr m s) k) (s + of_nat k) (i - k)) (k + (n - k))"
    using assms by (intro blit_blit) auto
  also have "\<dots> = blit m d (arr m s) (k + (n - k))"
    using assms by (intro blit_cong) (auto simp: arr_add arr_after_prefix)
  finally show ?thesis using assms(2) by simp
qed

lemma copy_ok_step: "copy_ok d s n \<Longrightarrow> k \<le> n \<Longrightarrow> copy_ok (d + x) (s + x) (n - k)"
  by (auto simp: copy_ok_def)

lemma rep_movsb_blit:
  "copy_ok edi esi (unat ecx) \<Longrightarrow> rep_movsb m edi esi ecx = blit m edi (arr m esi) (unat ecx)"
proof (induction m edi esi ecx rule: rep_movsb.induct)
  case (1 m edi esi ecx)
  show ?case
  proof (cases "ecx = 0")
    case False
    note d = unat_dec[OF False]
    have b: "m(edi := m esi) = blit m edi (arr m esi) 1"
      by (simp add: upd_blit) (auto intro!: blit_cong simp: arr_def)
    have "rep_movsb (m(edi := m esi)) (edi + 1) (esi + 1) (ecx - 1) =
      blit (m(edi := m esi)) (edi + 1) (arr (m(edi := m esi)) (esi + 1)) (unat ecx - 1)"
      using "1.IH"[OF False] copy_ok_step[OF "1.prems", of 1 1] d by (simp del: fun_upd_apply)
    also have "\<dots> = blit m edi (arr m esi) (unat ecx)"
      using copy_split[OF "1.prems", of 1 m] d unat_less_32[of ecx] unfolding b by simp
    finally show ?thesis using False by (subst rep_movsb.simps) simp
  qed (simp add: rep_movsb.simps)
qed

lemma bit_u8_high: "8 \<le> n \<Longrightarrow> \<not> bit (x :: u8) n"
  using bit_imp_le_length[of x n] by auto

lemma byte_rd32: "k < 4 \<Longrightarrow> byte k (rd32 m q) = arr m q k"
proof -
  assume "k < 4"
  then have "k = 0 \<or> k = 1 \<or> k = 2 \<or> k = 3" by arith
  then show ?thesis
    by (elim disjE) (auto intro!: bit_word_eqI simp: byte_def rd32_def le32_def arr_def bit_simps bit_u8_high)
qed

lemma store_rd32_blit: "store32 m d (rd32 m s) = blit m d (arr m s) 4"
  by (simp add: store32_blit byte_rd32 cong: blit_cong)

lemma rep_movsl_blit:
  "copy_ok edi esi (4 * unat ecx) \<Longrightarrow> 4 * unat ecx \<le> 2 ^ 32 \<Longrightarrow>
    rep_movsl m edi esi ecx = (blit m edi (arr m esi) (4 * unat ecx), edi + 4 * ecx, esi + 4 * ecx)"
proof (induction m edi esi ecx rule: rep_movsl.induct)
  case (1 m edi esi ecx)
  show ?case
  proof (cases "ecx = 0")
    case False
    note d = unat_dec[OF False]
    have n: "4 * unat ecx - 4 = 4 * unat (ecx - 1)" using d by simp
    let ?m = "blit m edi (arr m esi) 4"
    have "rep_movsl ?m (edi + 4) (esi + 4) (ecx - 1) =
      (blit ?m (edi + 4) (arr ?m (esi + 4)) (4 * unat (ecx - 1)), edi + 4 + 4 * (ecx - 1), esi + 4 + 4 * (ecx - 1))"
      using "1.IH"[OF False] copy_ok_step[OF "1.prems"(1), of 4 4] "1.prems"(2) d n
      by (simp add: store_rd32_blit)
    moreover have "blit ?m (edi + 4) (arr ?m (esi + 4)) (4 * unat (ecx - 1)) = blit m edi (arr m esi) (4 * unat ecx)"
      using copy_split[OF "1.prems"(1), of 4 m] "1.prems"(2) d n by simp
    ultimately show ?thesis
      using False by (subst rep_movsl.simps) (simp add: store_rd32_blit algebra_simps)
  qed (simp add: rep_movsl.simps)
qed

lemma copy_ok_mono: "copy_ok d s n \<Longrightarrow> k \<le> n \<Longrightarrow> copy_ok d s k"
  by (auto simp: copy_ok_def)

lemma memcpy_top_blit:
  "copy_ok edi esi (unat ecx) \<Longrightarrow> memcpy_top m edi esi ecx = blit m edi (arr m esi) (unat ecx)"
proof (induction m edi esi ecx rule: memcpy_top.induct)
  case (1 m edi esi ecx)
  consider (zero) "ecx = 0" | (aligned) "ecx \<noteq> 0" "edi AND 3 = 0" | (byte) "ecx \<noteq> 0" "edi AND 3 \<noteq> 0"
    by blast
  then show ?case
  proof cases
    case aligned
    let ?q = "drop_bit 2 ecx" and ?r = "ecx AND 3"
    let ?k = "4 * unat ?q"
    have k: "?k + unat ?r = unat ecx" by (rule div4_split)
    then have r: "unat ?r = unat ecx - ?k" and kle: "?k \<le> unat ecx" by linarith+
    let ?m = "blit m edi (arr m esi) ?k"
    have of_k: "of_nat ?k = 4 * ?q" by simp
    have q: "rep_movsl m edi esi ?q = (?m, edi + of_nat ?k, esi + of_nat ?k)"
      unfolding of_k using k unat_less_32[of ecx] copy_ok_mono[OF "1.prems", of ?k] by (intro rep_movsl_blit) auto
    have "rep_movsb ?m (edi + of_nat ?k) (esi + of_nat ?k) ?r =
      blit ?m (edi + of_nat ?k) (arr ?m (esi + of_nat ?k)) (unat ecx - ?k)"
      using rep_movsb_blit[of "edi + of_nat ?k" "esi + of_nat ?k" ?r ?m]
        copy_ok_step[OF "1.prems", of ?k "of_nat ?k"] kle by (simp only: r)
    also have "\<dots> = blit m edi (arr m esi) (unat ecx)"
      using copy_split[OF "1.prems", of ?k m] k unat_less_32[of ecx] by simp
    finally show ?thesis
      using aligned by (subst memcpy_top.simps) (simp only: q Let_def split_conv if_True if_False refl simp_thms)
  next
    case byte
    note d = unat_dec[OF byte(1)]
    have b: "m(edi := m esi) = blit m edi (arr m esi) 1"
      by (simp add: upd_blit) (auto intro!: blit_cong simp: arr_def)
    have "memcpy_top (m(edi := m esi)) (edi + 1) (esi + 1) (ecx - 1) =
      blit (m(edi := m esi)) (edi + 1) (arr (m(edi := m esi)) (esi + 1)) (unat ecx - 1)"
      using "1.IH"[OF byte] copy_ok_step[OF "1.prems", of 1 1] d by (simp del: fun_upd_apply)
    also have "\<dots> = blit m edi (arr m esi) (unat ecx)"
      using copy_split[OF "1.prems", of 1 m] d unat_less_32[of ecx] unfolding b by simp
    finally show ?thesis using byte by (subst memcpy_top.simps) simp
  qed (simp add: memcpy_top.simps)
qed

lemma memcpy_blit: "copy_ok dest src (unat n) \<Longrightarrow> memcpy m dest src n = blit m dest (arr m src) (unat n)"
  unfolding memcpy_def by (rule memcpy_top_blit)

text \<open>C35: whenever the destination does not start inside the source (in particular for
  disjoint buffers), the word-wise \<open>memcpy\<close> copies exactly \<open>n\<close> bytes and changes
  nothing else.\<close>

theorem memcpy_correct:
  assumes "copy_ok dest src (unat n)"
  shows "memcpy m dest src n = blit m dest (arr m src) (unat n)"
  using assms by (rule memcpy_blit)

theorem memcpy_correct_witness:
  "copy_ok 0xB9000 0xB8000 (unat (0xFA0 :: u32)) \<and>
   memcpy (\<lambda>a. ucast a) 0xB9000 0xB8000 0xFA0 0xB9123 = 0x23"
proof -
  have ok: "copy_ok 0xB9000 0xB8000 (unat (0xFA0 :: u32))" by (simp add: copy_ok_def)
  show ?thesis using ok memcpy_correct[OF ok, of "\<lambda>a. ucast a"] by (simp add: blit_def arr_def)
qed

lemma addr_offset_iff: "k < 2 ^ 32 \<Longrightarrow> unat (a - d) = k \<longleftrightarrow> a = d + (of_nat k :: u32)"
proof
  assume "unat (a - d) = k"
  then have "a - d = of_nat k" by (metis of_nat_unat ucast_id)
  then show "a = d + of_nat k" by (simp add: algebra_simps)
qed (simp add: unat_of_nat_32)

lemma blit_last:
  assumes "Suc k \<le> 2 ^ 32"
  shows "blit (m(d + of_nat k := f k)) d f k = blit m d f (Suc k)"
  using addr_offset_iff[of k _ d] assms by (auto simp: blit_def fun_eq_iff less_Suc_eq unat_of_nat_32)

lemma arr_upd_last:
  assumes "copy_ok s d (Suc k)" and "j < k" and "Suc k \<le> 2 ^ 32"
  shows "arr (m(d + of_nat k := b)) s j = arr m s j"
proof -
  have "s + of_nat j \<noteq> d + of_nat k"
  proof
    assume "s + of_nat j = d + of_nat k"
    then have "s - d = of_nat k - of_nat j" by (simp add: algebra_simps)
    also have "\<dots> = of_nat (k - j)" using assms(2) by (simp add: of_nat_diff)
    finally have "s - d = of_nat (k - j)" .
    then have u: "unat (s - d) = k - j" using assms(2,3) unat_of_nat_32[of "k - j"] by simp
    then have "s \<noteq> d" using assms(2) by auto
    with u assms(1,2) show False by (auto simp: copy_ok_def)
  qed
  then show ?thesis by (simp add: arr_def)
qed

lemma rep_movsb_down_blit:
  "copy_ok s d (unat ecx) \<Longrightarrow>
    rep_movsb_down m (d + ecx - 1) (s + ecx - 1) ecx = blit m d (arr m s) (unat ecx)"
proof (induction "unat ecx" arbitrary: ecx m)
  case 0
  then show ?case by (simp add: rep_movsb_down.simps unat_eq_0)
next
  case (Suc k)
  then have nz: "ecx \<noteq> 0" by auto
  have k: "k = unat (ecx - 1)" using Suc.hyps(2) unat_dec[OF nz] by simp
  have Sk: "Suc k \<le> 2 ^ 32" using Suc.hyps(2) unat_less_32[of ecx] by simp
  have last: "x + ecx - 1 = x + of_nat k" for x :: u32
    unfolding k by simp
  let ?m = "m(d + of_nat k := arr m s k)"
  have "rep_movsb_down ?m (d + (ecx - 1) - 1) (s + (ecx - 1) - 1) (ecx - 1) = blit ?m d (arr ?m s) k"
    using Suc.hyps(1)[OF k] Suc.prems copy_ok_mono[of s d "unat ecx" "unat (ecx - 1)"] Suc.hyps(2) k by simp
  also have "\<dots> = blit ?m d (arr m s) k"
    using arr_upd_last[OF Suc.prems[folded Suc.hyps(2)] _ Sk] by (intro blit_cong) blast
  also have "\<dots> = blit m d (arr m s) (Suc k)" using Sk by (rule blit_last)
  finally show ?case
    using nz Suc.hyps(2)
    by (subst rep_movsb_down.simps) (simp add: last arr_def add_diff_eq del: fun_upd_apply)
qed

lemma memmove_blit:
  assumes "unat dest + unat n \<le> 2 ^ 32" and "unat src + unat n \<le> 2 ^ 32"
  shows "fst (memmove m dest src n) = blit m dest (arr m src) (unat n)"
proof (cases "dest \<le> src")
  case True
  then have "copy_ok dest src (unat n)"
    using assms(2) by (auto simp: copy_ok_def unat_sub_if_size word_size word_le_nat_alt word_unat_eq_iff)
  then show ?thesis using True by (simp add: memmove_def rep_movsb_blit)
next
  case False
  then have "copy_ok src dest (unat n)"
    using assms(1) by (auto simp: copy_ok_def unat_sub_if_size word_size word_le_nat_alt word_unat_eq_iff)
  then show ?thesis using False by (simp add: memmove_def rep_movsb_down_blit)
qed

text \<open>\<open>memmove\<close> copies \<open>n\<close> bytes correctly however the two areas overlap, as long as
  neither wraps around the end of the address space.\<close>

theorem memmove_correct:
  assumes "unat dest + unat n \<le> 2 ^ 32" and "unat src + unat n \<le> 2 ^ 32"
  shows "fst (memmove m dest src n) = blit m dest (arr m src) (unat n)"
  using assms by (rule memmove_blit)

theorem memmove_correct_witness:
  "unat (0xB8000 :: u32) + unat (3840 :: u32) \<le> 2 ^ 32 \<and> unat (0xB80A0 :: u32) + unat (3840 :: u32) \<le> 2 ^ 32 \<and>
   fst (memmove (\<lambda>a. ucast a) 0xB8000 0xB80A0 3840) 0xB8001 = 0xA1"
  using memmove_correct[of "0xB8000" 3840 "0xB80A0" "\<lambda>a. ucast a"] by (simp add: blit_def arr_def)

text \<open>\<open>memmove\<close> returns with the direction flag set exactly after a backward copy,
  although the C calling convention expects it clear.\<close>

theorem memmove_direction_flag: "snd (memmove m dest src n) \<longleftrightarrow> src < dest"
  by (auto simp: memmove_def)

text \<open>\<open>memset_word\<close> and \<open>memset_dword\<close> count in elements: they fill \<open>2 * n\<close> and
  \<open>4 * n\<close> bytes with the little-endian bytes of \<open>c\<close> (the comment above them calls
  \<open>n\<close> the number of bytes).\<close>

theorem memset_word_dword_fill:
  "(2 * unat n \<le> 2 ^ 32 \<longrightarrow> memset_word m s c n = blit m s (\<lambda>i. byte (i mod 2) c) (2 * unat n)) \<and>
   (4 * unat n \<le> 2 ^ 32 \<longrightarrow> memset_dword m s c n = blit m s (\<lambda>i. byte (i mod 4) c) (4 * unat n))"
  by (simp add: memset_word_def memset_dword_def rep_stosw_blit rep_stosl_blit)

theorem memset_word_dword_fill_witness:
  "2 * unat (3 :: u32) \<le> 2 ^ 32 \<and> memset_word (\<lambda>_. 0) 0x1000 0x0720 3 0x1005 = 0x07 \<and>
   memset_word (\<lambda>_. 0) 0x1000 0x0720 3 0x1006 = 0"
  using memset_word_dword_fill[where n = 3 and m = "\<lambda>_. 0" and s = "0x1000" and c = "0x0720"] by (simp add: blit_def byte_def drop_bit_eq_div)

section \<open>Strings in memory: strlen, strcpy, strncpy, strncmp, strrev (lib.c)\<close>

partial_function (option) strlen_loop :: "mem \<Rightarrow> u32 \<Rightarrow> u32 \<Rightarrow> u32 option" where
  "strlen_loop m s len = (if m (s + len) \<noteq> 0 then strlen_loop m s (len + 1) else Some len)"

definition strlen :: "mem \<Rightarrow> u32 \<Rightarrow> u32 option" where
  "strlen m s = strlen_loop m s 0"

partial_function (option) strcpy_loop :: "mem \<Rightarrow> u32 \<Rightarrow> u32 \<Rightarrow> u32 \<Rightarrow> mem option" where
  "strcpy_loop m dest src i =
     (if m (src + i) \<noteq> 0 then strcpy_loop (m(dest + i := m (src + i))) dest src (i + 1)
      else Some (m(dest + i := 0)))"

definition strcpy :: "mem \<Rightarrow> u32 \<Rightarrow> u32 \<Rightarrow> mem option" where
  "strcpy m dest src = strcpy_loop m dest src 0"

text \<open>\<open>strncpy\<close>: the copying loop, then the padding loop from where it stopped.\<close>

function strncpy_pad :: "mem \<Rightarrow> u32 \<Rightarrow> u32 \<Rightarrow> u32 \<Rightarrow> mem" where
  "strncpy_pad m dest i n =
     (if i < n then strncpy_pad (m(dest + i := 0)) dest (i + 1) n else m)"
  by pat_completeness auto
termination
  by (relation "measure (\<lambda>(m, dest, i, n). unat n - unat i)") (auto simp: unat_Suc_less word_less_nat_alt)

function strncpy_copy :: "mem \<Rightarrow> u32 \<Rightarrow> u32 \<Rightarrow> u32 \<Rightarrow> u32 \<Rightarrow> mem" where
  "strncpy_copy m dest src i n =
     (if m (src + i) \<noteq> 0 \<and> i < n
      then strncpy_copy (m(dest + i := m (src + i))) dest src (i + 1) n
      else strncpy_pad m dest i n)"
  by pat_completeness auto
termination
  by (relation "measure (\<lambda>(m, dest, src, i, n). unat n - unat i)") (auto simp: unat_Suc_less word_less_nat_alt)

definition strncpy :: "mem \<Rightarrow> u32 \<Rightarrow> u32 \<Rightarrow> u32 \<Rightarrow> mem" where
  "strncpy m dest src n = strncpy_copy m dest src 0 n"

text \<open>\<open>strncmp\<close> only reads, so its arguments are the two arrays.  The result is the
  difference of two \<open>int8_t\<close> values.\<close>

function strncmp_loop :: "(nat \<Rightarrow> u8) \<Rightarrow> (nat \<Rightarrow> u8) \<Rightarrow> nat \<Rightarrow> nat \<Rightarrow> int" where
  "strncmp_loop s1 s2 i n =
     (if i < n
      then if s1 i \<noteq> s2 i \<or> s1 i = 0 then sint (s1 i) - sint (s2 i)
           else strncmp_loop s1 s2 (i + 1) n
      else 0)"
  by pat_completeness auto
termination
  by (relation "measure (\<lambda>(s1, s2, i, n). n - i)") auto

definition strncmp :: "(nat \<Rightarrow> u8) \<Rightarrow> (nat \<Rightarrow> u8) \<Rightarrow> u32 \<Rightarrow> int" where
  "strncmp s1 s2 n = strncmp_loop s1 s2 0 (unat n)"

text \<open>\<open>strrev\<close>: \<open>beg\<close> and \<open>end\<close> are signed.\<close>

function strrev_loop :: "mem \<Rightarrow> u32 \<Rightarrow> int \<Rightarrow> int \<Rightarrow> mem" where
  "strrev_loop m s beg en =
     (if beg < en
      then let tmp = m (s + of_int en);
               m = m(s + of_int en := m (s + of_int beg));
               m = m(s + of_int beg := tmp)
           in strrev_loop m s (beg + 1) (en - 1)
      else m)"
  by pat_completeness auto
termination
  by (relation "measure (\<lambda>(m, s, beg, en). nat (en - beg))") auto

definition strrev :: "mem \<Rightarrow> u32 \<Rightarrow> mem option" where
  "strrev m s = (case strlen m s of None \<Rightarrow> None
     | Some len \<Rightarrow> Some (strrev_loop m s 0 (sint (len - 1))))"

declare strncpy_pad.simps [simp del] strncpy_copy.simps [simp del]
  strncmp_loop.simps [simp del] strrev_loop.simps [simp del]

subsection \<open>strlen\<close>

text \<open>The bytes of \<open>s\<close> and a terminating NUL are stored at \<open>p\<close>.\<close>

definition cstr_at :: "mem \<Rightarrow> u32 \<Rightarrow> cstring \<Rightarrow> bool" where
  "cstr_at m p s \<longleftrightarrow> wf_cstring s \<and> (\<forall>i \<le> length s. arr m p i = cs s i)"

lemma strlen_loop_finds:
  "m (s + n) = 0 \<Longrightarrow> \<forall>k. len \<le> k \<and> k < n \<longrightarrow> m (s + k) \<noteq> 0 \<Longrightarrow> len \<le> n \<Longrightarrow> strlen_loop m s len = Some n"
proof (induction "unat n - unat len" arbitrary: len)
  case 0
  then have "len = n" by (simp add: word_le_nat_alt word_unat_eq_iff)
  with 0 show ?case by (simp add: strlen_loop.simps)
next
  case (Suc d)
  then have less: "len < n" by (simp add: word_less_nat_alt)
  have "strlen_loop m s (len + 1) = Some n"
    using Suc less by (intro Suc.hyps(1)) (auto simp: unat_Suc_less[OF less] word_less_Suc_le word_le_nat_alt word_less_nat_alt)
  with less Suc.prems show ?case by (subst strlen_loop.simps) auto
qed

lemma strlen_loop_NUL:
  assumes "strlen_loop m s len = Some r"
  shows "\<exists>a. m a = 0"
proof (rule strlen_loop.raw_induct[where P = "\<lambda>m s len r. \<exists>a. m a = 0", OF _ assms])
  fix f m s len r
  assume "\<And>m s len r. f m s len = Some r \<Longrightarrow> \<exists>a. m a = 0"
    and "(if m (s + len) \<noteq> 0 then f m s (len + 1) else Some len) = Some r"
  then show "\<exists>a. m a = 0" by (auto split: if_splits)
qed

lemma first_NUL:
  fixes m :: mem
  assumes "m a = 0"
  obtains n where "m (s + n) = 0" and "\<forall>k < n. m (s + k) \<noteq> 0"
proof -
  let ?P = "\<lambda>n. m (s + of_nat n) = 0"
  have P: "?P (unat (a - s))" using assms by simp
  define n where "n = (LEAST n. ?P n)"
  have n: "?P n" unfolding n_def using P by (rule LeastI)
  have le: "n \<le> unat (a - s)" unfolding n_def using P by (rule Least_le)
  have min: "\<And>k. k < n \<Longrightarrow> \<not> ?P k" unfolding n_def by (rule not_less_Least)
  have "unat (of_nat n :: u32) = n" using le unat_less_32[of "a - s"] by (simp add: unat_of_nat_32)
  then have "\<forall>k < of_nat n. m (s + k) \<noteq> 0"
    using min by (metis of_nat_unat ucast_id word_less_nat_alt)
  with n that show thesis by blast
qed

text \<open>\<open>strlen\<close> returns exactly the offset of the first NUL, and it fails to return
  exactly when there is no NUL in memory.\<close>

theorem strlen_iff:
  "(strlen m s = Some n \<longleftrightarrow> m (s + n) = 0 \<and> (\<forall>k < n. m (s + k) \<noteq> 0)) \<and>
   (strlen m s = None \<longleftrightarrow> (\<forall>a. m a \<noteq> 0))"
proof -
  have found: "strlen m s = Some k" if "m (s + k) = 0" "\<forall>i < k. m (s + i) \<noteq> 0" for k
    unfolding strlen_def using that by (intro strlen_loop_finds) auto
  have none: "\<exists>a. m a = 0" if "strlen m s = Some k" for k
    using that strlen_loop_NUL by (auto simp: strlen_def)
  have ex: "\<exists>k. strlen m s = Some k \<and> m (s + k) = 0 \<and> (\<forall>i < k. m (s + i) \<noteq> 0)" if "m a = 0" for a
    using first_NUL[of m a s, OF that] found by metis
  show ?thesis
  proof (intro conjI iffI)
    assume r: "strlen m s = Some n"
    with none ex have "\<exists>k. strlen m s = Some k \<and> m (s + k) = 0 \<and> (\<forall>i < k. m (s + i) \<noteq> 0)" by blast
    with r show "m (s + n) = 0" and "\<forall>k < n. m (s + k) \<noteq> 0" by auto
  next
    assume "strlen m s = None"
    with ex show "\<forall>a. m a \<noteq> 0" by fastforce
  next
    assume "\<forall>a. m a \<noteq> 0"
    with none show "strlen m s = None" by (cases "strlen m s") auto
  qed (use found in blast)
qed

theorem strlen_iff_witness:
  "strlen ((\<lambda>_. 65)(0x103 := 0)) 0x100 = Some 3"
proof -
  have "\<forall>k < (3 :: u32). ((\<lambda>_. 65 :: u8)(0x103 := 0)) (0x100 + k) \<noteq> 0"
    by (auto simp: add.commute[of 256] eq_diff_eq[symmetric])
  then show ?thesis using strlen_iff[of "(\<lambda>_. 65)(0x103 := 0)" "0x100" 3] by simp
qed

lemma strlen_cstr:
  assumes "cstr_at m p s" and "length s < 2 ^ 32"
  shows "strlen m p = Some (of_nat (length s))"
  unfolding strlen_def
proof (rule strlen_loop_finds)
  show "m (p + of_nat (length s)) = 0" using assms by (auto simp: cstr_at_def arr_def)
  show "\<forall>k. 0 \<le> k \<and> k < of_nat (length s) \<longrightarrow> m (p + k) \<noteq> 0"
  proof (intro allI impI)
    fix k :: u32 assume "0 \<le> k \<and> k < of_nat (length s)"
    then have "unat k < length s" using assms(2) by (simp add: word_less_nat_alt unat_of_nat_32)
    moreover from this assms have "arr m p (unat k) = s ! unat k" by (simp add: cstr_at_def)
    ultimately show "m (p + k) \<noteq> 0"
      using assms wf_cstring_nth[of s "unat k"] by (simp add: arr_def cstr_at_def)
  qed
qed simp

subsection \<open>strncmp\<close>

lemma sint_inj_u8: "sint (a :: u8) = sint b \<longleftrightarrow> a = b"
  by (metis of_int_sint scast_id)

lemma sint_diff_0: "sint (a :: u8) - sint b = 0 \<longleftrightarrow> a = b"
  using sint_inj_u8[of a b] by simp

lemma strncmp_loop_skip:
  "i \<le> k \<Longrightarrow> k \<le> n \<Longrightarrow> \<forall>j. i \<le> j \<and> j < k \<longrightarrow> s1 j = s2 j \<and> s1 j \<noteq> 0 \<Longrightarrow>
    strncmp_loop s1 s2 i n = strncmp_loop s1 s2 k n"
proof (induction "k - i" arbitrary: i)
  case (Suc d)
  have "\<forall>j. i + 1 \<le> j \<and> j < k \<longrightarrow> s1 j = s2 j \<and> s1 j \<noteq> 0"
    using Suc.prems(3) by (meson add_leD1)
  then have "strncmp_loop s1 s2 (i + 1) n = strncmp_loop s1 s2 k n"
    using Suc.hyps(2) Suc.prems(1,2) by (intro Suc.hyps(1)) auto
  moreover have "i < n" "s1 i = s2 i" "s1 i \<noteq> 0" using Suc.hyps(2) Suc.prems by auto
  ultimately show ?case by (subst strncmp_loop.simps) simp
qed simp

lemma strncmp_first:
  assumes "k \<le> unat n" and "\<forall>j < k. s1 j = s2 j \<and> s1 j \<noteq> 0"
    and "k < unat n \<longrightarrow> s1 k \<noteq> s2 k \<or> s1 k = 0"
  shows "strncmp s1 s2 n = (if k = unat n then 0 else sint (s1 k) - sint (s2 k))"
proof -
  have "strncmp s1 s2 n = strncmp_loop s1 s2 k (unat n)"
    unfolding strncmp_def using assms(1,2) by (intro strncmp_loop_skip) auto
  with assms show ?thesis by (subst (asm) strncmp_loop.simps) auto
qed

text \<open>\<open>strncmp\<close> is decided at the first position, among the first \<open>n\<close>, where the
  strings differ or end: there it returns the signed difference of the bytes, and it
  returns 0 when there is no such position.\<close>

theorem strncmp_first_difference:
  assumes "k \<le> unat n" and "\<forall>j < k. s1 j = s2 j \<and> s1 j \<noteq> 0"
    and "k < unat n \<longrightarrow> s1 k \<noteq> s2 k \<or> s1 k = 0"
  shows "strncmp s1 s2 n = (if k = unat n then 0 else sint (s1 k) - sint (s2 k))"
  using assms by (rule strncmp_first)

theorem strncmp_first_difference_witness:
  "strncmp (cs (lit ''shel'')) (cs (lit ''shell'')) 5 = - 108"
proof -
  have pre: "\<forall>j < 4. cs (lit ''shel'') j = cs (lit ''shell'') j \<and> cs (lit ''shel'') j \<noteq> 0"
  proof (intro allI impI)
    fix j :: nat assume "j < 4"
    then have "j = 0 \<or> j = 1 \<or> j = 2 \<or> j = 3" by arith
    then show "cs (lit ''shel'') j = cs (lit ''shell'') j \<and> cs (lit ''shel'') j \<noteq> 0"
      by (elim disjE) (simp_all add: cs_def lit_def byte_of_def)
  qed
  have "cs (lit ''shel'') 4 = 0" and "cs (lit ''shell'') 4 = 108"
    by (simp_all add: cs_def lit_def byte_of_def)
  then show ?thesis
    using strncmp_first_difference[OF _ pre, of 5] by simp
qed

lemma strncmp_eq_0_iff:
  assumes "\<forall>i < unat n. s1 i \<noteq> 0"
  shows "strncmp s1 s2 n = 0 \<longleftrightarrow> (\<forall>i < unat n. s1 i = s2 i)"
proof (cases "\<forall>i < unat n. s1 i = s2 i")
  case True
  with assms show ?thesis using strncmp_first[of "unat n" n s1 s2] by auto
next
  case False
  define k where "k = (LEAST k. k < unat n \<and> s1 k \<noteq> s2 k)"
  have k: "k < unat n \<and> s1 k \<noteq> s2 k" unfolding k_def using False by (metis (mono_tags, lifting) LeastI)
  have "s1 j = s2 j \<and> s1 j \<noteq> 0" if "j < k" for j
    using not_less_Least[of j "\<lambda>k. k < unat n \<and> s1 k \<noteq> s2 k"] that k assms unfolding k_def by auto
  then have min: "\<forall>j < k. s1 j = s2 j \<and> s1 j \<noteq> 0" by blast
  have "strncmp s1 s2 n = sint (s1 k) - sint (s2 k)"
    using strncmp_first[of k n s1 s2, OF _ min] k by auto
  with k False show ?thesis by (simp only: sint_diff_0)
qed

subsection \<open>strncpy\<close>

lemma strncpy_pad_blit:
  "i \<le> n \<Longrightarrow> strncpy_pad (blit m dest f (unat i)) dest i n = blit m dest (\<lambda>j. if j < unat i then f j else 0) (unat n)"
proof (induction "unat n - unat i" arbitrary: i f)
  case 0
  then have "i = n" by (simp add: word_le_nat_alt word_unat_eq_iff)
  then show ?case by (subst strncpy_pad.simps) (auto intro: blit_cong)
next
  case (Suc d)
  then have less: "i < n" by (simp add: word_less_nat_alt)
  have b: "(blit m dest f (unat i))(dest + i := 0) = blit m dest (f(unat i := 0)) (unat (i + 1))"
    using blit_upd[of "unat i" m dest f 0] unat_less_32[of i] by (simp add: unat_Suc_less[OF less])
  have "strncpy_pad (blit m dest (f(unat i := 0)) (unat (i + 1))) dest (i + 1) n =
    blit m dest (\<lambda>j. if j < unat (i + 1) then (f(unat i := 0)) j else 0) (unat n)"
    using Suc less by (intro Suc.hyps(1)) (auto simp: unat_Suc_less[OF less] word_less_Suc_le)
  also have "\<dots> = blit m dest (\<lambda>j. if j < unat i then f j else 0) (unat n)"
    by (rule blit_cong) (auto simp: unat_Suc_less[OF less])
  finally show ?case using less by (subst strncpy_pad.simps) (simp add: b)
qed

definition until_NUL :: "(nat \<Rightarrow> u8) \<Rightarrow> nat \<Rightarrow> u8" where
  "until_NUL f j = (if \<exists>k \<le> j. f k = 0 then 0 else f j)"

lemma strncpy_copy_blit:
  assumes "copy_ok dest src (unat n)"
  shows "i \<le> n \<Longrightarrow> \<forall>j < unat i. arr m src j \<noteq> 0 \<Longrightarrow>
    strncpy_copy (blit m dest (arr m src) (unat i)) dest src i n = blit m dest (until_NUL (arr m src)) (unat n)"
proof (induction "unat n - unat i" arbitrary: i)
  case 0
  then have "i = n" by (simp add: word_le_nat_alt word_unat_eq_iff)
  with 0 show ?case
    by (subst strncpy_copy.simps) (auto simp: strncpy_pad_blit until_NUL_def intro!: blit_cong)
next
  case (Suc d)
  then have less: "i < n" by (simp add: word_less_nat_alt)
  let ?m = "blit m dest (arr m src) (unat i)"
  have rd: "?m (src + i) = arr m src (unat i)"
    using arr_after_prefix[OF assms, of "unat i" "unat i" m] less unat_less_32[of n]
    by (simp add: word_less_nat_alt arr_def)
  show ?case
  proof (cases "arr m src (unat i) = 0")
    case True
    then show ?thesis using Suc.prems less rd
      by (subst strncpy_copy.simps) (auto simp: strncpy_pad_blit until_NUL_def not_less intro!: blit_cong)
  next
    case False
    have b: "?m(dest + i := arr m src (unat i)) = blit m dest (arr m src) (unat (i + 1))"
      using blit_upd[of "unat i" m dest "arr m src" "arr m src (unat i)"] unat_less_32[of i]
      by (simp add: unat_Suc_less[OF less])
    have "strncpy_copy (blit m dest (arr m src) (unat (i + 1))) dest src (i + 1) n = blit m dest (until_NUL (arr m src)) (unat n)"
      using Suc less False
      by (intro Suc.hyps(1)) (auto simp: unat_Suc_less[OF less] word_less_Suc_le less_Suc_eq)
    then show ?thesis using less False by (subst strncpy_copy.simps) (simp add: rd b del: fun_upd_apply)
  qed
qed

lemma strncpy_blit:
  "copy_ok dest src (unat n) \<Longrightarrow> strncpy m dest src n = blit m dest (until_NUL (arr m src)) (unat n)"
  using strncpy_copy_blit[of dest src n 0 m] by (simp add: strncpy_def)

text \<open>\<open>strncpy\<close> always writes exactly \<open>n\<close> bytes: the source up to its first NUL,
  then NULs.\<close>

theorem strncpy_correct:
  assumes "copy_ok dest src (unat n)"
  shows "strncpy m dest src n = blit m dest (until_NUL (arr m src)) (unat n)"
  using assms by (rule strncpy_blit)

theorem strncpy_correct_witness:
  "copy_ok 0x2000 0x1000 (unat (4 :: u32)) \<and>
   strncpy ((\<lambda>_. 65)(0x1001 := 0)) 0x2000 0x1000 4 0x2000 = 65 \<and>
   strncpy ((\<lambda>_. 65)(0x1001 := 0)) 0x2000 0x1000 4 0x2003 = 0"
proof -
  let ?m = "(\<lambda>_. 65)(0x1001 := 0) :: mem"
  have ok: "copy_ok 0x2000 0x1000 (unat (4 :: u32))" by (simp add: copy_ok_def)
  have "arr ?m 0x1000 1 = 0" by (simp add: arr_def)
  then have "until_NUL (arr ?m 0x1000) 3 = 0"
    unfolding until_NUL_def by (metis one_le_numeral)
  moreover have "until_NUL (arr ?m 0x1000) 0 = 65" by (simp add: until_NUL_def arr_def)
  ultimately show ?thesis
    using ok strncpy_correct[OF ok, of ?m] by (simp add: blit_def del: fun_upd_apply)
qed

subsection \<open>strrev and itoa\<close>

text \<open>Writing a list of bytes.\<close>

definition wr :: "mem \<Rightarrow> u32 \<Rightarrow> u8 list \<Rightarrow> mem" where
  "wr m s xs = blit m s (\<lambda>i. xs ! i) (length xs)"

lemma wr_append:
  "length xs + length ys \<le> 2 ^ 32 \<Longrightarrow> length xs < 2 ^ 32 \<Longrightarrow>
    wr (wr m s xs) (s + of_nat (length xs)) ys = wr m s (xs @ ys)"
  unfolding wr_def by (subst blit_blit) (auto intro!: blit_cong simp: nth_append)

lemma wr_single: "wr m s [b] = m(s := b)"
  by (simp add: wr_def upd_blit) (auto intro: blit_cong)

lemma wr_Cons: "length ys < 2 ^ 32 \<Longrightarrow> wr (m(s := b)) (s + 1) ys = wr m s (b # ys)"
  using wr_append[of "[b]" ys m s] by (simp add: wr_single)

lemma arr_wr:
  "length xs \<le> 2 ^ 32 \<Longrightarrow> j < 2 ^ 32 \<Longrightarrow> arr (wr m s xs) s j = (if j < length xs then xs ! j else arr m s j)"
  by (simp add: wr_def arr_def blit_def unat_of_nat_32)

lemma mem_eqI: "(\<And>j. j < 2 ^ 32 \<Longrightarrow> arr m s j = arr m' s j) \<Longrightarrow> m = m'"
proof
  fix a
  assume h: "\<And>j. j < 2 ^ 32 \<Longrightarrow> arr m s j = arr m' s j"
  show "m a = m' a" using h[of "unat (a - s)"] unat_less_32[of "a - s"] by (simp add: arr_def)
qed

lemma arr_upd: "i < 2 ^ 32 \<Longrightarrow> j < 2 ^ 32 \<Longrightarrow> arr (m(s + of_nat i := b)) s j = (if j = i then b else arr m s j)"
  using unat_of_nat_32[of i] unat_of_nat_32[of j] by (auto simp: arr_def)

lemma strrev_loop_arr:
  "0 \<le> b \<Longrightarrow> e < 2 ^ 32 \<Longrightarrow> j < 2 ^ 32 \<Longrightarrow>
    arr (strrev_loop m s b e) s j = (if b \<le> int j \<and> int j \<le> e then arr m s (nat (b + e - int j)) else arr m s j)"
proof (induction m s b e rule: strrev_loop.induct)
  case (1 m s b e)
  show ?case
  proof (cases "b < e")
    case True
    obtain b' e' where be: "b = int b'" "e = int e'" using "1.prems"(1) True
      by (metis less_le_not_le linear order_trans zero_le_imp_eq_int)
    let ?m = "m(s + of_int e := m (s + of_int b), s + of_int b := m (s + of_int e))"
    have swap: "arr ?m s i = (if i = b' then arr m s e' else if i = e' then arr m s b' else arr m s i)"
      if "i < 2 ^ 32" for i
      using that "1.prems"(2) True by (simp add: be arr_upd) (simp add: arr_def)
    have "arr (strrev_loop m s b e) s j = arr (strrev_loop ?m s (b + 1) (e - 1)) s j"
      using True by (subst strrev_loop.simps) (simp add: Let_def)
    also have "\<dots> = (if b + 1 \<le> int j \<and> int j \<le> e - 1 then arr ?m s (nat (b + e - int j)) else arr ?m s j)"
      using "1.IH"[OF True refl refl refl] "1.prems" True by (simp add: Let_def del: fun_upd_apply)
    also have "\<dots> = (if b \<le> int j \<and> int j \<le> e then arr m s (nat (b + e - int j)) else arr m s j)"
      using "1.prems"(2,3) True swap[of j] swap[of "nat (b + e - int j)"]
      by (auto simp: be simp del: fun_upd_apply)
    finally show ?thesis .
  next
    case False
    then have "b \<le> int j \<and> int j \<le> e \<Longrightarrow> nat (b + e - int j) = j" by arith
    with False show ?thesis by (subst strrev_loop.simps) auto
  qed
qed

lemma sint_dec: "n \<le> 2 ^ 31 \<Longrightarrow> sint (of_nat n - 1 :: u32) = int n - 1"
proof -
  assume n: "n \<le> 2 ^ 31"
  have "(of_nat n - 1 :: u32) = word_of_int (int n - 1)" by simp
  then have "sint (of_nat n - 1 :: u32) = signed_take_bit 31 (int n - 1)" by (simp only: sint_sbintrunc') simp
  also have "\<dots> = int n - 1" using n by (intro signed_take_bit_int_eq_self) auto
  finally show ?thesis .
qed

lemma strrev_wr:
  assumes "cstr_at m p s" and "length s \<le> 2 ^ 31"
  shows "strrev m p = Some (wr m p (rev s))"
proof -
  let ?e = "int (length s) - 1"
  have "strrev_loop m p 0 ?e = wr m p (rev s)"
  proof (rule mem_eqI[of _ p])
    fix j :: nat assume j: "j < 2 ^ 32"
    have "arr (strrev_loop m p 0 ?e) p j = (if j < length s then arr m p (nat (?e - int j)) else arr m p j)"
      using assms(2) j by (subst strrev_loop_arr) auto
    also have "\<dots> = (if j < length s then rev s ! j else arr m p j)"
      using assms(1) by (auto simp: cstr_at_def rev_nth nat_diff_distrib diff_diff_add
          intro!: arg_cong[of _ _ "(!) s"])
    finally show "arr (strrev_loop m p 0 ?e) p j = arr (wr m p (rev s)) p j"
      using assms(2) j by (simp add: arr_wr)
  qed
  then show ?thesis
    using strlen_cstr[OF assms(1)] assms(2) by (simp add: strrev_def sint_dec)
qed

text \<open>\<open>strrev\<close> reverses a C string in place and changes no other byte, the terminating
  NUL included.\<close>

theorem strrev_correct:
  assumes "cstr_at m p s" and "length s \<le> 2 ^ 31"
  shows "strrev m p = Some (wr m p (rev s))"
  using assms by (rule strrev_wr)

theorem strrev_correct_witness:
  "cstr_at ((\<lambda>_. 0)(100 := 65, 101 := 66)) 100 [65, 66] \<and>
   map_option (\<lambda>m. (m 100, m 101, m 102)) (strrev ((\<lambda>_. 0)(100 := 65, 101 := 66)) 100) = Some (66, 65, 0)"
proof -
  have c: "cstr_at ((\<lambda>_. 0)(100 := 65, 101 := 66)) 100 [65, 66]"
    unfolding cstr_at_def
  proof (intro conjI allI impI)
    fix i assume "i \<le> length [65 :: u8, 66]"
    then have "i = 0 \<or> i = 1 \<or> i = 2" by auto
    then show "arr ((\<lambda>_. 0)(100 := 65, 101 := 66)) 100 i = cs [65, 66] i"
      by (elim disjE) (simp_all add: arr_def cs_def)
  qed (simp add: wf_cstring_def)
  show ?thesis using c strrev_correct[OF c] by (simp add: wr_def blit_def)
qed

text \<open>The digit table \<open>lookup\<close>, its terminating NUL included.\<close>

definition lookup :: "u8 list" where
  "lookup = lit ''0123456789ABCDEFGHIJKLMNOPQRSTUVWXYZ'' @ [0]"

text \<open>The digit loop of \<open>itoa\<close>: it returns the memory and \<open>newbuf\<close>.  A radix of 0 is a
  division fault and an index beyond the table is undefined: both have no result.\<close>

partial_function (option) itoa_loop :: "mem \<Rightarrow> u32 \<Rightarrow> u32 \<Rightarrow> i32 \<Rightarrow> (mem \<times> u32) option" where
  "itoa_loop m newbuf newval radix =
     (if newval > 0
      then if radix = 0 then None
           else let i = newval mod radix
                in if unat i < length lookup
                   then itoa_loop (m(newbuf := lookup ! unat i)) (newbuf + 1) (newval div radix) radix
                   else None
      else Some (m, newbuf))"

definition itoa :: "mem \<Rightarrow> u32 \<Rightarrow> u32 \<Rightarrow> i32 \<Rightarrow> mem option" where
  "itoa m val buf radix =
     (if val = 0 then Some (m(buf := byte_of (CHR ''0''), buf + 1 := 0))
      else case itoa_loop m buf val radix of None \<Rightarrow> None
        | Some (m, newbuf) \<Rightarrow> strrev (m(newbuf := 0)) buf)"

text \<open>Reference: the digits of a number, most significant first, and their value.\<close>

fun digs :: "nat \<Rightarrow> nat \<Rightarrow> nat list" where
  "digs r n = (if n = 0 \<or> r < 2 then [] else digs r (n div r) @ [n mod r])"

definition numeral_str :: "nat \<Rightarrow> nat \<Rightarrow> cstring" where
  "numeral_str r n = (if n = 0 then [lookup ! 0] else map ((!) lookup) (digs r n))"

definition digit_value :: "u8 \<Rightarrow> nat" where
  "digit_value c = (if unat c < 65 then unat c - 48 else unat c - 55)"

definition str_value :: "nat \<Rightarrow> cstring \<Rightarrow> nat" where
  "str_value r s = foldl (\<lambda>a c. a * r + digit_value c) 0 s"

declare digs.simps [simp del]

lemma lookup_length [simp]: "length lookup = 37"
  by (simp add: lookup_def lit_def)

lemma all_nat_36: "(\<forall>d < 36. P d) \<longleftrightarrow> (\<forall>d \<in> set [0..<36]. P d)" for P :: "nat \<Rightarrow> bool"
  by auto

lemma lookup_digit: "d < 36 \<Longrightarrow> lookup ! d \<noteq> 0 \<and> digit_value (lookup ! d) = d"
proof -
  have "\<forall>d < 36. lookup ! d \<noteq> 0 \<and> digit_value (lookup ! d) = d"
    unfolding all_nat_36 by (simp add: upt_rec lookup_def lit_def byte_of_def digit_value_def)
  then show "d < 36 \<Longrightarrow> lookup ! d \<noteq> 0 \<and> digit_value (lookup ! d) = d" by blast
qed

lemma digs_bound: "d \<in> set (digs r n) \<Longrightarrow> d < r"
  by (induction r n rule: digs.induct) (subst (asm) (2) digs.simps, auto split: if_splits)

lemma digs_length: "2 \<le> r \<Longrightarrow> n < 2 ^ k \<Longrightarrow> length (digs r n) \<le> k"
proof (induction r n arbitrary: k rule: digs.induct)
  case (1 r n)
  show ?case
  proof (cases "n = 0")
    case False
    then obtain k' where k: "k = Suc k'" using "1.prems"(2) by (cases k) auto
    have "n div r \<le> n div 2" using "1.prems"(1) by (simp add: div_le_mono2)
    also have "\<dots> < 2 ^ k'" using "1.prems"(2) by (simp add: k div_less_iff_less_mult)
    finally show ?thesis using "1.IH" False "1.prems"(1) by (subst digs.simps) (simp add: k)
  qed (simp add: digs.simps)
qed

lemma digs_value:
  "2 \<le> r \<Longrightarrow> foldl (\<lambda>a d. a * r + d) 0 (digs r n) = n"
  by (induction r n rule: digs.induct) (subst digs.simps, auto)

lemma str_value_digits:
  "\<forall>d \<in> set ds. d < 36 \<Longrightarrow> str_value r (map ((!) lookup) ds) = foldl (\<lambda>a d. a * r + d) 0 ds"
  unfolding str_value_def by (induction ds rule: rev_induct) (auto simp: lookup_digit)

lemma numeral_str_ok:
  assumes "2 \<le> r" and "r \<le> 36"
  shows "wf_cstring (numeral_str r n)" and "str_value r (numeral_str r n) = n"
proof -
  have d: "\<forall>d \<in> set (digs r n). d < 36" using digs_bound[of _ r n] assms(2) by fastforce
  then show "wf_cstring (numeral_str r n)"
    using lookup_digit by (fastforce simp: wf_cstring_def numeral_str_def)
  show "str_value r (numeral_str r n) = n"
    using d digs_value[OF assms(1), of n] str_value_digits[OF d, of r] lookup_digit[of 0]
    by (simp add: numeral_str_def str_value_def)
qed

lemma numeral_str_length: "2 \<le> r \<Longrightarrow> length (numeral_str r (unat (v :: u32))) \<le> 32"
  using digs_length[of r "unat v" 32] unat_less_32[of v] by (auto simp: numeral_str_def)

lemma itoa_loop_digs:
  assumes "2 \<le> unat r" and "unat r \<le> 36"
  shows "length (digs (unat r) (unat v)) < 2 ^ 32 \<Longrightarrow> itoa_loop m b v r =
    (let ds = rev (map ((!) lookup) (digs (unat r) (unat v))) in Some (wr m b ds, b + of_nat (length ds)))"
proof (induction "unat v" arbitrary: v m b rule: less_induct)
  case less
  have r0: "r \<noteq> 0" using assms(1) by auto
  show ?case
  proof (cases "v = 0")
    case False
    then have v: "unat v \<noteq> 0" by (simp add: unat_eq_0)
    let ?ds = "rev (map ((!) lookup) (digs (unat r) (unat (v div r))))"
    have "unat v mod unat r < unat r" using assms(1) by (intro mod_less_divisor) simp
    then have i: "unat (v mod r) < 37" using assms(2) by (simp add: unat_mod)
    have lt: "unat (v div r) < unat v" using assms(1) v by (simp add: unat_div)
    have u: "digs (unat r) (unat v) = digs (unat r) (unat (v div r)) @ [unat (v mod r)]"
      using v assms(1) by (subst digs.simps) (simp add: unat_div unat_mod)
    have "itoa_loop m b v r = itoa_loop (m(b := lookup ! unat (v mod r))) (b + 1) (v div r) r"
      using False r0 i by (subst itoa_loop.simps) (simp add: Let_def word_gt_0)
    also have "\<dots> = Some (wr (m(b := lookup ! unat (v mod r))) (b + 1) ?ds, b + 1 + of_nat (length ?ds))"
      using less.hyps[OF lt] less.prems by (simp add: u Let_def del: fun_upd_apply)
    also have "\<dots> = Some (wr m b (lookup ! unat (v mod r) # ?ds), b + of_nat (Suc (length ?ds)))"
      using less.prems by (subst wr_Cons) (simp_all add: u algebra_simps)
    finally show ?thesis by (simp add: u Let_def)
  qed (simp add: itoa_loop.simps digs.simps wr_def)
qed

lemma cstr_at_wr: "wf_cstring s \<Longrightarrow> length s < 2 ^ 32 \<Longrightarrow> cstr_at (wr m p (s @ [0])) p s"
  by (auto simp: cstr_at_def arr_wr nth_append cs_def)

lemma wr_wr: "length xs \<le> length ys \<Longrightarrow> wr (wr m p ys) p xs = wr m p (xs @ drop (length xs) ys)"
  by (auto simp: wr_def blit_def fun_eq_iff nth_append)

lemma itoa_wr:
  assumes "2 \<le> unat r" and "unat r \<le> 36"
  shows "itoa m v b r = Some (wr m b (numeral_str (unat r) (unat v) @ [0]))"
proof (cases "v = 0")
  case True
  have "lookup ! 0 = 48" by (simp add: lookup_def lit_def byte_of_def)
  then show ?thesis using True wr_append[of "[48]" "[0]" m b]
    by (simp add: itoa_def numeral_str_def wr_single byte_of_def)
next
  case False
  let ?s = "numeral_str (unat r) (unat v)"
  have l: "length ?s \<le> 32" using numeral_str_length assms(1) by blast
  have ds: "?s = map ((!) lookup) (digs (unat r) (unat v))"
    using False by (simp add: numeral_str_def unat_eq_0)
  have "itoa_loop m b v r = Some (wr m b (rev ?s), b + of_nat (length (rev ?s)))"
    using itoa_loop_digs[OF assms, of v m b] l by (simp add: ds Let_def rev_map)
  then have "itoa m v b r = strrev (wr m b (rev ?s @ [0])) b"
    using False l wr_append[of "rev ?s" "[0]" m b] by (simp add: itoa_def wr_single)
  also have "\<dots> = Some (wr (wr m b (rev ?s @ [0])) b (rev (rev ?s)))"
    using l numeral_str_ok(1)[OF assms, of "unat v"]
    by (intro strrev_wr cstr_at_wr) (simp_all add: wf_cstring_def)
  finally show ?thesis by (simp add: wr_wr)
qed

text \<open>C36: for every radix from 2 to 36 \<open>itoa\<close> returns, writes a C string of at most 32
  characters and its NUL at \<open>buf\<close> and nothing else, and reading the string back in that
  radix gives the number.\<close>

theorem itoa_roundtrip:
  assumes "2 \<le> unat radix" and "unat radix \<le> 36"
  shows "\<exists>s. itoa m val buf radix = Some (wr m buf (s @ [0])) \<and> wf_cstring s \<and>
    length s \<le> 32 \<and> str_value (unat radix) s = unat val"
  using itoa_wr[OF assms, of m val buf] numeral_str_ok[OF assms, of "unat val"]
    numeral_str_length[OF assms(1), of val] by blast

theorem itoa_roundtrip_witness:
  "2 \<le> unat (16 :: u32) \<and> unat (16 :: u32) \<le> 36 \<and>
   (\<exists>s. itoa (\<lambda>_. 0) 0xBEEF 0x100 16 = Some (wr (\<lambda>_. 0) 0x100 (s @ [0])) \<and> wf_cstring s \<and>
    length s \<le> 32 \<and> str_value 16 s = 0xBEEF)"
  using itoa_roundtrip[of 16 "\<lambda>_. 0" "0xBEEF" "0x100"] by simp

subsection \<open>strcpy\<close>

lemma strcpy_loop_blit:
  assumes "cstr_at m src s" and "copy_ok dest src (Suc (length s))" and "Suc (length s) \<le> 2 ^ 32"
  shows "i \<le> length s \<Longrightarrow> strcpy_loop (blit m dest (arr m src) i) dest src (of_nat i) =
    Some (blit m dest (arr m src) (Suc (length s)))"
proof (induction "length s - i" arbitrary: i)
  case 0
  then have i: "i = length s" by simp
  have rd: "blit m dest (arr m src) i (src + of_nat i) = 0"
    using arr_after_prefix[OF assms(2), of i i m] assms(1,3) i by (simp add: arr_def cstr_at_def)
  have "arr m src i = 0" using assms(1) i by (simp add: cstr_at_def)
  then have "(blit m dest (arr m src) i)(dest + of_nat i := 0) = blit m dest (arr m src) (Suc i)"
    using blit_upd[of i m dest "arr m src" 0] assms(3) i
    by (simp add: fun_upd_idem del: fun_upd_apply)
  with rd i show ?case by (subst strcpy_loop.simps) (simp del: fun_upd_apply)
next
  case (Suc d)
  then have i: "i < length s" by simp
  have rd: "blit m dest (arr m src) i (src + of_nat i) = arr m src i"
    using arr_after_prefix[OF assms(2), of i i m] assms(3) i by (simp add: arr_def)
  have nz: "arr m src i \<noteq> 0" using assms(1) i wf_cstring_nth by (simp add: cstr_at_def)
  have b: "(blit m dest (arr m src) i)(dest + of_nat i := arr m src i) = blit m dest (arr m src) (Suc i)"
    using blit_upd[of i m dest "arr m src" "arr m src i"] assms(3) i by (simp del: fun_upd_apply)
  have "strcpy_loop (blit m dest (arr m src) (Suc i)) dest src (of_nat (Suc i)) =
    Some (blit m dest (arr m src) (Suc (length s)))"
    using Suc by (intro Suc.hyps(1)) auto
  then show ?case using nz
    by (subst strcpy_loop.simps) (simp add: rd b add.commute[of 1] del: fun_upd_apply)
qed

text \<open>\<open>strcpy\<close> returns for every source that is a C string and copies it with its NUL,
  when the destination does not start inside it.\<close>

theorem strcpy_correct:
  assumes "cstr_at m src s" and "copy_ok dest src (Suc (length s))" and "Suc (length s) \<le> 2 ^ 32"
  shows "strcpy m dest src = Some (wr m dest (s @ [0]))"
proof -
  have "strcpy m dest src = Some (blit m dest (arr m src) (Suc (length s)))"
    using strcpy_loop_blit[OF assms, of 0] by (simp add: strcpy_def)
  also have "blit m dest (arr m src) (Suc (length s)) = wr m dest (s @ [0])"
    using assms(1) by (auto simp: wr_def cstr_at_def cs_def nth_append less_Suc_eq intro!: blit_cong)
  finally show ?thesis .
qed

theorem strcpy_correct_witness:
  "cstr_at ((\<lambda>_. 0)(100 := 65)) 100 [65] \<and> copy_ok 200 100 (Suc (length [65 :: u8])) \<and>
   strcpy ((\<lambda>_. 0)(100 := 65)) 200 100 = Some (wr ((\<lambda>_. 0)(100 := 65)) 200 [65, 0])"
proof -
  have c: "cstr_at ((\<lambda>_. 0)(100 := 65)) 100 [65]"
    by (auto simp: cstr_at_def arr_def cs_def wf_cstring_def le_Suc_eq)
  have ok: "copy_ok 200 100 (Suc (length [65 :: u8]))" by (simp add: copy_ok_def)
  show ?thesis using c ok strcpy_correct[OF c ok] by simp
qed

end
