(* ===== verification/Filesys.thy ===== *)
theory Filesys
  imports CMem
begin

text \<open>
  The read-only file system of \<^verbatim>\<open>student-distrib/filesys.c\<close>.

  The boot image and the kernel's copy of the boot block lie in memory; every field of
  \<open>bootblock_t\<close>, \<open>dentry_t\<close> and \<open>inode_t\<close> is read at the address the C struct
  layout gives it, so that reads past the end of an array (for instance
  \<open>name[32]\<close>, which is the first byte of \<open>type\<close>) return what the code sees.
  Pointers are 32-bit addresses and 0 is \<open>NULL\<close>; functions that write through a pointer
  return the memory.  A \<open>dentry_t *\<close> out-parameter always points to a local of the
  caller, so it is the (optional) struct itself.

  The main results: lookup by name finds the first directory entry with that name (and which
  32-character names it cannot find); \<open>read_data\<close> delivers exactly the requested
  part of the file, or fails exactly when a block number it needs is out of range;
  sequential reads through a descriptor, in any chunk sizes, deliver the file (through the
  locale \<open>stream_source\<close>); the directory enumeration; \<open>fs_copy\<close> loads whole files.
\<close>

section \<open>Data (filesys.h)\<close>

abbreviation MAX_FNAME_LEN :: nat where "MAX_FNAME_LEN \<equiv> 32"
abbreviation MAX_DENTRIES :: u32 where "MAX_DENTRIES \<equiv> 63"
abbreviation FS_BLOCK_SIZE :: u32 where "FS_BLOCK_SIZE \<equiv> 4096"

record dentry_t =
  d_name :: "u8 list"
  d_type :: i32
  d_inode :: u32

record fileflags_t =
  in_use :: bool
  read_only :: bool
  write_only :: bool

text \<open>The four tables of file operations (syscalls.c), as tags.\<close>

datatype fileops = Fs_jumptable | Stdin_jumptable | Stdout_jumptable | Rtc_jumptable

record file_t =
  jumptable :: fileops
  f_inode :: u32
  position :: u32
  filetype :: u32
  flags :: fileflags_t

text \<open>The static variables of filesys.c; \<open>bootblock\<close> is the address of the kernel's copy.\<close>

record filesys =
  FILESYS_START :: u32
  FILESYS_END :: u32
  bootblock :: u32
  inodes :: u32
  FS_DATA_START :: u32
  dirs_read :: u32

subsection \<open>Struct fields as memory reads\<close>

definition n_dentries :: "filesys \<Rightarrow> mem \<Rightarrow> u32" where
  "n_dentries fs m = rd32 m (bootblock fs)"

definition n_inodes :: "filesys \<Rightarrow> mem \<Rightarrow> u32" where
  "n_inodes fs m = rd32 m (bootblock fs + 4)"

definition n_datablocks :: "filesys \<Rightarrow> mem \<Rightarrow> u32" where
  "n_datablocks fs m = rd32 m (bootblock fs + 8)"

definition dentry_addr :: "filesys \<Rightarrow> u32 \<Rightarrow> u32" where
  "dentry_addr fs i = bootblock fs + 64 + 64 * i"

definition dentries :: "filesys \<Rightarrow> mem \<Rightarrow> u32 \<Rightarrow> dentry_t" where
  "dentries fs m i =
     \<lparr> d_name = map (arr m (dentry_addr fs i)) [0..<MAX_FNAME_LEN],
       d_type = rd32 m (dentry_addr fs i + 32),
       d_inode = rd32 m (dentry_addr fs i + 36) \<rparr>"

definition inode_length :: "filesys \<Rightarrow> mem \<Rightarrow> u32 \<Rightarrow> u32" where
  "inode_length fs m inode = rd32 m (inodes fs + inode * FS_BLOCK_SIZE)"

definition datablocks :: "filesys \<Rightarrow> mem \<Rightarrow> u32 \<Rightarrow> u32 \<Rightarrow> u32" where
  "datablocks fs m inode j = rd32 m (inodes fs + inode * FS_BLOCK_SIZE + 4 + 4 * j)"

section \<open>Operations (filesys.c)\<close>

text \<open>\<open>sizeof(bootblock_t)\<close> is 64 + 63 * 64.\<close>

definition fs_init :: "filesys \<Rightarrow> mem \<Rightarrow> u32 \<Rightarrow> u32 \<Rightarrow> filesys \<times> mem \<times> i32" where
  "fs_init fs m start en =
     (let fs = fs\<lparr> FILESYS_START := start, FILESYS_END := en \<rparr>;
          m = blit m (bootblock fs) (arr m start) 4096;
          fs = fs\<lparr> inodes := start + FS_BLOCK_SIZE \<rparr>;
          fs = fs\<lparr> FS_DATA_START := start + FS_BLOCK_SIZE + n_inodes fs m * FS_BLOCK_SIZE \<rparr>
      in (fs, m, 0))"

text \<open>The loop that measures a name: \<open>while (len <= MAX_FNAME_LEN && name[len] != 0) len++\<close>.\<close>

function name_len :: "(nat \<Rightarrow> u8) \<Rightarrow> nat \<Rightarrow> nat" where
  "name_len name len = (if len \<le> MAX_FNAME_LEN \<and> name len \<noteq> 0 then name_len name (len + 1) else len)"
  by pat_completeness auto
termination
  by (relation "measure (\<lambda>(name, len). 33 - len)") auto

function dentry_search :: "filesys \<Rightarrow> mem \<Rightarrow> u32 \<Rightarrow> nat \<Rightarrow> u32 \<Rightarrow> dentry_t \<Rightarrow> i32 \<times> dentry_t" where
  "dentry_search fs m fname len i dentry =
     (if i < n_dentries fs m \<and> i < MAX_DENTRIES
      then let len2 = name_len (arr m (dentry_addr fs i)) 0
           in if len2 = len \<and> strncmp (arr m fname) (arr m (dentry_addr fs i)) (of_nat len) = 0
              then (0, dentries fs m i)
              else dentry_search fs m fname len (i + 1) dentry
      else (-1, dentry))"
  by pat_completeness auto
termination
  by (relation "measure (\<lambda>(fs, m, fname, len, i, d). 63 - unat i)")
    (auto simp: unat_Suc_less word_less_nat_alt)

definition read_dentry_by_name ::
  "filesys \<Rightarrow> mem \<Rightarrow> u32 \<Rightarrow> dentry_t option \<Rightarrow> i32 \<times> dentry_t option" where
  "read_dentry_by_name fs m fname dentry =
     (case dentry of None \<Rightarrow> (-1, None)
      | Some d \<Rightarrow>
          if fname = 0 then (-1, dentry)
          else map_prod id Some (dentry_search fs m fname (name_len (arr m fname) 0) 0 d))"

definition read_dentry_by_index ::
  "filesys \<Rightarrow> mem \<Rightarrow> u32 \<Rightarrow> dentry_t option \<Rightarrow> i32 \<times> dentry_t option" where
  "read_dentry_by_index fs m index dentry =
     (if index \<ge> MAX_DENTRIES \<or> index \<ge> n_dentries fs m \<or> index < 0 \<or> dentry = None
      then (-1, dentry) else (0, Some (dentries fs m index)))"

text \<open>The copying loop of \<open>read_data\<close> with its local variables.\<close>

function read_data_loop ::
  "filesys \<Rightarrow> mem \<Rightarrow> u32 \<Rightarrow> u32 \<Rightarrow> u32 \<Rightarrow> u32 \<Rightarrow> u32 \<Rightarrow> u32 \<Rightarrow> u32 \<Rightarrow> u32 \<Rightarrow> mem \<times> i32" where
  "read_data_loop fs m inode offset buf len bytes_read file_data_block block_offset curr_data_loc =
     (if bytes_read < len
      then if offset + bytes_read \<ge> inode_length fs m inode then (m, bytes_read)
           else if block_offset \<ge> FS_BLOCK_SIZE
           then let file_data_block = file_data_block + 1;
                    fs_data_block = datablocks fs m inode file_data_block;
                    block_offset = 0
                in if fs_data_block \<ge> n_datablocks fs m then (m, -1)
                   else let curr_data_loc = FS_DATA_START fs + fs_data_block * FS_BLOCK_SIZE + block_offset
                        in read_data_loop fs (m(buf + bytes_read := m curr_data_loc)) inode offset buf len
                             (bytes_read + 1) file_data_block (block_offset + 1) (curr_data_loc + 1)
           else read_data_loop fs (m(buf + bytes_read := m curr_data_loc)) inode offset buf len
                  (bytes_read + 1) file_data_block (block_offset + 1) (curr_data_loc + 1)
      else (m, bytes_read))"
  by pat_completeness auto
termination
  by (relation "measure (\<lambda>(fs, m, inode, offset, buf, len, bytes_read, r). unat len - unat bytes_read)")
    (auto simp: unat_Suc_less word_less_nat_alt)

definition read_data :: "filesys \<Rightarrow> mem \<Rightarrow> u32 \<Rightarrow> u32 \<Rightarrow> u32 \<Rightarrow> u32 \<Rightarrow> mem \<times> i32" where
  "read_data fs m inode offset buf len =
     (let file_data_block = offset div FS_BLOCK_SIZE;
          block_offset = offset mod FS_BLOCK_SIZE;
          fs_data_block = datablocks fs m inode file_data_block;
          curr_data_loc = FS_DATA_START fs + fs_data_block * FS_BLOCK_SIZE + block_offset
      in if buf = 0 then (m, -1)
         else if inode \<ge> n_inodes fs m then (m, -1)
         else if offset \<ge> inode_length fs m inode then (m, 0)
         else if fs_data_block \<ge> n_datablocks fs m then (m, -1)
         else read_data_loop fs m inode offset buf len 0 file_data_block block_offset curr_data_loc)"

text \<open>An uninitialised \<open>dentry_t\<close> local; its contents are never read.\<close>

definition local_dentry :: dentry_t where
  "local_dentry = \<lparr> d_name = [], d_type = 0, d_inode = 0 \<rparr>"

text \<open>\<open>fs_copy\<close>: \<open>buf\<close> is the address of its variable-length array on the kernel stack.\<close>

function fs_copy_loop :: "mem \<Rightarrow> u32 \<Rightarrow> u32 \<Rightarrow> int \<Rightarrow> int \<Rightarrow> mem" where
  "fs_copy_loop m mem_location buf i bytes_read =
     (if i < bytes_read
      then fs_copy_loop (m(mem_location + of_int i := m (buf + of_int i))) mem_location buf (i + 1) bytes_read
      else m)"
  by pat_completeness auto
termination
  by (relation "measure (\<lambda>(m, l, b, i, n). nat (n - i))") auto

definition fs_copy :: "filesys \<Rightarrow> mem \<Rightarrow> u32 \<Rightarrow> u32 \<Rightarrow> u32 \<Rightarrow> mem \<times> i32" where
  "fs_copy fs m buf fname mem_location =
     (if fname = 0 \<or> mem_location = 0 then (m, -1)
      else case read_dentry_by_name fs m fname (Some local_dentry) of
        (r, d) \<Rightarrow>
          if r \<noteq> 0 then (m, -1)
          else let inode = d_inode (the d);
                   (m, bytes_read) = read_data fs m inode 0 buf (inode_length fs m inode)
               in if bytes_read = -1 then (m, -1)
                  else (fs_copy_loop m mem_location buf 0 (sint bytes_read), 0))"

definition fs_open :: "filesys \<Rightarrow> i32" where
  "fs_open fs = 0"

definition fs_close :: "filesys \<Rightarrow> file_t option \<Rightarrow> filesys \<times> i32" where
  "fs_close fs f =
     (case f of None \<Rightarrow> (fs, -1)
      | Some f \<Rightarrow> ((if filetype f = 1 then fs\<lparr> dirs_read := 0 \<rparr> else fs), 0))"

definition file_read :: "filesys \<Rightarrow> mem \<Rightarrow> file_t \<Rightarrow> u32 \<Rightarrow> i32 \<Rightarrow> mem \<times> file_t \<times> i32" where
  "file_read fs m file buf nbytes =
     (let (m, bytes_read) = read_data fs m (f_inode file) (position file) buf nbytes
      in if bytes_read \<noteq> -1 then (m, file\<lparr> position := position file + bytes_read \<rparr>, bytes_read)
         else (m, file, bytes_read))"

text \<open>\<open>dir_read\<close> ignores \<open>nbytes\<close>; \<open>dirs_read\<close> is not compared with
  \<open>MAX_DENTRIES\<close>.\<close>

definition dir_read :: "filesys \<Rightarrow> mem \<Rightarrow> file_t \<Rightarrow> u32 \<Rightarrow> i32 \<Rightarrow> filesys \<times> mem \<times> i32" where
  "dir_read fs m file buf nbytes =
     (if dirs_read fs \<ge> n_dentries fs m then (fs, m, 0)
      else let name = dentry_addr fs (dirs_read fs);
               len = name_len (arr m name) 0;
               m = strncpy m buf name (of_nat len);
               (m, len) = (if len < MAX_FNAME_LEN then (m(buf + of_nat len := 0), len + 1) else (m, len))
           in (fs\<lparr> dirs_read := dirs_read fs + 1 \<rparr>, m, of_nat len))"

definition fs_read ::
  "filesys \<Rightarrow> mem \<Rightarrow> file_t option \<Rightarrow> u32 \<Rightarrow> i32 \<Rightarrow> filesys \<times> mem \<times> file_t option \<times> i32" where
  "fs_read fs m file buf nbytes =
     (case file of None \<Rightarrow> (fs, m, None, -1)
      | Some f \<Rightarrow>
          if buf = 0 then (fs, m, file, -1)
          else if filetype f = 2
          then let (m, f, r) = file_read fs m f buf nbytes in (fs, m, Some f, r)
          else if filetype f = 1
          then let (fs, m, r) = dir_read fs m f buf nbytes in (fs, m, file, r)
          else (fs, m, file, -1))"

definition fs_write :: "filesys \<Rightarrow> file_t option \<Rightarrow> u32 \<Rightarrow> i32 \<Rightarrow> i32" where
  "fs_write fs file buf nbytes = -1"

declare name_len.simps [simp del] dentry_search.simps [simp del]
  read_data_loop.simps [simp del] fs_copy_loop.simps [simp del]

section \<open>The memory the file system owns\<close>

text \<open>The kernel's boot block copy, and the inode and data blocks of the image.\<close>

definition fs_addr :: "filesys \<Rightarrow> mem \<Rightarrow> u32 \<Rightarrow> bool" where
  "fs_addr fs m a \<longleftrightarrow> unat (a - bootblock fs) < 4096 \<or>
     unat (a - inodes fs) < 4096 * (unat (n_inodes fs m) + unat (n_datablocks fs m))"

text \<open>What \<open>fs_init\<close> establishes for a sane image.\<close>

definition wf_fs :: "filesys \<Rightarrow> mem \<Rightarrow> bool" where
  "wf_fs fs m \<longleftrightarrow> FS_DATA_START fs = inodes fs + n_inodes fs m * FS_BLOCK_SIZE \<and>
     4096 * (unat (n_inodes fs m) + unat (n_datablocks fs m)) < 2 ^ 32 \<and>
     n_dentries fs m \<le> MAX_DENTRIES"

definition fs_agree :: "filesys \<Rightarrow> mem \<Rightarrow> mem \<Rightarrow> bool" where
  "fs_agree fs m m' \<longleftrightarrow> (\<forall>a. fs_addr fs m a \<longrightarrow> m' a = m a)"

definition buf_ok :: "filesys \<Rightarrow> mem \<Rightarrow> u32 \<Rightarrow> nat \<Rightarrow> bool" where
  "buf_ok fs m buf n \<longleftrightarrow> (\<forall>k < n. \<not> fs_addr fs m (buf + of_nat k))"

lemma fs_addr_boot: "k < 4096 \<Longrightarrow> fs_addr fs m (bootblock fs + of_nat k)"
  by (simp add: fs_addr_def unat_of_nat_32)

lemma rd32_boot:
  assumes "fs_agree fs m m'" and "k + 4 \<le> 4096"
  shows "rd32 m' (bootblock fs + of_nat k) = rd32 m (bootblock fs + of_nat k)"
proof (rule rd32_cong)
  fix j :: nat assume "j < 4"
  with assms show "arr m' (bootblock fs + of_nat k) j = arr m (bootblock fs + of_nat k) j"
    using fs_addr_boot[of "k + j" fs m] by (simp add: arr_def fs_agree_def add.assoc)
qed

lemma agree_header [frame_simps]:
  assumes "fs_agree fs m m'"
  shows "n_dentries fs m' = n_dentries fs m" "n_inodes fs m' = n_inodes fs m"
    "n_datablocks fs m' = n_datablocks fs m"
  using rd32_boot[OF assms, of 0] rd32_boot[OF assms, of 4] rd32_boot[OF assms, of 8]
  by (simp_all add: n_dentries_def n_inodes_def n_datablocks_def)

lemma fs_addr_agree: "fs_agree fs m m' \<Longrightarrow> fs_addr fs m' a = fs_addr fs m a"
  by (simp add: fs_addr_def agree_header)

lemma fs_agree_refl [simp]: "fs_agree fs m m"
  by (simp add: fs_agree_def)

lemma fs_agree_trans: "fs_agree fs m m' \<Longrightarrow> fs_agree fs m' m'' \<Longrightarrow> fs_agree fs m m''"
  using fs_addr_agree by (simp add: fs_agree_def)

lemma wf_fs_agree: "fs_agree fs m m' \<Longrightarrow> wf_fs fs m' = wf_fs fs m"
  by (simp add: wf_fs_def agree_header)

lemma buf_ok_agree: "fs_agree fs m m' \<Longrightarrow> buf_ok fs m' buf n = buf_ok fs m buf n"
  by (simp add: buf_ok_def fs_addr_agree)

lemma buf_ok_mono: "buf_ok fs m buf n \<Longrightarrow> k \<le> n \<Longrightarrow> buf_ok fs m buf k"
  by (simp add: buf_ok_def)

lemma blit_agree: "buf_ok fs m buf n \<Longrightarrow> fs_agree fs m (blit m buf f n)"
  unfolding fs_agree_def
proof (intro allI impI)
  fix a assume b: "buf_ok fs m buf n" and a: "fs_addr fs m a"
  have "buf + of_nat (unat (a - buf)) = a" by simp
  with a b have "\<not> unat (a - buf) < n" unfolding buf_ok_def by metis
  then show "blit m buf f n a = m a" by (simp add: blit_def)
qed

lemma agree_dentry:
  assumes "fs_agree fs m m'" and "i < MAX_DENTRIES" and "k < 64"
  shows "arr m' (dentry_addr fs i) k = arr m (dentry_addr fs i) k"
proof -
  have i: "unat i < 63" using assms(2) by (simp add: word_less_nat_alt)
  have "dentry_addr fs i + of_nat k = bootblock fs + of_nat (64 + 64 * unat i + k)"
    by (simp add: dentry_addr_def)
  then have "fs_addr fs m (dentry_addr fs i + of_nat k)"
    using fs_addr_boot[of "64 + 64 * unat i + k" fs m] i assms(3) by (simp add: add.assoc)
  then show ?thesis using assms(1) by (simp add: fs_agree_def arr_def)
qed

lemma agree_dentries [frame_simps]:
  assumes "fs_agree fs m m'" and "i < MAX_DENTRIES"
  shows "dentries fs m' i = dentries fs m i"
proof -
  have "rd32 m' (dentry_addr fs i + of_nat k) = rd32 m (dentry_addr fs i + of_nat k)" if "k + 4 \<le> 64" for k
    using agree_dentry[OF assms] that by (intro rd32_cong) (simp add: arr_add)
  from this[of 32] this[of 36] show ?thesis
    using agree_dentry[OF assms] by (simp add: dentries_def)
qed

lemma block_bound: "b < N \<Longrightarrow> k < 4096 \<Longrightarrow> b * 4096 + k < 4096 * (N :: nat)"
  by arith

text \<open>A byte of the block area: block \<open>b\<close> counted from the first inode.\<close>

lemma fs_addr_block:
  assumes "wf_fs fs m" and "unat b < unat (n_inodes fs m) + unat (n_datablocks fs m)" and "k < 4096"
  shows "fs_addr fs m (inodes fs + b * FS_BLOCK_SIZE + of_nat k)"
proof -
  have l: "unat b * 4096 + k < 4096 * (unat (n_inodes fs m) + unat (n_datablocks fs m))"
    using assms(2,3) by (rule block_bound)
  have "inodes fs + b * FS_BLOCK_SIZE + of_nat k - inodes fs = of_nat (unat b * 4096 + k)" by simp
  moreover have "unat (of_nat (unat b * 4096 + k) :: u32) = unat b * 4096 + k"
    using l assms(1) by (intro unat_of_nat_32) (simp add: wf_fs_def)
  ultimately show ?thesis using l unfolding fs_addr_def by (simp del: of_nat_add of_nat_mult)
qed

lemma agree_inode_field:
  assumes "fs_agree fs m m'" and "wf_fs fs m" and "inode < n_inodes fs m" and "k + 4 \<le> 4096"
  shows "rd32 m' (inodes fs + inode * FS_BLOCK_SIZE + of_nat k) = rd32 m (inodes fs + inode * FS_BLOCK_SIZE + of_nat k)"
proof (rule rd32_cong)
  fix j :: nat assume "j < 4"
  then have "fs_addr fs m (inodes fs + inode * FS_BLOCK_SIZE + of_nat (k + j))"
    using assms by (intro fs_addr_block) (auto simp: word_less_nat_alt)
  then show "arr m' (inodes fs + inode * FS_BLOCK_SIZE + of_nat k) j = arr m (inodes fs + inode * FS_BLOCK_SIZE + of_nat k) j"
    using assms(1) by (simp add: arr_def fs_agree_def add.assoc)
qed

lemma agree_inode [frame_simps]:
  assumes "fs_agree fs m m'" and "wf_fs fs m" and "inode < n_inodes fs m"
  shows "inode_length fs m' inode = inode_length fs m inode"
    and "unat j < 1023 \<Longrightarrow> datablocks fs m' inode j = datablocks fs m inode j"
proof -
  show "inode_length fs m' inode = inode_length fs m inode"
    using agree_inode_field[OF assms, of 0] by (simp add: inode_length_def)
  have "of_nat (4 + 4 * unat j) = (4 + 4 * j :: u32)" by simp
  then show "unat j < 1023 \<Longrightarrow> datablocks fs m' inode j = datablocks fs m inode j"
    using agree_inode_field[OF assms, of "4 + 4 * unat j"] by (simp add: datablocks_def add.assoc)
qed

lemma agree_data:
  assumes "fs_agree fs m m'" and "wf_fs fs m" and "b < n_datablocks fs m" and "k < 4096"
  shows "arr m' (FS_DATA_START fs + b * FS_BLOCK_SIZE) k = arr m (FS_DATA_START fs + b * FS_BLOCK_SIZE) k"
proof -
  have u: "unat (n_inodes fs m + b) = unat (n_inodes fs m) + unat b"
    using assms(2,3) by (simp add: wf_fs_def word_less_nat_alt unat_word_ariths)
  have "FS_DATA_START fs + b * FS_BLOCK_SIZE = inodes fs + (n_inodes fs m + b) * FS_BLOCK_SIZE"
    using assms(2) by (simp add: wf_fs_def algebra_simps)
  then have "fs_addr fs m (FS_DATA_START fs + b * FS_BLOCK_SIZE + of_nat k)"
    using assms(2-4) u by (simp only:) (intro fs_addr_block, auto simp: word_less_nat_alt)
  then show ?thesis using assms(1) by (simp add: fs_agree_def arr_def)
qed

section \<open>Lookup by name\<close>

text \<open>What the measuring loop looks at: the bytes before the first NUL among the first 33.\<close>

definition before_NUL :: "nat \<Rightarrow> (nat \<Rightarrow> u8) \<Rightarrow> cstring" where
  "before_NUL n f = takeWhile (\<lambda>b. b \<noteq> 0) (map f [0..<n])"

definition name_key :: "(nat \<Rightarrow> u8) \<Rightarrow> cstring" where
  "name_key name = before_NUL 33 name"

text \<open>The name of a directory entry as its 32-byte field gives it.\<close>

definition dentry_name :: "dentry_t \<Rightarrow> cstring" where
  "dentry_name d = takeWhile (\<lambda>b. b \<noteq> 0) (d_name d)"

definition find_dentry :: "filesys \<Rightarrow> mem \<Rightarrow> cstring \<Rightarrow> u32 option" where
  "find_dentry fs m key = List.find (\<lambda>i. name_key (arr m (dentry_addr fs i)) = key)
     (map of_nat [0..<min 63 (unat (n_dentries fs m))])"

lemma takeWhile_length_all: "length (takeWhile P xs) = length xs \<longleftrightarrow> (\<forall>x \<in> set xs. P x)"
  by (induction xs) auto

lemma before_NUL_0 [simp]: "before_NUL 0 f = []"
  by (simp add: before_NUL_def)

lemma before_NUL_Suc: "before_NUL (Suc n) f = (if length (before_NUL n f) = n \<and> f n \<noteq> 0
    then before_NUL n f @ [f n] else before_NUL n f)"
proof (cases "\<forall>b \<in> set (map f [0..<n]). b \<noteq> 0")
  case True
  then have all: "before_NUL n f = map f [0..<n]" by (simp only: before_NUL_def takeWhile_eq_all_conv)
  have "before_NUL (Suc n) f = map f [0..<n] @ takeWhile (\<lambda>b. b \<noteq> 0) [f n]"
    using takeWhile_append2[of "map f [0..<n]" "\<lambda>b. b \<noteq> 0" "[f n]"] True by (simp add: before_NUL_def)
  with all show ?thesis by simp
next
  case False
  then have "length (before_NUL n f) \<noteq> n"
    using takeWhile_length_all[of "\<lambda>b. b \<noteq> 0" "map f [0..<n]"] by (simp add: before_NUL_def)
  moreover have "before_NUL (Suc n) f = before_NUL n f"
    using False by (auto simp: before_NUL_def takeWhile_append)
  ultimately show ?thesis by simp
qed

lemma before_NUL_length: "length (before_NUL n f) \<le> n"
  using length_takeWhile_le[of _ "map f [0..<n]"] by (simp add: before_NUL_def)

lemma before_NUL_nth: "i < length (before_NUL n f) \<Longrightarrow> before_NUL n f ! i = f i \<and> f i \<noteq> 0"
proof (induction n)
  case (Suc n)
  then show ?case by (auto simp: before_NUL_Suc nth_append less_Suc_eq split: if_splits)
qed simp

lemma before_NUL_end: "length (before_NUL n f) < n \<Longrightarrow> f (length (before_NUL n f)) = 0"
proof (induction n)
  case (Suc n)
  then show ?case using before_NUL_length[of n f]
    by (cases "length (before_NUL n f) = n") (auto simp: before_NUL_Suc split: if_splits)
qed simp

lemma before_NUL_eqI:
  assumes "\<And>i. i < length s \<Longrightarrow> s ! i = f i \<and> f i \<noteq> 0" and "length s \<le> n" and "length s < n \<Longrightarrow> f (length s) = 0"
  shows "before_NUL n f = s"
proof -
  have "\<not> length (before_NUL n f) < length s"
    using assms(1,2) before_NUL_end[of n f] by (meson order.strict_trans2)
  moreover have "\<not> length s < length (before_NUL n f)"
    using assms(3) before_NUL_nth[of "length s" n f] before_NUL_length[of n f] by auto
  ultimately have "length (before_NUL n f) = length s" by simp
  then show ?thesis using assms(1) before_NUL_nth[of _ n f] by (intro nth_equalityI) auto
qed

lemma name_len_skip: "(\<And>j. len \<le> j \<Longrightarrow> j < k \<Longrightarrow> name j \<noteq> 0) \<Longrightarrow> k \<le> 33 \<Longrightarrow> len \<le> k \<Longrightarrow>
    name_len name len = name_len name k"
proof (induction name len rule: name_len.induct)
  case (1 name len)
  show ?case
  proof (cases "len = k")
    case False
    then have "name_len name (len + 1) = name_len name k" using 1 by auto
    then show ?thesis using 1 False by (subst name_len.simps) auto
  qed simp
qed

lemma name_len_key: "name_len name 0 = length (name_key name)"
proof -
  have "name_len name 0 = name_len name (length (name_key name))"
    using before_NUL_nth[of _ 33 name] before_NUL_length[of 33 name]
    by (intro name_len_skip) (auto simp: name_key_def)
  also have "\<dots> = length (name_key name)"
    using before_NUL_end[of 33 name] before_NUL_length[of 33 name]
    by (subst name_len.simps) (auto simp: name_key_def)
  finally show ?thesis .
qed

lemma name_key_length: "length (name_key name) \<le> 33"
  by (simp add: name_key_def before_NUL_length)

lemma name_key_nth: "i < length (name_key name) \<Longrightarrow> name_key name ! i = name i \<and> name i \<noteq> 0"
  by (simp add: name_key_def before_NUL_nth)

lemma key_match:
  "name_len g 0 = name_len f 0 \<and> strncmp f g (of_nat (name_len f 0)) = 0 \<longleftrightarrow> name_key g = name_key f"
proof -
  have u: "unat (of_nat (length (name_key f)) :: u32) = length (name_key f)"
    using name_key_length[of f] by (intro unat_of_nat_32) simp
  have "strncmp f g (of_nat (length (name_key f))) = 0 \<longleftrightarrow> (\<forall>i < length (name_key f). f i = g i)"
    using name_key_nth[of _ f] by (subst strncmp_eq_0_iff) (auto simp: u)
  then show ?thesis
    using name_key_nth[of _ f] name_key_nth[of _ g] by (auto simp: name_len_key list_eq_iff_nth_eq)
qed

lemma dentry_search_find:
  "i \<le> min 63 (n_dentries fs m) \<Longrightarrow> dentry_search fs m fname (name_len (arr m fname) 0) i d =
    (case List.find (\<lambda>i. name_key (arr m (dentry_addr fs i)) = name_key (arr m fname))
        (map of_nat [unat i..<min 63 (unat (n_dentries fs m))]) of
       None \<Rightarrow> (-1, d) | Some i \<Rightarrow> (0, dentries fs m i))"
proof (induction "63 - unat i" arbitrary: i rule: less_induct)
  case less
  show ?case
  proof (cases "i < n_dentries fs m \<and> i < 63")
    case True
    then have "[unat i..<min 63 (unat (n_dentries fs m))] = unat i # [unat (i + 1)..<min 63 (unat (n_dentries fs m))]"
      by (subst upt_rec) (simp add: word_less_nat_alt unat_Suc_less[of i 63])
    moreover have "63 - unat (i + 1) < 63 - unat i" and "i + 1 \<le> min 63 (n_dentries fs m)"
      using True by (auto simp: unat_Suc_less[of i 63] word_less_nat_alt word_less_Suc_le)
    ultimately show ?thesis
      using True less.hyps[of "i + 1"] key_match[of "arr m (dentry_addr fs i)" "arr m fname"]
      by (subst dentry_search.simps) (simp add: Let_def)
  next
    case False
    then have "unat i \<ge> min 63 (unat (n_dentries fs m))" by (auto simp: word_less_nat_alt)
    with False show ?thesis by (subst dentry_search.simps) auto
  qed
qed

lemma read_dentry_by_name_find:
  "fname \<noteq> 0 \<Longrightarrow> read_dentry_by_name fs m fname (Some d) =
    (case find_dentry fs m (name_key (arr m fname)) of
       None \<Rightarrow> (-1, Some d) | Some i \<Rightarrow> (0, Some (dentries fs m i)))"
  by (simp add: read_dentry_by_name_def find_dentry_def dentry_search_find split: option.splits)

lemma find_dentry_Some:
  "find_dentry fs m key = Some i \<longleftrightarrow>
    i < n_dentries fs m \<and> i < 63 \<and> name_key (arr m (dentry_addr fs i)) = key \<and>
    (\<forall>j < i. name_key (arr m (dentry_addr fs j)) \<noteq> key)"
proof
  assume "find_dentry fs m key = Some i"
  then obtain k where k: "k < min 63 (unat (n_dentries fs m))" "i = of_nat k"
    "name_key (arr m (dentry_addr fs i)) = key"
    "\<And>j. j < k \<Longrightarrow> name_key (arr m (dentry_addr fs (of_nat j))) \<noteq> key"
    by (auto simp: find_dentry_def find_Some_iff)
  then have u: "unat i = k" by (simp add: unat_of_nat_32)
  have "name_key (arr m (dentry_addr fs j)) \<noteq> key" if "j < i" for j
    using k(4)[of "unat j"] that u by (simp add: word_less_nat_alt)
  with k u show "i < n_dentries fs m \<and> i < 63 \<and> name_key (arr m (dentry_addr fs i)) = key \<and>
    (\<forall>j < i. name_key (arr m (dentry_addr fs j)) \<noteq> key)" by (simp add: word_less_nat_alt)
next
  assume r: "i < n_dentries fs m \<and> i < 63 \<and> name_key (arr m (dentry_addr fs i)) = key \<and>
    (\<forall>j < i. name_key (arr m (dentry_addr fs j)) \<noteq> key)"
  have "of_nat j < i" if "j < unat i" for j
    using that unat_less_32[of i] by (simp add: word_less_nat_alt unat_of_nat_32)
  with r show "find_dentry fs m key = Some i"
    unfolding find_dentry_def find_Some_iff by (intro exI[of _ "unat i"]) (auto simp: word_less_nat_alt)
qed

lemma find_dentry_None:
  "find_dentry fs m key = None \<longleftrightarrow>
    (\<forall>i. i < n_dentries fs m \<and> i < 63 \<longrightarrow> name_key (arr m (dentry_addr fs i)) \<noteq> key)"
proof
  assume f: "find_dentry fs m key = None"
  show "\<forall>i. i < n_dentries fs m \<and> i < 63 \<longrightarrow> name_key (arr m (dentry_addr fs i)) \<noteq> key"
  proof (intro allI impI)
    fix i assume "i < n_dentries fs m \<and> i < 63"
    then have "unat i \<in> set [0..<min 63 (unat (n_dentries fs m))]" by (simp add: word_less_nat_alt)
    with f have "name_key (arr m (dentry_addr fs (of_nat (unat i)))) \<noteq> key"
      unfolding find_dentry_def find_None_iff by (metis image_eqI list.set_map)
    then show "name_key (arr m (dentry_addr fs i)) \<noteq> key" by simp
  qed
qed (auto simp: find_dentry_def find_None_iff word_less_nat_alt unat_of_nat_32)

lemma name_key_cstr: "cstr_at m p s \<Longrightarrow> name_key (arr m p) = take 33 s"
  unfolding name_key_def
  by (intro before_NUL_eqI) (auto simp: cstr_at_def wf_cstring_nth min_def split: if_splits)

lemma dentry_name_key: "dentry_name (dentries fs m i) = before_NUL 32 (arr m (dentry_addr fs i))"
  by (simp only: dentry_name_def dentries_def before_NUL_def dentry_t.simps)

lemma name_key_dentry:
  assumes "length s \<le> 31"
  shows "name_key (arr m (dentry_addr fs i)) = s \<longleftrightarrow> dentry_name (dentries fs m i) = s"
  using assms before_NUL_Suc[of 32 "arr m (dentry_addr fs i)"]
  by (auto simp: dentry_name_key name_key_def split: if_splits)

text \<open>C25: for a name of at most 31 characters, \<open>read_dentry_by_name\<close> returns 0 with the
  first directory entry of that name, and -1 exactly when no entry has it.\<close>

theorem lookup_by_name:
  assumes "cstr_at m fname s" and "length s \<le> 31" and "fname \<noteq> 0"
  shows "(\<exists>i. i < n_dentries fs m \<and> i < 63 \<and> dentry_name (dentries fs m i) = s \<and>
        (\<forall>j < i. dentry_name (dentries fs m j) \<noteq> s) \<and>
        read_dentry_by_name fs m fname (Some d) = (0, Some (dentries fs m i))) \<or>
    (\<forall>i. i < n_dentries fs m \<and> i < 63 \<longrightarrow> dentry_name (dentries fs m i) \<noteq> s) \<and>
        read_dentry_by_name fs m fname (Some d) = (-1, Some d)"
proof -
  have k: "name_key (arr m fname) = s" using name_key_cstr[OF assms(1)] assms(2) by simp
  note nk = name_key_dentry[OF assms(2)]
  show ?thesis
  proof (cases "find_dentry fs m s")
    case None
    then have "read_dentry_by_name fs m fname (Some d) = (-1, Some d)"
      using k by (simp add: read_dentry_by_name_find[OF assms(3)])
    with None show ?thesis by (simp add: find_dentry_None nk)
  next
    case (Some i)
    then have "read_dentry_by_name fs m fname (Some d) = (0, Some (dentries fs m i))"
      using k by (simp add: read_dentry_by_name_find[OF assms(3)])
    with Some show ?thesis by (auto simp: find_dentry_Some nk)
  qed
qed

lemma name_key_33: "length (name_key (arr m (dentry_addr fs i))) = 32 \<Longrightarrow> arr m (dentry_addr fs i) 32 = 0"
  using before_NUL_end[of 33 "arr m (dentry_addr fs i)"] by (simp add: name_key_def)

lemma low_byte_type: "ucast (d_type (dentries fs m i)) = arr m (dentry_addr fs i) 32"
  using byte_rd32[of 0 m "dentry_addr fs i + 32"] by (simp add: dentries_def byte_def arr_def)

text \<open>A name of exactly 32 characters is found only for an entry whose type has a zero
  low byte: a regular file (type 2) or directory (type 1) with a 32-character name, which
  the format allows, can never be looked up by its name.\<close>

theorem full_length_names_not_found:
  assumes "cstr_at m fname s" and "length s = 32" and "fname \<noteq> 0"
    and "\<And>i. i < n_dentries fs m \<Longrightarrow> i < 63 \<Longrightarrow> d_type (dentries fs m i) \<in> {1, 2}"
  shows "read_dentry_by_name fs m fname (Some d) = (-1, Some d)"
proof -
  have k: "name_key (arr m fname) = s" using name_key_cstr[OF assms(1)] assms(2) by simp
  have "find_dentry fs m s = None"
    unfolding find_dentry_None
  proof (intro allI impI notI)
    fix i assume i: "i < n_dentries fs m \<and> i < 63" and "name_key (arr m (dentry_addr fs i)) = s"
    then have "arr m (dentry_addr fs i) 32 = 0" using assms(2) name_key_33 by blast
    then have "(ucast (d_type (dentries fs m i)) :: u8) = 0" by (simp only: low_byte_type)
    with assms(4)[of i] i show False by auto
  qed
  with k show ?thesis by (simp add: read_dentry_by_name_find[OF assms(3)])
qed

section \<open>Reading file data\<close>

text \<open>Byte \<open>k\<close> of a file: block \<open>k div 4096\<close> of its inode, offset \<open>k mod 4096\<close>.\<close>

definition file_block :: "filesys \<Rightarrow> mem \<Rightarrow> u32 \<Rightarrow> nat \<Rightarrow> u32" where
  "file_block fs m inode j = datablocks fs m inode (of_nat j)"

definition file_byte :: "filesys \<Rightarrow> mem \<Rightarrow> u32 \<Rightarrow> nat \<Rightarrow> u8" where
  "file_byte fs m inode k =
     arr m (FS_DATA_START fs + file_block fs m inode (k div 4096) * FS_BLOCK_SIZE) (k mod 4096)"

definition file_len :: "filesys \<Rightarrow> mem \<Rightarrow> u32 \<Rightarrow> nat" where
  "file_len fs m inode = unat (inode_length fs m inode)"

definition file_bytes :: "filesys \<Rightarrow> mem \<Rightarrow> u32 \<Rightarrow> u8 list" where
  "file_bytes fs m inode = map (file_byte fs m inode) [0..<file_len fs m inode]"

text \<open>A file the image can hold: its inode exists and has a block number for every block.\<close>

definition file_ok :: "filesys \<Rightarrow> mem \<Rightarrow> u32 \<Rightarrow> bool" where
  "file_ok fs m inode \<longleftrightarrow> inode < n_inodes fs m \<and> file_len fs m inode \<le> 1023 * 4096"

text \<open>The block numbers that hold the bytes of the file in a range are all valid.\<close>

definition blocks_ok :: "filesys \<Rightarrow> mem \<Rightarrow> u32 \<Rightarrow> nat \<Rightarrow> nat \<Rightarrow> bool" where
  "blocks_ok fs m inode a b \<longleftrightarrow> (\<forall>j. a div 4096 \<le> j \<and> j * 4096 < b \<longrightarrow> file_block fs m inode j < n_datablocks fs m)"

lemma agree_file [frame_simps]:
  assumes "fs_agree fs m m'" and "wf_fs fs m" and "inode < n_inodes fs m"
  shows "file_len fs m' inode = file_len fs m inode"
    and "j < 1023 \<Longrightarrow> file_block fs m' inode j = file_block fs m inode j"
  using agree_inode[OF assms] by (simp_all add: file_len_def file_block_def unat_of_nat_32)

lemma agree_file_ok [frame_simps]: "fs_agree fs m m' \<Longrightarrow> wf_fs fs m \<Longrightarrow> file_ok fs m inode \<Longrightarrow> file_ok fs m' inode"
  by (simp add: file_ok_def agree_header agree_file)

lemma block_1023: "k < 1023 * 4096 \<Longrightarrow> k div 4096 < (1023 :: nat)"
  by (simp add: less_mult_imp_div_less)

lemma agree_file_byte:
  assumes "fs_agree fs m m'" and "wf_fs fs m" and "file_ok fs m inode" and "k < file_len fs m inode"
    and "file_block fs m inode (k div 4096) < n_datablocks fs m"
  shows "file_byte fs m' inode k = file_byte fs m inode k"
proof -
  have "k div 4096 < 1023" using assms(3,4) by (intro block_1023) (auto simp: file_ok_def)
  then have "file_block fs m' inode (k div 4096) = file_block fs m inode (k div 4096)"
    using assms by (intro agree_file) (auto simp: file_ok_def)
  then show ?thesis using assms agree_data[OF assms(1,2)] by (simp add: file_byte_def)
qed

text \<open>The loop invariant of \<open>read_data\<close>: \<open>k\<close> bytes are copied, and the block variables
  describe position \<open>offset + k\<close> (at the end of the previous block when that is a block
  boundary).\<close>

definition at_pos :: "filesys \<Rightarrow> mem \<Rightarrow> u32 \<Rightarrow> nat \<Rightarrow> nat \<Rightarrow> u32 \<Rightarrow> u32 \<Rightarrow> u32 \<Rightarrow> bool" where
  "at_pos fs m inode start p fdb bo loc \<longleftrightarrow>
     unat bo \<le> 4096 \<and> unat fdb * 4096 + unat bo = p \<and> start div 4096 \<le> unat fdb \<and>
     file_block fs m inode (unat fdb) < n_datablocks fs m \<and>
     loc = FS_DATA_START fs + file_block fs m inode (unat fdb) * FS_BLOCK_SIZE + bo"

lemma at_pos_byte:
  assumes "at_pos fs m inode start p fdb bo loc" and "bo < FS_BLOCK_SIZE"
  shows "m loc = file_byte fs m inode p" and "p div 4096 = unat fdb"
proof -
  have bo: "unat bo < 4096" using assms(2) by (simp add: word_less_nat_alt)
  with assms(1) have p: "p div 4096 = unat fdb" "p mod 4096 = unat bo" by (auto simp: at_pos_def)
  then show "p div 4096 = unat fdb" by simp
  from p assms(1) show "m loc = file_byte fs m inode p" by (simp add: at_pos_def file_byte_def arr_def)
qed

lemma at_pos_Suc:
  assumes "at_pos fs m inode start p fdb bo loc" and "bo < FS_BLOCK_SIZE"
  shows "at_pos fs m inode start (Suc p) fdb (bo + 1) (loc + 1)"
  using assms unat_Suc_less[OF assms(2)] by (auto simp: at_pos_def word_less_nat_alt)

lemma at_pos_next_block:
  assumes "at_pos fs m inode start p fdb bo loc" and "\<not> bo < FS_BLOCK_SIZE"
    and "p < 1023 * 4096"
  shows "unat (fdb + 1) = p div 4096" and "p = (p div 4096) * 4096" and "Suc (unat fdb) = p div 4096"
    and "datablocks fs m inode (fdb + 1) < n_datablocks fs m \<Longrightarrow>
      at_pos fs m inode start p (fdb + 1) 0 (FS_DATA_START fs + datablocks fs m inode (fdb + 1) * FS_BLOCK_SIZE + 0)"
proof -
  have bo: "unat bo = 4096" using assms(1,2) by (auto simp: at_pos_def word_less_nat_alt)
  with assms(1) have p: "p = Suc (unat fdb) * 4096" by (simp add: at_pos_def)
  with assms(3) have "unat fdb < 1022" by simp
  then have u: "unat (fdb + 1) = Suc (unat fdb)" by (simp add: unat_word_ariths)
  with p show "unat (fdb + 1) = p div 4096" "p = (p div 4096) * 4096" "Suc (unat fdb) = p div 4096" by simp_all
  show "datablocks fs m inode (fdb + 1) < n_datablocks fs m \<Longrightarrow>
      at_pos fs m inode start p (fdb + 1) 0 (FS_DATA_START fs + datablocks fs m inode (fdb + 1) * FS_BLOCK_SIZE + 0)"
    using assms(1) u p by (simp add: at_pos_def file_block_def add.commute[of 1 fdb])
qed

lemma blocks_ok_Suc:
  assumes "blocks_ok fs m inode a b" and "file_block fs m inode (b div 4096) < n_datablocks fs m"
  shows "blocks_ok fs m inode a (Suc b)"
  unfolding blocks_ok_def
proof (intro allI impI)
  fix j assume j: "a div 4096 \<le> j \<and> j * 4096 < Suc b"
  show "file_block fs m inode j < n_datablocks fs m"
  proof (cases "j * 4096 < b")
    case False
    with j have "b div 4096 = j" by auto
    with assms(2) show ?thesis by simp
  qed (use assms(1) j in \<open>auto simp: blocks_ok_def\<close>)
qed

text \<open>The result of the loop, for a request that starts inside the file.\<close>

definition read_result :: "filesys \<Rightarrow> mem \<Rightarrow> u32 \<Rightarrow> nat \<Rightarrow> u32 \<Rightarrow> nat \<Rightarrow> mem \<times> i32 \<Rightarrow> bool" where
  "read_result fs m inode off buf n r \<longleftrightarrow>
     (if blocks_ok fs m inode off (off + n)
      then r = (blit m buf (\<lambda>i. file_byte fs m inode (off + i)) n, of_nat n)
      else snd r = -1 \<and> (\<exists>k \<le> n. fst r = blit m buf (\<lambda>i. file_byte fs m inode (off + i)) k))"

text \<open>The setting of the loop: \<open>n\<close> bytes are to be copied, and \<open>copied k\<close> is the
  memory after \<open>k\<close> of them.\<close>

definition read_ctx :: "filesys \<Rightarrow> mem \<Rightarrow> u32 \<Rightarrow> u32 \<Rightarrow> u32 \<Rightarrow> u32 \<Rightarrow> nat \<Rightarrow> bool" where
  "read_ctx fs m inode offset buf len n \<longleftrightarrow>
     wf_fs fs m \<and> file_ok fs m inode \<and> buf_ok fs m buf (unat len) \<and>
     n = min (unat len) (file_len fs m inode - unat offset) \<and> unat offset \<le> file_len fs m inode"

definition copied :: "filesys \<Rightarrow> mem \<Rightarrow> u32 \<Rightarrow> u32 \<Rightarrow> u32 \<Rightarrow> nat \<Rightarrow> mem" where
  "copied fs m inode offset buf k = blit m buf (\<lambda>i. file_byte fs m inode (unat offset + i)) k"

lemma read_ctx_facts:
  assumes "read_ctx fs m inode offset buf len n" and "k \<le> n"
  shows "fs_agree fs m (copied fs m inode offset buf k)" and "k < 2 ^ 32"
    and "of_nat k < len \<and> \<not> inode_length fs (copied fs m inode offset buf k) inode \<le> offset + of_nat k \<longleftrightarrow> k < n"
    and "k < n \<Longrightarrow> unat offset + k < file_len fs m inode \<and> unat offset + k < 1023 * 4096"
proof -
  show k: "k < 2 ^ 32" using assms unat_less_32[of len] by (simp add: read_ctx_def)
  show a: "fs_agree fs m (copied fs m inode offset buf k)"
    using assms by (auto simp: read_ctx_def copied_def intro: blit_agree buf_ok_mono)
  have "unat offset + k < 4294967296"
    using assms unat_less_32[of "inode_length fs m inode"] by (auto simp: read_ctx_def file_len_def)
  then have "unat (offset + of_nat k) = unat offset + k"
    using k by (simp add: unat_word_ariths unat_of_nat_32)
  then show "of_nat k < len \<and> \<not> inode_length fs (copied fs m inode offset buf k) inode \<le> offset + of_nat k \<longleftrightarrow> k < n"
    using assms k agree_inode(1)[OF a]
    by (auto simp: read_ctx_def word_less_nat_alt word_le_nat_alt unat_of_nat_32 file_ok_def file_len_def)
  show "k < n \<Longrightarrow> unat offset + k < file_len fs m inode \<and> unat offset + k < 1023 * 4096"
    using assms by (auto simp: read_ctx_def file_ok_def)
qed

lemma copied_Suc:
  assumes ctx: "read_ctx fs m inode offset buf len n" and k: "k < n"
    and at: "at_pos fs m inode start (unat offset + k) fdb bo loc" and bo: "bo < FS_BLOCK_SIZE"
  shows "(copied fs m inode offset buf k)(buf + of_nat k := copied fs m inode offset buf k loc) =
    copied fs m inode offset buf (Suc k)"
    and "file_block fs m inode ((unat offset + k) div 4096) < n_datablocks fs m"
proof -
  let ?m = "copied fs m inode offset buf k" and ?p = "unat offset + k"
  note f = read_ctx_facts[OF ctx less_imp_le[OF k]]
  have p: "?p < file_len fs m inode" "?p < 1023 * 4096" using f(4) k by auto
  have wf: "wf_fs fs m" "file_ok fs m inode" "inode < n_inodes fs m" using ctx by (auto simp: read_ctx_def file_ok_def)
  show blk: "file_block fs m inode (?p div 4096) < n_datablocks fs m"
    using at at_pos_byte(2)[OF at bo] by (simp add: at_pos_def)
  have "at_pos fs ?m inode start ?p fdb bo loc"
    using at at_pos_byte(2)[OF at bo] block_1023[OF p(2)] agree_file(2)[OF f(1) wf(1,3)] agree_header[OF f(1)]
    by (simp add: at_pos_def)
  then have "?m loc = file_byte fs m inode ?p"
    using at_pos_byte(1)[OF _ bo] agree_file_byte[OF f(1) wf(1,2) p(1) blk] by metis
  then show "?m(buf + of_nat k := ?m loc) = copied fs m inode offset buf (Suc k)"
    using blit_next[of k m buf "\<lambda>i. file_byte fs m inode (unat offset + i)"] f(2)
    by (simp add: copied_def del: fun_upd_apply)
qed

lemma read_data_loop_result:
  assumes ctx: "read_ctx fs m inode offset buf len n"
  shows "k \<le> n \<Longrightarrow> at_pos fs m inode (unat offset) (unat offset + k) fdb bo loc \<Longrightarrow>
    blocks_ok fs m inode (unat offset) (unat offset + k) \<Longrightarrow>
    read_result fs m inode (unat offset) buf n
      (read_data_loop fs (copied fs m inode offset buf k) inode offset buf len (of_nat k) fdb bo loc)"
proof (induction "n - k" arbitrary: k fdb bo loc)
  case 0
  then have k: "k = n" by simp
  then show ?case using "0.prems"(3) read_ctx_facts(3)[OF ctx "0.prems"(1)] unfolding read_result_def
    by (subst read_data_loop.simps) (auto simp: copied_def)
next
  case (Suc d)
  let ?m = "copied fs m inode offset buf k" and ?p = "unat offset + k"
  have kn: "k < n" using Suc.hyps(2) by simp
  note f = read_ctx_facts[OF ctx Suc.prems(1)]
  have p1: "?p < 1023 * 4096" and g: "of_nat k < len" "\<not> inode_length fs ?m inode \<le> offset + of_nat k"
    using f(3,4) kn by auto
  have step: "read_result fs m inode (unat offset) buf n
      (read_data_loop fs (?m(buf + of_nat k := ?m loc')) inode offset buf len (of_nat k + 1) fdb' (bo' + 1) (loc' + 1))"
    if at: "at_pos fs m inode (unat offset) ?p fdb' bo' loc'" and bo': "bo' < FS_BLOCK_SIZE" for fdb' bo' loc'
    using Suc.hyps(1)[of "Suc k" fdb' "bo' + 1" "loc' + 1"] at_pos_Suc[OF at bo'] copied_Suc[OF ctx kn at bo']
      blocks_ok_Suc[OF Suc.prems(3)] Suc.hyps(2)
    by (simp add: add.commute[of 1] del: fun_upd_apply)
  show ?case
  proof (cases "bo < FS_BLOCK_SIZE")
    case True
    then show ?thesis using g step[OF Suc.prems(2) True]
      by (subst read_data_loop.simps) (simp add: not_less[symmetric] del: fun_upd_apply not_less)
  next
    case False
    note nb = at_pos_next_block[OF Suc.prems(2) False p1]
    have db: "datablocks fs ?m inode (fdb + 1) = datablocks fs m inode (fdb + 1)"
      using agree_inode(2)[OF f(1)] ctx nb(1) block_1023[OF p1] by (simp add: read_ctx_def file_ok_def)
    show ?thesis
    proof (cases "datablocks fs m inode (fdb + 1) < n_datablocks fs m")
      case True
      then show ?thesis using g False step[OF nb(4)[OF True]] agree_header[OF f(1)]
        by (subst read_data_loop.simps) (simp add: db Let_def not_less[symmetric] del: fun_upd_apply not_less)
    next
      case bad: False
      have "unat offset div 4096 \<le> ?p div 4096 \<and> ?p div 4096 * 4096 < unat offset + n"
        using nb(2) kn by (simp add: div_le_mono)
      moreover have "datablocks fs m inode (fdb + 1) = file_block fs m inode (?p div 4096)"
        unfolding file_block_def nb(1)[symmetric] by simp
      ultimately have "\<not> blocks_ok fs m inode (unat offset) (unat offset + n)"
        using bad unfolding blocks_ok_def by metis
      moreover have "read_data_loop fs ?m inode offset buf len (of_nat k) fdb bo loc = (?m, -1)"
        using g False bad agree_header[OF f(1)]
        by (subst read_data_loop.simps) (simp add: db Let_def not_less[symmetric] del: not_less)
      ultimately show ?thesis using kn by (auto simp: read_result_def copied_def intro: exI[of _ k])
    qed
  qed
qed

lemma blocks_ok_empty:
  "file_block fs m inode (a div 4096) < n_datablocks fs m \<Longrightarrow> blocks_ok fs m inode a a"
  unfolding blocks_ok_def
proof (intro allI impI)
  fix j assume b: "file_block fs m inode (a div 4096) < n_datablocks fs m" and j: "a div 4096 \<le> j \<and> j * 4096 < a"
  then have "j \<le> a div 4096" by (simp add: less_eq_div_iff_mult_less_eq)
  with b j show "file_block fs m inode j < n_datablocks fs m" by (simp add: antisym)
qed

lemma read_data_result:
  assumes "read_ctx fs m inode offset buf len n" and "buf \<noteq> 0" and "unat offset < file_len fs m inode"
    and "file_block fs m inode (unat offset div 4096) < n_datablocks fs m"
  shows "read_result fs m inode (unat offset) buf n (read_data fs m inode offset buf len)"
proof -
  let ?fdb = "offset div FS_BLOCK_SIZE" and ?bo = "offset mod FS_BLOCK_SIZE"
  have u: "unat ?fdb = unat offset div 4096" "unat ?bo = unat offset mod 4096" by (simp_all add: unat_div unat_mod)
  have b: "datablocks fs m inode ?fdb = file_block fs m inode (unat offset div 4096)"
    by (simp add: file_block_def flip: u(1))
  have "at_pos fs m inode (unat offset) (unat offset + 0) ?fdb ?bo
      (FS_DATA_START fs + datablocks fs m inode ?fdb * FS_BLOCK_SIZE + ?bo)"
    using assms(4) by (simp add: at_pos_def u b)
  moreover have "blocks_ok fs m inode (unat offset) (unat offset + 0)"
    using assms(4) blocks_ok_empty by simp
  ultimately have "read_result fs m inode (unat offset) buf n
      (read_data_loop fs (copied fs m inode offset buf 0) inode offset buf len (of_nat 0) ?fdb ?bo
        (FS_DATA_START fs + datablocks fs m inode ?fdb * FS_BLOCK_SIZE + ?bo))"
    by (intro read_data_loop_result[OF assms(1)]) auto
  moreover have "inode < n_inodes fs m" using assms(1) by (simp add: read_ctx_def file_ok_def)
  ultimately show ?thesis
    using assms(2-4) by (simp add: read_data_def Let_def b copied_def file_len_def word_less_nat_alt word_le_nat_alt not_le)
qed

text \<open>Every block number of the file is in range.\<close>

definition data_valid :: "filesys \<Rightarrow> mem \<Rightarrow> u32 \<Rightarrow> bool" where
  "data_valid fs m inode \<longleftrightarrow> blocks_ok fs m inode 0 (file_len fs m inode)"

lemma data_valid_block:
  "data_valid fs m inode \<Longrightarrow> k < file_len fs m inode \<Longrightarrow> file_block fs m inode (k div 4096) < n_datablocks fs m"
  by (simp add: data_valid_def blocks_ok_def)

lemma data_valid_range: "data_valid fs m inode \<Longrightarrow> b \<le> file_len fs m inode \<Longrightarrow> blocks_ok fs m inode a b"
  by (simp add: data_valid_def blocks_ok_def)

lemma read_data_valid:
  fixes offset :: u32
  assumes "wf_fs fs m" and "file_ok fs m inode" and "data_valid fs m inode"
    and "buf \<noteq> 0" and "buf_ok fs m buf (unat len)"
  defines "n \<equiv> min (unat len) (file_len fs m inode - unat offset)"
  shows "read_data fs m inode offset buf len =
    (blit m buf (\<lambda>i. file_byte fs m inode (unat offset + i)) n, of_nat n)"
proof (cases "unat offset < file_len fs m inode")
  case True
  have ctx: "read_ctx fs m inode offset buf len n" using assms True by (simp add: read_ctx_def n_def)
  have "blocks_ok fs m inode (unat offset) (unat offset + n)"
    using data_valid_range[OF assms(3)] True by (simp add: n_def)
  then show ?thesis
    using read_data_result[OF ctx assms(4) True data_valid_block[OF assms(3) True]] by (simp add: read_result_def)
next
  case False
  then have "n = 0" by (simp add: n_def)
  with False assms(2,4) show ?thesis
    by (simp add: read_data_def Let_def file_ok_def file_len_def word_le_nat_alt word_less_nat_alt)
qed

text \<open>C24: reading \<open>len\<close> bytes at \<open>offset\<close> of a file of the image stores exactly the
  file's bytes from there, up to the end of the file, in \<open>buf\<close>, changes nothing else and
  returns their number, across any block boundaries.\<close>

theorem read_data_correct:
  assumes "wf_fs fs m" and "file_ok fs m inode" and "data_valid fs m inode"
    and "buf \<noteq> 0" and "buf_ok fs m buf (unat len)"
  shows "read_data fs m inode offset buf len =
    (blit m buf (\<lambda>i. file_byte fs m inode (unat offset + i)) (min (unat len) (file_len fs m inode - unat offset)),
     of_nat (min (unat len) (file_len fs m inode - unat offset)))"
  using assms by (rule read_data_valid)

text \<open>C37: the error returns of \<open>read_data\<close>: a NULL buffer or an inode out of range gives
  -1 and changes no memory; a block number out of range among those the request needs gives
  -1 (after copying the bytes before it); an offset at or past the end gives 0.\<close>

theorem read_data_errors:
  "(buf = 0 \<or> n_inodes fs m \<le> inode \<longrightarrow> read_data fs m inode offset buf len = (m, -1)) \<and>
   (buf \<noteq> 0 \<and> inode < n_inodes fs m \<and> file_len fs m inode \<le> unat offset \<longrightarrow>
      read_data fs m inode offset buf len = (m, 0)) \<and>
   (read_ctx fs m inode offset buf len n \<and> buf \<noteq> 0 \<and> unat offset < file_len fs m inode \<and>
      \<not> blocks_ok fs m inode (unat offset) (unat offset + n) \<longrightarrow>
      snd (read_data fs m inode offset buf len) = -1 \<and>
      (\<exists>k \<le> n. fst (read_data fs m inode offset buf len) =
         blit m buf (\<lambda>i. file_byte fs m inode (unat offset + i)) k))"
proof (intro conjI impI)
  assume h: "read_ctx fs m inode offset buf len n \<and> buf \<noteq> 0 \<and> unat offset < file_len fs m inode \<and>
      \<not> blocks_ok fs m inode (unat offset) (unat offset + n)"
  let ?r = "read_data fs m inode offset buf len"
  have "snd ?r = -1 \<and> (\<exists>k \<le> n. fst ?r = blit m buf (\<lambda>i. file_byte fs m inode (unat offset + i)) k)"
  proof (cases "file_block fs m inode (unat offset div 4096) < n_datablocks fs m")
    case True
    then show ?thesis
      using read_data_result[of fs m inode offset buf len n] h by (simp add: read_result_def)
  next
    case False
    have "offset div FS_BLOCK_SIZE = of_nat (unat offset div 4096)" by (simp add: word_arith_nat_defs)
    with False h have "?r = (m, -1)"
      by (simp add: read_data_def Let_def file_block_def file_len_def read_ctx_def file_ok_def
          word_le_nat_alt word_less_nat_alt)
    then show ?thesis by (auto intro: exI[of _ 0])
  qed
  then show "snd ?r = -1" "\<exists>k \<le> n. fst ?r = blit m buf (\<lambda>i. file_byte fs m inode (unat offset + i)) k" by auto
qed (auto simp: read_data_def Let_def file_len_def word_le_nat_alt word_less_nat_alt)

section \<open>Sequential reads through a descriptor\<close>

text \<open>Issue the reads \<open>ns\<close> one after the other and concatenate what they deliver.\<close>

fun read_seq :: "(nat \<Rightarrow> 's \<Rightarrow> u8 list \<times> 's) \<Rightarrow> nat list \<Rightarrow> 's \<Rightarrow> u8 list \<times> 's" where
  "read_seq rd [] s = ([], s)"
| "read_seq rd (n # ns) s =
     (let (bs, s) = rd n s; (cs, s) = read_seq rd ns s in (bs @ cs, s))"

text \<open>The contract of a sequential reader: a read of at most \<open>cap\<close> bytes delivers the next
  bytes of a fixed content and advances past exactly what it delivered.\<close>

locale stream_source =
  fixes content :: "'s \<Rightarrow> u8 list" and pos :: "'s \<Rightarrow> nat" and ok :: "'s \<Rightarrow> bool"
    and cap :: nat and rd :: "nat \<Rightarrow> 's \<Rightarrow> u8 list \<times> 's"
  assumes rd_bytes: "ok s \<Longrightarrow> n \<le> cap \<Longrightarrow> fst (rd n s) = take n (drop (pos s) (content s))"
    and rd_keeps: "ok s \<Longrightarrow> n \<le> cap \<Longrightarrow> ok (snd (rd n s)) \<and> content (snd (rd n s)) = content s"
    and rd_pos: "ok s \<Longrightarrow> n \<le> cap \<Longrightarrow> pos (snd (rd n s)) = pos s + length (fst (rd n s))"
begin

lemma read_seq_bytes:
  "ok s \<Longrightarrow> \<forall>n \<in> set ns. n \<le> cap \<Longrightarrow> fst (read_seq rd ns s) = take (sum_list ns) (drop (pos s) (content s))"
proof (induction ns arbitrary: s)
  case (Cons n ns)
  have n: "n \<le> cap" using Cons.prems(2) by simp
  let ?xs = "drop (pos s) (content s)"
  have IH: "fst (read_seq rd ns (snd (rd n s))) = take (sum_list ns) (drop (length (take n ?xs)) ?xs)"
    using Cons.IH[of "snd (rd n s)"] Cons.prems rd_keeps[OF Cons.prems(1) n] rd_pos[OF Cons.prems(1) n]
      rd_bytes[OF Cons.prems(1) n] by (simp add: add.commute)
  have "take n ?xs @ take (sum_list ns) (drop (length (take n ?xs)) ?xs) = take (n + sum_list ns) ?xs"
    by (cases "n \<le> length ?xs") (simp_all add: take_add)
  then show ?case
    using IH rd_bytes[OF Cons.prems(1) n] by (simp add: case_prod_beta Let_def)
qed simp

lemma empty_iff_end: "ok s \<Longrightarrow> 0 < n \<Longrightarrow> n \<le> cap \<Longrightarrow> fst (rd n s) = [] \<longleftrightarrow> length (content s) \<le> pos s"
  by (simp add: rd_bytes)

end

text \<open>A descriptor of a regular file read into the buffer at \<open>buf\<close>.\<close>

definition file_stream_rd :: "filesys \<Rightarrow> u32 \<Rightarrow> nat \<Rightarrow> mem \<times> file_t \<Rightarrow> u8 list \<times> mem \<times> file_t" where
  "file_stream_rd fs buf n s =
     (let (m, f, r) = file_read fs (fst s) (snd s) buf (of_nat n)
      in (map (arr m buf) [0..<unat r], m, f))"

definition file_stream_ok :: "filesys \<Rightarrow> u32 \<Rightarrow> nat \<Rightarrow> mem \<times> file_t \<Rightarrow> bool" where
  "file_stream_ok fs buf cap s \<longleftrightarrow> wf_fs fs (fst s) \<and> file_ok fs (fst s) (f_inode (snd s)) \<and>
     data_valid fs (fst s) (f_inode (snd s)) \<and> buf \<noteq> 0 \<and> buf_ok fs (fst s) buf cap \<and> cap < 2 ^ 32"

lemma agree_data_valid:
  assumes "fs_agree fs m m'" and "wf_fs fs m" and "file_ok fs m inode"
  shows "data_valid fs m' inode = data_valid fs m inode"
proof -
  have ino: "inode < n_inodes fs m" and len: "file_len fs m inode \<le> 1023 * 4096" using assms(3) by (auto simp: file_ok_def)
  have "file_block fs m' inode j = file_block fs m inode j" if "j * 4096 < file_len fs m inode" for j
    using that len by (intro agree_file(2)[OF assms(1,2) ino]) simp
  then show ?thesis
    using agree_file(1)[OF assms(1,2) ino] agree_header[OF assms(1)] by (simp add: data_valid_def blocks_ok_def)
qed

lemma agree_file_bytes:
  assumes "fs_agree fs m m'" and "wf_fs fs m" and "file_ok fs m inode" and "data_valid fs m inode"
  shows "file_bytes fs m' inode = file_bytes fs m inode"
  using agree_file(1)[OF assms(1,2)] agree_file_byte[OF assms(1-3)] data_valid_block[OF assms(4)] assms(3)
  by (auto simp: file_bytes_def file_ok_def)

lemma file_read_valid:
  assumes "file_stream_ok fs buf cap (m, f)" and "n \<le> cap"
  defines "k \<equiv> min n (file_len fs m (f_inode f) - unat (position f))"
  shows "file_read fs m f buf (of_nat n) =
    (blit m buf (\<lambda>i. file_byte fs m (f_inode f) (unat (position f) + i)) k, f\<lparr> position := position f + of_nat k \<rparr>, of_nat k)"
    and "k \<le> 1023 * 4096" and "unat (position f + of_nat k) = unat (position f) + k"
proof -
  have n: "unat (of_nat n :: u32) = n" using assms by (auto simp: file_stream_ok_def intro: unat_of_nat_32)
  show k: "k \<le> 1023 * 4096" using assms by (auto simp: file_stream_ok_def file_ok_def k_def)
  have "(of_nat k :: u32) \<noteq> -1"
  proof
    assume "(of_nat k :: u32) = -1"
    then have "unat (of_nat k :: u32) = unat (-1 :: u32)" by simp
    with k show False by (simp add: unat_of_nat_32 unat_neg1_32)
  qed
  then show "file_read fs m f buf (of_nat n) =
    (blit m buf (\<lambda>i. file_byte fs m (f_inode f) (unat (position f) + i)) k, f\<lparr> position := position f + of_nat k \<rparr>, of_nat k)"
    using assms buf_ok_mono[of fs m buf cap n]
    by (simp add: file_read_def file_stream_ok_def read_data_valid n k_def)
  have "unat (position f) + k < 4294967296"
    using unat_less_32[of "inode_length fs m (f_inode f)"] unat_less_32[of "position f"]
    by (cases "k = 0") (auto simp: k_def file_len_def)
  then show "unat (position f + of_nat k) = unat (position f) + k"
    using k by (simp add: unat_word_ariths unat_of_nat_32)
qed

lemma file_stream_step:
  assumes "file_stream_ok fs buf cap (m, f)" and "n \<le> cap"
  shows "fst (file_stream_rd fs buf n (m, f)) = take n (drop (unat (position f)) (file_bytes fs m (f_inode f)))"
    and "file_stream_ok fs buf cap (snd (file_stream_rd fs buf n (m, f)))"
    and "file_bytes fs (fst (snd (file_stream_rd fs buf n (m, f)))) (f_inode (snd (snd (file_stream_rd fs buf n (m, f))))) =
      file_bytes fs m (f_inode f)"
    and "unat (position (snd (snd (file_stream_rd fs buf n (m, f))))) =
      unat (position f) + length (fst (file_stream_rd fs buf n (m, f)))"
proof -
  define k where "k = min n (file_len fs m (f_inode f) - unat (position f))"
  define m' where "m' = blit m buf (\<lambda>i. file_byte fs m (f_inode f) (unat (position f) + i)) k"
  note fr = file_read_valid[OF assms, folded k_def, folded m'_def]
  have u: "unat (of_nat k :: u32) = k" using fr(2) by (simp add: unat_of_nat_32)
  have rd: "file_stream_rd fs buf n (m, f) = (map (arr m' buf) [0..<k], m', f\<lparr> position := position f + of_nat k \<rparr>)"
    by (simp add: file_stream_rd_def fr(1) u)
  have ok: "wf_fs fs m" "file_ok fs m (f_inode f)" "data_valid fs m (f_inode f)" "buf_ok fs m buf k"
    using assms by (auto simp: file_stream_ok_def k_def intro: buf_ok_mono)
  have a: "fs_agree fs m m'" unfolding m'_def using ok(4) by (rule blit_agree)
  have "map (arr m' buf) [0..<k] = take n (drop (unat (position f)) (file_bytes fs m (f_inode f)))"
    using fr(2) by (intro nth_equalityI) (auto simp: m'_def arr_blit_same file_bytes_def k_def)
  then show "fst (file_stream_rd fs buf n (m, f)) = take n (drop (unat (position f)) (file_bytes fs m (f_inode f)))"
    by (simp add: rd)
  show "file_stream_ok fs buf cap (snd (file_stream_rd fs buf n (m, f)))"
    using assms(1) wf_fs_agree[OF a] agree_file_ok[OF a ok(1,2)] agree_data_valid[OF a ok(1,2)] buf_ok_agree[OF a]
    by (simp add: rd file_stream_ok_def)
  show "file_bytes fs (fst (snd (file_stream_rd fs buf n (m, f)))) (f_inode (snd (snd (file_stream_rd fs buf n (m, f))))) =
      file_bytes fs m (f_inode f)"
    using agree_file_bytes[OF a ok(1-3)] by (simp add: rd)
  show "unat (position (snd (snd (file_stream_rd fs buf n (m, f))))) =
      unat (position f) + length (fst (file_stream_rd fs buf n (m, f)))"
    using fr(3) by (simp add: rd)
qed

interpretation file_stream: stream_source
  "\<lambda>s. file_bytes fs (fst s) (f_inode (snd s))" "\<lambda>s. unat (position (snd s))"
  "file_stream_ok fs buf cap" cap "file_stream_rd fs buf"
  for fs buf cap
  by unfold_locales (auto simp: file_stream_step)

text \<open>Reading a regular file through a descriptor in any sequence of chunk sizes
  delivers consecutive bytes of the file from the descriptor's position, without gap or
  repetition, until its end.\<close>

theorem sequential_reads_deliver_file:
  assumes "file_stream_ok fs buf cap (m, f)" and "\<forall>n \<in> set ns. n \<le> cap"
  shows "fst (read_seq (file_stream_rd fs buf) ns (m, f)) =
    take (sum_list ns) (drop (unat (position f)) (file_bytes fs m (f_inode f)))"
  using file_stream.read_seq_bytes[OF assms] by simp

text \<open>A read of at least one byte through a descriptor returns 0 exactly at the end of
  the file, so a loop that reads until 0 has read all of it.\<close>

theorem read_zero_iff_end_of_file:
  assumes "file_stream_ok fs buf cap (m, f)" and "0 < n" and "n \<le> cap"
  shows "fst (file_stream_rd fs buf n (m, f)) = [] \<longleftrightarrow> file_len fs m (f_inode f) \<le> unat (position f)"
  using file_stream.empty_iff_end[OF assms] by (simp add: file_bytes_def)

section \<open>Directory enumeration\<close>

lemma copy_ok_dentry:
  assumes "buf_ok fs m buf k" and "0 < k" and "i < MAX_DENTRIES" and "n \<le> 64"
  shows "copy_ok buf (dentry_addr fs i) n"
proof (rule ccontr)
  assume "\<not> copy_ok buf (dentry_addr fs i) n"
  then have l: "unat (buf - dentry_addr fs i) < 64" using assms(4) by (auto simp: copy_ok_def)
  define d where "d = 64 + 64 * unat i + unat (buf - dentry_addr fs i)"
  have "buf = bootblock fs + of_nat d" by (simp add: dentry_addr_def d_def)
  moreover have "d < 4096" using l assms(3) by (simp add: d_def word_less_nat_alt)
  ultimately show False using assms(1,2) fs_addr_boot[of d fs m] by (auto simp: buf_ok_def)
qed

lemma dir_read_entry:
  assumes "dirs_read fs < n_dentries fs m" and "dirs_read fs < MAX_DENTRIES"
    and "length (dentry_name (dentries fs m (dirs_read fs))) < 32" and "buf_ok fs m buf 32"
  shows "dir_read fs m f buf nbytes =
    (let s = dentry_name (dentries fs m (dirs_read fs))
     in (fs\<lparr> dirs_read := dirs_read fs + 1 \<rparr>, wr m buf (s @ [0]), of_nat (length s + 1)))"
proof -
  let ?name = "arr m (dentry_addr fs (dirs_read fs))" and ?s = "dentry_name (dentries fs m (dirs_read fs))"
  have k: "name_key ?name = ?s"
    using assms(3) by (subst name_key_dentry) auto
  have l: "name_len ?name 0 = length ?s" by (simp add: name_len_key k)
  have u: "unat (of_nat (length ?s) :: u32) = length ?s" using assms(3) by (simp add: unat_of_nat_32)
  have "strncpy m buf (dentry_addr fs (dirs_read fs)) (of_nat (length ?s)) = blit m buf (until_NUL ?name) (length ?s)"
    using copy_ok_dentry[OF assms(4) _ assms(2)] assms(3) u by (subst strncpy_blit) auto
  also have "\<dots> = wr m buf ?s"
    unfolding wr_def
  proof (rule blit_cong)
    fix i assume "i < length ?s"
    then show "until_NUL ?name i = ?s ! i"
      using name_key_nth[of _ ?name] by (auto simp: until_NUL_def k dest: le_less_trans)
  qed
  finally have cpy: "strncpy m buf (dentry_addr fs (dirs_read fs)) (of_nat (length ?s)) = wr m buf ?s" .
  have "(wr m buf ?s)(buf + of_nat (length ?s) := 0) = wr m buf (?s @ [0])"
    using wr_append[of ?s "[0]" m buf] assms(3) by (simp add: wr_single)
  then show ?thesis
    using assms(1,3) by (auto simp: dir_read_def Let_def l cpy)
qed

text \<open>The names that \<open>k\<close> successive directory reads deliver (the first \<open>ret\<close> bytes of
  the buffer after each).\<close>

fun dir_reads :: "file_t \<Rightarrow> u32 \<Rightarrow> i32 \<Rightarrow> nat \<Rightarrow> filesys \<times> mem \<Rightarrow> u8 list list" where
  "dir_reads f buf nbytes 0 s = []"
| "dir_reads f buf nbytes (Suc k) s =
     (let (fs, m, r) = dir_read (fst s) (snd s) f buf nbytes
      in map (arr m buf) [0..<unat r] # dir_reads f buf nbytes k (fs, m))"

lemma dirs_read_upd_fields [simp]:
  "n_dentries (fs\<lparr> dirs_read := x \<rparr>) m = n_dentries fs m" "n_inodes (fs\<lparr> dirs_read := x \<rparr>) m = n_inodes fs m"
  "n_datablocks (fs\<lparr> dirs_read := x \<rparr>) m = n_datablocks fs m"
  "dentry_addr (fs\<lparr> dirs_read := x \<rparr>) i = dentry_addr fs i" "dentries (fs\<lparr> dirs_read := x \<rparr>) m i = dentries fs m i"
  "fs_addr (fs\<lparr> dirs_read := x \<rparr>) m a = fs_addr fs m a" "buf_ok (fs\<lparr> dirs_read := x \<rparr>) m b n = buf_ok fs m b n"
  by (simp_all add: n_dentries_def n_inodes_def n_datablocks_def dentry_addr_def dentries_def fs_addr_def buf_ok_def)

lemma wr_agree: "buf_ok fs m buf n \<Longrightarrow> length xs \<le> n \<Longrightarrow> fs_agree fs m (wr m buf xs)"
  unfolding wr_def by (intro blit_agree) (rule buf_ok_mono)

lemma dir_reads_names:
  assumes "n_dentries fs m \<le> MAX_DENTRIES" and "buf_ok fs m buf 32"
    and "\<forall>i < n_dentries fs m. length (dentry_name (dentries fs m i)) < 32"
  shows "unat (dirs_read fs) + k = unat (n_dentries fs m) \<Longrightarrow>
    dir_reads f buf nbytes (Suc k) (fs, m) =
      map (\<lambda>i. dentry_name (dentries fs m (of_nat i)) @ [0]) [unat (dirs_read fs)..<unat (n_dentries fs m)] @ [[]]"
  using assms
proof (induction k arbitrary: fs m)
  case 0
  then have "dirs_read fs = n_dentries fs m" by (simp add: word_unat_eq_iff)
  then show ?case by (simp add: dir_read_def)
next
  case (Suc k)
  let ?d = "dirs_read fs" and ?N = "n_dentries fs m"
  have d: "?d < ?N" using Suc.prems(1) by (simp add: word_less_nat_alt)
  then have d63: "?d < 63" using Suc.prems(2) by simp
  define s where "s = dentry_name (dentries fs m ?d)"
  define m' where "m' = wr m buf (s @ [0])"
  define fs' where "fs' = fs\<lparr> dirs_read := ?d + 1 \<rparr>"
  have l: "length s < 32" using Suc.prems(4) d by (simp add: s_def)
  have rd: "dir_read fs m f buf nbytes = (fs', m', of_nat (length s + 1))"
    using dir_read_entry[OF d d63 _ Suc.prems(3)] l by (simp add: Let_def s_def m'_def fs'_def)
  have a: "fs_agree fs m m'" unfolding m'_def using Suc.prems(3) l by (intro wr_agree) auto
  have same: "n_dentries fs' m' = ?N" "\<And>i. i < 63 \<Longrightarrow> dentries fs' m' i = dentries fs m i" "buf_ok fs' m' buf 32"
    using agree_header[OF a] agree_dentries[OF a] buf_ok_agree[OF a] Suc.prems(3) by (simp_all add: fs'_def)
  have d1: "dirs_read fs' = ?d + 1" "unat (?d + 1) = Suc (unat ?d)" by (simp_all add: fs'_def unat_Suc_less[OF d63])
  have "dir_reads f buf nbytes (Suc k) (fs', m') =
      map (\<lambda>i. dentry_name (dentries fs' m' (of_nat i)) @ [0]) [Suc (unat ?d)..<unat ?N] @ [[]]"
    using Suc.IH[of fs' m'] Suc.prems same d1 by (simp add: order.strict_trans2)
  also have "\<dots> = map (\<lambda>i. dentry_name (dentries fs m (of_nat i)) @ [0]) [Suc (unat ?d)..<unat ?N] @ [[]]"
    using same(2) Suc.prems(2) by (auto simp: word_less_nat_alt word_le_nat_alt unat_of_nat_32)
  finally have rest: "dir_reads f buf nbytes (Suc k) (fs', m') = \<dots>" .
  have "map (arr m' buf) [0..<length s + 1] = s @ [0]"
    using l by (intro nth_equalityI) (auto simp: m'_def arr_wr simp del: upt_Suc)
  moreover have "[unat ?d..<unat ?N] = unat ?d # [Suc (unat ?d)..<unat ?N]"
    using d by (intro upt_conv_Cons) (simp add: word_less_nat_alt)
  moreover have "unat (of_nat (length s + 1) :: u32) = length s + 1" using l by (intro unat_of_nat_32) simp
  ultimately show ?case
    using rest by (simp only: dir_reads.simps(2)[of f buf nbytes "Suc k"] rd fst_conv snd_conv Let_def split_conv)
      (simp add: s_def)
qed

text \<open>From a fresh directory (\<open>dirs_read = 0\<close>), directory reads deliver the name of every
  entry in order, each followed by its NUL, and then report the end with 0.\<close>

theorem directory_enumeration:
  assumes "n_dentries fs m \<le> MAX_DENTRIES" and "buf_ok fs m buf 32"
    and "\<forall>i < n_dentries fs m. length (dentry_name (dentries fs m i)) < 32" and "dirs_read fs = 0"
  shows "dir_reads f buf nbytes (Suc (unat (n_dentries fs m))) (fs, m) =
    map (\<lambda>i. dentry_name (dentries fs m (of_nat i)) @ [0]) [0..<unat (n_dentries fs m)] @ [[]]"
  using dir_reads_names[OF assms(1-3), of "unat (n_dentries fs m)"] assms(4) by simp

text \<open>For an entry with a 32-character name and a nonzero type, \<open>dir_read\<close> writes 33
  bytes, the low byte of the type after the name and no NUL, and returns 33, whatever
  \<open>nbytes\<close> allows (the comment says that 32 bytes are copied).\<close>

theorem dir_read_full_length_name:
  assumes "dirs_read fs < n_dentries fs m" and "dirs_read fs < MAX_DENTRIES" and "buf_ok fs m buf 33"
    and "length (dentry_name (dentries fs m (dirs_read fs))) = 32"
    and "ucast (d_type (dentries fs m (dirs_read fs))) \<noteq> (0 :: u8)"
  shows "dir_read fs m f buf nbytes =
    (fs\<lparr> dirs_read := dirs_read fs + 1 \<rparr>,
     wr m buf (dentry_name (dentries fs m (dirs_read fs)) @ [ucast (d_type (dentries fs m (dirs_read fs)))]), 33)"
proof -
  let ?name = "arr m (dentry_addr fs (dirs_read fs))"
  let ?s = "dentry_name (dentries fs m (dirs_read fs)) @ [?name 32]"
  have k: "name_key ?name = ?s"
    using before_NUL_Suc[of 32 ?name] assms(4,5) by (simp add: name_key_def dentry_name_key low_byte_type)
  have l: "name_len ?name 0 = 33" using assms(4) by (simp add: name_len_key k)
  have "strncpy m buf (dentry_addr fs (dirs_read fs)) 33 = blit m buf (until_NUL ?name) 33"
    using copy_ok_dentry[OF assms(3) _ assms(2)] by (subst strncpy_blit) auto
  also have "\<dots> = blit m buf ((!) ?s) 33"
  proof (rule blit_cong)
    fix i :: nat assume "i < 33"
    then show "until_NUL ?name i = ?s ! i"
      using name_key_nth[of _ ?name] l[unfolded name_len_key]
      by (auto simp: until_NUL_def simp flip: k)
  qed
  also have "\<dots> = wr m buf ?s" using assms(4) by (simp add: wr_def)
  finally have "strncpy m buf (dentry_addr fs (dirs_read fs)) 33 = wr m buf ?s" .
  then show ?thesis using assms(1) by (auto simp: dir_read_def Let_def l low_byte_type)
qed

section \<open>Loading a file (fs_copy) and initialisation\<close>

lemma fs_copy_loop_blit:
  assumes "copy_ok loc buf n" and "n < 2 ^ 31"
  shows "i \<le> n \<Longrightarrow> fs_copy_loop (blit m loc (arr m buf) i) loc buf (int i) (int n) = blit m loc (arr m buf) n"
proof (induction "n - i" arbitrary: i)
  case 0
  then show ?case by (subst fs_copy_loop.simps) simp
next
  case (Suc d)
  let ?m = "blit m loc (arr m buf) i"
  have i: "i < n" using Suc.hyps(2) by simp
  have "?m (buf + of_nat i) = arr m buf i"
    using arr_after_prefix[OF assms(1), of i i m] i assms(2) by (simp add: arr_def)
  moreover have "?m(loc + of_nat i := arr m buf i) = blit m loc (arr m buf) (Suc i)"
    using blit_next[of i m loc "arr m buf"] i assms(2) by (simp del: fun_upd_apply)
  ultimately have "fs_copy_loop ?m loc buf (int i) (int n) =
      fs_copy_loop (blit m loc (arr m buf) (Suc i)) loc buf (int (Suc i)) (int n)"
    using i by (subst fs_copy_loop.simps) (simp add: add.commute[of 1] del: fun_upd_apply)
  then show ?case using Suc.hyps(1)[of "Suc i"] Suc.hyps(2) i by simp
qed

lemma sint_of_nat_small: "n < 2 ^ 31 \<Longrightarrow> sint (of_nat n :: u32) = int n"
proof -
  assume n: "n < 2 ^ 31"
  have "sint (of_nat n :: u32) = signed_take_bit 31 (int n)" using sint_sbintrunc'[of "int n", where 'a = 32] by simp
  also have "\<dots> = int n" using n by (intro signed_take_bit_int_eq_self) auto
  finally show ?thesis .
qed

lemma fs_copy_file:
  assumes "fname \<noteq> 0" and "mem_location \<noteq> 0" and "buf \<noteq> 0"
    and "read_dentry_by_name fs m fname (Some local_dentry) = (0, Some d)"
    and "wf_fs fs m" and "file_ok fs m (d_inode d)" and "data_valid fs m (d_inode d)"
    and "buf_ok fs m buf (file_len fs m (d_inode d))" and "copy_ok mem_location buf (file_len fs m (d_inode d))"
  shows "snd (fs_copy fs m buf fname mem_location) = 0"
    and "i < file_len fs m (d_inode d) \<Longrightarrow>
      arr (fst (fs_copy fs m buf fname mem_location)) mem_location i = file_byte fs m (d_inode d) i"
    and "file_len fs m (d_inode d) \<le> unat (a - mem_location) \<Longrightarrow> file_len fs m (d_inode d) \<le> unat (a - buf) \<Longrightarrow>
      fst (fs_copy fs m buf fname mem_location) a = m a"
proof -
  let ?n = "file_len fs m (d_inode d)" and ?F = "file_byte fs m (d_inode d)"
  let ?m = "blit m buf ?F ?n"
  have n: "?n \<le> 1023 * 4096" using assms(6) by (simp add: file_ok_def)
  have rd: "read_data fs m (d_inode d) 0 buf (inode_length fs m (d_inode d)) = (?m, of_nat ?n)"
    using read_data_valid[OF assms(5-7,3), of "inode_length fs m (d_inode d)" 0] assms(8) by (simp add: file_len_def)
  have "(of_nat ?n :: u32) \<noteq> -1"
  proof
    assume "(of_nat ?n :: u32) = -1"
    then have "unat (of_nat ?n :: u32) = 4294967295" by (simp only: unat_neg1_32)
    with n show False by (simp add: unat_of_nat_32)
  qed
  then have "fs_copy fs m buf fname mem_location = (fs_copy_loop ?m mem_location buf 0 (int ?n), 0)"
    using assms(1,2,4) n by (simp add: fs_copy_def rd sint_of_nat_small Let_def)
  also have "\<dots> = (blit ?m mem_location (arr ?m buf) ?n, 0)"
    using fs_copy_loop_blit[OF assms(9), of 0 ?m] n by simp
  finally have r: "fs_copy fs m buf fname mem_location = (blit ?m mem_location (arr ?m buf) ?n, 0)" .
  show "snd (fs_copy fs m buf fname mem_location) = 0" by (simp add: r)
  show "i < ?n \<Longrightarrow> arr (fst (fs_copy fs m buf fname mem_location)) mem_location i = ?F i"
    using n by (simp add: r arr_blit_same)
  show "?n \<le> unat (a - mem_location) \<Longrightarrow> ?n \<le> unat (a - buf) \<Longrightarrow> fst (fs_copy fs m buf fname mem_location) a = m a"
    by (simp add: r blit_arr_other)
qed

text \<open>When the name is found and the file is sound, \<open>fs_copy\<close> returns 0 and leaves the
  whole file at \<open>mem_location\<close>; besides that area only its stack buffer changes.\<close>

theorem fs_copy_loads_file:
  assumes "fname \<noteq> 0" and "mem_location \<noteq> 0" and "buf \<noteq> 0"
    and "read_dentry_by_name fs m fname (Some local_dentry) = (0, Some d)"
    and "wf_fs fs m" and "file_ok fs m (d_inode d)" and "data_valid fs m (d_inode d)"
    and "buf_ok fs m buf (file_len fs m (d_inode d))" and "copy_ok mem_location buf (file_len fs m (d_inode d))"
  shows "snd (fs_copy fs m buf fname mem_location) = 0 \<and>
    (\<forall>i < file_len fs m (d_inode d).
       arr (fst (fs_copy fs m buf fname mem_location)) mem_location i = file_byte fs m (d_inode d) i) \<and>
    (\<forall>a. file_len fs m (d_inode d) \<le> unat (a - mem_location) \<and> file_len fs m (d_inode d) \<le> unat (a - buf) \<longrightarrow>
       fst (fs_copy fs m buf fname mem_location) a = m a)"
  using fs_copy_file[OF assms] by blast

text \<open>C38: \<open>fs_init\<close> on an image whose header is sane establishes the invariant of the file
  system, with the directory entries of the image.\<close>

theorem fs_init_establishes_invariant:
  assumes "rd32 m start \<le> MAX_DENTRIES"
    and "4096 * (unat (rd32 m (start + 4)) + unat (rd32 m (start + 8))) < 2 ^ 32"
    and "fs_init fs m start en = (fs', m', r)"
  shows "r = 0 \<and> wf_fs fs' m' \<and> n_dentries fs' m' = rd32 m start \<and>
    (\<forall>i < MAX_DENTRIES. dentries fs' m' i = dentries (fs\<lparr> bootblock := start \<rparr>) m i)"
proof -
  have m': "m' = blit m (bootblock fs) (arr m start) 4096" and bb: "bootblock fs' = bootblock fs"
    and i: "inodes fs' = start + FS_BLOCK_SIZE" and r: "r = 0"
    using assms(3) by (auto simp: fs_init_def Let_def)
  have rd: "arr m' (bootblock fs + of_nat k) j = arr m (start + of_nat k) j" if "k + j < 4096" for k j
    using that by (simp add: m' arr_add arr_blit_same)
  have rd32: "rd32 m' (bootblock fs + of_nat k) = rd32 m (start + of_nat k)" if "k + 4 \<le> 4096" for k
    unfolding rd32_def using that rd by (intro le32_cong) (simp add: arr_def)
  have h: "n_dentries fs' m' = rd32 m start" "n_inodes fs' m' = rd32 m (start + 4)" "n_datablocks fs' m' = rd32 m (start + 8)"
    using rd32[of 0] rd32[of 4] rd32[of 8] by (simp_all add: n_dentries_def n_inodes_def n_datablocks_def bb)
  have "FS_DATA_START fs' = start + FS_BLOCK_SIZE + n_inodes fs' m' * FS_BLOCK_SIZE"
    using assms(3) by (auto simp: fs_init_def Let_def n_inodes_def)
  moreover have "dentries fs' m' i = dentries (fs\<lparr> bootblock := start \<rparr>) m i" if "i < MAX_DENTRIES" for i
  proof -
    let ?k = "64 + 64 * unat i"
    have k: "?k + 64 \<le> 4096" using that by (simp add: word_less_nat_alt)
    have a: "dentry_addr fs' i = bootblock fs + of_nat ?k" "dentry_addr (fs\<lparr> bootblock := start \<rparr>) i = start + of_nat ?k"
      by (simp_all add: dentry_addr_def bb)
    show ?thesis
      using rd[of ?k] rd32[of "?k + 32"] rd32[of "?k + 36"] k by (simp add: dentries_def a[simplified] add.assoc)
  qed
  ultimately show ?thesis using assms(1,2) by (simp add: wf_fs_def h i r)
qed

section \<open>A concrete image\<close>

text \<open>An image with one entry, the regular file \<open>a\<close> of three bytes in data block 0; the
  string \<open>a\<close> is also at 0x5000.\<close>

definition demo_fs :: filesys where
  "demo_fs = \<lparr> FILESYS_START = 0x400000, FILESYS_END = 0x403000, bootblock = 0x1000,
     inodes = 0x401000, FS_DATA_START = 0x402000, dirs_read = 0 \<rparr>"

definition demo_mem :: mem where
  "demo_mem = (\<lambda>_. 0)(0x1000 := 1, 0x1004 := 1, 0x1008 := 1, 0x1040 := 97, 0x1060 := 2,
     0x401000 := 3, 0x402000 := 72, 0x402001 := 105, 0x402002 := 10, 0x5000 := 97)"

definition demo_file :: file_t where
  "demo_file = \<lparr> jumptable = Fs_jumptable, f_inode = 0, position = 0, filetype = 2,
     flags = \<lparr> in_use = True, read_only = False, write_only = False \<rparr> \<rparr>"

lemma buf_okI:
  assumes "4096 \<le> unat (buf - bootblock fs)" and "unat (buf - bootblock fs) + n \<le> 2 ^ 32"
    and "4096 * (unat (n_inodes fs m) + unat (n_datablocks fs m)) \<le> unat (buf - inodes fs)"
    and "unat (buf - inodes fs) + n \<le> 2 ^ 32"
  shows "buf_ok fs m buf n"
proof -
  have far: "unat (buf + of_nat k - base) = unat (buf - base) + k" if "unat (buf - base) + n \<le> 2 ^ 32" "k < n" for base k
  proof -
    have "buf + of_nat k - base = of_nat (unat (buf - base) + k)" by simp
    moreover have "unat (buf - base) + k < 4294967296" using that by simp
    ultimately show ?thesis by (simp only: unat_of_nat_32)
  qed
  show ?thesis using assms far by (simp add: buf_ok_def fs_addr_def)
qed

lemma demo_header:
  "n_dentries demo_fs demo_mem = 1" "n_inodes demo_fs demo_mem = 1" "n_datablocks demo_fs demo_mem = 1"
  "dirs_read demo_fs = 0" "inode_length demo_fs demo_mem 0 = 3" "datablocks demo_fs demo_mem 0 0 = 0"
  by (simp_all add: n_dentries_def n_inodes_def n_datablocks_def inode_length_def datablocks_def
      demo_fs_def demo_mem_def rd32_def le32_def)

lemma demo_ok:
  "wf_fs demo_fs demo_mem" "file_ok demo_fs demo_mem 0" "data_valid demo_fs demo_mem 0"
  "file_len demo_fs demo_mem 0 = 3" "n \<le> 64 \<Longrightarrow> buf_ok demo_fs demo_mem 0x8000 n"
proof -
  show l: "file_len demo_fs demo_mem 0 = 3" by (simp add: file_len_def demo_header)
  show "wf_fs demo_fs demo_mem" by (simp add: wf_fs_def demo_header) (simp add: demo_fs_def)
  show "file_ok demo_fs demo_mem 0" by (simp add: file_ok_def l demo_header)
  have "file_block demo_fs demo_mem 0 j = 0" if "j * 4096 < 3" for j
    using that by (cases j) (simp_all add: file_block_def demo_header)
  then show "data_valid demo_fs demo_mem 0"
    by (simp add: data_valid_def blocks_ok_def l demo_header)
  show "n \<le> 64 \<Longrightarrow> buf_ok demo_fs demo_mem 0x8000 n"
    by (rule buf_okI) (simp_all add: demo_header, simp_all add: demo_fs_def)
qed

lemma demo_name: "dentry_name (dentries demo_fs demo_mem 0) = [97]"
  "cstr_at demo_mem 0x5000 [97]" "d_inode (dentries demo_fs demo_mem 0) = 0"
proof -
  show "dentry_name (dentries demo_fs demo_mem 0) = [97]" unfolding dentry_name_key
    by (rule before_NUL_eqI) (auto simp: arr_def dentry_addr_def demo_fs_def demo_mem_def)
  show "cstr_at demo_mem 0x5000 [97]"
    by (auto simp: cstr_at_def wf_cstring_def arr_def cs_def demo_mem_def le_Suc_eq)
  show "d_inode (dentries demo_fs demo_mem 0) = 0"
    by (simp add: dentries_def dentry_addr_def demo_fs_def demo_mem_def rd32_def le32_def)
qed

theorem lookup_by_name_witness:
  "cstr_at demo_mem 0x5000 [97] \<and>
   read_dentry_by_name demo_fs demo_mem 0x5000 (Some local_dentry) = (0, Some (dentries demo_fs demo_mem 0))"
proof -
  have "\<forall>i < (1 :: u32). i = 0" by (simp add: word_less_nat_alt unat_eq_0)
  then show ?thesis
    using lookup_by_name[OF demo_name(2), of demo_fs local_dentry] demo_name
    by (fastforce simp: demo_header)
qed

theorem read_data_correct_witness:
  "wf_fs demo_fs demo_mem \<and> file_ok demo_fs demo_mem 0 \<and> data_valid demo_fs demo_mem 0 \<and>
   buf_ok demo_fs demo_mem 0x8000 (unat (10 :: u32)) \<and>
   snd (read_data demo_fs demo_mem 0 1 0x8000 10) = 2 \<and>
   fst (read_data demo_fs demo_mem 0 1 0x8000 10) 0x8000 = 105"
  using demo_ok read_data_correct[OF demo_ok(1-3), of "0x8000" 10 1]
  by (simp add: blit_def file_byte_def file_block_def demo_header arr_def) (simp add: demo_fs_def demo_mem_def)

theorem read_data_errors_witness:
  "read_data demo_fs demo_mem 0 0 0 5 = (demo_mem, -1) \<and>
   read_data demo_fs demo_mem 1 0 0x8000 5 = (demo_mem, -1) \<and>
   read_data demo_fs demo_mem 0 3 0x8000 5 = (demo_mem, 0)"
  using read_data_errors[of 0 demo_fs demo_mem 0 0 5 0] read_data_errors[of "0x8000" demo_fs demo_mem 1 0 5 0]
    read_data_errors[of "0x8000" demo_fs demo_mem 0 3 5 0]
  by (simp add: demo_header demo_ok)

lemma demo_stream: "file_stream_ok demo_fs 0x8000 64 (demo_mem, demo_file)"
  by (simp add: file_stream_ok_def demo_ok demo_file_def)

lemma demo_bytes: "file_bytes demo_fs demo_mem 0 = [72, 105, 10]"
  unfolding file_bytes_def demo_ok
  by (simp add: upt_rec file_byte_def file_block_def demo_header arr_def) (simp add: demo_fs_def demo_mem_def)

theorem sequential_reads_deliver_file_witness:
  "file_stream_ok demo_fs 0x8000 64 (demo_mem, demo_file) \<and>
   fst (read_seq (file_stream_rd demo_fs 0x8000) [2, 5] (demo_mem, demo_file)) = [72, 105, 10]"
  using sequential_reads_deliver_file[OF demo_stream, of "[2, 5]"] demo_stream
  by (simp add: demo_bytes demo_file_def)

theorem read_zero_iff_end_of_file_witness:
  "file_stream_ok demo_fs 0x8000 64 (demo_mem, demo_file) \<and>
   fst (file_stream_rd demo_fs 0x8000 4 (demo_mem, demo_file)) \<noteq> []"
  using read_zero_iff_end_of_file[OF demo_stream, of 4] demo_stream by (simp add: demo_ok demo_file_def)

theorem directory_enumeration_witness:
  "buf_ok demo_fs demo_mem 0x8000 32 \<and>
   dir_reads demo_file 0x8000 32 2 (demo_fs, demo_mem) = [[97, 0], []]"
proof -
  have "\<forall>i < (1 :: u32). i = 0" by (simp add: word_less_nat_alt unat_eq_0)
  then have "\<forall>i < n_dentries demo_fs demo_mem. length (dentry_name (dentries demo_fs demo_mem i)) < 32"
    using demo_name(1) by (auto simp: demo_header)
  moreover have "(1 :: u32) \<le> 63" by (simp add: word_le_nat_alt)
  ultimately show ?thesis
    using directory_enumeration[of demo_fs demo_mem "0x8000" demo_file 32] demo_ok(5)[of 32] demo_name(1)
    by (simp add: demo_header numeral_2_eq_2)
qed

definition demo_image :: mem where
  "demo_image = (\<lambda>_. 0)(0x400000 := 1, 0x400004 := 1, 0x400008 := 1, 0x400040 := 97)"

theorem fs_init_establishes_invariant_witness:
  "case fs_init demo_fs demo_image 0x400000 0x403000 of
     (fs, m, r) \<Rightarrow> r = 0 \<and> wf_fs fs m \<and> n_dentries fs m = 1"
proof -
  obtain fs m r where i: "fs_init demo_fs demo_image 0x400000 0x403000 = (fs, m, r)"
    by (cases "fs_init demo_fs demo_image 0x400000 0x403000")
  have "rd32 demo_image 0x400000 = 1" "rd32 demo_image (0x400000 + 4) = 1" "rd32 demo_image (0x400000 + 8) = 1"
    by (simp_all add: demo_image_def rd32_def le32_def)
  then show ?thesis using fs_init_establishes_invariant[OF _ _ i] i by simp
qed

theorem fs_copy_loads_file_witness:
  "snd (fs_copy demo_fs demo_mem 0x8000 0x5000 0x8048000) = 0 \<and>
   arr (fst (fs_copy demo_fs demo_mem 0x8000 0x5000 0x8048000)) 0x8048000 1 = 105"
proof -
  let ?d = "dentries demo_fs demo_mem 0"
  have "name_key (arr demo_mem 0x5000) = [97]" using name_key_cstr[OF demo_name(2)] by simp
  moreover have "find_dentry demo_fs demo_mem [97] = Some 0"
    using demo_name(1) by (auto simp: find_dentry_Some name_key_dentry demo_header)
  ultimately have "read_dentry_by_name demo_fs demo_mem 0x5000 (Some local_dentry) = (0, Some ?d)"
    by (simp add: read_dentry_by_name_find)
  moreover have "copy_ok 0x8048000 0x8000 3" by (simp add: copy_ok_def)
  ultimately have "snd (fs_copy demo_fs demo_mem 0x8000 0x5000 0x8048000) = 0 \<and>
      arr (fst (fs_copy demo_fs demo_mem 0x8000 0x5000 0x8048000)) 0x8048000 1 = file_byte demo_fs demo_mem 0 1"
    using fs_copy_loads_file[of "0x5000" "0x8048000" "0x8000" demo_fs demo_mem ?d] demo_ok
    by (simp add: demo_name(3))
  moreover have "file_byte demo_fs demo_mem 0 1 = 105"
    by (simp add: file_byte_def file_block_def demo_header arr_def) (simp add: demo_fs_def demo_mem_def)
  ultimately show ?thesis by simp
qed

text \<open>The same image with a 32-character name, which is also at 0x5000.\<close>

definition demo_long :: mem where
  "demo_long = blit (blit demo_mem 0x1040 (\<lambda>_. 120) 32) 0x5000 (\<lambda>_. 120) 32"

lemma demo_long_header: "n_dentries demo_fs demo_long = 1" "n_inodes demo_fs demo_long = 1"
  "n_datablocks demo_fs demo_long = 1" "d_type (dentries demo_fs demo_long 0) = 2"
  by (simp_all add: n_dentries_def n_inodes_def n_datablocks_def dentries_def dentry_addr_def
      demo_fs_def demo_mem_def demo_long_def blit_def rd32_def le32_def)

lemma demo_long_name: "cstr_at demo_long 0x5000 (replicate 32 120)"
  unfolding cstr_at_def
proof (intro conjI allI impI)
  fix i assume "i \<le> length (replicate 32 (120 :: u8))"
  then consider "i < 32" | "i = 32" by fastforce
  then show "arr demo_long 0x5000 i = cs (replicate 32 120) i"
    by cases (simp_all add: demo_long_def arr_blit_same cs_def, simp add: arr_def blit_def demo_mem_def)
qed (simp add: wf_cstring_def)

theorem full_length_names_not_found_witness:
  "cstr_at demo_long 0x5000 (replicate 32 120) \<and>
   read_dentry_by_name demo_fs demo_long 0x5000 (Some local_dentry) = (-1, Some local_dentry)"
proof -
  have "\<forall>i < (1 :: u32). i = 0" by (simp add: word_less_nat_alt unat_eq_0)
  then show ?thesis
    using full_length_names_not_found[OF demo_long_name, of demo_fs local_dentry] demo_long_name
    by (auto simp: demo_long_header)
qed

theorem dir_read_full_length_name_witness:
  "snd (snd (dir_read demo_fs demo_long demo_file 0x8000 10)) = 33 \<and>
   arr (fst (snd (dir_read demo_fs demo_long demo_file 0x8000 10))) 0x8000 32 = 2"
proof -
  have "dentry_name (dentries demo_fs demo_long 0) = replicate 32 120"
    unfolding dentry_name_key
    by (rule before_NUL_eqI) (auto simp: arr_def dentry_addr_def demo_fs_def demo_long_def blit_def unat_of_nat_32)
  moreover have "buf_ok demo_fs demo_long 0x8000 33"
    by (rule buf_okI) (simp_all add: demo_long_header, simp_all add: demo_fs_def)
  ultimately show ?thesis
    using dir_read_full_length_name[of demo_fs demo_long "0x8000" demo_file 10]
    by (simp add: demo_header demo_long_header arr_wr nth_append)
qed

end
