(* ===== verification/Paging.thy ===== *)
theory Paging
  imports CMem
begin

text \<open>
  Paging (\<^verbatim>\<open>student-distrib/paging.c\<close>, \<^verbatim>\<open>asm_paging.S\<close>): the page tables are the
  words the code stores in memory, and \<open>translate\<close> is the walk the processor makes through
  them (4 MB pages through a page-directory entry with the size bit, 4 KB pages through a
  page table).

  The three static arrays are 4096-aligned (\<open>aligned(4096)\<close>), so the linker's choice of
  their place is three page numbers, the fields of \<open>symbols\<close>; \<open>syms_ok\<close> says that
  the arrays do not overlap and lie in the kernel's 4 MB page.

  The main results: the complete address space of a process after \<open>new_page_directory\<close>;
  that no other process's address space changes; that user code of different processes
  reaches disjoint physical memory, never the kernel's, and therefore can never change a
  translation; and what a \<open>vidmap\<close> entry adds.
\<close>

section \<open>Aligned words in memory\<close>

definition wld :: "mem \<Rightarrow> nat \<Rightarrow> u32" where
  "wld m a = rd32 m (of_nat (4 * a))"

definition wst :: "mem \<Rightarrow> nat \<Rightarrow> u32 \<Rightarrow> mem" where
  "wst m a v = store32 m (of_nat (4 * a)) v"

lemma rd32_bytes: "(\<And>k. k < 4 \<Longrightarrow> arr m p k = byte k v) \<Longrightarrow> rd32 m p = v"
proof -
  assume h: "\<And>k. k < 4 \<Longrightarrow> arr m p k = byte k v"
  have "rd32 m p = le32 (\<lambda>k. byte k v) 0"
    unfolding rd32_def using h by (intro le32_cong) (simp add: arr_def)
  also have "\<dots> = v"
  proof (rule bit_word_eqI)
    fix n assume "n < LENGTH(32)"
    then consider "n < 8" | "8 \<le> n" "n < 16" | "16 \<le> n" "n < 24" | "24 \<le> n" "n < 32" by force
    then show "bit (le32 (\<lambda>k. byte k v) 0) n = bit v n"
      by cases (auto simp: le32_def byte_def bit_simps bit_u8_high)
  qed
  finally show ?thesis .
qed

lemma rd32_store32_same: "rd32 (store32 m p v) p = v"
  by (rule rd32_bytes) (simp add: store32_blit arr_blit_same)

lemma wst_other:
  assumes "a < 2 ^ 30" and "x < 2 ^ 32" and "x < 4 * a \<or> 4 * a + 4 \<le> x"
  shows "wst m a v (of_nat x) = m (of_nat x)"
proof -
  have "unat (of_nat x - of_nat (4 * a) :: u32) = (if 4 * a \<le> x then x - 4 * a else x + 2 ^ 32 - 4 * a)"
    using assms by (subst unat_diff_of_nat) (auto simp: unat_of_nat_32)
  then have "4 \<le> unat (of_nat x - of_nat (4 * a) :: u32)" using assms by auto
  then show ?thesis by (simp add: wst_def store32_blit blit_arr_other)
qed

lemma wld_wst: "a < 2 ^ 30 \<Longrightarrow> b < 2 ^ 30 \<Longrightarrow> wld (wst m a v) b = (if b = a then v else wld m b)"
proof (cases "b = a")
  case False
  assume ab: "a < 2 ^ 30" "b < 2 ^ 30"
  have "rd32 (wst m a v) (of_nat (4 * b)) = rd32 m (of_nat (4 * b))"
  proof (rule rd32_cong)
    fix k :: nat assume "k < 4"
    with False have "4 * b + k < 4 * a \<or> 4 * a + 4 \<le> 4 * b + k" by linarith
    with \<open>k < 4\<close> show "arr (wst m a v) (of_nat (4 * b)) k = arr m (of_nat (4 * b)) k"
      using wst_other[of a "4 * b + k" m v] ab False by (simp add: arr_def)
  qed
  with False show ?thesis by (simp add: wld_def)
qed (simp add: wld_def wst_def rd32_store32_same)

section \<open>State and operations (paging.c, asm_paging.S)\<close>

text \<open>The control registers, and the page numbers of the arrays \<open>pageDir\<close>,
  \<open>first_4MB\<close> and \<open>video_page_tables\<close>.\<close>

record mmu =
  cr3 :: u32
  cr4 :: u32
  cr0 :: u32

record symbols =
  pageDir :: nat
  first_4MB :: nat
  video_page_tables :: nat

abbreviation KERNEL_LOC :: u32 where "KERNEL_LOC \<equiv> 0x00400000"
abbreviation FOUR_MB :: u32 where "FOUR_MB \<equiv> 0x00400000"
abbreviation PROGRAM_IMAGE :: u32 where "PROGRAM_IMAGE \<equiv> 0x08000000"

definition loadPageDir :: "mmu \<Rightarrow> u32 \<Rightarrow> mmu" where
  "loadPageDir c a = c\<lparr> cr3 := a \<rparr>"

definition enablePaging :: "mmu \<Rightarrow> mmu" where
  "enablePaging c = c\<lparr> cr0 := cr0 c OR 0x80000000 \<rparr>"

definition enable4MB :: "mmu \<Rightarrow> mmu" where
  "enable4MB c = c\<lparr> cr4 := cr4 c OR 0x00000010 \<rparr>"

text \<open>\<open>t[PID]\<close> as an address, and \<open>t[PID][i] = v\<close>.\<close>

definition tbl_addr :: "nat \<Rightarrow> u32 \<Rightarrow> u32" where
  "tbl_addr t PID = of_nat (4096 * (t + unat PID))"

definition tbl_get :: "mem \<Rightarrow> nat \<Rightarrow> u32 \<Rightarrow> nat \<Rightarrow> u32" where
  "tbl_get m t PID i = wld m (1024 * (t + unat PID) + i)"

definition tbl_set :: "mem \<Rightarrow> nat \<Rightarrow> u32 \<Rightarrow> nat \<Rightarrow> u32 \<Rightarrow> mem" where
  "tbl_set m t PID i v = wst m (1024 * (t + unat PID) + i) v"

text \<open>\<open>for (i = 0; i < n; i++) t[PID][i] = f(i)\<close>.\<close>

primrec tbl_fill :: "mem \<Rightarrow> nat \<Rightarrow> u32 \<Rightarrow> (nat \<Rightarrow> u32) \<Rightarrow> nat \<Rightarrow> mem" where
  "tbl_fill m t PID f 0 = m"
| "tbl_fill m t PID f (Suc n) = tbl_set (tbl_fill m t PID f n) t PID n (f n)"

definition paging_init :: "symbols \<Rightarrow> mem \<Rightarrow> mmu \<Rightarrow> mem \<times> mmu \<times> i32" where
  "paging_init sy m c =
     (let m = tbl_fill m (pageDir sy) 0 (\<lambda>i. 0x00000002) 1024;
          m = tbl_set m (pageDir sy) 0 0 (tbl_addr (first_4MB sy) 0 OR 0x00000003);
          m = tbl_fill m (first_4MB sy) 0 (\<lambda>i. (of_nat i * 0x1000) OR 0x00000003) 1024;
          m = tbl_set m (first_4MB sy) 0 0 (tbl_get m (first_4MB sy) 0 0 AND NOT 0x00000001);
          m = tbl_set m (pageDir sy) 0 1 (KERNEL_LOC OR 0x00000083);
          c = loadPageDir c (tbl_addr (pageDir sy) 0);
          c = enable4MB c;
          c = enablePaging c
      in (m, c, 0))"

definition new_page_directory :: "symbols \<Rightarrow> mem \<Rightarrow> mmu \<Rightarrow> u32 \<Rightarrow> mem \<times> mmu" where
  "new_page_directory sy m c PID =
     (let m = tbl_fill m (pageDir sy) PID (\<lambda>i. 0x00000002) 1024;
          m = tbl_set m (pageDir sy) PID 0 (tbl_addr (first_4MB sy) PID OR 0x00000003);
          m = tbl_fill m (first_4MB sy) PID (\<lambda>i. (of_nat i * 0x1000) OR 0x00000003) 1024;
          m = tbl_set m (first_4MB sy) PID 0 (tbl_get m (first_4MB sy) PID 0 AND NOT 0x00000001);
          m = tbl_set m (pageDir sy) PID 1 (KERNEL_LOC OR 0x00000083);
          phys_addr = FOUR_MB * (PID + 1);
          dir_entry = PROGRAM_IMAGE div FOUR_MB;
          m = tbl_set m (pageDir sy) PID (unat dir_entry) (phys_addr OR 0x00000087);
          c = loadPageDir c (tbl_addr (pageDir sy) PID);
          c = enable4MB c;
          c = enablePaging c
      in (m, c))"

definition new_page_directory_entry ::
  "symbols \<Rightarrow> mem \<Rightarrow> mmu \<Rightarrow> u32 \<Rightarrow> u32 \<Rightarrow> u32 \<Rightarrow> u8 \<Rightarrow> u8 \<Rightarrow> mem \<times> mmu \<times> i32" where
  "new_page_directory_entry sy m c PID virt_addr phys_addr psize privilege =
     (let pde = unat (drop_bit 22 virt_addr);
          pte = unat (drop_bit 12 virt_addr AND 0x3FF);
          m = (if psize = 0
               then if privilege = 3
                    then let m = tbl_set m (pageDir sy) PID pde (tbl_addr (video_page_tables sy) PID OR 0x00000007)
                         in tbl_set m (video_page_tables sy) PID pte ((phys_addr AND NOT 0xFFF) OR 0x00000007)
                    else let m = tbl_set m (pageDir sy) PID pde (tbl_addr (video_page_tables sy) PID OR 0x00000003)
                         in tbl_set m (video_page_tables sy) PID pte ((phys_addr AND NOT 0xFFF) OR 0x00000003)
               else if privilege = 3
               then tbl_set m (pageDir sy) PID pde ((phys_addr AND NOT 0x3FFFFF) OR 0x00000087)
               else tbl_set m (pageDir sy) PID pde ((phys_addr AND NOT 0x3FFFFF) OR 0x00000083))
      in (m, loadPageDir c (tbl_addr (pageDir sy) PID), 0))"

definition swap_pages :: "symbols \<Rightarrow> mmu \<Rightarrow> u32 \<Rightarrow> mmu" where
  "swap_pages sy c PID = loadPageDir c (tbl_addr (pageDir sy) PID)"

section \<open>The processor's page walk\<close>

definition entry_ok :: "bool \<Rightarrow> u32 \<Rightarrow> bool" where
  "entry_ok user e \<longleftrightarrow> bit e 0 \<and> (user \<longrightarrow> bit e 2)"

definition pde_at :: "mem \<Rightarrow> mmu \<Rightarrow> u32 \<Rightarrow> u32" where
  "pde_at m c va = rd32 m ((cr3 c AND NOT 0xFFF) + 4 * drop_bit 22 va)"

definition pte_at :: "mem \<Rightarrow> u32 \<Rightarrow> u32 \<Rightarrow> u32" where
  "pte_at m pde va = rd32 m ((pde AND NOT 0xFFF) + 4 * (drop_bit 12 va AND 0x3FF))"

definition frame_4MB :: "u32 \<Rightarrow> u32 \<Rightarrow> u32" where
  "frame_4MB e va = (e AND NOT 0x3FFFFF) OR (va AND 0x3FFFFF)"

definition frame_4KB :: "u32 \<Rightarrow> u32 \<Rightarrow> u32" where
  "frame_4KB e va = (e AND NOT 0xFFF) OR (va AND 0xFFF)"

definition translate :: "mem \<Rightarrow> mmu \<Rightarrow> bool \<Rightarrow> u32 \<Rightarrow> u32 option" where
  "translate m c user va =
     (if \<not> bit (cr0 c) 31 then Some va
      else let pde = pde_at m c va
           in if \<not> entry_ok user pde then None
              else if bit (cr4 c) 4 \<and> bit pde 7 then Some (frame_4MB pde va)
              else let pte = pte_at m pde va
                   in if \<not> entry_ok user pte then None else Some (frame_4KB pte va))"

text \<open>The linker's layout.\<close>

definition syms_ok :: "symbols \<Rightarrow> bool" where
  "syms_ok sy \<longleftrightarrow> (\<forall>t \<in> {pageDir sy, first_4MB sy, video_page_tables sy}. 1024 \<le> t \<and> t + 7 \<le> 2048) \<and>
     (pageDir sy + 7 \<le> first_4MB sy \<or> first_4MB sy + 7 \<le> pageDir sy) \<and>
     (pageDir sy + 7 \<le> video_page_tables sy \<or> video_page_tables sy + 7 \<le> pageDir sy) \<and>
     (first_4MB sy + 7 \<le> video_page_tables sy \<or> video_page_tables sy + 7 \<le> first_4MB sy)"

lemma row_index: "i < 1024 \<Longrightarrow> j < 1024 \<Longrightarrow> 1024 * A + j = 1024 * B + i \<longleftrightarrow> A = B \<and> j = (i :: nat)"
  by (cases A B rule: linorder_cases) auto

lemma tbl_get_set:
  "t + unat P < 1048576 \<Longrightarrow> u + unat Q < 1048576 \<Longrightarrow> i < 1024 \<Longrightarrow> j < 1024 \<Longrightarrow>
    tbl_get (tbl_set m t P i v) u Q j = (if u + unat Q = t + unat P \<and> j = i then v else tbl_get m u Q j)"
proof -
  assume b: "t + unat P < 1048576" "u + unat Q < 1048576" "i < 1024" "j < 1024"
  have "1024 * (u + unat Q) + j = 1024 * (t + unat P) + i \<longleftrightarrow> u + unat Q = t + unat P \<and> j = i"
    using b(3,4) by (rule row_index)
  then show ?thesis unfolding tbl_get_def tbl_set_def using b by (subst wld_wst) auto
qed

lemma tbl_get_fill:
  "t + unat P < 1048576 \<Longrightarrow> u + unat Q < 1048576 \<Longrightarrow> n \<le> 1024 \<Longrightarrow> j < 1024 \<Longrightarrow>
    tbl_get (tbl_fill m t P f n) u Q j = (if u + unat Q = t + unat P \<and> j < n then f j else tbl_get m u Q j)"
  by (induction n) (auto simp: tbl_get_set)

lemmas tbl_simps = tbl_get_set tbl_get_fill

text \<open>Page-aligned values with flag bits.\<close>

lemma mask_12: "(0xFFF :: u32) = mask 12" and mask_22: "(0x3FFFFF :: u32) = mask 22" and mask_10: "(0x3FF :: u32) = mask 10"
  by (simp_all add: mask_eq_exp_minus_1)

lemma page_flags:
  assumes "take_bit k f = f"
  shows "(push_bit k x OR f) AND NOT (mask k) = (push_bit k x :: u32)"
proof (rule bit_word_eqI)
  fix n
  have "bit f n \<Longrightarrow> n < k" using assms by (metis bit_take_bit_iff)
  then show "bit ((push_bit k x OR f) AND NOT (mask k)) n = bit (push_bit k x) n"
    by (auto simp: bit_simps)
qed

lemma page_aligned: "push_bit k x AND NOT (mask k) = (push_bit k x :: u32)"
  using page_flags[of k 0 x] by simp

lemma tbl_addr_push: "tbl_addr t P = push_bit 12 (of_nat (t + unat P))"
  by (simp add: tbl_addr_def push_bit_eq_mult)

lemma tbl_walk:
  "push_bit 12 (of_nat p) + 4 * (w :: u32) = of_nat (4 * (1024 * p + unat w))"
  by (simp add: push_bit_eq_mult algebra_simps)

lemma add_offset: "push_bit k x + take_bit k y = push_bit k x OR take_bit k (y :: u32)"
  by (rule disjunctive_add_eq_or) (auto intro!: bit_word_eqI simp: bit_simps)

section \<open>The address space of a process\<close>

text \<open>The contents of the page directory and first page table that \<open>new_page_directory\<close>
  leaves for a process.  Entry 33 is the 4 MB region of \<open>vidmap\<close>.\<close>

definition process_dir :: "symbols \<Rightarrow> mem \<Rightarrow> u32 \<Rightarrow> bool" where
  "process_dir sy m PID \<longleftrightarrow>
     (\<forall>i < 1024. i \<noteq> 33 \<longrightarrow> tbl_get m (pageDir sy) PID i =
        (if i = 0 then tbl_addr (first_4MB sy) PID OR 3 else if i = 1 then 0x400083
         else if i = 32 then (FOUR_MB * (PID + 1)) OR 0x87 else 2)) \<and>
     (\<forall>i < 1024. tbl_get m (first_4MB sy) PID i = (if i = 0 then 2 else (of_nat i * 0x1000) OR 3))"

definition paging_on :: "mmu \<Rightarrow> bool" where
  "paging_on c \<longleftrightarrow> bit (cr0 c) 31 \<and> bit (cr4 c) 4"

text \<open>The intended mapping: the program page of the process for everyone; the kernel's page
  and the first 4 MB, less page 0, for the kernel only; nothing else.\<close>

definition process_map :: "u32 \<Rightarrow> bool \<Rightarrow> u32 \<Rightarrow> u32 option" where
  "process_map PID user va =
     (if 0x08000000 \<le> va \<and> va < 0x08400000 then Some (FOUR_MB * (PID + 1) + (va - 0x08000000))
      else if user then None
      else if 0x1000 \<le> va \<and> va < 0x00800000 then Some va
      else None)"

lemma unat_pid: "PID < 7 \<Longrightarrow> unat PID < 7" for PID :: u32
  by (simp add: word_less_nat_alt)

lemma pde_at_dir:
  "cr3 c = tbl_addr t PID \<Longrightarrow> pde_at m c va = tbl_get m t PID (unat (drop_bit 22 va))"
  unfolding pde_at_def by (simp only: tbl_addr_push mask_12 page_aligned tbl_walk tbl_get_def wld_def)

lemma pte_at_table:
  assumes "take_bit 12 f = f"
  shows "pte_at m (tbl_addr t PID OR f) va = tbl_get m t PID (unat (drop_bit 12 va AND 0x3FF))"
  unfolding pte_at_def tbl_addr_push mask_12 page_flags[OF assms] tbl_walk tbl_get_def wld_def ..

lemma drop_bit_unat: "unat (drop_bit 22 (va :: u32)) = unat va div 4194304" "unat (drop_bit 12 va) = unat va div 4096"
  by (simp_all add: drop_bit_eq_div unat_div)

lemma dir_index_less: "unat (drop_bit 22 (va :: u32)) < 1024"
  using unat_less_32[of va] by (simp add: drop_bit_unat less_mult_imp_div_less)

lemma big_page: "take_bit 22 f = f \<Longrightarrow> frame_4MB (push_bit 22 x OR f) va = push_bit 22 x + take_bit 22 va"
  unfolding frame_4MB_def add_offset mask_22 by (simp only: page_flags take_bit_eq_mask)

lemma small_page: "take_bit 12 f = f \<Longrightarrow> frame_4KB (push_bit 12 x OR f) va = push_bit 12 x + take_bit 12 va"
  unfolding frame_4KB_def add_offset mask_12 by (simp only: page_flags take_bit_eq_mask)

lemma split_at: "push_bit k (drop_bit k va) + take_bit k va = (va :: u32)"
  unfolding add_offset by (rule bit_word_eqI) (auto simp: bit_simps)

lemma entry_ok_flags:
  "entry_ok user (push_bit 12 x OR 3) \<longleftrightarrow> \<not> user" "\<not> bit (push_bit 12 x OR 3 :: u32) 7"
  "entry_ok user (push_bit 22 x OR 0x87)" "bit (push_bit 22 x OR 0x87 :: u32) 7"
  "entry_ok user (push_bit 12 x OR 7)" "\<not> bit (push_bit 12 x OR 7 :: u32) 7"
  "entry_ok user 0x400083 \<longleftrightarrow> \<not> user" "bit (0x400083 :: u32) 7" "\<not> entry_ok user 2"
  by (simp_all add: entry_ok_def bit_simps)

lemma pt_index: "drop_bit 22 (va :: u32) = 0 \<Longrightarrow> unat (drop_bit 12 va AND 0x3FF) = unat va div 4096 \<and> unat va div 4096 < 1024"
proof -
  assume h: "drop_bit 22 va = 0"
  have "unat va div 4194304 = 0" using arg_cong[OF h, of unat] by (simp only: drop_bit_unat) simp
  then have l: "unat va div 4096 < 1024" by (simp add: div_eq_0_iff less_mult_imp_div_less)
  have "drop_bit 12 va AND 0x3FF = take_bit 10 (drop_bit 12 va)" by (simp add: mask_10 take_bit_eq_mask)
  then have "unat (drop_bit 12 va AND 0x3FF) = unat va div 4096 mod 1024"
    by (simp add: take_bit_eq_mod unat_mod drop_bit_unat)
  with l show ?thesis by simp
qed

lemma walk_first_4MB:
  assumes "process_dir sy m PID" and "paging_on c"
    and "cr3 c = tbl_addr (pageDir sy) PID" and "drop_bit 22 va = 0"
  shows "translate m c user va = (if \<not> user \<and> 0x1000 \<le> va then Some va else None)"
proof -
  let ?e = "tbl_addr (first_4MB sy) PID OR 3" and ?q = "unat va div 4096"
  have pde: "pde_at m c va = ?e"
    unfolding pde_at_dir[OF assms(3)] using assms(1) by (simp add: assms(4) process_dir_def)
  have q: "unat (drop_bit 12 va AND 0x3FF) = ?q" "?q < 1024" using pt_index[OF assms(4)] by auto
  have pte: "pte_at m ?e va = (if ?q = 0 then 2 else push_bit 12 (of_nat ?q) OR 3)"
    using assms(1) q(2) pte_at_table[of 3 m "first_4MB sy" PID va]
    by (simp add: process_dir_def q(1) push_bit_eq_mult take_bit_eq_mod)
  have "of_nat ?q = drop_bit 12 va" unfolding drop_bit_unat(2)[symmetric] by simp
  then have va: "frame_4KB (push_bit 12 (of_nat ?q) OR 3) va = va"
    using small_page[of 3 "of_nat ?q" va] by (simp add: split_at take_bit_eq_mod[of 12 3])
  have z: "?q = 0 \<longleftrightarrow> \<not> 0x1000 \<le> va" by (auto simp: word_le_nat_alt div_eq_0_iff)
  have e: "entry_ok user ?e \<longleftrightarrow> \<not> user" "\<not> bit ?e 7"
    by (simp_all only: tbl_addr_push entry_ok_flags not_False_eq_True)
  show ?thesis
  proof (cases "?q = 0")
    case True
    then show ?thesis using assms(2) z e by (simp add: translate_def paging_on_def Let_def pde pte entry_ok_flags)
  next
    case False
    then show ?thesis using assms(2) z e va by (simp add: translate_def paging_on_def Let_def pde pte entry_ok_flags)
  qed
qed

lemma walk_big_page:
  assumes "paging_on c" and "cr3 c = tbl_addr t PID"
    and "tbl_get m t PID (unat (drop_bit 22 va)) = push_bit 22 x OR f"
    and "take_bit 22 f = f" and "bit f 7" and "bit f 0"
  shows "translate m c user va = (if user \<and> \<not> bit f 2 then None else Some (push_bit 22 x + take_bit 22 va))"
proof -
  have "pde_at m c va = push_bit 22 x OR f" unfolding pde_at_dir[OF assms(2)] by (rule assms(3))
  then show ?thesis
    using assms(1,5,6) big_page[OF assms(4), of x va]
    by (simp add: translate_def paging_on_def Let_def entry_ok_def bit_simps)
qed

lemma process_translation:
  assumes "process_dir sy m PID" and "paging_on c"
    and "cr3 c = tbl_addr (pageDir sy) PID" and "drop_bit 22 va \<noteq> 33"
  shows "translate m c user va = process_map PID user va"
proof -
  let ?p = "unat (drop_bit 22 va)"
  have p: "?p = unat va div 4194304" "?p < 1024" by (rule drop_bit_unat) (rule dir_index_less)
  have va: "push_bit 22 (drop_bit 22 va) + take_bit 22 va = va" by (rule split_at)
  have e: "tbl_get m (pageDir sy) PID ?p = (if ?p = 0 then tbl_addr (first_4MB sy) PID OR 3 else if ?p = 1 then 0x400083
         else if ?p = 32 then (FOUR_MB * (PID + 1)) OR 0x87 else 2)"
    using assms(1,4) p(2) by (auto simp: process_dir_def word_unat_eq_iff)
  consider (first) "drop_bit 22 va = 0" | (kernel) "drop_bit 22 va = 1" | (user) "drop_bit 22 va = 32"
    | (none) "?p \<noteq> 0" "?p \<noteq> 1" "?p \<noteq> 32"
    by (fastforce simp: word_unat_eq_iff)
  then show ?thesis
  proof cases
    case first
    then have "unat va < 4194304" using p(1) by (simp add: div_eq_0_iff)
    then show ?thesis using walk_first_4MB[OF assms(1-3) first, of user]
      by (auto simp: process_map_def word_le_nat_alt word_less_nat_alt)
  next
    case kernel
    have "translate m c user va = (if user then None else Some (push_bit 22 1 + take_bit 22 va))"
      using walk_big_page[OF assms(2,3), of m va 1 "0x83" user] e kernel
      by (simp add: push_bit_eq_mult take_bit_eq_mod)
    moreover have "unat va div 4194304 = 1" using p(1) kernel by simp
    then have "4194304 \<le> unat va \<and> unat va < 8388608" by (simp add: div_nat_eqI) linarith
    ultimately show ?thesis using va kernel by (auto simp: process_map_def word_le_nat_alt word_less_nat_alt)
  next
    case user
    have "translate m c user va = Some (push_bit 22 (PID + 1) + take_bit 22 va)"
      using walk_big_page[OF assms(2,3), of m va "PID + 1" "0x87" user] e user
      by (simp add: push_bit_eq_mult take_bit_eq_mod mult.commute)
    moreover have "take_bit 22 va = va - 0x08000000" using va user by (simp add: push_bit_eq_mult algebra_simps)
    moreover have "unat va div 4194304 = 32" using p(1) user by simp
    then have "134217728 \<le> unat va \<and> unat va < 138412032" by linarith
    ultimately show ?thesis
      by (simp add: process_map_def push_bit_eq_mult mult.commute word_le_nat_alt word_less_nat_alt)
  next
    case none
    then have "pde_at m c va = 2" unfolding pde_at_dir[OF assms(3)] e by simp
    then have "translate m c user va = None" using assms(2) by (simp add: translate_def paging_on_def Let_def entry_ok_flags)
    moreover have "\<not> unat va < 8388608" "\<not> (134217728 \<le> unat va \<and> unat va < 138412032)" using none p(1) by auto
    ultimately show ?thesis by (auto simp: process_map_def word_le_nat_alt word_less_nat_alt)
  qed
qed

subsection \<open>Creating a page directory\<close>

lemma syms_bounds:
  fixes PID :: u32
  assumes "syms_ok sy" and "PID < 7"
  shows "pageDir sy + unat PID < 1048576" "first_4MB sy + unat PID < 1048576" "video_page_tables sy + unat PID < 1048576"
  using assms unat_pid[OF assms(2)] by (auto simp: syms_ok_def)

lemma syms_distinct:
  fixes P Q :: u32
  assumes "syms_ok sy" and "P < 7" and "Q < 7"
  shows "pageDir sy + unat P \<noteq> first_4MB sy + unat Q" "first_4MB sy + unat Q \<noteq> pageDir sy + unat P"
    "pageDir sy + unat P \<noteq> video_page_tables sy + unat Q" "video_page_tables sy + unat Q \<noteq> pageDir sy + unat P"
    "first_4MB sy + unat P \<noteq> video_page_tables sy + unat Q" "video_page_tables sy + unat Q \<noteq> first_4MB sy + unat P"
  using assms unat_pid[of P] unat_pid[of Q] by (auto simp: syms_ok_def)

lemma syms_neq:
  "syms_ok sy \<Longrightarrow> pageDir sy \<noteq> first_4MB sy" "syms_ok sy \<Longrightarrow> first_4MB sy \<noteq> pageDir sy"
  "syms_ok sy \<Longrightarrow> pageDir sy \<noteq> video_page_tables sy" "syms_ok sy \<Longrightarrow> video_page_tables sy \<noteq> pageDir sy"
  by (auto simp: syms_ok_def)

lemma new_page_directory_tables:
  assumes "syms_ok sy" and "P < 7" and "Q < 7" and "new_page_directory sy m c P = (m', c')" and "i < 1024"
  shows "tbl_get m' (pageDir sy) Q i =
      (if Q \<noteq> P then tbl_get m (pageDir sy) Q i
       else if i = 0 then tbl_addr (first_4MB sy) P OR 3 else if i = 1 then 0x400083
       else if i = 32 then (FOUR_MB * (P + 1)) OR 0x87 else 2)"
    and "tbl_get m' (first_4MB sy) Q i =
      (if Q \<noteq> P then tbl_get m (first_4MB sy) Q i else if i = 0 then 2 else (of_nat i * 0x1000) OR 3)"
    and "tbl_get m' (video_page_tables sy) Q i = tbl_get m (video_page_tables sy) Q i"
proof -
  note b = syms_bounds[OF assms(1,2)] syms_bounds[OF assms(1,3)] syms_distinct[OF assms(1) assms(2,2)]
    syms_distinct[OF assms(1,2,3)] syms_distinct[OF assms(1,3,2)] syms_neq[OF assms(1)]
  have qp: "unat Q = unat P \<longleftrightarrow> Q = P" by (simp add: word_unat_eq_iff)
  have m': "m' = fst (new_page_directory sy m c P)" by (simp add: assms(4))
  show "tbl_get m' (pageDir sy) Q i =
      (if Q \<noteq> P then tbl_get m (pageDir sy) Q i
       else if i = 0 then tbl_addr (first_4MB sy) P OR 3 else if i = 1 then 0x400083
       else if i = 32 then (FOUR_MB * (P + 1)) OR 0x87 else 2)"
    unfolding m' new_page_directory_def Let_def using assms(5) by (simp add: tbl_simps b qp)
  show "tbl_get m' (first_4MB sy) Q i =
      (if Q \<noteq> P then tbl_get m (first_4MB sy) Q i else if i = 0 then 2 else (of_nat i * 0x1000) OR 3)"
    unfolding m' new_page_directory_def Let_def using assms(5) by (simp add: tbl_simps b qp)
  show "tbl_get m' (video_page_tables sy) Q i = tbl_get m (video_page_tables sy) Q i"
    unfolding m' new_page_directory_def Let_def using assms(5) by (simp add: tbl_simps b qp)
qed

lemma new_page_directory_regs:
  assumes "new_page_directory sy m c P = (m', c')"
  shows "cr3 c' = tbl_addr (pageDir sy) P" and "paging_on c'"
  using assms by (auto simp: new_page_directory_def Let_def loadPageDir_def enable4MB_def enablePaging_def
      paging_on_def bit_simps)

lemma new_page_directory_process:
  assumes "syms_ok sy" and "P < 7" and "new_page_directory sy m c P = (m', c')"
  shows "process_dir sy m' P" and "tbl_get m' (pageDir sy) P 33 = 2"
  using new_page_directory_tables[OF assms(1,2,2,3)] by (simp_all add: process_dir_def)

text \<open>C26: right after \<open>new_page_directory(PID)\<close> the processor translates every address as
  intended: the 4 MB at 128 MB go to the process's own 4 MB frame for user and kernel; the
  kernel sees 4 KB to 8 MB at their physical address; page 0, every other address, and for
  user code everything but the program page, fault.\<close>

theorem process_address_space:
  assumes "syms_ok sy" and "PID < 7" and "new_page_directory sy m c PID = (m', c')"
  shows "translate m' c' user va = process_map PID user va"
proof (cases "drop_bit 22 va = 33")
  case False
  then show ?thesis
    using new_page_directory_process[OF assms] new_page_directory_regs[OF assms(3)] by (intro process_translation)
next
  case True
  then have "pde_at m' c' va = 2"
    using pde_at_dir[OF new_page_directory_regs(1)[OF assms(3)]] new_page_directory_process(2)[OF assms] by simp
  then have "translate m' c' user va = None"
    using new_page_directory_regs(2)[OF assms(3)] by (simp add: translate_def paging_on_def Let_def entry_ok_flags)
  moreover have "unat va div 4194304 = 33" using drop_bit_unat(1)[of va] True by simp
  then have "138412032 \<le> unat va" by linarith
  ultimately show ?thesis by (auto simp: process_map_def word_le_nat_alt word_less_nat_alt)
qed

subsection \<open>The vidmap entry\<close>

text \<open>The pages that hold the screen and the three terminals' screens.\<close>

definition video_page :: "u32 \<Rightarrow> bool" where
  "video_page a \<longleftrightarrow> a = 0xB8000 \<or> a = 0xB9000 \<or> a = 0xBA000 \<or> a = 0xBB000"

text \<open>A page directory as the kernel ever leaves it: what \<open>new_page_directory\<close> built, and
  entry 33 either absent or the user-level window onto one screen page.\<close>

definition user_dir :: "symbols \<Rightarrow> mem \<Rightarrow> u32 \<Rightarrow> bool" where
  "user_dir sy m PID \<longleftrightarrow> process_dir sy m PID \<and>
     (\<forall>i < 1024. i \<noteq> 0 \<longrightarrow> \<not> bit (tbl_get m (video_page_tables sy) PID i) 0) \<and>
     (tbl_get m (pageDir sy) PID 33 = 2 \<or>
      tbl_get m (pageDir sy) PID 33 = tbl_addr (video_page_tables sy) PID OR 7 \<and>
      (\<exists>v. video_page v \<and> tbl_get m (video_page_tables sy) PID 0 = v OR 7))"

lemma video_page_push: "video_page v \<Longrightarrow> \<exists>x. v = push_bit 12 x \<and> x < 0xBC \<and> 0xB8 \<le> x"
  by (auto simp: video_page_def push_bit_eq_mult)
    (rule exI[of _ "0xB8"], simp; fail | rule exI[of _ "0xB9"], simp; fail | rule exI[of _ "0xBA"], simp; fail | rule exI[of _ "0xBB"], simp)+

lemma pt_index_less: "unat (drop_bit 12 (va :: u32) AND 0x3FF) < 1024"
proof -
  have "drop_bit 12 va AND 0x3FF = take_bit 10 (drop_bit 12 va)" by (simp add: mask_10 take_bit_eq_mask)
  then show ?thesis by (simp add: take_bit_eq_mod unat_mod)
qed

text \<open>What user code reaches through such a directory.\<close>

lemma user_dir_reach:
  assumes "user_dir sy m PID" and "paging_on c" and "cr3 c = tbl_addr (pageDir sy) PID"
    and "translate m c True va = Some pa"
  shows "0x08000000 \<le> va \<and> va < 0x08400000 \<and> pa = FOUR_MB * (PID + 1) + (va - 0x08000000) \<or>
    (\<exists>v. video_page v \<and> tbl_get m (video_page_tables sy) PID 0 = v OR 7 \<and> pa = v + take_bit 12 va)"
proof (cases "drop_bit 22 va = 33")
  case False
  then have "translate m c True va = process_map PID True va"
    using assms by (intro process_translation) (auto simp: user_dir_def)
  with assms(4) show ?thesis by (auto simp: process_map_def split: if_splits)
next
  case True
  have pde: "pde_at m c va = tbl_get m (pageDir sy) PID 33" unfolding pde_at_dir[OF assms(3)] True by simp
  have "pde_at m c va \<noteq> 2"
    using assms(2,4) by (auto simp: translate_def paging_on_def Let_def entry_ok_flags)
  with assms(1) pde obtain v where e: "pde_at m c va = tbl_addr (video_page_tables sy) PID OR 7"
    and v: "video_page v" "tbl_get m (video_page_tables sy) PID 0 = v OR 7"
    by (auto simp: user_dir_def)
  let ?q = "unat (drop_bit 12 va AND 0x3FF)"
  have pte: "pte_at m (tbl_addr (video_page_tables sy) PID OR 7) va = tbl_get m (video_page_tables sy) PID ?q"
    by (rule pte_at_table) (simp add: take_bit_eq_mod)
  have ok: "entry_ok True (pte_at m (tbl_addr (video_page_tables sy) PID OR 7) va)"
    and pa: "pa = frame_4KB (pte_at m (tbl_addr (video_page_tables sy) PID OR 7) va) va"
    using assms(2,4) e entry_ok_flags(6)[of "of_nat (video_page_tables sy + unat PID)"]
    by (auto simp: translate_def paging_on_def Let_def tbl_addr_push split: if_splits)
  have "?q = 0" using ok pte assms(1) pt_index_less[of va] by (auto simp: user_dir_def entry_ok_def)
  with pa pte v(2) have "pa = frame_4KB (v OR 7) va" by simp
  moreover obtain x where "v = push_bit 12 x" using video_page_push[OF v(1)] by blast
  ultimately have "pa = v + take_bit 12 va" using small_page[of 7 x va] by (simp add: take_bit_eq_mod[of 12 7])
  with v show ?thesis by blast
qed

lemma user_phys_range:
  assumes "user_dir sy m PID" and "paging_on c" and "cr3 c = tbl_addr (pageDir sy) PID" and "PID < 7"
    and "translate m c True va = Some pa"
  shows "0x400000 * (unat PID + 1) \<le> unat pa \<and> unat pa < 0x400000 * (unat PID + 2) \<or>
    0xB8000 \<le> unat pa \<and> unat pa < 0xBC000"
  using user_dir_reach[OF assms(1-3,5)]
proof
  assume h: "0x08000000 \<le> va \<and> va < 0x08400000 \<and> pa = FOUR_MB * (PID + 1) + (va - 0x08000000)"
  define d where "d = va - 0x08000000"
  have d: "unat d < 4194304"
    using h by (auto simp: d_def word_le_nat_alt word_less_nat_alt unat_sub_if_size word_size)
  have "unat PID < 7" using assms(4) by (rule unat_pid)
  then have "unat (FOUR_MB * (PID + 1) + d) = 4194304 * (unat PID + 1) + unat d"
    using d by (simp add: unat_word_ariths)
  with h d show ?thesis by (simp add: d_def[symmetric])
next
  assume "\<exists>v. video_page v \<and> tbl_get m (video_page_tables sy) PID 0 = v OR 7 \<and> pa = v + take_bit 12 va"
  then obtain v where v: "video_page v" "pa = v + take_bit 12 va" by blast
  have "unat (take_bit 12 va) < 4096" by (simp add: take_bit_eq_mod unat_mod)
  with v show ?thesis by (auto simp: video_page_def unat_word_ariths)
qed

text \<open>Two processes never share physical memory that user code can reach, except the
  screen pages; and user code of a process with PID 1 to 6 never reaches the first 8 MB
  (the kernel, its tables and the process control blocks) otherwise.\<close>

theorem user_memory_isolation:
  assumes "user_dir sy m P" and "user_dir sy m Q" and "P < 7" and "Q < 7" and "P \<noteq> Q" and "P \<noteq> 0"
    and "paging_on c" and "paging_on c'" and "cr3 c = tbl_addr (pageDir sy) P" and "cr3 c' = tbl_addr (pageDir sy) Q"
    and "translate m c True va = Some pa"
  shows "(0x00800000 \<le> pa \<or> 0xB8000 \<le> pa \<and> pa < 0xBC000) \<and>
    (translate m c' True va' = Some pa \<longrightarrow> 0xB8000 \<le> pa \<and> pa < 0xBC000)"
proof -
  have n: "unat P \<noteq> unat Q" "unat P \<noteq> 0" using assms(5,6) by (auto simp: word_unat_eq_iff)
  note p = user_phys_range[OF assms(1,7,9,3,11)]
  have "0xB8000 \<le> unat pa \<and> unat pa < 0xBC000" if "translate m c' True va' = Some pa"
    using p user_phys_range[OF assms(2,8,10,4) that] n
    by (cases "unat P" "unat Q" rule: linorder_cases) auto
  with p n show ?thesis by (auto simp: word_le_nat_alt word_less_nat_alt)
qed

lemma tbl_get_upd:
  assumes "\<not> (0x400000 \<le> unat pa \<and> unat pa < 0x800000)" and "1024 \<le> t" and "t + 7 \<le> 2048" and "Q < 7" and "i < 1024"
  shows "tbl_get (m(pa := b)) t Q i = tbl_get m t Q i"
  unfolding tbl_get_def wld_def
proof (rule rd32_cong)
  fix k :: nat assume k: "k < 4"
  let ?x = "4 * (1024 * (t + unat Q) + i) + k"
  have x: "0x400000 \<le> ?x" "?x < 0x800000" using assms(2-5) k unat_pid[OF assms(4)] by auto
  then have "unat (of_nat ?x :: u32) = ?x" by (intro unat_of_nat_32) simp
  then have "(of_nat ?x :: u32) \<noteq> pa" using x assms(1) by auto
  then show "arr (m(pa := b)) (of_nat (4 * (1024 * (t + unat Q) + i))) k = arr m (of_nat (4 * (1024 * (t + unat Q) + i))) k"
    by (simp add: arr_def)
qed

lemma user_dir_cong:
  assumes "user_dir sy m Q"
    and "\<And>i. i < 1024 \<Longrightarrow> tbl_get m' (pageDir sy) Q i = tbl_get m (pageDir sy) Q i"
    and "\<And>i. i < 1024 \<Longrightarrow> tbl_get m' (first_4MB sy) Q i = tbl_get m (first_4MB sy) Q i"
    and "\<And>i. i < 1024 \<Longrightarrow> tbl_get m' (video_page_tables sy) Q i = tbl_get m (video_page_tables sy) Q i"
  shows "user_dir sy m' Q"
  using assms by (simp add: user_dir_def process_dir_def)

text \<open>No store by user code, through any process's directory, can change the page tables:
  every process keeps its directory.\<close>

theorem user_store_keeps_page_tables:
  assumes "syms_ok sy" and "user_dir sy m P" and "P < 7" and "P \<noteq> 0" and "paging_on c"
    and "cr3 c = tbl_addr (pageDir sy) P" and "translate m c True va = Some pa"
    and "user_dir sy m Q" and "Q < 7"
  shows "user_dir sy (m(pa := b)) Q"
proof -
  have "unat P \<noteq> 0" using assms(4) by (simp add: word_unat_eq_iff)
  then have pa: "\<not> (0x400000 \<le> unat pa \<and> unat pa < 0x800000)"
    using user_phys_range[OF assms(2,5,6,3,7)] by auto
  show ?thesis
    using assms(1,9) tbl_get_upd[OF pa] by (intro user_dir_cong[OF assms(8)]) (auto simp: syms_ok_def)
qed

lemma new_page_directory_invariant:
  assumes "syms_ok sy" and "P < 7" and "new_page_directory sy m c P = (m', c')"
    and "\<forall>i < 1024. i \<noteq> 0 \<longrightarrow> \<not> bit (tbl_get m (video_page_tables sy) P i) 0"
  shows "user_dir sy m' P \<and> (\<forall>Q < 7. Q \<noteq> P \<and> user_dir sy m Q \<longrightarrow> user_dir sy m' Q)"
proof (intro conjI allI impI)
  show "user_dir sy m' P"
    using new_page_directory_process[OF assms(1-3)] new_page_directory_tables(3)[OF assms(1,2,2,3)] assms(4)
    by (simp add: user_dir_def)
  fix Q assume "Q < 7" and Q: "Q \<noteq> P \<and> user_dir sy m Q"
  show "user_dir sy m' Q"
    by (rule user_dir_cong[of sy m Q])
      (use Q new_page_directory_tables[OF assms(1,2) \<open>Q < 7\<close> assms(3)] in simp_all)
qed

text \<open>\<open>new_page_directory(P)\<close> leaves a directory in the invariant for \<open>P\<close> (when its
  video page table has no stray entries, as at boot and ever after) and keeps every other
  process's directory.\<close>

theorem new_page_directory_keeps_others:
  assumes "syms_ok sy" and "P < 7" and "new_page_directory sy m c P = (m', c')"
    and "\<forall>i < 1024. i \<noteq> 0 \<longrightarrow> \<not> bit (tbl_get m (video_page_tables sy) P i) 0"
  shows "user_dir sy m' P \<and> (\<forall>Q < 7. Q \<noteq> P \<and> user_dir sy m Q \<longrightarrow> user_dir sy m' Q)"
  using assms by (rule new_page_directory_invariant)

lemma vidmap_tables:
  assumes "syms_ok sy" and "P < 7" and "Q < 7" and "i < 1024"
    and "new_page_directory_entry sy m c P 0x08400000 v 0 3 = (m', c', r)"
  shows "tbl_get m' (pageDir sy) Q i =
      (if Q = P \<and> i = 33 then tbl_addr (video_page_tables sy) P OR 7 else tbl_get m (pageDir sy) Q i)"
    and "tbl_get m' (first_4MB sy) Q i = tbl_get m (first_4MB sy) Q i"
    and "tbl_get m' (video_page_tables sy) Q i =
      (if Q = P \<and> i = 0 then (v AND NOT 0xFFF) OR 7 else tbl_get m (video_page_tables sy) Q i)"
    and "c' = c\<lparr> cr3 := tbl_addr (pageDir sy) P \<rparr>" and "r = 0"
proof -
  note b = syms_bounds[OF assms(1,2)] syms_bounds[OF assms(1,3)] syms_distinct[OF assms(1) assms(2,2)]
    syms_distinct[OF assms(1,2,3)] syms_distinct[OF assms(1,3,2)] syms_neq[OF assms(1)]
  have qp: "unat Q = unat P \<longleftrightarrow> Q = P" by (simp add: word_unat_eq_iff)
  have ix: "unat (drop_bit 22 (0x08400000 :: u32)) = 33" "unat (drop_bit 12 (0x08400000 :: u32) AND 0x3FF) = 0"
    by (simp_all add: drop_bit_eq_div)
  have m': "m' = fst (new_page_directory_entry sy m c P 0x08400000 v 0 3)" by (simp add: assms(5))
  show "tbl_get m' (pageDir sy) Q i =
      (if Q = P \<and> i = 33 then tbl_addr (video_page_tables sy) P OR 7 else tbl_get m (pageDir sy) Q i)"
    unfolding m' new_page_directory_entry_def ix Let_def using assms(4) by (simp add: tbl_simps b qp)
  show "tbl_get m' (first_4MB sy) Q i = tbl_get m (first_4MB sy) Q i"
    unfolding m' new_page_directory_entry_def ix Let_def using assms(4) by (simp add: tbl_simps b qp)
  show "tbl_get m' (video_page_tables sy) Q i =
      (if Q = P \<and> i = 0 then (v AND NOT 0xFFF) OR 7 else tbl_get m (video_page_tables sy) Q i)"
    unfolding m' new_page_directory_entry_def ix Let_def using assms(4) by (simp add: tbl_simps b qp)
  show "c' = c\<lparr> cr3 := tbl_addr (pageDir sy) P \<rparr>" "r = 0"
    using assms(5) by (auto simp: new_page_directory_entry_def Let_def loadPageDir_def)
qed

lemma video_page_aligned: "video_page v \<Longrightarrow> v AND NOT 0xFFF = v"
  using video_page_push unfolding mask_12 by (metis page_aligned)

lemma vidmap_keeps_dirs:
  assumes "syms_ok sy" and "P < 7" and "video_page v" and "new_page_directory_entry sy m c P 0x08400000 v 0 3 = (m', c', r)"
    and "Q < 7" and "user_dir sy m Q"
  shows "user_dir sy m' Q"
proof -
  note t = vidmap_tables[OF assms(1,2,5) _ assms(4)]
  have "process_dir sy m' Q" using assms(6) t(1,2) by (simp add: user_dir_def process_dir_def)
  then show ?thesis using assms(6) t(1,3) assms(3) video_page_aligned[OF assms(3)] by (cases "Q = P") (auto simp: user_dir_def)
qed

lemma window_indices:
  fixes va :: u32
  assumes "0x08400000 \<le> va \<and> va < 0x08401000"
  shows "drop_bit 22 va = 33" and "unat (drop_bit 12 va AND 0x3FF) = 0" and "take_bit 12 va = va - 0x08400000"
proof -
  define d where "d = va - 0x08400000"
  have d: "unat d < 4096" "va = 0x08400000 + d"
    using assms by (auto simp: d_def word_le_nat_alt word_less_nat_alt unat_sub_if_size word_size)
  then have u: "unat va = 138412032 + unat d" by (simp add: unat_word_ariths)
  have "unat va div 4096 = 33792" using d(1) unfolding u by linarith
  then show "unat (drop_bit 12 va AND 0x3FF) = 0"
    by (simp add: mask_10 take_bit_eq_mask[symmetric] take_bit_eq_mod unat_mod drop_bit_unat)
  show "drop_bit 22 va = 33" using d(1) by (simp add: word_unat_eq_iff drop_bit_unat u)
  have "unat va mod 4096 = unat d" using d(1) mod_mult_self3[of 33792 4096 "unat d"] by (simp add: u)
  then have "take_bit 12 va = d" by (simp add: word_unat_eq_iff take_bit_eq_mod unat_mod)
  then show "take_bit 12 va = va - 0x08400000" by (simp add: d_def)
qed

lemma window_translation:
  assumes "cr3 c = tbl_addr (pageDir sy) P" and "paging_on c" and "video_page v"
    and "tbl_get m (pageDir sy) P 33 = tbl_addr (video_page_tables sy) P OR 7" and "tbl_get m (video_page_tables sy) P 0 = v OR 7"
    and va: "0x08400000 \<le> va \<and> va < 0x08401000"
  shows "translate m c user va = Some (v + (va - 0x08400000))"
proof -
  obtain x where x: "v = push_bit 12 x" using video_page_push[OF assms(3)] by blast
  note i22 = window_indices(1)[OF va] and i12 = window_indices(2)[OF va] and tk = window_indices(3)[OF va]
  have pde: "pde_at m c va = tbl_addr (video_page_tables sy) P OR 7"
    unfolding pde_at_dir[OF assms(1)] i22 using assms(4) by simp
  have pte: "pte_at m (tbl_addr (video_page_tables sy) P OR 7) va = push_bit 12 x OR 7"
    using pte_at_table[of 7 m "video_page_tables sy" P va] assms(5) x i12 by (simp add: take_bit_eq_mod)
  have "translate m c user va = Some (frame_4KB (push_bit 12 x OR 7) va)"
    using assms(2) by (simp add: translate_def paging_on_def Let_def pde pte entry_ok_flags) (simp add: tbl_addr_push entry_ok_flags)
  then show ?thesis using small_page[of 7 x va] by (simp add: tk x take_bit_eq_mod[of 12 7])
qed

text \<open>C27: mapping a screen page for a process (as \<open>vidmap\<close> does) makes exactly the 4 KB at
  132 MB a user-accessible window onto that page, changes no translation outside that 4 MB
  region, and keeps every directory in the invariant.\<close>

theorem vidmap_window:
  assumes "syms_ok sy" and "P < 7" and "video_page v" and "user_dir sy m P" and "paging_on c"
    and "new_page_directory_entry sy m c P 0x08400000 v 0 3 = (m', c', r)"
  shows "r = 0 \<and> (\<forall>Q < 7. user_dir sy m Q \<longrightarrow> user_dir sy m' Q) \<and>
    (\<forall>user va. 0x08400000 \<le> va \<and> va < 0x08401000 \<longrightarrow> translate m' c' user va = Some (v + (va - 0x08400000))) \<and>
    (\<forall>user va. drop_bit 22 va \<noteq> 33 \<longrightarrow> translate m' c' user va = process_map P user va)"
proof (intro conjI allI impI)
  note t = vidmap_tables[OF assms(1,2) _ _ assms(6)]
  note v = video_page_aligned[OF assms(3)]
  show "r = 0" using t(5)[OF assms(2), of 0] by simp
  note keep = vidmap_keeps_dirs[OF assms(1-3,6)]
  then show "user_dir sy m' Q" if "Q < 7" "user_dir sy m Q" for Q using that by blast
  have c': "cr3 c' = tbl_addr (pageDir sy) P" "paging_on c'"
    using t(4)[OF assms(2), of 0] assms(5) by (simp_all add: paging_on_def)
  show "translate m' c' user va = process_map P user va" if "drop_bit 22 va \<noteq> 33" for user va
    using keep[OF assms(2,4)] c' that by (intro process_translation) (auto simp: user_dir_def)
  show "translate m' c' user va = Some (v + (va - 0x08400000))" if "0x08400000 \<le> va \<and> va < 0x08401000" for user va
    using t(1)[OF assms(2), of 33] t(3)[OF assms(2), of 0] v by (intro window_translation[OF c' assms(3) _ _ that]) simp_all
qed

section \<open>A concrete layout\<close>

definition demo_syms :: symbols where
  "demo_syms = \<lparr> pageDir = 1100, first_4MB = 1110, video_page_tables = 1120 \<rparr>"

definition demo_mmu :: mmu where
  "demo_mmu = \<lparr> cr3 = 0, cr4 = 0, cr0 = 0 \<rparr>"

text \<open>Memory and control registers after creating the directories of processes 1 and 2.\<close>

definition demo_1 :: "mem \<times> mmu" where
  "demo_1 = new_page_directory demo_syms (\<lambda>_. 0) demo_mmu 1"

definition demo_2 :: "mem \<times> mmu" where
  "demo_2 = new_page_directory demo_syms (fst demo_1) demo_mmu 2"

lemma demo_syms_ok: "syms_ok demo_syms"
  by (simp add: syms_ok_def demo_syms_def)

lemma zero_tables: "tbl_get (\<lambda>_. 0) t P i = 0"
  by (simp add: tbl_get_def wld_def rd32_def le32_def)

lemma demo_dirs: "user_dir demo_syms (fst demo_1) 1" "user_dir demo_syms (fst demo_2) 1" "user_dir demo_syms (fst demo_2) 2"
proof -
  have d1: "new_page_directory demo_syms (\<lambda>_. 0) demo_mmu 1 = (fst demo_1, snd demo_1)" by (simp add: demo_1_def)
  have d2: "new_page_directory demo_syms (fst demo_1) demo_mmu 2 = (fst demo_2, snd demo_2)" by (simp add: demo_2_def)
  show u: "user_dir demo_syms (fst demo_1) 1"
    using new_page_directory_invariant[OF demo_syms_ok _ d1] by (simp add: zero_tables)
  have "tbl_get (fst demo_1) (video_page_tables demo_syms) 2 i = 0" if "i < 1024" for i
    using new_page_directory_tables(3)[OF demo_syms_ok _ _ d1 that, of 2] by (simp add: zero_tables)
  then have "user_dir demo_syms (fst demo_2) 2 \<and>
      (\<forall>Q < 7. Q \<noteq> 2 \<and> user_dir demo_syms (fst demo_1) Q \<longrightarrow> user_dir demo_syms (fst demo_2) Q)"
    by (intro new_page_directory_invariant[OF demo_syms_ok _ d2]) simp_all
  with u show "user_dir demo_syms (fst demo_2) 1" "user_dir demo_syms (fst demo_2) 2" by simp_all
qed

lemma demo_regs: "paging_on (snd demo_1)" "cr3 (snd demo_1) = tbl_addr (pageDir demo_syms) 1"
  "paging_on (snd demo_2)" "cr3 (snd demo_2) = tbl_addr (pageDir demo_syms) 2"
  using new_page_directory_regs[of demo_syms "\<lambda>_. 0" demo_mmu 1 "fst demo_1" "snd demo_1"]
    new_page_directory_regs[of demo_syms "fst demo_1" demo_mmu 2 "fst demo_2" "snd demo_2"]
  by (simp_all add: demo_1_def demo_2_def)

lemma demo_translate:
  "translate (fst demo_2) (snd demo_1) True 0x08048000 = Some 0x00848000"
  "translate (fst demo_2) (snd demo_2) True 0x08048000 = Some 0x00C48000"
  using demo_dirs demo_regs process_translation[of demo_syms "fst demo_2" 1 "snd demo_1" "0x08048000" True]
    process_translation[of demo_syms "fst demo_2" 2 "snd demo_2" "0x08048000" True]
  by (simp_all add: user_dir_def process_map_def drop_bit_eq_div)

theorem process_address_space_witness:
  "syms_ok demo_syms \<and> translate (fst demo_1) (snd demo_1) True 0x08048000 = Some 0x00848000 \<and>
   translate (fst demo_1) (snd demo_1) True 0x00400000 = None"
  using process_address_space[OF demo_syms_ok, of 1 "\<lambda>_. 0" demo_mmu "fst demo_1" "snd demo_1"] demo_syms_ok
  by (simp add: demo_1_def process_map_def)

theorem user_memory_isolation_witness:
  "translate (fst demo_2) (snd demo_1) True 0x08048000 = Some 0x00848000 \<and>
   translate (fst demo_2) (snd demo_2) True 0x08048000 \<noteq> Some 0x00848000"
  using user_memory_isolation[OF demo_dirs(2,3) _ _ _ _ demo_regs(1,3,2,4) demo_translate(1)] demo_translate
  by simp

theorem user_store_keeps_page_tables_witness:
  "user_dir demo_syms ((fst demo_2)(0x00848000 := 5)) 2"
  using user_store_keeps_page_tables[OF demo_syms_ok demo_dirs(2) _ _ demo_regs(1,2) demo_translate(1) demo_dirs(3)]
  by simp

theorem new_page_directory_keeps_others_witness:
  "user_dir demo_syms (fst demo_2) 1 \<and> user_dir demo_syms (fst demo_2) 2"
proof -
  have d1: "new_page_directory demo_syms (\<lambda>_. 0) demo_mmu 1 = (fst demo_1, snd demo_1)" by (simp add: demo_1_def)
  have "tbl_get (fst demo_1) (video_page_tables demo_syms) 2 i = 0" if "i < 1024" for i
    using new_page_directory_tables(3)[OF demo_syms_ok _ _ d1 that, of 2] by (simp add: zero_tables)
  then show ?thesis
    using new_page_directory_keeps_others[OF demo_syms_ok, of 2 "fst demo_1" demo_mmu "fst demo_2" "snd demo_2"] demo_dirs(1)
    by (simp add: demo_2_def)
qed

theorem vidmap_window_witness:
  "video_page 0xB8000 \<and>
   (case new_page_directory_entry demo_syms (fst demo_1) (snd demo_1) 1 0x08400000 0xB8000 0 3 of
      (m, c, r) \<Rightarrow> translate m c True 0x08400002 = Some 0xB8002)"
proof -
  obtain m c r where e: "new_page_directory_entry demo_syms (fst demo_1) (snd demo_1) 1 0x08400000 0xB8000 0 3 = (m, c, r)"
    by (cases "new_page_directory_entry demo_syms (fst demo_1) (snd demo_1) 1 0x08400000 0xB8000 0 3")
  have v: "video_page 0xB8000" by (simp add: video_page_def)
  show ?thesis using v e vidmap_window[OF demo_syms_ok _ v demo_dirs(1) demo_regs(1) e] by simp
qed

end
