(* ===== verification/Pic.thy ===== *)
theory Pic
  imports Prelude
begin

text \<open>
  The 8259 interrupt controller driver, \<^verbatim>\<open>student-distrib/i8259.c\<close>.  The state is
  the two cached mask registers together with the bytes the driver has written to the
  controllers' ports, in order (\<open>outb(data, port)\<close> appends \<open>(data, port)\<close>).

  The interface \<open>irq_controller\<close> says what the interrupt handlers rely on: enabling or
  disabling a line changes that line and no other.  It is interpreted on the driver.
\<close>

section \<open>Constants and state (i8259.c, i8259.h)\<close>

definition MASTER_CMD :: u16 where "MASTER_CMD = 0x20"
definition MASTER_DATA :: u16 where "MASTER_DATA = 0x21"
definition SLAVE_CMD :: u16 where "SLAVE_CMD = 0xA0"
definition SLAVE_DATA :: u16 where "SLAVE_DATA = 0xA1"

definition ICW1 :: u8 where "ICW1 = 0x11"
definition ICW2_MASTER :: u8 where "ICW2_MASTER = 0x20"
definition ICW2_SLAVE :: u8 where "ICW2_SLAVE = 0x28"
definition ICW3_MASTER :: u8 where "ICW3_MASTER = 0x04"
definition ICW3_SLAVE :: u8 where "ICW3_SLAVE = 0x02"
definition ICW4 :: u8 where "ICW4 = 0x01"
definition EOI :: u8 where "EOI = 0x60"

definition RTC_IRQ_NUM :: u8 where "RTC_IRQ_NUM = 8"
definition KEYBOARD_IRQ_NUM :: u8 where "KEYBOARD_IRQ_NUM = 1"
definition PIT_IRQ_NUM :: u8 where "PIT_IRQ_NUM = 0"
definition SLAVE_IRQ_NUM :: u8 where "SLAVE_IRQ_NUM = 2"

lemmas pic_consts = MASTER_CMD_def MASTER_DATA_def SLAVE_CMD_def SLAVE_DATA_def
  ICW1_def ICW2_MASTER_def ICW2_SLAVE_def ICW3_MASTER_def ICW3_SLAVE_def ICW4_def EOI_def
  RTC_IRQ_NUM_def KEYBOARD_IRQ_NUM_def PIT_IRQ_NUM_def SLAVE_IRQ_NUM_def

record pic =
  master_mask :: u8
  slave_mask :: u8
  pic_out :: ports
  if_flag :: bool

definition pic_outb :: "u8 \<Rightarrow> u16 \<Rightarrow> pic \<Rightarrow> pic" where
  "pic_outb d port p = p\<lparr>pic_out := pic_out p @ [(d, port)]\<rparr>"

text \<open>\<open>cli()\<close> and \<open>sti()\<close> of lib.h: the processor's interrupt flag.\<close>

definition cli :: "pic \<Rightarrow> pic" where
  "cli p = p\<lparr>if_flag := False\<rparr>"

definition sti :: "pic \<Rightarrow> pic" where
  "sti p = p\<lparr>if_flag := True\<rparr>"

section \<open>Operations\<close>

definition enable_irq :: "u8 \<Rightarrow> pic \<Rightarrow> pic" where
  "enable_irq irq_num p =
     (if irq_num < 8
      then if master_mask p AND push_bit (unat irq_num) 1 \<noteq> 0
           then let p = p\<lparr>master_mask := master_mask p AND NOT (push_bit (unat irq_num) 1)\<rparr>
                in pic_outb (master_mask p) MASTER_DATA p
           else p
      else let irq_num = irq_num - 8
           in if slave_mask p AND push_bit (unat irq_num) 1 \<noteq> 0
              then let p = p\<lparr>slave_mask := slave_mask p AND NOT (push_bit (unat irq_num) 1)\<rparr>
                   in pic_outb (slave_mask p) SLAVE_DATA p
              else p)"

definition disable_irq :: "u8 \<Rightarrow> pic \<Rightarrow> pic" where
  "disable_irq irq_num p =
     (if irq_num < 8
      then if master_mask p AND push_bit (unat irq_num) 1 = 0
           then let p = p\<lparr>master_mask := master_mask p OR push_bit (unat irq_num) 1\<rparr>
                in pic_outb (master_mask p) MASTER_DATA p
           else p
      else let irq_num = irq_num - 8
           in if slave_mask p AND push_bit (unat irq_num) 1 = 0
              then let p = p\<lparr>slave_mask := slave_mask p OR push_bit (unat irq_num) 1\<rparr>
                   in pic_outb (slave_mask p) SLAVE_DATA p
              else p)"

definition send_eoi :: "u8 \<Rightarrow> pic \<Rightarrow> pic" where
  "send_eoi irq_num p =
     (if irq_num < 8
      then pic_outb (EOI OR irq_num) MASTER_CMD p
      else pic_outb (EOI OR SLAVE_IRQ_NUM) MASTER_CMD
             (pic_outb (EOI OR (irq_num - 8)) SLAVE_CMD p))"

definition i8259_init :: "pic \<Rightarrow> pic" where
  "i8259_init p =
     (let p = pic_outb 0xFF MASTER_DATA p;
          p = pic_outb 0xFF SLAVE_DATA p;
          p = p\<lparr>master_mask := 0xFF\<rparr>;
          p = p\<lparr>slave_mask := 0xFF\<rparr>;
          p = pic_outb ICW1 MASTER_CMD p;
          p = pic_outb ICW2_MASTER MASTER_DATA p;
          p = pic_outb ICW3_MASTER MASTER_DATA p;
          p = pic_outb ICW4 MASTER_DATA p;
          p = pic_outb ICW1 SLAVE_CMD p;
          p = pic_outb ICW2_SLAVE SLAVE_DATA p;
          p = pic_outb ICW3_SLAVE SLAVE_DATA p;
          p = pic_outb ICW4 SLAVE_DATA p
      in enable_irq SLAVE_IRQ_NUM p)"

section \<open>What the masks mean\<close>

text \<open>Line \<open>j\<close> is unmasked when its bit is clear: lines 0-7 are bits of the master's
  mask, lines 8-15 bits of the slave's.\<close>

definition unmasked :: "pic \<Rightarrow> u8 \<Rightarrow> bool" where
  "unmasked p j = (if j < 8 then \<not> bit (master_mask p) (unat j)
                   else \<not> bit (slave_mask p) (unat j - 8))"

definition valid_irq :: "u8 \<Rightarrow> bool" where
  "valid_irq j \<longleftrightarrow> j < 16"

text \<open>The byte most recently written to a port.\<close>

definition last_out :: "u16 \<Rightarrow> ports \<Rightarrow> u8 option" where
  "last_out port out = fold (\<lambda>(d, q) r. if q = port then Some d else r) out None"

text \<open>The cached masks agree with what was last sent to the controllers.\<close>

definition masks_synced :: "pic \<Rightarrow> bool" where
  "masks_synced p \<longleftrightarrow> last_out MASTER_DATA (pic_out p) = Some (master_mask p) \<and>
     last_out SLAVE_DATA (pic_out p) = Some (slave_mask p)"

lemma and_bit_zero_iff: "(m :: u8) AND 2 ^ n = 0 \<longleftrightarrow> \<not> bit m n"
  by (simp add: bit_iff_and_push_bit_not_eq_0 push_bit_eq_mult)

lemma valid_irq_slave: "valid_irq j \<Longrightarrow> \<not> j < 8 \<Longrightarrow> unat (j - 8) = unat j - 8 \<and> unat j < 16 \<and> 8 \<le> unat j"
  by (simp add: valid_irq_def word_less_nat_alt unat_sub_if_size word_size)

text \<open>Clearing or setting one bit of a mask changes that bit only.\<close>

lemma bit_mask_clear: "n < 8 \<Longrightarrow> bit ((m :: u8) AND NOT (2 ^ k)) n \<longleftrightarrow> bit m n \<and> n \<noteq> k"
  by (auto simp: bit_simps)

lemma bit_mask_set: "n < 8 \<Longrightarrow> bit ((m :: u8) OR 2 ^ k) n \<longleftrightarrow> bit m n \<or> n = k"
  by (auto simp: bit_simps)

lemma irq_less_unat: "(i :: u8) < 8 \<longleftrightarrow> unat i < 8"
  by (simp add: word_less_nat_alt)

lemma irq_eq_unat: "(i :: u8) = j \<longleftrightarrow> unat i = unat j"
  by (simp add: word_unat_eq_iff)

lemmas irq_simps = irq_less_unat and_bit_zero_iff bit_mask_clear bit_mask_set pic_outb_def Let_def

lemma unmasked_enable:
  assumes "valid_irq i" and "valid_irq j"
  shows "unmasked (enable_irq i p) j \<longleftrightarrow> j = i \<or> unmasked p j"
  using valid_irq_slave[OF assms(1)] valid_irq_slave[OF assms(2)]
  by (auto simp: unmasked_def enable_irq_def irq_simps irq_eq_unat[of j i])

lemma unmasked_disable:
  assumes "valid_irq i" and "valid_irq j"
  shows "unmasked (disable_irq i p) j \<longleftrightarrow> j \<noteq> i \<and> unmasked p j"
  using valid_irq_slave[OF assms(1)] valid_irq_slave[OF assms(2)]
  by (auto simp: unmasked_def disable_irq_def irq_simps irq_eq_unat[of j i])

lemma unmasked_eoi [simp]: "unmasked (send_eoi i p) j = unmasked p j"
  by (simp add: unmasked_def send_eoi_def pic_outb_def)

section \<open>The interface the interrupt handlers use\<close>

locale irq_controller =
  fixes enable :: "u8 \<Rightarrow> 's \<Rightarrow> 's"
    and disable :: "u8 \<Rightarrow> 's \<Rightarrow> 's"
    and eoi :: "u8 \<Rightarrow> 's \<Rightarrow> 's"
    and enabled :: "'s \<Rightarrow> u8 \<Rightarrow> bool"
    and valid :: "u8 \<Rightarrow> bool"
  assumes enabled_enable: "valid i \<Longrightarrow> valid j \<Longrightarrow> enabled (enable i s) j \<longleftrightarrow> j = i \<or> enabled s j"
    and enabled_disable: "valid i \<Longrightarrow> valid j \<Longrightarrow> enabled (disable i s) j \<longleftrightarrow> j \<noteq> i \<and> enabled s j"
    and enabled_eoi: "valid i \<Longrightarrow> valid j \<Longrightarrow> enabled (eoi i s) j = enabled s j"
begin

text \<open>Every handler masks its own line, acknowledges the interrupt and unmasks the line
  again; the other lines are as before, and while the handler runs its line is off.\<close>

lemma handler_bracket:
  "valid i \<Longrightarrow> valid j \<Longrightarrow>
    enabled (enable i (eoi i (disable i s))) j \<longleftrightarrow> j = i \<or> enabled s j"
  by (auto simp: enabled_enable enabled_disable enabled_eoi)

lemma masked_inside: "valid i \<Longrightarrow> \<not> enabled (disable i s) i"
  by (simp add: enabled_disable)

lemma bracket_restores:
  "valid i \<Longrightarrow> valid j \<Longrightarrow> enabled s i \<Longrightarrow>
    enabled (enable i (eoi i (disable i s))) j = enabled s j"
  by (auto simp: handler_bracket)

text \<open>A list of lines switched on one after the other.\<close>

lemma enabled_fold:
  "valid j \<Longrightarrow> \<forall>i \<in> set is. valid i \<Longrightarrow>
    enabled (fold enable is s) j \<longleftrightarrow> j \<in> set is \<or> enabled s j"
  by (induction "is" arbitrary: s) (auto simp: enabled_enable)

end

interpretation i8259: irq_controller enable_irq disable_irq send_eoi unmasked valid_irq
  by unfold_locales (simp_all add: unmasked_enable unmasked_disable)

section \<open>Properties\<close>

text \<open>On the sixteen IRQ lines, \<open>enable_irq\<close> unmasks exactly the line it is given,
  \<open>disable_irq\<close> masks exactly that line, and \<open>send_eoi\<close> changes no mask.\<close>

theorem irq_mask_operations:
  assumes "valid_irq i" and "valid_irq j"
  shows "(unmasked (enable_irq i p) j \<longleftrightarrow> j = i \<or> unmasked p j) \<and>
         (unmasked (disable_irq i p) j \<longleftrightarrow> j \<noteq> i \<and> unmasked p j) \<and>
         (unmasked (send_eoi i p) j \<longleftrightarrow> unmasked p j)"
  using assms by (simp add: i8259.enabled_enable i8259.enabled_disable i8259.enabled_eoi)

theorem irq_mask_operations_witness:
  "valid_irq 9 \<and> valid_irq 1 \<and>
   \<not> unmasked (disable_irq 9 \<lparr>master_mask = 0, slave_mask = 0, pic_out = [], if_flag = False\<rparr>) 9 \<and>
   unmasked (disable_irq 9 \<lparr>master_mask = 0, slave_mask = 0, pic_out = [], if_flag = False\<rparr>) 1"
  using irq_mask_operations[of 9 9] irq_mask_operations[of 9 1]
  by (simp add: valid_irq_def unmasked_def)

text \<open>Each operation that changes a mask writes the new mask out, so the driver's cached
  masks keep agreeing with the last bytes sent to the controllers.\<close>

lemma synced_enable [inv_intros]: "masks_synced p \<Longrightarrow> masks_synced (enable_irq i p)"
  by (simp add: masks_synced_def last_out_def enable_irq_def pic_outb_def pic_consts Let_def)

lemma synced_disable [inv_intros]: "masks_synced p \<Longrightarrow> masks_synced (disable_irq i p)"
  by (simp add: masks_synced_def last_out_def disable_irq_def pic_outb_def pic_consts Let_def)

lemma synced_eoi [inv_intros]: "masks_synced p \<Longrightarrow> masks_synced (send_eoi i p)"
  by (simp add: masks_synced_def last_out_def send_eoi_def pic_outb_def pic_consts)

text \<open>The lines the kernel switches on at boot, in the order of \<open>entry\<close> (kernel.c):
  \<open>i8259_init\<close>, then \<open>rtc_init\<close>, the keyboard and \<open>pit_init\<close>.\<close>

definition boot_irqs :: "pic \<Rightarrow> pic" where
  "boot_irqs p = enable_irq PIT_IRQ_NUM (enable_irq KEYBOARD_IRQ_NUM
     (enable_irq RTC_IRQ_NUM (i8259_init p)))"

lemma bit_255: "n < 8 \<Longrightarrow> bit (255 :: int) n"
proof -
  assume "n < 8"
  then have "n = 0 \<or> n = 1 \<or> n = 2 \<or> n = 3 \<or> n = 4 \<or> n = 5 \<or> n = 6 \<or> n = 7" by arith
  then show ?thesis by (elim disjE) simp_all
qed

lemma init_unmasked: "valid_irq j \<Longrightarrow> unmasked (i8259_init p) j \<longleftrightarrow> j = 2"
  unfolding i8259_init_def Let_def pic_consts
  by (subst unmasked_enable)
    (auto simp: valid_irq_def unmasked_def pic_outb_def word_less_nat_alt bit_255)

lemma boot_irqs_lines: "valid_irq j \<Longrightarrow> unmasked (boot_irqs p) j \<longleftrightarrow> j \<in> {0, 1, 2, 8}"
  by (auto simp: boot_irqs_def unmasked_enable init_unmasked pic_consts valid_irq_def)

lemma boot_irqs_synced: "masks_synced (boot_irqs p)"
  by (simp add: boot_irqs_def i8259_init_def enable_irq_def masks_synced_def last_out_def
      pic_outb_def pic_consts)

text \<open>After the boot sequence, whatever the state before it, the cached masks agree
  with the controllers and exactly the PIT, keyboard, cascade and RTC lines are unmasked.\<close>

theorem boot_irqs_unmasked:
  "masks_synced (boot_irqs p) \<and>
   (\<forall>j. valid_irq j \<longrightarrow> (unmasked (boot_irqs p) j \<longleftrightarrow> j \<in> {0, 1, 2, 8}))"
  using boot_irqs_synced boot_irqs_lines by blast

theorem boot_irqs_unmasked_witness:
  "valid_irq 8 \<and> valid_irq 3 \<and>
   unmasked (boot_irqs \<lparr>master_mask = 0, slave_mask = 0, pic_out = [], if_flag = False\<rparr>) 8 \<and>
   \<not> unmasked (boot_irqs \<lparr>master_mask = 0, slave_mask = 0, pic_out = [], if_flag = False\<rparr>) 3"
proof -
  have "valid_irq 8" "valid_irq 3" by (simp_all add: valid_irq_def)
  then show ?thesis
    using boot_irqs_unmasked[of "\<lparr>master_mask = 0, slave_mask = 0, pic_out = [], if_flag = False\<rparr>"] by auto
qed

end
