(* ===== verification/Timers.thy ===== *)
theory Timers
  imports Pic CMem
begin

text \<open>
  The two timer drivers: the real-time clock (\<^verbatim>\<open>student-distrib/rtc.c\<close>) and the
  interval timer (\<^verbatim>\<open>student-distrib/pit.c\<close>; its interrupt handler is in the theory of
  the system calls, since it switches tasks).

  Port writes go to the same log as those of the interrupt controller; a value read from
  a port is an argument, since the device decides it.  \<open>rtc_read\<close> waits in a loop for the
  interrupt handler, so it takes the number of clock interrupts that arrive while it
  waits and has no result (\<open>None\<close>) if they do not suffice.

  The main results: a process that asked for \<open>rate\<close> notifications per second is notified
  on exactly every \<open>1024 / rate\<close>-th interrupt of the 1024 Hz clock, and therefore exactly
  \<open>rate\<close> times per second; \<open>rtc_read\<close> returns after at most that many interrupts;
  \<open>rtc_write\<close> accepts exactly the powers of two from 2 to 1024 and 0.
\<close>

section \<open>RTC: state and operations (rtc.c)\<close>

abbreviation MAX_PROCESSES :: nat where "MAX_PROCESSES \<equiv> 6"
abbreviation NUM_FREQS :: nat where "NUM_FREQS \<equiv> 10"
abbreviation MAXIMUM_RTC_RATE :: i32 where "MAXIMUM_RTC_RATE \<equiv> 1024"

definition RTC_ADDR :: u16 where "RTC_ADDR = 0x70"
definition RTC_DATA :: u16 where "RTC_DATA = 0x71"

record rtc =
  active_freq :: "nat \<Rightarrow> i32"
  interrupt_flag :: "nat \<Rightarrow> u8"
  rtc_count :: i32

text \<open>\<open>for (i = 0; i < MAX_PROCESSES + 1; i++)\<close> of \<open>rtc_init\<close>.\<close>

function rtc_zero :: "nat \<Rightarrow> rtc \<Rightarrow> rtc" where
  "rtc_zero i r =
     (if i < MAX_PROCESSES + 1
      then rtc_zero (i + 1) (r\<lparr> active_freq := (active_freq r)(i := 0), interrupt_flag := (interrupt_flag r)(i := 0) \<rparr>)
      else r)"
  by pat_completeness auto
termination
  by (relation "measure (\<lambda>(i, r). 7 - i)") auto

definition rtc_init :: "u8 \<Rightarrow> rtc \<Rightarrow> pic \<Rightarrow> rtc \<times> pic" where
  "rtc_init regB r p =
     (let r = rtc_zero 0 r;
          p = pic_outb 0x8B RTC_ADDR p;
          temp = regB;
          p = pic_outb 0x8B RTC_ADDR p;
          p = pic_outb (temp OR 0x40) RTC_DATA p
      in (r, enable_irq RTC_IRQ_NUM p))"

text \<open>The loops of \<open>rtcHandler\<close>: over the processes for one frequency, and over the
  frequencies.\<close>

function rtc_wake :: "(nat \<Rightarrow> i32) \<Rightarrow> nat \<Rightarrow> nat \<Rightarrow> (nat \<Rightarrow> u8) \<Rightarrow> nat \<Rightarrow> u8" where
  "rtc_wake freq i j flg =
     (if j < MAX_PROCESSES + 1
      then rtc_wake freq i (j + 1) (if freq j = drop_bit i MAXIMUM_RTC_RATE then flg(j := 1) else flg)
      else flg)"
  by pat_completeness auto
termination
  by (relation "measure (\<lambda>(freq, i, j, flg). 7 - j)") auto

function rtc_scan :: "(nat \<Rightarrow> i32) \<Rightarrow> i32 \<Rightarrow> i32 \<Rightarrow> i32 \<Rightarrow> nat \<Rightarrow> (nat \<Rightarrow> u8) \<Rightarrow> nat \<Rightarrow> u8" where
  "rtc_scan freq old_count cnt msk i flg =
     (if i < NUM_FREQS
      then let flg = (if old_count AND msk \<noteq> cnt AND msk then rtc_wake freq i 0 flg else flg)
           in rtc_scan freq old_count cnt (push_bit 1 msk) (i + 1) flg
      else flg)"
  by pat_completeness auto
termination
  by (relation "measure (\<lambda>(freq, old, cnt, msk, i, flg). 10 - i)") auto

declare rtc_zero.simps [simp del] rtc_wake.simps [simp del] rtc_scan.simps [simp del]

definition rtc_tick :: "rtc \<Rightarrow> rtc" where
  "rtc_tick r =
     (let old_count = rtc_count r;
          r = r\<lparr> rtc_count := rtc_count r + 1 \<rparr>
      in r\<lparr> interrupt_flag := rtc_scan (active_freq r) old_count (rtc_count r) 1 0 (interrupt_flag r) \<rparr>)"

definition rtcHandler :: "rtc \<Rightarrow> pic \<Rightarrow> rtc \<times> pic" where
  "rtcHandler r p =
     (let p = cli p;
          p = disable_irq RTC_IRQ_NUM p;
          p = pic_outb 0x0C RTC_ADDR p;
          r = rtc_tick r;
          p = send_eoi RTC_IRQ_NUM p;
          p = enable_irq RTC_IRQ_NUM p
      in (r, sti p))"

definition rtc_open :: i32 where
  "rtc_open = 0"

text \<open>\<open>rtc_read\<close> for process \<open>CPID\<close> when \<open>n\<close> clock interrupts arrive while it waits.  The
  state returned is that at its return.\<close>

fun rtc_wait :: "nat \<Rightarrow> nat \<Rightarrow> rtc \<times> pic \<Rightarrow> (rtc \<times> pic) option" where
  "rtc_wait CPID n s =
     (if interrupt_flag (fst s) CPID \<noteq> 0 then Some s
      else case n of 0 \<Rightarrow> None
        | Suc n \<Rightarrow> rtc_wait CPID n (rtcHandler (fst s) (sti (snd s))))"

definition rtc_read :: "nat \<Rightarrow> nat \<Rightarrow> rtc \<times> pic \<Rightarrow> i32 \<Rightarrow> ((rtc \<times> pic) \<times> i32) option" where
  "rtc_read CPID n s nbytes =
     (if active_freq (fst s) CPID = 0 then Some (s, 0)
      else case rtc_wait CPID n s of None \<Rightarrow> None
        | Some (r, p) \<Rightarrow> Some ((r\<lparr> interrupt_flag := (interrupt_flag r)(CPID := 0) \<rparr>, p), nbytes))"

definition rtc_write :: "nat \<Rightarrow> mem \<Rightarrow> rtc \<Rightarrow> u32 \<Rightarrow> i32 \<Rightarrow> rtc \<times> i32" where
  "rtc_write CPID m r buf nbytes =
     (if buf = 0 then (r, -1)
      else let rate = rd32 m buf
           in if rate \<noteq> 0 \<and> rate \<noteq> 2 \<and> rate \<noteq> 4 \<and> rate \<noteq> 8 \<and> rate \<noteq> 16 \<and> rate \<noteq> 32 \<and> rate \<noteq> 64 \<and>
                rate \<noteq> 128 \<and> rate \<noteq> 256 \<and> rate \<noteq> 512 \<and> rate \<noteq> 1024
              then (r, -1)
              else (r\<lparr> active_freq := (active_freq r)(CPID := rate) \<rparr>, nbytes))"

definition rtc_close :: "nat \<Rightarrow> rtc \<Rightarrow> rtc \<times> i32" where
  "rtc_close CPID r = (r\<lparr> active_freq := (active_freq r)(CPID := 0) \<rparr>, 0)"

section \<open>PIT (pit.c)\<close>

definition DATA_PORT :: u16 where "DATA_PORT = 0x40"
definition COMMAND_PORT :: u16 where "COMMAND_PORT = 0x43"
definition COUNT :: i32 where "COUNT = 25000"
definition MODE :: u8 where "MODE = 0x30"

definition set_count :: "i32 \<Rightarrow> pic \<Rightarrow> pic" where
  "set_count cnt p =
     (let p = pic_outb MODE COMMAND_PORT p;
          p = pic_outb (ucast (cnt AND 0x000000FF)) DATA_PORT p
      in pic_outb (ucast (drop_bit 8 (cnt AND 0x0000FF00))) DATA_PORT p)"

definition pit_init :: "pic \<Rightarrow> pic" where
  "pit_init p = enable_irq PIT_IRQ_NUM (set_count COUNT p)"

section \<open>What one clock interrupt does\<close>

lemma rtc_wake_apply:
  "rtc_wake freq i j flg k = (if j \<le> k \<and> k < 7 \<and> freq k = drop_bit i 1024 then 1 else flg k)"
  by (induction freq i j flg rule: rtc_wake.induct) (subst rtc_wake.simps, auto simp: le_Suc_eq not_less_eq_eq)

lemma rtc_scan_apply:
  assumes "k < 7"
  shows "msk = 2 ^ i \<Longrightarrow> rtc_scan freq old cnt msk i flg k =
    (if \<exists>n. i \<le> n \<and> n < 10 \<and> (bit old n \<noteq> bit cnt n) \<and> freq k = drop_bit n 1024 then 1 else flg k)"
proof (induction freq old cnt msk i flg rule: rtc_scan.induct)
  case (1 freq old cnt msk i flg)
  have m: "old AND msk \<noteq> cnt AND msk \<longleftrightarrow> (bit old i \<noteq> bit cnt i)" if "i < 10"
  proof -
    have "x AND 2 ^ i = (if bit x i then 2 ^ i else 0)" for x :: i32
      using that by (intro bit_word_eqI) (auto simp: bit_simps)
    then show ?thesis using that "1.prems" by simp
  qed
  show ?case
  proof (cases "i < 10")
    case True
    let ?flg = "if old AND msk \<noteq> cnt AND msk then rtc_wake freq i 0 flg else flg"
    have "rtc_scan freq old cnt msk i flg k = rtc_scan freq old cnt (push_bit 1 msk) (i + 1) ?flg k"
      using True by (subst rtc_scan.simps) (simp add: Let_def)
    also have "\<dots> = (if \<exists>n. i + 1 \<le> n \<and> n < 10 \<and> (bit old n \<noteq> bit cnt n) \<and> freq k = drop_bit n 1024 then 1 else ?flg k)"
      using "1.IH"[OF True refl] "1.prems" by (simp add: push_bit_eq_mult)
    also have "?flg k = (if bit old i \<noteq> bit cnt i \<and> freq k = drop_bit i 1024 then 1 else flg k)"
      using m[OF True] assms by (simp add: rtc_wake_apply)
    finally show ?thesis using True by (auto simp: le_Suc_eq Suc_le_eq dest: le_neq_implies_less)
  next
    case False
    then show ?thesis by (subst rtc_scan.simps) auto
  qed
qed

text \<open>Incrementing flips bit \<open>n\<close> exactly when the result is a multiple of \<open>2 ^ n\<close>.\<close>

lemma bit_flip_Suc: "bit c n \<noteq> bit (Suc c) n \<longleftrightarrow> 2 ^ n dvd Suc c"
proof (induction n arbitrary: c)
  case 0
  show ?case by (simp add: bit_0)
next
  case (Suc n)
  show ?case
  proof (cases "even c")
    case True
    then have "c div 2 = Suc c div 2" by simp
    moreover have "\<not> 2 ^ Suc n dvd Suc c" using True by (metis even_Suc dvd_trans dvd_triv_left power_Suc)
    ultimately show ?thesis by (simp add: bit_Suc)
  next
    case False
    then obtain k where k: "Suc c = 2 * k" by (metis even_Suc dvdE)
    with False have h: "Suc c div 2 = Suc (c div 2)" "k = Suc (c div 2)" by auto
    have "2 ^ Suc n dvd Suc c \<longleftrightarrow> 2 ^ n dvd k" by (simp add: k)
    with Suc.IH[of "c div 2"] show ?thesis by (simp add: bit_Suc h)
  qed
qed

lemma bit_flip_word:
  assumes "n < 32"
  shows "bit (c :: u32) n = (\<not> bit (c + 1) n) \<longleftrightarrow> 2 ^ n dvd Suc (unat c)"
proof (cases "c + 1 = 0")
  case False
  then have "unat (c + 1) = Suc (unat c)" by (simp add: unatSuc add.commute)
  moreover have "bit x n = bit (unat x) n" for x :: u32 by (simp add: bit_unsigned_iff)
  ultimately show ?thesis using bit_flip_Suc[of "unat c" n] by simp
next
  case True
  then have "c = -1" by (simp add: eq_neg_iff_add_eq_0)
  moreover have "(2 :: nat) ^ n dvd 2 ^ 32" using assms by (intro le_imp_power_dvd) simp
  ultimately show ?thesis using assms by (simp add: unat_neg1_32)
qed

text \<open>The rates \<open>rtc_write\<close> accepts besides 0.\<close>

definition valid_rate :: "i32 \<Rightarrow> bool" where
  "valid_rate rate \<longleftrightarrow> rate = 2 \<or> rate = 4 \<or> rate = 8 \<or> rate = 16 \<or> rate = 32 \<or> rate = 64 \<or>
     rate = 128 \<or> rate = 256 \<or> rate = 512 \<or> rate = 1024"

lemma drop_bit_1024: "n \<le> 10 \<Longrightarrow> drop_bit n 1024 = (2 ^ (10 - n) :: i32)"
proof -
  assume n: "n \<le> 10"
  have "(1024 :: i32) = push_bit n (2 ^ (10 - n))" using n by (simp add: push_bit_eq_mult flip: power_add)
  moreover have "drop_bit n (push_bit n (2 ^ (10 - n))) = (2 ^ (10 - n) :: i32)"
    using n by (intro bit_word_eqI) (auto simp: bit_simps)
  ultimately show ?thesis by simp
qed

lemma valid_rate_pow: "valid_rate rate \<longleftrightarrow> (\<exists>n < 10. rate = 2 ^ (10 - n))"
proof -
  have "(\<exists>n < 10. rate = 2 ^ (10 - n)) \<longleftrightarrow> (\<exists>n \<in> {0, 1, 2, 3, 4, 5, 6, 7, 8, 9 :: nat}. rate = 2 ^ (10 - n))"
    by (intro iffI; elim exE bexE conjE) (auto simp: less_Suc_eq eval_nat_numeral)
  also have "\<dots> \<longleftrightarrow> valid_rate rate" by (auto simp: valid_rate_def)
  finally show ?thesis by simp
qed

lemma unat_pow2: "k < 32 \<Longrightarrow> unat (2 ^ k :: u32) = 2 ^ k"
  using unat_of_nat_32[of "2 ^ k"] power_strict_increasing[of k 32 "2 :: nat"] by simp

lemma rate_inj: "n < 10 \<Longrightarrow> n' < 10 \<Longrightarrow> (2 ^ (10 - n) :: u32) = 2 ^ (10 - n') \<Longrightarrow> n = n'"
proof -
  assume h: "n < 10" "n' < 10" "(2 ^ (10 - n) :: u32) = 2 ^ (10 - n')"
  have "unat (2 ^ (10 - i) :: u32) = 2 ^ (10 - i)" for i by (rule unat_pow2) simp
  with h(3) have "(2 :: nat) ^ (10 - n) = 2 ^ (10 - n')" by metis
  then have "10 - n = 10 - n'" by simp
  with h(1,2) show ?thesis by simp
qed

lemma period_pow: "n < 10 \<Longrightarrow> 1024 div unat (2 ^ (10 - n) :: u32) = 2 ^ n"
proof -
  assume n: "n < 10"
  then have "(1024 :: nat) = 2 ^ n * 2 ^ (10 - n)" by (simp flip: power_add)
  moreover have "2 ^ n * 2 ^ (10 - n) div 2 ^ (10 - n) = (2 :: nat) ^ n" by simp
  ultimately show ?thesis using n by (simp add: unat_pow2)
qed

lemma tick_flag:
  assumes "k < 7"
  shows "valid_rate (active_freq r k) \<Longrightarrow> interrupt_flag (rtc_tick r) k =
      (if 1024 div unat (active_freq r k) dvd Suc (unat (rtc_count r)) then 1 else interrupt_flag r k)"
    and "\<not> valid_rate (active_freq r k) \<Longrightarrow> interrupt_flag (rtc_tick r) k = interrupt_flag r k"
proof -
  let ?f = "active_freq r k" and ?c = "rtc_count r"
  have s: "interrupt_flag (rtc_tick r) k =
      (if \<exists>n < 10. 2 ^ n dvd Suc (unat ?c) \<and> ?f = 2 ^ (10 - n) then 1 else interrupt_flag r k)"
  proof -
    have "(\<exists>n. 0 \<le> n \<and> n < 10 \<and> (bit ?c n \<noteq> bit (?c + 1) n) \<and> ?f = drop_bit n 1024) \<longleftrightarrow>
        (\<exists>n < 10. 2 ^ n dvd Suc (unat ?c) \<and> ?f = 2 ^ (10 - n))"
    proof (rule ex_cong1)
      fix n
      show "(0 \<le> n \<and> n < 10 \<and> (bit ?c n \<noteq> bit (?c + 1) n) \<and> ?f = drop_bit n 1024) \<longleftrightarrow>
          (n < 10 \<and> 2 ^ n dvd Suc (unat ?c) \<and> ?f = 2 ^ (10 - n))"
        using bit_flip_word[of n ?c] drop_bit_1024[of n] by (cases "n < 10") simp_all
    qed
    then show ?thesis
      using rtc_scan_apply[OF assms, of 1 0 "active_freq r" ?c "?c + 1" "interrupt_flag r"]
      by (simp add: rtc_tick_def Let_def)
  qed
  show "interrupt_flag (rtc_tick r) k = (if 1024 div unat ?f dvd Suc (unat ?c) then 1 else interrupt_flag r k)"
    if v: "valid_rate ?f"
  proof -
    obtain n where n: "n < 10" "?f = 2 ^ (10 - n)" using v by (auto simp: valid_rate_pow)
    then have "(\<exists>i < 10. 2 ^ i dvd Suc (unat ?c) \<and> ?f = 2 ^ (10 - i)) \<longleftrightarrow> 2 ^ n dvd Suc (unat ?c)"
      using rate_inj by metis
    then show ?thesis unfolding s n(2) period_pow[OF n(1)] by simp
  qed
  show "interrupt_flag (rtc_tick r) k = interrupt_flag r k" if "\<not> valid_rate ?f"
    using that unfolding s valid_rate_pow by auto
qed

lemma tick_frame [simp]: "active_freq (rtc_tick r) = active_freq r" "rtc_count (rtc_tick r) = rtc_count r + 1"
  by (simp_all add: rtc_tick_def Let_def)

lemma ticks_frame: "active_freq ((rtc_tick ^^ t) r) = active_freq r" "rtc_count ((rtc_tick ^^ t) r) = rtc_count r + of_nat t"
  by (induction t) (simp_all add: add.assoc add.commute[of 1])

text \<open>Process \<open>k\<close> with rate \<open>rate\<close> has its flag raised by a clock interrupt exactly when
  the interrupt's number is a multiple of \<open>1024 / rate\<close>; a process that did not ask for a
  rate is never notified; and no process's rate changes.\<close>

theorem rtc_interrupt_notifies:
  assumes "k < MAX_PROCESSES + 1"
  shows "interrupt_flag (fst (rtcHandler r p)) k =
    (if valid_rate (active_freq r k) \<and> 1024 div unat (active_freq r k) dvd Suc (unat (rtc_count r)) then 1
     else interrupt_flag r k) \<and> active_freq (fst (rtcHandler r p)) = active_freq r"
  using assms tick_flag[of k r] by (cases "valid_rate (active_freq r k)") (simp_all add: rtcHandler_def Let_def)

text \<open>The periodic count: exactly \<open>q\<close> of any \<open>d * q\<close> consecutive numbers are multiples of \<open>d\<close>.\<close>

lemma card_multiples: "0 < d \<Longrightarrow> card {t. t < d * q \<and> d dvd (c + t)} = (q :: nat)"
proof (induction q)
  case (Suc q)
  let ?A = "{t. t < d * q \<and> d dvd (c + t)}" and ?B = "{t. d * q \<le> t \<and> t < d * Suc q \<and> d dvd (c + t)}"
  define s where "s = d * q + (d - c mod d) mod d"
  have s: "d * q \<le> s" "s < d * Suc q" using Suc.prems by (simp_all add: s_def)
  have ds: "d dvd (c + s)"
  proof -
    define x where "x = (d - c mod d) mod d"
    have "(c + x) mod d = (c mod d + (d - c mod d)) mod d" unfolding x_def by (metis mod_add_left_eq mod_add_right_eq)
    moreover have "c mod d + (d - c mod d) = d" using mod_less_divisor[OF Suc.prems, of c] by simp
    moreover have "c + s = (c + x) + d * q" by (simp add: s_def x_def)
    ultimately have "d dvd (c + x)" by (simp add: dvd_eq_mod_eq_0)
    with \<open>c + s = (c + x) + d * q\<close> show ?thesis by (metis dvd_add dvd_triv_left)
  qed
  have "t = s" if "t \<in> ?B" for t
  proof -
    have "d dvd (c + t) - (c + s)" "d dvd (c + s) - (c + t)" using that ds by (blast intro: dvd_diff_nat)+
    then have "d dvd (t - s)" "d dvd (s - t)" by simp_all
    moreover have "t - s < d" "s - t < d" using that s by auto
    ultimately have "t - s = 0" "s - t = 0" by (auto dest: nat_dvd_not_less)
    then show ?thesis by simp
  qed
  then have "?B = {s}" using s ds by blast
  moreover have "{t. t < d * Suc q \<and> d dvd (c + t)} = ?A \<union> ?B" by auto
  moreover have "?A \<inter> ?B = {}" by auto
  moreover have "finite ?A" "finite ?B" by auto
  ultimately show ?case using Suc by (simp add: card_Un_disjoint)
qed simp

lemma dvd_Suc_wrap: "n < 10 \<Longrightarrow> 2 ^ n dvd Suc (unat (c + of_nat t :: u32)) \<longleftrightarrow> 2 ^ n dvd (Suc (unat c) + t)"
proof -
  assume n: "n < 10"
  have "(2 :: nat) ^ n dvd 2 ^ 32" using n by (intro le_imp_power_dvd) simp
  then obtain q where q: "(4294967296 :: nat) = 2 ^ n * q" by (auto elim: dvdE)
  have "unat (c + of_nat t) = (unat c + t) mod 4294967296" by (simp add: unat_word_ariths unat_of_nat take_bit_eq_mod mod_simps)
  then have "Suc (unat (c + of_nat t)) mod 2 ^ n = Suc ((unat c + t) mod (2 ^ n * q)) mod 2 ^ n" by (simp add: q)
  also have "\<dots> = Suc (unat c + t) mod 2 ^ n" by (metis mod_Suc_eq mod_mult_right_eq mod_mod_cancel dvd_triv_left)
  finally show ?thesis by (simp add: dvd_eq_mod_eq_0)
qed

text \<open>Process \<open>k\<close> is notified by the next clock interrupt (its flag being clear).\<close>

definition notified :: "nat \<Rightarrow> rtc \<Rightarrow> bool" where
  "notified k r \<longleftrightarrow> interrupt_flag (rtc_tick (r\<lparr> interrupt_flag := (interrupt_flag r)(k := 0) \<rparr>)) k \<noteq> 0"

text \<open>C34: whatever the counter's value, wrap-around included, among any 1024 consecutive clock
  interrupts (one second) a process with a valid rate is notified exactly \<open>rate\<close> times.\<close>

theorem rtc_rate_exact:
  assumes "k < MAX_PROCESSES + 1" and "valid_rate (active_freq r k)"
  shows "card {t. t < 1024 \<and> notified k ((rtc_tick ^^ t) r)} = unat (active_freq r k)"
proof -
  obtain n where n: "n < 10" "active_freq r k = 2 ^ (10 - n)" using assms(2) by (auto simp: valid_rate_pow)
  have "notified k ((rtc_tick ^^ t) r) \<longleftrightarrow> 2 ^ n dvd (Suc (unat (rtc_count r)) + t)" for t
    using assms tick_flag(1)[of k "((rtc_tick ^^ t) r)\<lparr> interrupt_flag := (interrupt_flag ((rtc_tick ^^ t) r))(k := 0) \<rparr>"]
      period_pow[OF n(1)] dvd_Suc_wrap[OF n(1), of "rtc_count r" t]
    by (simp add: notified_def ticks_frame n(2))
  moreover have "(1024 :: nat) = 2 ^ n * 2 ^ (10 - n)" using n(1) by (simp flip: power_add)
  ultimately have "card {t. t < 1024 \<and> notified k ((rtc_tick ^^ t) r)} = 2 ^ (10 - n)"
    using card_multiples[of "2 ^ n" "2 ^ (10 - n)" "Suc (unat (rtc_count r))"] by simp
  also have "\<dots> = unat (active_freq r k)" unfolding n(2) by (rule unat_pow2[symmetric]) simp
  finally show ?thesis .
qed

section \<open>Waiting for the clock\<close>

lemma handler_tick: "fst (rtcHandler r p) = rtc_tick r"
  by (simp add: rtcHandler_def Let_def)

declare rtc_wait.simps [simp del]

lemma rtc_wait_tick:
  "interrupt_flag r k = 0 \<Longrightarrow> rtc_wait k (Suc n) (r, p) = rtc_wait k n (rtcHandler r (sti p))"
  by (simp add: rtc_wait.simps[of k "Suc n"])

lemma rtc_wait_due:
  assumes "k < 7" and "valid_rate (active_freq r k)"
    and "1024 div unat (active_freq r k) dvd (Suc (unat (rtc_count r)) + t)" and "t < n"
  shows "\<exists>r' p'. rtc_wait k n (r, p) = Some (r', p') \<and> interrupt_flag r' k \<noteq> 0 \<and> active_freq r' = active_freq r"
  using assms(2-4)
proof (induction t arbitrary: r p n)
  case 0
  then obtain n' where n: "n = Suc n'" by (cases n) auto
  show ?case
  proof (cases "interrupt_flag r k = 0")
    case True
    have "interrupt_flag (rtc_tick r) k = 1" using tick_flag(1)[OF assms(1) 0(1)] 0(2) by simp
    then show ?thesis using True n handler_tick[of r "sti p"]
      by (simp add: rtc_wait_tick) (cases "rtcHandler r (sti p)", simp add: rtc_wait.simps[of k n'])
  qed (simp add: rtc_wait.simps[of k n])
next
  case (Suc t)
  then obtain n' where n: "n = Suc n'" "t < n'" by (cases n) auto
  obtain m where m: "m < 10" "active_freq r k = 2 ^ (10 - m)" using Suc.prems(1) by (auto simp: valid_rate_pow)
  show ?case
  proof (cases "interrupt_flag r k = 0")
    case True
    obtain p1 where h: "rtcHandler r (sti p) = (rtc_tick r, p1)" using handler_tick by (metis prod.collapse)
    have "1024 div unat (active_freq (rtc_tick r) k) dvd (Suc (unat (rtc_count (rtc_tick r))) + t)"
      using Suc.prems(2) dvd_Suc_wrap[OF m(1), of "rtc_count r + 1" t] dvd_Suc_wrap[OF m(1), of "rtc_count r" "Suc t"]
        dvd_Suc_wrap[OF m(1), of "rtc_count r + 1" t]
      by (simp add: m(2) period_pow[OF m(1)] ac_simps)
    then show ?thesis using Suc.IH[of "rtc_tick r" n' p1] Suc.prems(1) n True h by (simp add: rtc_wait_tick)
  qed (simp add: rtc_wait.simps[of k n])
qed

lemma next_multiple: "0 < d \<Longrightarrow> \<exists>t < d. d dvd (c + t)" for c d :: nat
proof -
  assume d: "0 < d"
  have "{t. t < d * 1 \<and> d dvd (c + t)} \<noteq> {}" using card_multiples[OF d, of 1 c] by (metis card.empty zero_neq_one)
  then show ?thesis by auto
qed

lemma rtc_read_due:
  assumes "k < 7" and v: "valid_rate (active_freq r k)"
  shows "\<exists>r' p'. rtc_read k (1024 div unat (active_freq r k)) (r, p) nbytes = Some ((r', p'), nbytes) \<and>
    interrupt_flag r' k = 0 \<and> active_freq r' = active_freq r"
proof -
  obtain m where m: "m < 10" "active_freq r k = 2 ^ (10 - m)" using v by (auto simp: valid_rate_pow)
  let ?d = "1024 div unat (active_freq r k)"
  have "0 < ?d" by (simp add: m(2) period_pow[OF m(1)])
  then obtain t where "t < ?d" "?d dvd (Suc (unat (rtc_count r)) + t)" using next_multiple by blast
  then obtain r' p' where "rtc_wait k ?d (r, p) = Some (r', p')" "active_freq r' = active_freq r"
    using rtc_wait_due[of k r t ?d p] assms by auto
  moreover have "active_freq r k \<noteq> 0" using v by (auto simp: valid_rate_def)
  ultimately show ?thesis by (simp add: rtc_read_def)
qed

text \<open>\<open>rtc_read\<close> by a process with a valid rate returns after at most \<open>1024 / rate\<close> clock
  interrupts, with \<open>nbytes\<close> and its flag cleared; without a rate it returns 0 at once (the
  comment says -1).\<close>

theorem rtc_read_returns:
  assumes "k < MAX_PROCESSES + 1"
  shows "(valid_rate (active_freq r k) \<longrightarrow>
      (\<exists>r' p'. rtc_read k (1024 div unat (active_freq r k)) (r, p) nbytes = Some ((r', p'), nbytes) \<and>
        interrupt_flag r' k = 0 \<and> active_freq r' = active_freq r)) \<and>
    (active_freq r k = 0 \<longrightarrow> rtc_read k n (r, p) nbytes = Some ((r, p), 0))"
  using rtc_read_due[of k r p nbytes] assms by (auto simp: rtc_read_def)

text \<open>\<open>rtc_write\<close> succeeds exactly for a non-NULL buffer holding 0 or a power of two from
  2 to 1024; it then sets the rate of the calling process only, and otherwise changes
  nothing.\<close>

theorem rtc_write_validates:
  "rtc_write k m r buf nbytes =
    (if buf \<noteq> 0 \<and> (rd32 m buf = 0 \<or> valid_rate (rd32 m buf))
     then (r\<lparr> active_freq := (active_freq r)(k := rd32 m buf) \<rparr>, nbytes) else (r, -1))"
  by (auto simp: rtc_write_def Let_def valid_rate_def)

text \<open>\<open>pit_init\<close> sends the mode byte and then the low and the high byte of the count
  (25000), and unmasks the timer's line.\<close>

theorem pit_init_programs_timer:
  "unmasked (pit_init p) PIT_IRQ_NUM \<and>
   (\<exists>lo hi rest. pic_out (pit_init p) = pic_out p @ [(0x30, 0x43), (lo, 0x40), (hi, 0x40)] @ rest \<and>
      unat hi * 256 + unat lo = unat COUNT)"
proof
  have "valid_irq PIT_IRQ_NUM" by (simp add: valid_irq_def PIT_IRQ_NUM_def)
  then show "unmasked (pit_init p) PIT_IRQ_NUM" by (simp add: pit_init_def unmasked_enable)
  have "pic_out (set_count COUNT p) = pic_out p @ [(0x30, 0x43), (0xA8, 0x40), (0x61, 0x40)]"
    by (simp add: set_count_def Let_def pic_outb_def MODE_def COMMAND_PORT_def DATA_PORT_def COUNT_def drop_bit_eq_div)
  moreover have "\<exists>rest. pic_out (enable_irq i q) = pic_out q @ rest" for i q
    by (auto simp: enable_irq_def pic_outb_def Let_def)
  ultimately obtain rest where "pic_out (pit_init p) = (pic_out p @ [(0x30, 0x43), (0xA8, 0x40), (0x61, 0x40)]) @ rest"
    unfolding pit_init_def by metis
  then have "pic_out (pit_init p) = pic_out p @ [(0x30, 0x43), (0xA8, 0x40), (0x61, 0x40)] @ rest \<and>
      unat (0x61 :: u8) * 256 + unat (0xA8 :: u8) = unat COUNT" by (simp add: COUNT_def)
  then show "\<exists>lo hi rest. pic_out (pit_init p) = pic_out p @ [(0x30, 0x43), (lo, 0x40), (hi, 0x40)] @ rest \<and>
      unat hi * 256 + unat lo = unat COUNT" by blast
qed

section \<open>Concrete runs\<close>

definition demo_rtc :: rtc where
  "demo_rtc = \<lparr> active_freq = (\<lambda>_. 0)(1 := 512), interrupt_flag = \<lambda>_. 0, rtc_count = 1 \<rparr>"

definition demo_pic :: pic where
  "demo_pic = \<lparr> master_mask = 0, slave_mask = 0, pic_out = [], if_flag = True \<rparr>"

theorem rtc_interrupt_notifies_witness:
  "interrupt_flag (fst (rtcHandler demo_rtc demo_pic)) 1 = 1 \<and> interrupt_flag (fst (rtcHandler demo_rtc demo_pic)) 2 = 0"
  using rtc_interrupt_notifies[of 1 demo_rtc demo_pic] rtc_interrupt_notifies[of 2 demo_rtc demo_pic]
  by (simp add: demo_rtc_def valid_rate_def)

theorem rtc_rate_exact_witness:
  "valid_rate (active_freq demo_rtc 1) \<and> card {t. t < 1024 \<and> notified 1 ((rtc_tick ^^ t) demo_rtc)} = 512"
  using rtc_rate_exact[of 1 demo_rtc] by (simp add: demo_rtc_def valid_rate_def)

theorem rtc_read_returns_witness:
  "valid_rate (active_freq demo_rtc 1) \<and>
   (\<exists>r' p'. rtc_read 1 2 (demo_rtc, demo_pic) 4 = Some ((r', p'), 4))"
  using rtc_read_returns[of 1 demo_rtc demo_pic 4 0]
  by (auto simp: demo_rtc_def valid_rate_def)

end
