(* ===== verification/Console.thy ===== *)
theory Console
  imports CMem "HOL-Library.Signed_Division"
begin

text \<open>
  The text console of \<^verbatim>\<open>student-distrib/lib.c\<close>: the screen position and attribute of
  each terminal, the video page the library functions write to, and the functions that
  print, scroll, move the cursor and switch pages.  Video memory is part of the flat
  memory: character cells of two bytes at \<open>video_mem + 2 * (80 * y + x)\<close>.

  \<open>cur_terminal\<close> (terminal.c) is part of the state here because
  \<open>get_screen_xy_idx\<close> reads it.  Coordinates are C \<open>int\<close>s and are modelled as
  integers: they never leave the range of a few screens.  A string argument is the list of
  its characters; the bytes sent to the cursor registers are logged in \<open>crtc_out\<close>.

  The abstract screen (\<open>screen\<close>) is a grid of cells and a cursor, and the code refines
  its operations; everything outside the current video page, and every other terminal's
  position, stays as it was.
\<close>

section \<open>State\<close>

abbreviation VIDEO :: u32 where "VIDEO \<equiv> 0xB8000"
abbreviation VIDEO_0 :: u32 where "VIDEO_0 \<equiv> 0xB9000"
abbreviation VIDEO_1 :: u32 where "VIDEO_1 \<equiv> 0xBA000"
abbreviation VIDEO_2 :: u32 where "VIDEO_2 \<equiv> 0xBB000"
abbreviation VIDEO_SIZE :: u32 where "VIDEO_SIZE \<equiv> 0xFA0"
abbreviation NUM_COLS :: int where "NUM_COLS \<equiv> 80"
abbreviation NUM_ROWS :: int where "NUM_ROWS \<equiv> 25"
abbreviation ACTIVE_CONTEXT :: int where "ACTIVE_CONTEXT \<equiv> - 1"

record console =
  screen_x :: "nat \<Rightarrow> int"
  screen_y :: "nat \<Rightarrow> int"
  video_mem :: u32
  attributes :: "nat \<Rightarrow> u8"
  cur_terminal :: nat
  crtc_out :: ports

definition get_screen_xy_idx :: "console \<Rightarrow> nat" where
  "get_screen_xy_idx c =
     (if video_mem c = VIDEO_0 then 0 else if video_mem c = VIDEO_1 then 1
      else if video_mem c = VIDEO_2 then 2 else cur_terminal c)"

abbreviation cur_x :: "console \<Rightarrow> int" where "cur_x c \<equiv> screen_x c (get_screen_xy_idx c)"
abbreviation cur_y :: "console \<Rightarrow> int" where "cur_y c \<equiv> screen_y c (get_screen_xy_idx c)"

definition set_x :: "int \<Rightarrow> console \<Rightarrow> console" where
  "set_x v c = c\<lparr> screen_x := (screen_x c)(get_screen_xy_idx c := v) \<rparr>"

definition set_y :: "int \<Rightarrow> console \<Rightarrow> console" where
  "set_y v c = c\<lparr> screen_y := (screen_y c)(get_screen_xy_idx c := v) \<rparr>"

definition cur_attribute :: "console \<Rightarrow> u8" where
  "cur_attribute c = attributes c (get_screen_xy_idx c)"

section \<open>Operations\<close>

definition set_video_context :: "int \<Rightarrow> console \<Rightarrow> console" where
  "set_video_context ctx c =
     (if ctx = ACTIVE_CONTEXT then c\<lparr> video_mem := VIDEO \<rparr>
      else if ctx = 0 then c\<lparr> video_mem := VIDEO_0 \<rparr>
      else if ctx = 1 then c\<lparr> video_mem := VIDEO_1 \<rparr>
      else if ctx = 2 then c\<lparr> video_mem := VIDEO_2 \<rparr>
      else c)"

definition save_video_context :: "int \<Rightarrow> mem \<Rightarrow> mem" where
  "save_video_context ctx m =
     (if ctx = 0 then memcpy m VIDEO_0 VIDEO VIDEO_SIZE
      else if ctx = 1 then memcpy m VIDEO_1 VIDEO VIDEO_SIZE
      else if ctx = 2 then memcpy m VIDEO_2 VIDEO VIDEO_SIZE
      else m)"

definition load_video_context :: "int \<Rightarrow> mem \<Rightarrow> mem" where
  "load_video_context ctx m =
     (if ctx = 0 then memcpy m VIDEO VIDEO_0 VIDEO_SIZE
      else if ctx = 1 then memcpy m VIDEO VIDEO_1 VIDEO_SIZE
      else if ctx = 2 then memcpy m VIDEO VIDEO_2 VIDEO_SIZE
      else m)"

text \<open>The loop of \<open>clear\<close> and of \<open>scroll\<close> that blanks cells \<open>i\<close> to \<open>n - 1\<close>.\<close>

function blank_cells :: "console \<Rightarrow> int \<Rightarrow> int \<Rightarrow> mem \<Rightarrow> mem" where
  "blank_cells c i n m =
     (if i < n
      then let m = m(video_mem c + of_int (2 * i) := byte_of (CHR '' ''));
               m = m(video_mem c + of_int (2 * i) + 1 := cur_attribute c)
           in blank_cells c (i + 1) n m
      else m)"
  by pat_completeness auto
termination
  by (relation "measure (\<lambda>(c, i, n, m). nat (n - i))") auto

declare blank_cells.simps [simp del]

definition clear :: "console \<Rightarrow> mem \<Rightarrow> mem" where
  "clear c m = blank_cells c 0 (NUM_ROWS * NUM_COLS) m"

definition scroll :: "console \<Rightarrow> mem \<Rightarrow> console \<times> mem" where
  "scroll c m =
     (if cur_y c \<ge> NUM_ROWS
      then let m = fst (memmove m (video_mem c) (video_mem c + of_int (2 * NUM_COLS))
                         (of_int (2 * (NUM_ROWS - 1) * NUM_COLS)));
               c = set_y (cur_y c - 1) c
           in (c, blank_cells c ((NUM_ROWS - 1) * NUM_COLS) (NUM_ROWS * NUM_COLS) m)
      else (c, m))"

definition crtc_outb :: "u8 \<Rightarrow> u16 \<Rightarrow> console \<Rightarrow> console" where
  "crtc_outb d p c = c\<lparr> crtc_out := crtc_out c @ [(d, p)] \<rparr>"

definition get_pos :: "console \<Rightarrow> int \<times> int" where
  "get_pos c = (cur_x c, cur_y c)"

definition set_cursor :: "int \<Rightarrow> console \<Rightarrow> console" where
  "set_cursor x c =
     (if video_mem c \<noteq> VIDEO then c
      else let (px, py) = get_pos c;
               new_cursor = px + x + py * NUM_COLS;
               c = crtc_outb 0x0F 0x3D4 c;
               c = crtc_outb (of_int new_cursor) 0x3D5 c;
               c = crtc_outb 0x0E 0x3D4 c
           in crtc_outb (of_int (drop_bit 8 new_cursor)) 0x3D5 c)"

definition putc :: "u8 \<Rightarrow> console \<Rightarrow> mem \<Rightarrow> console \<times> mem" where
  "putc ch c m =
     (if ch = 10 \<or> ch = 13
      then let c = set_y (cur_y c + 1) c;
               c = set_x 0 c
           in scroll c m
      else let m = m(video_mem c + of_int (2 * (NUM_COLS * cur_y c + cur_x c)) := ch);
               m = m(video_mem c + of_int (2 * (NUM_COLS * cur_y c + cur_x c)) + 1 := cur_attribute c);
               c = set_x (cur_x c + 1) c;
               (c, m) = (if cur_x c = NUM_COLS then let c = set_y (cur_y c + 1) c in scroll c m else (c, m));
               c = set_x (cur_x c smod NUM_COLS) c;
               c = set_y ((cur_y c + cur_x c sdiv NUM_COLS) smod NUM_ROWS) c
           in (set_cursor 0 c, m))"

fun puts :: "cstring \<Rightarrow> console \<Rightarrow> mem \<Rightarrow> console \<times> mem" where
  "puts [] c m = (c, m)"
| "puts (ch # s) c m = (let (c, m) = putc ch c m in puts s c m)"

text \<open>The loops of \<open>set_pos\<close>.\<close>

function wrap_x :: "int \<Rightarrow> int \<Rightarrow> int \<times> int" where
  "wrap_x x y = (if x \<ge> NUM_COLS then wrap_x (x - NUM_COLS) (y + 1) else (x, y))"
  by pat_completeness auto
termination
  by (relation "measure (\<lambda>(x, y). nat x)") auto

function clip_y :: "int \<Rightarrow> int" where
  "clip_y y = (if y \<ge> NUM_ROWS then clip_y (y - 1) else y)"
  by pat_completeness auto
termination
  by (relation "measure nat") auto

declare wrap_x.simps [simp del] clip_y.simps [simp del]

definition set_pos :: "int \<Rightarrow> int \<Rightarrow> console \<Rightarrow> console" where
  "set_pos x y c =
     (let (x, y) = wrap_x x y;
          y = clip_y y
      in set_y y (set_x x c))"

definition set_attribute :: "u8 \<Rightarrow> nat \<Rightarrow> console \<Rightarrow> console" where
  "set_attribute attribute terminal c = c\<lparr> attributes := (attributes c)(terminal := attribute) \<rparr>"

function test_loop :: "console \<Rightarrow> int \<Rightarrow> mem \<Rightarrow> mem" where
  "test_loop c i m =
     (if i < NUM_ROWS * NUM_COLS
      then test_loop c (i + 1) (m(video_mem c + of_int (2 * i) := m (video_mem c + of_int (2 * i)) + 1))
      else m)"
  by pat_completeness auto
termination
  by (relation "measure (\<lambda>(c, i, m). nat (2000 - i))") auto

declare test_loop.simps [simp del]

definition test_interrupts :: "console \<Rightarrow> mem \<Rightarrow> mem" where
  "test_interrupts c m = test_loop c 0 m"

subsection \<open>printf\<close>

text \<open>An argument on the stack: a word, or a pointer to a string.\<close>

datatype printf_arg = Word_arg u32 | Str_arg cstring

text \<open>\<open>itoa\<close> into a local \<open>conv_buf\<close> at address 0 of a fresh stack frame, and the C string
  found there.\<close>

definition conv :: "u32 \<Rightarrow> i32 \<Rightarrow> cstring option" where
  "conv v radix =
     (case itoa (\<lambda>_. 0) v 0 radix of None \<Rightarrow> None
      | Some m \<Rightarrow> (case strlen m 0 of None \<Rightarrow> None
         | Some n \<Rightarrow> Some (map (arr m 0) [0..<unat n])))"

text \<open>The \<open>while (i < 8)\<close> loop fills \<open>conv_buf[starting_index]\<close> to \<open>conv_buf[7]\<close> with
  \<open>'0'\<close>, and the digits follow from \<open>conv_buf[8]\<close>.\<close>

definition pad8 :: "cstring \<Rightarrow> cstring" where
  "pad8 s = replicate (8 - length s) (byte_of (CHR ''0'')) @ s"

text \<open>\<open>format_char_switch\<close>: what one conversion prints, the rest of the format and the
  rest of the arguments.  Reading past the format or the arguments has no result.\<close>

fun conversion :: "u8 list \<Rightarrow> printf_arg list \<Rightarrow> bool \<Rightarrow> (cstring \<times> u8 list \<times> printf_arg list) option" where
  "conversion [] args alternate = None"
| "conversion (ch # fmt) args alternate =
     (if ch = byte_of (CHR ''%'') then Some ([ch], fmt, args)
      else if ch = byte_of (CHR ''#'') then conversion fmt args True
      else if ch = byte_of (CHR ''x'') then
        (case args of Word_arg v # args \<Rightarrow>
           map_option (\<lambda>s. (if alternate then pad8 s else s, fmt, args)) (conv v 16)
         | _ \<Rightarrow> None)
      else if ch = byte_of (CHR ''u'') then
        (case args of Word_arg v # args \<Rightarrow> map_option (\<lambda>s. (s, fmt, args)) (conv v 10) | _ \<Rightarrow> None)
      else if ch = byte_of (CHR ''d'') then
        (case args of Word_arg v # args \<Rightarrow>
           if sint v < 0 then map_option (\<lambda>s. (byte_of (CHR ''-'') # s, fmt, args)) (conv (- v) 10)
           else map_option (\<lambda>s. (s, fmt, args)) (conv v 10)
         | _ \<Rightarrow> None)
      else if ch = byte_of (CHR ''c'') then
        (case args of Word_arg v # args \<Rightarrow> Some ([ucast v], fmt, args) | _ \<Rightarrow> None)
      else if ch = byte_of (CHR ''s'') then
        (case args of Str_arg s # args \<Rightarrow> Some (s, fmt, args) | _ \<Rightarrow> None)
      else Some ([], fmt, args))"

lemma conversion_shorter: "conversion fmt args alt = Some (s, fmt', args') \<Longrightarrow> length fmt' < length fmt"
  by (induction fmt args alt rule: conversion.induct)
    (auto split: if_splits list.splits printf_arg.splits option.splits)

function printf_loop :: "u8 list \<Rightarrow> printf_arg list \<Rightarrow> console \<Rightarrow> mem \<Rightarrow> (console \<times> mem) option" where
  "printf_loop [] args c m = Some (c, m)"
| "printf_loop (ch # buf) args c m =
     (if ch = byte_of (CHR ''%'')
      then case conversion buf args False of None \<Rightarrow> None
        | Some (s, buf, args) \<Rightarrow> let (c, m) = puts s c m in printf_loop buf args c m
      else let (c, m) = putc ch c m in printf_loop buf args c m)"
  by pat_completeness auto
termination
  by (relation "measure (\<lambda>(buf, args, c, m). length buf)") (auto dest: conversion_shorter)

definition printf :: "cstring \<Rightarrow> printf_arg list \<Rightarrow> console \<Rightarrow> mem \<Rightarrow> ((console \<times> mem) \<times> i32) option" where
  "printf fmt args c m =
     (case printf_loop fmt args c m of None \<Rightarrow> None
      | Some (c, m) \<Rightarrow> Some ((set_cursor 0 c, m), of_nat (length fmt)))"

section \<open>Invariant and abstract screen\<close>

definition video_pages :: "u32 set" where
  "video_pages = {VIDEO, VIDEO_0, VIDEO_1, VIDEO_2}"

definition con_ok :: "console \<Rightarrow> bool" where
  "con_ok c \<longleftrightarrow> video_mem c \<in> video_pages \<and> cur_terminal c < 3 \<and>
     (\<forall>t < 3. 0 \<le> screen_x c t \<and> screen_x c t < NUM_COLS \<and> 0 \<le> screen_y c t \<and> screen_y c t < NUM_ROWS)"

record screen =
  cells :: "nat \<Rightarrow> nat \<Rightarrow> u8 \<times> u8"
  cx :: nat
  cy :: nat

definition a_scroll :: "u8 \<Rightarrow> screen \<Rightarrow> screen" where
  "a_scroll at s =
     (if cy s \<ge> 25
      then s\<lparr> cells := (\<lambda>r k. if r < 24 then cells s (Suc r) k else if r = 24 \<and> k < 80 then (32, at) else (0, 0)), cy := cy s - 1 \<rparr>
      else s)"

definition a_putc :: "u8 \<Rightarrow> u8 \<Rightarrow> screen \<Rightarrow> screen" where
  "a_putc at ch s =
     (if ch = 10 \<or> ch = 13 then a_scroll at (s\<lparr> cx := 0, cy := cy s + 1 \<rparr>)
      else let s = s\<lparr> cells := (cells s)(cy s := (cells s (cy s))(cx s := (ch, at))) \<rparr>
           in if cx s + 1 = 80 then a_scroll at (s\<lparr> cx := 0, cy := cy s + 1 \<rparr>)
              else s\<lparr> cx := cx s + 1 \<rparr>)"

text \<open>The abstract screen that the current video page and position denote.\<close>

definition page_cells :: "mem \<Rightarrow> u32 \<Rightarrow> nat \<Rightarrow> nat \<Rightarrow> u8 \<times> u8" where
  "page_cells m b r k =
     (if r < 25 \<and> k < 80 then (arr m b (2 * (80 * r + k)), arr m b (2 * (80 * r + k) + 1)) else (0, 0))"

definition abs_screen :: "console \<Rightarrow> mem \<Rightarrow> screen" where
  "abs_screen c m = \<lparr> cells = page_cells m (video_mem c), cx = nat (cur_x c), cy = nat (cur_y c) \<rparr>"

lemma idx_frame [simp, frame_simps]:
  "get_screen_xy_idx (set_x v c) = get_screen_xy_idx c" "get_screen_xy_idx (set_y v c) = get_screen_xy_idx c"
  "get_screen_xy_idx (crtc_outb d p c) = get_screen_xy_idx c" "get_screen_xy_idx (set_cursor x c) = get_screen_xy_idx c"
  by (simp_all add: get_screen_xy_idx_def set_x_def set_y_def crtc_outb_def set_cursor_def get_pos_def Let_def)

lemma con_frame [simp, frame_simps]:
  "video_mem (set_x v c) = video_mem c" "video_mem (set_y v c) = video_mem c" "video_mem (set_cursor x c) = video_mem c"
  "attributes (set_x v c) = attributes c" "attributes (set_y v c) = attributes c" "attributes (set_cursor x c) = attributes c"
  "cur_terminal (set_x v c) = cur_terminal c" "cur_terminal (set_y v c) = cur_terminal c" "cur_terminal (set_cursor x c) = cur_terminal c"
  "screen_x (set_y v c) = screen_x c" "screen_y (set_x v c) = screen_y c"
  "screen_x (set_cursor x c) = screen_x c" "screen_y (set_cursor x c) = screen_y c"
  "screen_x (set_x v c) = (screen_x c)(get_screen_xy_idx c := v)" "screen_y (set_y v c) = (screen_y c)(get_screen_xy_idx c := v)"
  by (simp_all add: set_x_def set_y_def crtc_outb_def set_cursor_def get_pos_def Let_def)

lemma attr_frame [simp, frame_simps]:
  "cur_attribute (set_x v c) = cur_attribute c" "cur_attribute (set_y v c) = cur_attribute c"
  "cur_attribute (set_cursor x c) = cur_attribute c"
  by (simp_all add: cur_attribute_def)

lemma video_page_bound: "b \<in> video_pages \<Longrightarrow> unat b + 4000 \<le> 2 ^ 32 \<and> b \<noteq> 0"
  by (auto simp: video_pages_def)

lemma idx_less: "con_ok c \<Longrightarrow> get_screen_xy_idx c < 3"
  by (simp add: con_ok_def get_screen_xy_idx_def)

lemma arr_blit: "n \<le> 2 ^ 32 \<Longrightarrow> j < 2 ^ 32 \<Longrightarrow> arr (blit m s f n) s j = (if j < n then f j else arr m s j)"
  by (simp add: arr_def blit_def unat_of_nat_32)

lemma blank_cells_arr:
  assumes "j < 2 ^ 32"
  shows "n \<le> 2000 \<Longrightarrow> 0 \<le> i \<Longrightarrow> arr (blank_cells c i n m) (video_mem c) j =
    (if 2 * i \<le> int j \<and> int j < 2 * n then if even j then 32 else cur_attribute c else arr m (video_mem c) j)"
proof (induction c i n m rule: blank_cells.induct)
  case (1 c i n m)
  show ?case
  proof (cases "i < n")
    case True
    obtain k where k: "i = int k" using "1.prems"(2) by (metis zero_le_imp_eq_int)
    let ?b = "video_mem c"
    let ?m = "m(?b + of_nat (2 * k) := 32, ?b + of_nat (2 * k + 1) := cur_attribute c)"
    have "blank_cells c i n m = blank_cells c (i + 1) n ?m"
      using True by (subst blank_cells.simps) (simp add: Let_def k byte_of_def add.assoc add.commute[of 1])
    then have "arr (blank_cells c i n m) ?b j =
      (if 2 * (i + 1) \<le> int j \<and> int j < 2 * n then if even j then 32 else cur_attribute c else arr ?m ?b j)"
      using "1.IH"[OF True refl refl] "1.prems" by (simp add: k byte_of_def add.assoc add.commute[of 1] del: fun_upd_apply)
    also have "arr ?m ?b j = (if j = 2 * k + 1 then cur_attribute c else if j = 2 * k then 32 else arr m ?b j)"
    proof -
      have "k < 2000" using True "1.prems"(1) k by linarith
      then have b: "2 * k + 1 < 2 ^ 32" "2 * k < 2 ^ 32" by simp_all
      show ?thesis by (simp only: arr_upd[OF b(1) assms] arr_upd[OF b(2) assms])
    qed
    finally show ?thesis using True k by auto
  next
    case False
    then show ?thesis by (subst blank_cells.simps) auto
  qed
qed

lemma scroll_arr:
  assumes "video_mem c \<in> video_pages" and "cur_y c \<ge> NUM_ROWS" and "j < 2 ^ 32"
  shows "fst (scroll c m) = set_y (cur_y c - 1) c"
    and "arr (snd (scroll c m)) (video_mem c) j =
      (if j < 3840 then arr m (video_mem c) (160 + j)
       else if j < 4000 then if even j then 32 else cur_attribute c else arr m (video_mem c) j)"
proof -
  let ?b = "video_mem c" and ?c = "set_y (cur_y c - 1) c"
  have mv: "fst (memmove m ?b (?b + 160) 3840) = blit m ?b (arr m (?b + 160)) 3840"
    using memmove_blit[of ?b 3840 "?b + 160" m] assms(1) by (auto simp: video_pages_def)
  have s: "scroll c m = (?c, blank_cells ?c 1920 2000 (blit m ?b (arr m (?b + 160)) 3840))"
    using assms(2) by (simp add: scroll_def Let_def mv)
  then show "fst (scroll c m) = ?c" by simp
  have "arr m (?b + 160) j = arr m ?b (160 + j)" using arr_add[of m ?b 160 j] by simp
  then show "arr (snd (scroll c m)) ?b j =
      (if j < 3840 then arr m ?b (160 + j) else if j < 4000 then if even j then 32 else cur_attribute c else arr m ?b j)"
    using blank_cells_arr[of j 2000 1920 ?c "blit m ?b (arr m (?b + 160)) 3840"] assms(3)
    by (auto simp: s arr_blit)
qed

lemma scroll_none: "cur_y c < NUM_ROWS \<Longrightarrow> scroll c m = (c, m)"
  by (simp add: scroll_def)

text \<open>Two memories that differ only inside the current page.\<close>

definition page_frame :: "console \<Rightarrow> mem \<Rightarrow> mem \<Rightarrow> bool" where
  "page_frame c m m' \<longleftrightarrow> (\<forall>a. 4000 \<le> unat (a - video_mem c) \<longrightarrow> m' a = m a)"

lemma page_frameI: "(\<And>j. 4000 \<le> j \<Longrightarrow> j < 2 ^ 32 \<Longrightarrow> arr m' (video_mem c) j = arr m (video_mem c) j) \<Longrightarrow> page_frame c m m'"
  unfolding page_frame_def
proof (intro allI impI)
  fix a
  assume h: "\<And>j. 4000 \<le> j \<Longrightarrow> j < 2 ^ 32 \<Longrightarrow> arr m' (video_mem c) j = arr m (video_mem c) j"
    and a: "4000 \<le> unat (a - video_mem c)"
  show "m' a = m a" using h[OF a] unat_less_32[of "a - video_mem c"] by (simp add: arr_def)
qed

lemma page_frame_trans: "page_frame c m m' \<Longrightarrow> page_frame c' m' m'' \<Longrightarrow> video_mem c' = video_mem c \<Longrightarrow> page_frame c m m''"
  by (simp add: page_frame_def)

lemma page_frame_refl [simp]: "page_frame c m m"
  by (simp add: page_frame_def)

text \<open>\<open>scroll\<close> with the cursor at most one row below the screen.\<close>

lemma scroll_refines:
  assumes "video_mem c \<in> video_pages" and "0 \<le> cur_y c" and "cur_y c \<le> NUM_ROWS"
  shows "abs_screen (fst (scroll c m)) (snd (scroll c m)) = a_scroll (cur_attribute c) (abs_screen c m)"
    and "page_frame c m (snd (scroll c m))"
    and "fst (scroll c m) = set_y (min (cur_y c) (NUM_ROWS - 1)) c"
proof -
  have "abs_screen (fst (scroll c m)) (snd (scroll c m)) = a_scroll (cur_attribute c) (abs_screen c m) \<and>
    page_frame c m (snd (scroll c m)) \<and> fst (scroll c m) = set_y (min (cur_y c) (NUM_ROWS - 1)) c"
  proof (cases "cur_y c = NUM_ROWS")
    case True
    note sc = scroll_arr[OF assms(1), of _ m]
    have c: "fst (scroll c m) = set_y 24 c" using sc(1)[of 0] True by simp
    have "page_cells (snd (scroll c m)) (video_mem c) r k =
        (if r < 24 then page_cells m (video_mem c) (Suc r) k else if r = 24 \<and> k < 80 then (32, cur_attribute c) else (0, 0))" for r k
      using sc(2)[of "2 * (80 * r + k)"] sc(2)[of "2 * (80 * r + k) + 1"] True
      by (auto simp: page_cells_def algebra_simps)
    then have "abs_screen (fst (scroll c m)) (snd (scroll c m)) = a_scroll (cur_attribute c) (abs_screen c m)"
      using True by (simp add: abs_screen_def c a_scroll_def fun_eq_iff)
    moreover have "page_frame c m (snd (scroll c m))" using sc(2) True by (intro page_frameI) simp
    ultimately show ?thesis using True c by simp
  next
    case False
    then have "\<not> 25 \<le> nat (cur_y c)" using assms by linarith
    moreover have "set_y (cur_y c) c = c" by (simp add: set_y_def)
    ultimately show ?thesis using False assms by (simp add: scroll_none a_scroll_def abs_screen_def)
  qed
  then show "abs_screen (fst (scroll c m)) (snd (scroll c m)) = a_scroll (cur_attribute c) (abs_screen c m)"
    "page_frame c m (snd (scroll c m))" "fst (scroll c m) = set_y (min (cur_y c) (NUM_ROWS - 1)) c" by auto
qed

lemma smod_small: "0 \<le> a \<Longrightarrow> a < b \<Longrightarrow> a smod b = (a :: int)" "0 \<le> a \<Longrightarrow> a < b \<Longrightarrow> a sdiv b = (0 :: int)"
  by (cases "a = 0"; auto simp: smod_int_alt_def signed_divide_int_def sgn_if)+

lemma even_odd_neq: "2 * a \<noteq> 2 * b + (1 :: nat)"
  by presburger

lemma set_xy_simps [simp]:
  "set_x v (set_x w c) = set_x v c" "set_y v (set_y w c) = set_y v c" "set_y v (set_x w c) = set_x w (set_y v c)"
  by (simp_all add: set_x_def set_y_def get_screen_xy_idx_def)

lemma page_cells_store:
  assumes "y < 25" and "x < 80"
  shows "page_cells (m(b + of_nat (2 * (80 * y + x)) := ch, b + of_nat (2 * (80 * y + x) + 1) := at)) b =
    (page_cells m b)(y := (page_cells m b y)(x := (ch, at)))"
proof (intro ext)
  fix r k :: nat
  let ?j = "80 * y + x" and ?J = "80 * r + k"
  let ?M = "m(b + of_nat (2 * ?j) := ch, b + of_nat (2 * ?j + 1) := at)"
  have b: "2 * ?j + 1 < 2 ^ 32" "2 * ?j < 2 ^ 32" using assms by simp_all
  have u: "arr ?M b i = (if i = 2 * ?j + 1 then at else if i = 2 * ?j then ch else arr m b i)" if "i < 2 ^ 32" for i
    by (simp only: arr_upd[OF b(1) that] arr_upd[OF b(2) that])
  show "page_cells ?M b r k = ((page_cells m b)(y := (page_cells m b y)(x := (ch, at)))) r k"
  proof (cases "r < 25 \<and> k < 80")
    case True
    have "2 * ?J < 2 ^ 32" "2 * ?J + 1 < 2 ^ 32" using True by simp_all
    moreover have "2 * ?J \<noteq> 2 * ?j + 1" "2 * ?J + 1 \<noteq> 2 * ?j"
      by (rule even_odd_neq, rule even_odd_neq[symmetric])
    ultimately have "(arr ?M b (2 * ?J), arr ?M b (2 * ?J + 1)) =
        (if ?J = ?j then (ch, at) else (arr m b (2 * ?J), arr m b (2 * ?J + 1)))" by (simp only: u) auto
    moreover have "?J = ?j \<longleftrightarrow> r = y \<and> k = x"
      using True assms(2) by (cases r y rule: linorder_cases) auto
    ultimately show ?thesis using True by (simp only: page_cells_def fun_upd_apply) (auto simp: page_cells_def)
  next
    case False
    then show ?thesis using assms by (auto simp: page_cells_def)
  qed
qed

lemma page_frame_store:
  assumes "y < 25" and "x < 80"
  shows "page_frame c m (m(video_mem c + of_nat (2 * (80 * y + x)) := ch, video_mem c + of_nat (2 * (80 * y + x) + 1) := at))"
proof (rule page_frameI)
  fix j :: nat
  let ?j = "80 * y + x"
  assume j: "4000 \<le> j" "j < 2 ^ 32"
  have b: "2 * ?j + 1 < 2 ^ 32" "2 * ?j < 2 ^ 32" using assms by simp_all
  show "arr (m(video_mem c + of_nat (2 * ?j) := ch, video_mem c + of_nat (2 * ?j + 1) := at)) (video_mem c) j = arr m (video_mem c) j"
    using j assms by (simp only: arr_upd[OF b(1) j(2)] arr_upd[OF b(2) j(2)]) simp
qed

text \<open>Everything \<open>putc\<close> promises, in one statement: refinement of the abstract screen, the
  memory outside the page, the other terminals, the invariant.\<close>

definition putc_spec :: "u8 \<Rightarrow> console \<Rightarrow> mem \<Rightarrow> console \<times> mem \<Rightarrow> bool" where
  "putc_spec ch c m r \<longleftrightarrow>
     abs_screen (fst r) (snd r) = a_putc (cur_attribute c) ch (abs_screen c m) \<and>
     page_frame c m (snd r) \<and> con_ok (fst r) \<and> video_mem (fst r) = video_mem c \<and>
     cur_terminal (fst r) = cur_terminal c \<and> attributes (fst r) = attributes c \<and>
     (\<forall>t. t \<noteq> get_screen_xy_idx c \<longrightarrow> screen_x (fst r) t = screen_x c t \<and> screen_y (fst r) t = screen_y c t)"

lemma con_ok_pos: "con_ok c \<Longrightarrow> 0 \<le> cur_x c \<and> cur_x c < 80 \<and> 0 \<le> cur_y c \<and> cur_y c < 25"
  using idx_less by (simp add: con_ok_def)

lemma con_ok_set:
  assumes "con_ok c" and "0 \<le> x" and "x < 80" and "0 \<le> y" and "y < 25"
  shows "con_ok (set_x x (set_y y c))" "con_ok (set_y y (set_x x c))"
  using assms by (auto simp: con_ok_def)

lemma con_ok_cursor: "con_ok (set_cursor x c) = con_ok c"
  by (simp add: con_ok_def)

lemma putc_newline:
  assumes "con_ok c" and "ch = 10 \<or> ch = 13"
  shows "putc_spec ch c m (putc ch c m)"
proof -
  let ?c = "set_x 0 (set_y (cur_y c + 1) c)"
  note p = con_ok_pos[OF assms(1)]
  have v: "video_mem ?c \<in> video_pages" using assms(1) by (simp add: con_ok_def)
  note sc = scroll_refines[OF v, of m]
  have r: "putc ch c m = scroll ?c m" using assms(2) by (simp add: putc_def Let_def)
  have c: "fst (scroll ?c m) = set_y (min (cur_y c + 1) 24) ?c" using sc(3) p by simp
  have "con_ok (fst (scroll ?c m))"
    using p con_ok_set(2)[OF assms(1), of 0 "min (cur_y c + 1) 24"] unfolding c con_ok_def by auto
  moreover have "abs_screen ?c m = (abs_screen c m)\<lparr> cx := 0, cy := cy (abs_screen c m) + 1 \<rparr>"
    using p by (simp add: abs_screen_def nat_add_distrib)
  ultimately show ?thesis
    using sc(1,2) p assms(2) unfolding putc_spec_def r
    by (auto simp: a_putc_def c page_frame_def)
qed

lemma putc_char:
  assumes "con_ok c" and "\<not> (ch = 10 \<or> ch = 13)"
  shows "putc_spec ch c m (putc ch c m)"
proof -
  note p = con_ok_pos[OF assms(1)]
  obtain x y where xy: "cur_x c = int x" "cur_y c = int y" "x < 80" "y < 25"
    using p by (metis nat_less_iff numeral_less_iff of_nat_less_iff of_nat_numeral zero_le_imp_eq_int)
  let ?b = "video_mem c" and ?at = "cur_attribute c"
  define m1 where "m1 = m(?b + of_nat (2 * (80 * y + x)) := ch, ?b + of_nat (2 * (80 * y + x) + 1) := ?at)"
  have addr: "?b + of_int (2 * (80 * cur_y c + cur_x c)) = ?b + of_nat (2 * (80 * y + x))"
    "?b + of_nat (2 * (80 * y + x)) + 1 = ?b + of_nat (2 * (80 * y + x) + 1)" by (simp_all add: xy)
  note st = putc_def[of ch c m, unfolded Let_def addr, folded m1_def]
  have cells: "page_cells m1 ?b = (page_cells m ?b)(y := (page_cells m ?b y)(x := (ch, ?at)))"
    unfolding m1_def using xy(4,3) by (rule page_cells_store)
  have fr: "page_frame c m m1" unfolding m1_def using xy(4,3) by (rule page_frame_store)
  show ?thesis
  proof (cases "x = 79")
    case False
    then have r: "putc ch c m = (set_cursor 0 (set_y (int y) (set_x (int x + 1) c)), m1)"
      using assms(2) xy by (simp add: st smod_small)
    have "con_ok (set_cursor 0 (set_y (int y) (set_x (int x + 1) c)))"
      using con_ok_set(2)[OF assms(1)] False xy by (simp add: con_ok_cursor)
    then show ?thesis using fr False xy assms(2) unfolding putc_spec_def r
      by (auto simp: a_putc_def abs_screen_def cells nat_add_distrib)
  next
    case True
    let ?c = "set_x 80 (set_y (int y + 1) c)"
    have v: "video_mem ?c \<in> video_pages" using assms(1) by (simp add: con_ok_def)
    note sc = scroll_refines[OF v, of m1]
    have c: "fst (scroll ?c m1) = set_x 80 (set_y (min (int y + 1) 24) c)" using sc(3) xy by simp
    have r: "putc ch c m = (set_cursor 0 (set_y (min (int y + 1) 24) (set_x 0 (fst (scroll ?c m1)))), snd (scroll ?c m1))"
      using assms(2) xy True c by (cases "scroll ?c m1") (simp add: st smod_small)
    have "con_ok (fst (putc ch c m))"
      using con_ok_set(2)[OF assms(1), of 0 "min (int y + 1) 24"] xy unfolding r c con_ok_def by auto
    moreover have "page_frame c m (snd (scroll ?c m1))" using page_frame_trans[OF fr sc(2)] xy by simp
    moreover have "abs_screen (fst (putc ch c m)) (snd (putc ch c m)) = a_putc ?at ch (abs_screen c m)"
      using sc(1) xy True assms(2) by (simp add: r c abs_screen_def a_putc_def cells a_scroll_def nat_add_distrib split: if_splits cong: if_cong)
    ultimately show ?thesis unfolding putc_spec_def by (auto simp: r c)
  qed
qed

lemma putc_ok: "con_ok c \<Longrightarrow> putc_spec ch c m (putc ch c m)"
  using putc_newline putc_char by blast

text \<open>C28: \<open>putc\<close> implements the abstract screen: the cell at the cursor gets the character
  and the terminal's attribute, the cursor advances with wrap-around, newline and carriage
  return start a new row, and past the last row the whole screen scrolls up by one.\<close>

theorem putc_refines_screen:
  assumes "con_ok c"
  shows "abs_screen (fst (putc ch c m)) (snd (putc ch c m)) = a_putc (cur_attribute c) ch (abs_screen c m)"
  using putc_ok[OF assms] by (simp add: putc_spec_def)

lemma puts_ok:
  "con_ok c \<Longrightarrow> puts s c m = (c', m') \<Longrightarrow>
    abs_screen c' m' = fold (a_putc (cur_attribute c)) s (abs_screen c m) \<and>
    page_frame c m m' \<and> con_ok c' \<and> video_mem c' = video_mem c \<and> cur_terminal c' = cur_terminal c \<and>
    attributes c' = attributes c \<and>
    (\<forall>t. t \<noteq> get_screen_xy_idx c \<longrightarrow> screen_x c' t = screen_x c t \<and> screen_y c' t = screen_y c t)"
proof (induction s c m rule: puts.induct)
  case (2 ch s c m)
  obtain c1 m1 where p: "putc ch c m = (c1, m1)" by (cases "putc ch c m")
  have sp: "putc_spec ch c m (c1, m1)" using putc_ok[OF "2.prems"(1), of ch m] p by simp
  have idx: "get_screen_xy_idx c1 = get_screen_xy_idx c" "cur_attribute c1 = cur_attribute c"
    using sp by (auto simp: putc_spec_def get_screen_xy_idx_def cur_attribute_def)
  have "puts s c1 m1 = (c', m')" using "2.prems"(2) p by simp
  with "2.IH"[OF p[symmetric] refl] sp idx show ?case
    by (auto simp: putc_spec_def intro: page_frame_trans)
qed (auto simp: page_frame_def)

text \<open>Printing any string keeps the console invariant, changes memory only inside the
  4000 bytes of the current video page and no position or attribute of another terminal, and
  its effect on the screen is that of its characters one after the other.\<close>

theorem puts_stays_on_page:
  assumes "con_ok c" and "puts s c m = (c', m')"
  shows "con_ok c' \<and> (\<forall>a. 4000 \<le> unat (a - video_mem c) \<longrightarrow> m' a = m a) \<and>
    (\<forall>t. t \<noteq> get_screen_xy_idx c \<longrightarrow> screen_x c' t = screen_x c t \<and> screen_y c' t = screen_y c t) \<and>
    abs_screen c' m' = fold (a_putc (cur_attribute c)) s (abs_screen c m)"
  using puts_ok[OF assms] by (simp add: page_frame_def)

section \<open>Saving and restoring a terminal's screen\<close>

definition term_page :: "nat \<Rightarrow> u32" where
  "term_page t = (if t = 0 then VIDEO_0 else if t = 1 then VIDEO_1 else VIDEO_2)"

lemma save_load_blit:
  assumes "t < 3"
  shows "save_video_context (int t) m = blit m (term_page t) (arr m VIDEO) 4000"
    and "load_video_context (int t) m = blit m VIDEO (arr m (term_page t)) 4000"
proof -
  have t: "t = 0 \<or> t = 1 \<or> t = 2" using assms by auto
  have c: "memcpy m d s VIDEO_SIZE = blit m d (arr m s) 4000" if "4000 \<le> unat (d - s)" for d s
    using memcpy_blit[of d s VIDEO_SIZE m] that by (simp add: copy_ok_def)
  from t show "save_video_context (int t) m = blit m (term_page t) (arr m VIDEO) 4000"
    by (elim disjE) (simp_all add: save_video_context_def term_page_def c)
  from t show "load_video_context (int t) m = blit m VIDEO (arr m (term_page t)) 4000"
    by (elim disjE) (simp_all add: load_video_context_def term_page_def c)
qed

text \<open>Loading a terminal's page brings back exactly the screen saved last, whatever was
  written to video memory in between, and saving writes only that terminal's page.\<close>

theorem save_load_round_trip:
  assumes "t < 3" and "\<forall>j < 4000. arr m' (term_page t) j = arr (save_video_context (int t) m) (term_page t) j"
  shows "(\<forall>j < 4000. arr (load_video_context (int t) m') VIDEO j = arr m VIDEO j) \<and>
    (\<forall>a. 4000 \<le> unat (a - term_page t) \<longrightarrow> save_video_context (int t) m a = m a)"
proof (intro conjI allI impI)
  fix j :: nat assume j: "j < 4000"
  then have "arr (load_video_context (int t) m') VIDEO j = arr m' (term_page t) j"
    by (simp add: save_load_blit[OF assms(1)] arr_blit_same)
  also have "\<dots> = arr m VIDEO j" using assms(2) j by (simp add: save_load_blit[OF assms(1)] arr_blit_same)
  finally show "arr (load_video_context (int t) m') VIDEO j = arr m VIDEO j" .
qed (simp add: save_load_blit[OF assms(1)] blit_arr_other)

section \<open>Positions and the hardware cursor\<close>

lemma wrap_x_divmod: "0 \<le> x \<Longrightarrow> wrap_x x y = (x mod 80, y + x div 80)"
proof (induction x y rule: wrap_x.induct)
  case (1 x y)
  show ?case
  proof (cases "x \<ge> 80")
    case True
    have "(x - 80) mod 80 = x mod 80" "(x - 80) div 80 = x div 80 - 1" by (simp_all add: minus_mod_self2)
    with True 1 show ?thesis by (subst wrap_x.simps) simp
  qed (use 1 in \<open>simp add: wrap_x.simps\<close>)
qed

lemma clip_y_min: "clip_y y = min y 24"
  by (induction y rule: clip_y.induct) (subst clip_y.simps, simp)

text \<open>\<open>set_pos\<close> for coordinates at or beyond the top left corner terminates and always
  leaves a position on the screen: the column modulo 80 with carry into the row, and the row
  clipped to the last one; other terminals keep theirs.\<close>

theorem set_pos_on_screen:
  assumes "con_ok c" and "0 \<le> x" and "0 \<le> y"
  shows "con_ok (set_pos x y c) \<and> get_pos (set_pos x y c) = (x mod 80, min (y + x div 80) 24)"
proof -
  have "set_pos x y c = set_y (min (y + x div 80) 24) (set_x (x mod 80) c)"
    using assms(2) by (simp add: set_pos_def wrap_x_divmod clip_y_min Let_def)
  moreover have "0 \<le> x div 80" using assms(2) by (simp add: pos_imp_zdiv_nonneg_iff)
  ultimately show ?thesis
    using assms con_ok_set(2)[OF assms(1), of "x mod 80" "min (y + x div 80) 24"] by (simp add: get_pos_def)
qed

lemma cursor_bytes:
  assumes "0 \<le> n" and "n < 65536"
  shows "256 * uint (of_int (drop_bit 8 n) :: u8) + uint (of_int n :: u8) = n"
proof -
  have "n div 256 < 256" "0 \<le> n div 256" using assms by (simp_all add: pos_imp_zdiv_nonneg_iff)
  then show ?thesis by (simp add: uint_word_of_int drop_bit_eq_div)
qed

text \<open>With the visible page selected, \<open>set_cursor\<close> sends the cursor's cell number
  \<open>80 * y + x\<close> (plus the offset) to the controller, low byte then high byte.\<close>

theorem set_cursor_sends_cell:
  assumes "con_ok c" and "video_mem c = VIDEO" and "0 \<le> cur_x c + d + cur_y c * NUM_COLS"
    and "cur_x c + d + cur_y c * NUM_COLS < 65536"
  shows "\<exists>lo hi. crtc_out (set_cursor d c) = crtc_out c @ [(0x0F, 0x3D4), (lo, 0x3D5), (0x0E, 0x3D4), (hi, 0x3D5)] \<and>
    256 * uint hi + uint lo = cur_x c + d + cur_y c * NUM_COLS"
proof -
  let ?n = "cur_x c + d + cur_y c * NUM_COLS"
  have "crtc_out (set_cursor d c) = crtc_out c @ [(0x0F, 0x3D4), (of_int ?n, 0x3D5), (0x0E, 0x3D4), (of_int (drop_bit 8 ?n), 0x3D5)]"
    using assms(2) by (simp add: set_cursor_def get_pos_def crtc_outb_def Let_def)
  moreover have "256 * uint (of_int (drop_bit 8 ?n) :: u8) + uint (of_int ?n :: u8) = ?n"
    using assms(3,4) by (rule cursor_bytes)
  ultimately show ?thesis by blast
qed

section \<open>What printf prints\<close>

lemma conv_numeral:
  assumes "2 \<le> unat r" and "unat r \<le> 36"
  shows "conv v r = Some (numeral_str (unat r) (unat v))"
proof -
  let ?s = "numeral_str (unat r) (unat v)"
  let ?m = "wr (\<lambda>_. 0) 0 (?s @ [0])"
  have l: "length ?s \<le> 32" using numeral_str_length assms(1) by blast
  have "cstr_at ?m 0 ?s" using numeral_str_ok(1)[OF assms] l by (intro cstr_at_wr) auto
  then have n: "strlen ?m 0 = Some (of_nat (length ?s))" using l by (intro strlen_cstr) auto
  have "map (arr ?m 0) [0..<length ?s] = ?s"
    using l by (intro nth_equalityI) (auto simp: arr_wr nth_append)
  then show ?thesis using itoa_wr[OF assms, of "\<lambda>_. 0" v 0] n l by (simp add: conv_def unat_of_nat_32)
qed

lemma digs_length_base: "2 \<le> r \<Longrightarrow> n < r ^ k \<Longrightarrow> length (digs r n) \<le> k"
proof (induction r n arbitrary: k rule: digs.induct)
  case (1 r n)
  show ?case
  proof (cases "n = 0")
    case False
    then obtain k' where k: "k = Suc k'" using "1.prems"(2) by (cases k) auto
    have "n div r < r ^ k'" using "1.prems" by (simp add: k div_less_iff_less_mult mult.commute)
    then show ?thesis using "1.IH" False "1.prems"(1) by (subst digs.simps) (simp add: k)
  qed (simp add: digs.simps)
qed

lemma digs_length_16: "length (digs 16 (unat (v :: u32))) \<le> 8"
  using unat_less_32[of v] by (intro digs_length_base) simp_all

text \<open>Signed decimal notation.\<close>

definition dec_str :: "int \<Rightarrow> cstring" where
  "dec_str z = (if z < 0 then byte_of (CHR ''-'') # numeral_str 10 (nat (- z)) else numeral_str 10 (nat z))"

lemma unat_neg_sint: "sint (v :: u32) < 0 \<Longrightarrow> unat (- v) = nat (- sint v)"
proof -
  assume neg: "sint v < 0"
  have lo: "- sint v \<le> 2147483648" using sint_ge[of v] by simp
  have "- v = word_of_int (- sint v)" by (simp add: of_int_sint)
  then have "uint (- v) = (- sint v) mod 4294967296" by (simp only: uint_word_of_int) simp
  also have "\<dots> = - sint v" using neg lo by (simp add: mod_pos_pos_trivial)
  finally show ?thesis by (simp add: unat_eq_nat_uint)
qed

lemma unat_pos_sint: "\<not> sint (v :: u32) < 0 \<Longrightarrow> unat v = nat (sint v)"
proof -
  assume pos: "\<not> sint v < 0"
  have hi: "sint v < 2147483648" using sint_lt[of v] by simp
  have "v = word_of_int (sint v)" by (simp add: of_int_sint)
  then have "uint v = uint (word_of_int (sint v) :: u32)" by (rule arg_cong)
  also have "\<dots> = sint v mod 4294967296" by (simp only: uint_word_of_int) simp
  also have "\<dots> = sint v" using pos hi by (simp add: mod_pos_pos_trivial)
  finally show ?thesis by (simp add: unat_eq_nat_uint)
qed

text \<open>The conversions of \<open>printf\<close>: \<open>%d\<close> prints the signed decimal notation of its
  argument for all \<open>2 ^ 32\<close> words, the most negative one included, \<open>%u\<close> and \<open>%x\<close> the
  unsigned decimal and hexadecimal ones, and \<open>%#x\<close> exactly eight hexadecimal digits of the
  same value.\<close>

theorem printf_conversions:
  "conversion (lit ''d'' @ fmt) (Word_arg v # args) False = Some (dec_str (sint v), fmt, args) \<and>
   conversion (lit ''u'' @ fmt) (Word_arg v # args) False = Some (numeral_str 10 (unat v), fmt, args) \<and>
   conversion (lit ''x'' @ fmt) (Word_arg v # args) False = Some (numeral_str 16 (unat v), fmt, args) \<and>
   conversion (lit ''#x'' @ fmt) (Word_arg v # args) False = Some (pad8 (numeral_str 16 (unat v)), fmt, args) \<and>
   length (pad8 (numeral_str 16 (unat v))) = 8 \<and> str_value 16 (pad8 (numeral_str 16 (unat v))) = unat v"
proof (intro conjI)
  have c10: "conv w 10 = Some (numeral_str 10 (unat w))" and c16: "conv w 16 = Some (numeral_str 16 (unat w))" for w
    using conv_numeral[of 10 w] conv_numeral[of 16 w] by simp_all
  show "conversion (lit ''d'' @ fmt) (Word_arg v # args) False = Some (dec_str (sint v), fmt, args)"
    by (simp add: lit_def byte_of_def c10 dec_str_def unat_neg_sint unat_pos_sint)
  show "conversion (lit ''u'' @ fmt) (Word_arg v # args) False = Some (numeral_str 10 (unat v), fmt, args)"
    "conversion (lit ''x'' @ fmt) (Word_arg v # args) False = Some (numeral_str 16 (unat v), fmt, args)"
    "conversion (lit ''#x'' @ fmt) (Word_arg v # args) False = Some (pad8 (numeral_str 16 (unat v)), fmt, args)"
    by (simp_all add: lit_def byte_of_def c10 c16)
  have "length (digs 16 (unat v)) \<le> 8"
    by (rule digs_length_16)
  then show "length (pad8 (numeral_str 16 (unat v))) = 8" by (simp add: pad8_def numeral_str_def)
  have "str_value 16 (replicate n 48 @ s) = str_value 16 s" for n s
    by (induction n) (simp_all add: str_value_def digit_value_def)
  then show "str_value 16 (pad8 (numeral_str 16 (unat v))) = unat v"
    using numeral_str_ok(2)[of 16 "unat v"] by (simp add: pad8_def byte_of_def)
qed

section \<open>A concrete screen\<close>

definition demo_con :: console where
  "demo_con = \<lparr> screen_x = (\<lambda>_. 0)(0 := 79), screen_y = (\<lambda>_. 0)(0 := 24), video_mem = VIDEO, attributes = \<lambda>_. 5,
     cur_terminal = 0, crtc_out = [] \<rparr>"

lemma demo_con_ok: "con_ok demo_con"
  by (simp add: con_ok_def demo_con_def video_pages_def)

theorem putc_refines_screen_witness:
  "con_ok demo_con \<and> cx (abs_screen (fst (putc 65 demo_con (\<lambda>_. 0))) (snd (putc 65 demo_con (\<lambda>_. 0)))) = 0 \<and>
   cells (abs_screen (fst (putc 65 demo_con (\<lambda>_. 0))) (snd (putc 65 demo_con (\<lambda>_. 0)))) 23 79 = (65, 5)"
proof -
  have "abs_screen demo_con (\<lambda>_. 0) = \<lparr> cells = page_cells (\<lambda>_. 0) VIDEO, cx = 79, cy = 24 \<rparr>" "cur_attribute demo_con = 5"
    by (simp_all add: abs_screen_def cur_attribute_def demo_con_def get_screen_xy_idx_def)
  then show ?thesis
    unfolding putc_refines_screen[OF demo_con_ok] using demo_con_ok by (simp add: a_putc_def a_scroll_def)
qed

theorem puts_stays_on_page_witness:
  "con_ok demo_con \<and> con_ok (fst (puts [72, 105, 10] demo_con (\<lambda>_. 7))) \<and>
   snd (puts [72, 105, 10] demo_con (\<lambda>_. 7)) 0xB9000 = 7"
proof -
  obtain c m where p: "puts [72, 105, 10] demo_con (\<lambda>_. 7) = (c, m)" by (cases "puts [72, 105, 10] demo_con (\<lambda>_. 7)")
  have "4000 \<le> unat (0xB9000 - video_mem demo_con)" by (simp add: demo_con_def)
  then have "m 0xB9000 = 7" "con_ok c" using puts_stays_on_page[OF demo_con_ok p] by auto
  then show ?thesis unfolding p using demo_con_ok by simp
qed

theorem save_load_round_trip_witness:
  "arr (load_video_context 1 (save_video_context 1 (\<lambda>a. ucast a))) VIDEO 5 = 5"
proof -
  have "arr (load_video_context (int 1) (save_video_context (int 1) (\<lambda>a. ucast a))) VIDEO 5 = arr (\<lambda>a. ucast a) VIDEO 5"
    using save_load_round_trip[of 1 "save_video_context (int 1) (\<lambda>a. ucast a)" "\<lambda>a. ucast a"] by simp
  then show ?thesis by (simp add: arr_def)
qed

theorem set_pos_on_screen_witness:
  "con_ok demo_con \<and> get_pos (set_pos 85 24 demo_con) = (5, 24)"
  using set_pos_on_screen[OF demo_con_ok, of 85 24] demo_con_ok by simp

theorem set_cursor_sends_cell_witness:
  "con_ok demo_con \<and> video_mem demo_con = VIDEO \<and> (\<exists>lo hi. crtc_out (set_cursor 0 demo_con) =
     [(0x0F, 0x3D4), (lo, 0x3D5), (0x0E, 0x3D4), (hi, 0x3D5)] \<and> 256 * uint hi + uint lo = 1999)"
  using set_cursor_sends_cell[OF demo_con_ok, of 0] demo_con_ok
  by (simp add: demo_con_def get_screen_xy_idx_def)

end
