(* ===== verification/Terminal.thy ===== *)
theory Terminal
  imports Console
begin

text \<open>
  The terminal driver of \<^verbatim>\<open>student-distrib/terminal.c\<close>, as far as it depends only on the
  console: the modifier keys, the four character tables, line editing, and the read and
  write operations behind the file descriptors 0 and 1.  The interrupt handler and
  \<open>terminal_switch\<close>, which also act on processes, are in the theory of the system calls.

  \<open>terminal_read\<close> spins until ENTER has been pressed: it has no result in a state where the
  line is not complete.

  The main results: the line editor refines a list of characters (typing appends,
  backspace removes the last one, reading returns the line and a newline); the buffer index
  never leaves the buffer; and the character tables realise SHIFT and CAPS LOCK.
\<close>

section \<open>State (terminal.h, terminal.c)\<close>

abbreviation BUFFER_SIZE :: int where "BUFFER_SIZE \<equiv> 128"

abbreviation BACKSPACE :: u8 where "BACKSPACE \<equiv> 0x0E"
abbreviation CAPS_LOCK :: u8 where "CAPS_LOCK \<equiv> 0x3A"
abbreviation CTRL :: u8 where "CTRL \<equiv> 0x1D"
abbreviation ENTER :: u8 where "ENTER \<equiv> 0x1C"
abbreviation RIGHT_SHIFT :: u8 where "RIGHT_SHIFT \<equiv> 0x36"
abbreviation LEFT_SHIFT :: u8 where "LEFT_SHIFT \<equiv> 0x2A"
abbreviation SPACE :: u8 where "SPACE \<equiv> 0x39"
abbreviation ALT :: u8 where "ALT \<equiv> 0x38"
abbreviation KEYBOARD_MASK :: u8 where "KEYBOARD_MASK \<equiv> 0x80"

record terminal_t =
  kbd_is_read :: bool
  kbuf :: "u8 list"
  buf_pos :: int
  t_pos :: "int \<times> int"

record keyboard =
  caps_active :: bool
  ctrl_active :: bool
  shift_active :: bool
  alt_active :: bool
  terms :: "nat \<Rightarrow> terminal_t"

text \<open>\<open>t\<close>, the current terminal, and an update of it.\<close>

abbreviation cur_term :: "keyboard \<Rightarrow> console \<Rightarrow> terminal_t" where
  "cur_term k c \<equiv> terms k (cur_terminal c)"

definition set_term :: "nat \<Rightarrow> terminal_t \<Rightarrow> keyboard \<Rightarrow> keyboard" where
  "set_term i t k = k\<lparr> terms := (terms k)(i := t) \<rparr>"

section \<open>Operations\<close>

definition terminal_init :: "nat \<Rightarrow> keyboard \<Rightarrow> console \<Rightarrow> keyboard \<times> console" where
  "terminal_init num k c =
     (let k = set_term num ((terms k num)\<lparr> kbd_is_read := False, buf_pos := 0, t_pos := (0, 0) \<rparr>) k;
          c = set_attribute 0x05 0 c;
          c = set_attribute 0x0C 1 c
      in (k, set_attribute 0x0A 2 c))"

definition self_chars :: "u8 list" where
  "self_chars = [0, 0] @ lit ''1234567890-='' @ [0, 0] @ lit ''qwertyuiop[]'' @ [0, 0] @ lit ''as'' @
     lit ''dfghjkl;'' @ [39, 96, 0, 92] @ lit ''zxcvbnm,./'' @ [0, 0, 0, 32, 0, 0, 0, 0, 0, 0]"

definition caps_chars :: "u8 list" where
  "caps_chars = [0, 0] @ lit ''1234567890-='' @ [0, 0] @ lit ''QWERTYUIOP[]'' @ [0, 0] @ lit ''AS'' @
     lit ''DFGHJKL;'' @ [39, 96, 0, 92] @ lit ''ZXCVBNM,./'' @ [0, 0, 0, 32, 0, 0, 0, 0, 0, 0]"

definition shift_chars :: "u8 list" where
  "shift_chars = [0, 0] @ lit ''!@#$%^&*()_+'' @ [0, 0] @ lit ''QWERTYUIOP{}'' @ [0, 0] @ lit ''AS'' @
     lit ''DFGHJKL:'' @ [34, 126, 0, 124] @ lit ''ZXCVBNM<>?'' @ [0, 0, 0, 32, 0, 0, 0, 0, 0, 0]"

definition combo_chars :: "u8 list" where
  "combo_chars = [0, 0] @ lit ''!@#$%^&*()_+'' @ [0, 0] @ lit ''qwertyuiop{}'' @ [0, 0] @ lit ''as'' @
     lit ''dfghjkl:'' @ [34, 126, 0, 124] @ lit ''zxcvbnm<>?'' @ [0, 0, 0, 32, 0, 0, 0, 0, 0, 0]"

definition key_char :: "keyboard \<Rightarrow> u8 \<Rightarrow> u8" where
  "key_char k scancode =
     (if shift_active k \<and> caps_active k then combo_chars ! unat scancode
      else if shift_active k then shift_chars ! unat scancode
      else if caps_active k then caps_chars ! unat scancode
      else self_chars ! unat scancode)"

definition do_reg :: "u8 \<Rightarrow> keyboard \<Rightarrow> console \<Rightarrow> mem \<Rightarrow> keyboard \<times> console \<times> mem" where
  "do_reg scancode k c m =
     (if scancode \<le> SPACE
      then let character = key_char k scancode
           in if character = 0 then (k, c, m)
              else let t = cur_term k c;
                       t = t\<lparr> kbuf := (kbuf t)[nat (buf_pos t) := character] \<rparr>;
                       t = t\<lparr> buf_pos := buf_pos t + 1 \<rparr>
                   in (set_term (cur_terminal c) t k, putc character c m)
      else (k, c, m))"

definition do_spec :: "u8 \<Rightarrow> keyboard \<Rightarrow> console \<Rightarrow> mem \<Rightarrow> keyboard \<times> console \<times> mem" where
  "do_spec scancode k c m =
     (if scancode = ENTER
      then let t = cur_term k c;
               k = set_term (cur_terminal c) (t\<lparr> kbuf := (kbuf t)[nat (buf_pos t) := 10], kbd_is_read := True \<rparr>) k
           in (k, putc 10 c m)
      else if scancode = BACKSPACE
      then if buf_pos (cur_term k c) = 0 then (k, c, m)
           else let t = cur_term k c;
                    k = set_term (cur_terminal c) (t\<lparr> buf_pos := buf_pos t - 1 \<rparr>) k;
                    (x, y) = get_pos c;
                    (nx, ny) = (if x = 0 then (NUM_COLS - 1, y - 1) else (x - 1, y));
                    c = set_pos nx ny c;
                    (c, m) = putc 32 c m
                in (k, set_pos nx ny c, m)
      else if scancode = CAPS_LOCK
      then (k\<lparr> caps_active := \<not> caps_active k \<rparr>, c, m)
      else (k, c, m))"

text \<open>The first \<open>switch\<close> of \<open>keyboardHandler\<close>, and its treatment of released keys.\<close>

definition key_special :: "u8 \<Rightarrow> keyboard \<Rightarrow> console \<Rightarrow> mem \<Rightarrow> keyboard \<times> console \<times> mem" where
  "key_special scancode k c m =
     (if scancode = BACKSPACE then do_spec BACKSPACE k c m
      else if scancode = CAPS_LOCK then do_spec CAPS_LOCK k c m
      else if scancode = CTRL then (k\<lparr> ctrl_active := True \<rparr>, c, m)
      else if scancode = ENTER then do_spec ENTER k c m
      else if scancode = RIGHT_SHIFT then (k\<lparr> shift_active := True \<rparr>, c, m)
      else if scancode = LEFT_SHIFT then (k\<lparr> shift_active := True \<rparr>, c, m)
      else if scancode = ALT then (k\<lparr> alt_active := True \<rparr>, c, m)
      else (k, c, m))"

definition key_release :: "u8 \<Rightarrow> keyboard \<Rightarrow> keyboard" where
  "key_release scancode k =
     (if scancode = scancode OR KEYBOARD_MASK
      then if ctrl_active k \<and> scancode AND NOT KEYBOARD_MASK = CTRL then k\<lparr> ctrl_active := False \<rparr>
           else if shift_active k \<and> (scancode AND NOT KEYBOARD_MASK = LEFT_SHIFT \<or> scancode AND NOT KEYBOARD_MASK = RIGHT_SHIFT)
           then k\<lparr> shift_active := False \<rparr>
           else if alt_active k \<and> scancode AND NOT KEYBOARD_MASK = ALT then k\<lparr> alt_active := False \<rparr>
           else k
      else k)"

text \<open>\<open>terminal_write\<close>: the loop over the buffer.\<close>

function terminal_write_loop :: "int \<Rightarrow> int \<Rightarrow> u32 \<Rightarrow> console \<Rightarrow> mem \<Rightarrow> console \<times> mem \<times> int" where
  "terminal_write_loop i nbytes buf c m =
     (if i < nbytes
      then let (c, m) = putc (m (buf + of_int i)) c m in terminal_write_loop (i + 1) nbytes buf c m
      else (c, m, i))"
  by pat_completeness auto
termination
  by (relation "measure (\<lambda>(i, n, buf, c, m). nat (n - i))") auto

definition terminal_write :: "u32 \<Rightarrow> i32 \<Rightarrow> console \<Rightarrow> mem \<Rightarrow> console \<times> mem \<times> i32" where
  "terminal_write buf nbytes c m =
     (if buf \<noteq> 0
      then let (c, m, num_bytes) = terminal_write_loop 0 (sint nbytes) buf c m
           in (c, m, of_int num_bytes)
      else (c, m, -1))"

function terminal_read_loop :: "int \<Rightarrow> int \<Rightarrow> u32 \<Rightarrow> terminal_t \<Rightarrow> mem \<Rightarrow> mem \<times> int" where
  "terminal_read_loop i nbytes buf t m =
     (if i < nbytes \<and> i \<le> buf_pos t
      then terminal_read_loop (i + 1) nbytes buf t (m(buf + of_int i := kbuf t ! nat i))
      else (m, i))"
  by pat_completeness auto
termination
  by (relation "measure (\<lambda>(i, n, buf, t, m). nat (n - i))") auto

declare terminal_write_loop.simps [simp del] terminal_read_loop.simps [simp del]

text \<open>\<open>terminal_read\<close> by a process of terminal \<open>i\<close>.\<close>

definition terminal_read :: "nat \<Rightarrow> u32 \<Rightarrow> i32 \<Rightarrow> keyboard \<Rightarrow> mem \<Rightarrow> (keyboard \<times> mem \<times> i32) option" where
  "terminal_read i buf nbytes k m =
     (if \<not> kbd_is_read (terms k i) then None
      else let (m, num_bytes) = terminal_read_loop 0 (sint nbytes) buf (terms k i) m;
               k = set_term i ((terms k i)\<lparr> buf_pos := 0, kbd_is_read := False \<rparr>) k
           in Some (k, m, of_int num_bytes))"

definition terminal_open :: i32 where
  "terminal_open = -1"

definition terminal_close :: i32 where
  "terminal_close = -1"

section \<open>The character tables\<close>

definition is_letter :: "u8 \<Rightarrow> bool" where
  "is_letter b \<longleftrightarrow> 97 \<le> b \<and> b \<le> 122"

lemma table_lengths: "length self_chars = 64" "length caps_chars = 64" "length shift_chars = 64" "length combo_chars = 64"
  by (simp_all add: self_chars_def caps_chars_def shift_chars_def combo_chars_def lit_def)

lemma key_tables:
  "list_all (\<lambda>(s, c, h, b). (if is_letter s then c = s - 32 \<and> h = s - 32 \<and> b = s else c = s \<and> b = h) \<and> (s = 0) = (h = 0))
     (zip self_chars (zip caps_chars (zip shift_chars combo_chars)))"
  by (simp add: self_chars_def caps_chars_def shift_chars_def combo_chars_def lit_def byte_of_def is_letter_def)

lemma key_char_table:
  assumes "scancode \<le> SPACE"
  shows "(is_letter (self_chars ! unat scancode) \<longrightarrow>
      key_char k scancode = (if shift_active k \<noteq> caps_active k then self_chars ! unat scancode - 32 else self_chars ! unat scancode)) \<and>
    (\<not> is_letter (self_chars ! unat scancode) \<longrightarrow>
      key_char k scancode = (if shift_active k then shift_chars ! unat scancode else self_chars ! unat scancode)) \<and>
    (shift_chars ! unat scancode = 0 \<longleftrightarrow> self_chars ! unat scancode = 0)"
proof -
  let ?i = "unat scancode"
  have i: "?i < 64" using assms by (simp add: word_le_nat_alt)
  have "zip self_chars (zip caps_chars (zip shift_chars combo_chars)) ! ?i = (self_chars ! ?i, caps_chars ! ?i, shift_chars ! ?i, combo_chars ! ?i)"
    using i by (simp add: table_lengths)
  moreover have "?i < length (zip self_chars (zip caps_chars (zip shift_chars combo_chars)))"
    using i by (simp add: table_lengths)
  ultimately show ?thesis
    using key_tables unfolding list_all_length by (fastforce simp: key_char_def)
qed

text \<open>For every scan code the tables agree with the keyboard's meaning: SHIFT and CAPS
  LOCK each turn a letter into its capital and together cancel; CAPS LOCK does not affect
  other keys; and a key prints nothing with SHIFT exactly if it prints nothing without.\<close>

theorem key_char_modifiers:
  assumes "scancode \<le> SPACE"
  shows "(is_letter (self_chars ! unat scancode) \<longrightarrow>
      key_char k scancode = (if shift_active k \<noteq> caps_active k then self_chars ! unat scancode - 32 else self_chars ! unat scancode)) \<and>
    (\<not> is_letter (self_chars ! unat scancode) \<longrightarrow>
      key_char k scancode = (if shift_active k then shift_chars ! unat scancode else self_chars ! unat scancode)) \<and>
    (shift_chars ! unat scancode = 0 \<longleftrightarrow> self_chars ! unat scancode = 0)"
  using assms by (rule key_char_table)

lemma key_char_0_iff: "scancode \<le> SPACE \<Longrightarrow> key_char k scancode = 0 \<longleftrightarrow> self_chars ! unat scancode = 0"
proof -
  assume sc: "scancode \<le> SPACE"
  have "s - 32 \<noteq> 0" "s \<noteq> 0" if "is_letter s" for s :: u8
    using that by (auto simp: is_letter_def word_le_nat_alt)
  then show ?thesis using key_char_table[OF sc, of k] by (cases "is_letter (self_chars ! unat scancode)") auto
qed

section \<open>Line editing\<close>

definition term_ok :: "terminal_t \<Rightarrow> bool" where
  "term_ok t \<longleftrightarrow> length (kbuf t) = 128 \<and> 0 \<le> buf_pos t \<and> buf_pos t < BUFFER_SIZE"

definition kbd_ok :: "keyboard \<Rightarrow> bool" where
  "kbd_ok k \<longleftrightarrow> (\<forall>i < 3. term_ok (terms k i))"

text \<open>The line typed so far.\<close>

definition line :: "terminal_t \<Rightarrow> u8 list" where
  "line t = take (nat (buf_pos t)) (kbuf t)"

text \<open>What the handler does with a key that is not part of an ALT or CTRL combination.\<close>

definition key_press :: "u8 \<Rightarrow> keyboard \<Rightarrow> console \<Rightarrow> mem \<Rightarrow> keyboard \<times> console \<times> mem" where
  "key_press scancode k c m =
     (let (k, c, m) = key_special scancode k c m;
          k = key_release scancode k
      in if buf_pos (cur_term k c) < BUFFER_SIZE - 1 then do_reg scancode k c m else (k, c, m))"

lemma line_length: "term_ok t \<Longrightarrow> length (line t) = nat (buf_pos t)"
  by (auto simp: term_ok_def line_def min_def)

lemma line_snoc:
  assumes "term_ok t" and "buf_pos t < 127"
  shows "line (t\<lparr> kbuf := (kbuf t)[nat (buf_pos t) := ch], buf_pos := buf_pos t + 1 \<rparr>) = line t @ [ch]"
    and "term_ok (t\<lparr> kbuf := (kbuf t)[nat (buf_pos t) := ch], buf_pos := buf_pos t + 1 \<rparr>)"
  using assms by (simp_all add: line_def term_ok_def nat_add_distrib take_Suc_conv_app_nth)

lemma line_butlast:
  assumes "term_ok t" and "buf_pos t \<noteq> 0"
  shows "line (t\<lparr> buf_pos := buf_pos t - 1 \<rparr>) = butlast (line t)" and "term_ok (t\<lparr> buf_pos := buf_pos t - 1 \<rparr>)"
proof -
  have "nat (buf_pos t) \<le> length (kbuf t)" using assms(1) by (auto simp: term_ok_def)
  then show "line (t\<lparr> buf_pos := buf_pos t - 1 \<rparr>) = butlast (line t)"
    using assms by (simp add: line_def term_ok_def butlast_take nat_diff_distrib)
  show "term_ok (t\<lparr> buf_pos := buf_pos t - 1 \<rparr>)" using assms by (simp add: term_ok_def)
qed

lemma line_enter:
  assumes "term_ok t"
  shows "line (t\<lparr> kbuf := (kbuf t)[nat (buf_pos t) := ch], kbd_is_read := b \<rparr>) = line t"
    and "term_ok (t\<lparr> kbuf := (kbuf t)[nat (buf_pos t) := ch], kbd_is_read := b \<rparr>)"
  using assms by (simp_all add: line_def term_ok_def)

lemma set_term_simps [simp]:
  "terms (set_term i t k) = (terms k)(i := t)" "caps_active (set_term i t k) = caps_active k"
  "ctrl_active (set_term i t k) = ctrl_active k" "shift_active (set_term i t k) = shift_active k"
  "alt_active (set_term i t k) = alt_active k"
  by (simp_all add: set_term_def)

lemma key_release_terms [simp]: "terms (key_release sc k) = terms k"
  by (simp add: key_release_def)

lemma key_char_set_term [simp]: "key_char (set_term i t k) sc = key_char k sc"
  by (simp add: key_char_def)

lemma set_pos_terminal [simp]: "cur_terminal (set_pos x y c) = cur_terminal c" "video_mem (set_pos x y c) = video_mem c"
  by (simp_all add: set_pos_def Let_def case_prod_beta)

lemma scroll_terminal [simp]: "cur_terminal (fst (scroll c m)) = cur_terminal c" "video_mem (fst (scroll c m)) = video_mem c"
  by (simp_all add: scroll_def Let_def)

lemma putc_terminal [simp]: "cur_terminal (fst (putc ch c m)) = cur_terminal c" "video_mem (fst (putc ch c m)) = video_mem c"
  by (simp_all add: putc_def Let_def case_prod_beta)

lemma putc_cur_terminal: "putc ch c m = (c1, m1) \<Longrightarrow> cur_terminal c1 = cur_terminal c"
  using putc_terminal(1)[of ch c m] by simp

lemma special_chars_0:
  "key_char k ENTER = 0" "key_char k BACKSPACE = 0" "key_char k CTRL = 0" "key_char k LEFT_SHIFT = 0"
  "key_char k RIGHT_SHIFT = 0" "key_char k ALT = 0"
  by (simp_all add: key_char_def self_chars_def caps_chars_def shift_chars_def combo_chars_def lit_def)

lemma release_high: "scancode \<le> SPACE \<Longrightarrow> key_release scancode k = k"
proof -
  assume sc: "scancode \<le> SPACE"
  have "0x80 \<le> scancode" if "scancode = scancode OR KEYBOARD_MASK" using that by (metis le_word_or1)
  moreover have "\<not> 0x80 \<le> scancode" using sc by (simp add: word_le_nat_alt)
  ultimately show ?thesis by (auto simp: key_release_def)
qed

text \<open>\<open>key_special\<close> on the line of the current terminal.\<close>

lemma key_special_line:
  assumes "term_ok (cur_term k c)" and "key_special sc k c m = (k1, c1, m1)"
  shows "cur_terminal c1 = cur_terminal c" and "term_ok (cur_term k1 c)"
    and "line (cur_term k1 c) = (if sc = BACKSPACE then butlast (line (cur_term k c)) else line (cur_term k c))"
    and "j \<noteq> cur_terminal c \<Longrightarrow> terms k1 j = terms k j"
    and "sc \<le> SPACE \<Longrightarrow> key_char k sc \<noteq> 0 \<Longrightarrow> k1 = k"
proof -
  have e: "buf_pos (cur_term k c) = 0 \<Longrightarrow> butlast (line (cur_term k c)) = line (cur_term k c)" by (simp add: line_def)
  show "cur_terminal c1 = cur_terminal c"
    using assms(2) by (auto simp: key_special_def do_spec_def Let_def case_prod_beta dest: putc_cur_terminal split: if_splits)
  show "term_ok (cur_term k1 c)"
    using assms line_butlast(2)[OF assms(1)] line_enter(2)[OF assms(1)]
    by (auto simp: key_special_def do_spec_def Let_def case_prod_beta split: if_splits)
  show "line (cur_term k1 c) = (if sc = BACKSPACE then butlast (line (cur_term k c)) else line (cur_term k c))"
    using assms line_butlast(1)[OF assms(1)] line_enter(1)[OF assms(1)] e
    by (auto simp: key_special_def do_spec_def Let_def case_prod_beta split: if_splits)
  show "terms k1 j = terms k j" if "j \<noteq> cur_terminal c"
    using assms(2) that by (auto simp: key_special_def do_spec_def Let_def case_prod_beta split: if_splits)
  show "k1 = k" if "sc \<le> SPACE" "key_char k sc \<noteq> 0"
    using assms(2) that special_chars_0[of k] by (auto simp: key_special_def do_spec_def word_le_nat_alt split: if_splits)
qed

lemma do_reg_line:
  assumes "term_ok (cur_term k c)" and "buf_pos (cur_term k c) < 127" and "do_reg sc k c m = (k1, c1, m1)"
  shows "cur_terminal c1 = cur_terminal c" and "term_ok (cur_term k1 c)"
    and "line (cur_term k1 c) =
      (if sc \<le> SPACE \<and> key_char k sc \<noteq> 0 then line (cur_term k c) @ [key_char k sc] else line (cur_term k c))"
    and "j \<noteq> cur_terminal c \<Longrightarrow> terms k1 j = terms k j"
proof -
  note ln = line_snoc[OF assms(1,2)]
  show "cur_terminal c1 = cur_terminal c" "term_ok (cur_term k1 c)"
    and "line (cur_term k1 c) =
      (if sc \<le> SPACE \<and> key_char k sc \<noteq> 0 then line (cur_term k c) @ [key_char k sc] else line (cur_term k c))"
    using assms ln by (auto simp: do_reg_def Let_def dest: putc_cur_terminal split: if_splits)
  show "terms k1 j = terms k j" if "j \<noteq> cur_terminal c"
    using assms(3) that by (auto simp: do_reg_def Let_def split: if_splits)
qed


section \<open>Reading and writing\<close>

lemma wr_take_Suc:
  assumes "i < length xs" and "length xs < 2 ^ 32"
  shows "(wr m b (take i xs))(b + of_nat i := xs ! i) = wr m b (take (Suc i) xs)"
  using wr_append[of "take i xs" "[xs ! i]" m b] assms by (simp add: wr_single take_Suc_conv_app_nth min_def)

lemma terminal_read_loop_wr:
  assumes "term_ok t" and "int N = max 0 (min n (buf_pos t + 1))"
  shows "i \<le> N \<Longrightarrow> terminal_read_loop (int i) n buf t (wr m buf (take i (kbuf t))) = (wr m buf (take N (kbuf t)), int N)"
proof (induction "N - i" arbitrary: i)
  case 0
  then have "i = N" by simp
  moreover have "\<not> (int N < n \<and> int N \<le> buf_pos t)" using assms(2) by linarith
  ultimately show ?case by (subst terminal_read_loop.simps) auto
next
  case (Suc d)
  then have "i < N" by simp
  then have g: "int i < n" "int i \<le> buf_pos t" using assms(2) by linarith+
  then have "i < length (kbuf t)" "length (kbuf t) < 2 ^ 32" using assms(1) by (auto simp: term_ok_def)
  then have "(wr m buf (take i (kbuf t)))(buf + of_int (int i) := kbuf t ! nat (int i)) = wr m buf (take (Suc i) (kbuf t))"
    using wr_take_Suc by simp
  moreover have "terminal_read_loop (int i + 1) n buf t (wr m buf (take (Suc i) (kbuf t))) = (wr m buf (take N (kbuf t)), int N)"
    using Suc.hyps(1)[of "Suc i"] Suc.hyps(2) \<open>i < N\<close> by (simp add: add.commute[of 1])
  ultimately show ?case using g by (subst terminal_read_loop.simps) (simp del: fun_upd_apply)
qed

text \<open>ENTER was the last key: the line is complete and its newline is in the buffer.\<close>

definition line_complete :: "terminal_t \<Rightarrow> bool" where
  "line_complete t \<longleftrightarrow> kbd_is_read t \<and> kbuf t ! nat (buf_pos t) = 10"

lemma complete_bytes: "term_ok t \<Longrightarrow> line_complete t \<Longrightarrow> take (nat (buf_pos t + 1)) (kbuf t) = line t @ [10]"
  by (auto simp: term_ok_def line_complete_def line_def nat_add_distrib take_Suc_conv_app_nth)

lemma terminal_read_complete:
  assumes "term_ok (terms k i)" and "line_complete (terms k i)" and "0 \<le> sint nbytes"
  shows "terminal_read i buf nbytes k m =
    Some (set_term i ((terms k i)\<lparr> buf_pos := 0, kbd_is_read := False \<rparr>) k,
      wr m buf (take (nat (sint nbytes)) (line (terms k i) @ [10])),
      of_nat (length (take (nat (sint nbytes)) (line (terms k i) @ [10]))))"
proof -
  let ?t = "terms k i" and ?n = "sint nbytes"
  define N where "N = nat (max 0 (min ?n (buf_pos ?t + 1)))"
  have N: "int N = max 0 (min ?n (buf_pos ?t + 1))" by (simp add: N_def)
  have b: "take N (kbuf ?t) = take (nat ?n) (line ?t @ [10])"
  proof -
    have "N = min (nat ?n) (nat (buf_pos ?t + 1))" using assms(1,3) by (auto simp: N_def term_ok_def)
    then show ?thesis by (simp add: min.commute flip: complete_bytes[OF assms(1,2)] take_take)
  qed
  moreover have "length (take N (kbuf ?t)) = N" using assms(1) by (auto simp: N_def term_ok_def)
  ultimately have "length (take (nat ?n) (line ?t @ [10])) = N" by simp
  moreover have "terminal_read_loop 0 ?n buf ?t m = (wr m buf (take N (kbuf ?t)), int N)"
    using terminal_read_loop_wr[OF assms(1) N, of 0 buf m] by (simp add: wr_def)
  ultimately show ?thesis using assms(2) b by (simp add: terminal_read_def line_complete_def)
qed

text \<open>C29: after ENTER, a read of \<open>nbytes\<close> returns the line as edited followed by a newline
  (cut to \<open>nbytes\<close>), stores nothing else, and leaves an empty line for the next read; before
  ENTER the read does not return.\<close>

theorem read_returns_line:
  assumes "kbd_ok k" and "cur_terminal c < 3" and "key_press ENTER k c m = (k', c', m')" and "0 \<le> sint nbytes"
  shows "(\<exists>k''. terminal_read (cur_terminal c) buf nbytes k' m' =
      Some (k'', wr m' buf (take (nat (sint nbytes)) (line (cur_term k c) @ [10])),
        of_nat (length (take (nat (sint nbytes)) (line (cur_term k c) @ [10])))) \<and>
      line (terms k'' (cur_terminal c)) = [] \<and> kbd_ok k'') \<and>
    (\<not> kbd_is_read (cur_term k c) \<longrightarrow> terminal_read (cur_terminal c) buf nbytes k m = None)"
proof -
  let ?i = "cur_terminal c"
  have ok: "term_ok (terms k ?i)" using assms(1,2) by (simp add: kbd_ok_def)
  have kz: "key_char k2 ENTER = 0" for k2 by (rule special_chars_0)
  have k': "k' = set_term ?i ((terms k ?i)\<lparr> kbuf := (kbuf (terms k ?i))[nat (buf_pos (terms k ?i)) := 10], kbd_is_read := True \<rparr>) k"
    using assms(3) release_high[of ENTER]
    by (auto simp: key_press_def key_special_def do_spec_def Let_def do_reg_def kz word_le_nat_alt split: prod.splits if_splits)
  have t: "term_ok (terms k' ?i)" "line (terms k' ?i) = line (terms k ?i)" "line_complete (terms k' ?i)"
    using line_enter[OF ok] ok by (auto simp: k' line_complete_def term_ok_def)
  have "kbd_ok (set_term ?i ((terms k' ?i)\<lparr> buf_pos := 0, kbd_is_read := False \<rparr>) k')"
    using assms(1) t(1) by (simp add: kbd_ok_def k' term_ok_def)
  then have "\<exists>k''. terminal_read ?i buf nbytes k' m' =
      Some (k'', wr m' buf (take (nat (sint nbytes)) (line (terms k ?i) @ [10])),
        of_nat (length (take (nat (sint nbytes)) (line (terms k ?i) @ [10])))) \<and> line (terms k'' ?i) = [] \<and> kbd_ok k''"
    unfolding terminal_read_complete[OF t(1,3) assms(4)] t(2) by (intro exI conjI) (auto simp: line_def)
  then show ?thesis by (auto simp: terminal_read_def)
qed

text \<open>A printing key pressed after ENTER, before the line is read, overwrites the newline:
  the line is then no longer terminated in the buffer although it is still marked as ready.\<close>

theorem typeahead_overwrites_newline:
  assumes "term_ok (cur_term k c)" and "line_complete (cur_term k c)" and "buf_pos (cur_term k c) < 127"
    and "sc \<le> SPACE" and "key_char k sc \<noteq> 0" and "do_reg sc k c m = (k', c', m')"
  shows "kbd_is_read (cur_term k' c) \<and> kbuf (cur_term k' c) ! nat (buf_pos (cur_term k c)) = key_char k sc"
  using assms by (auto simp: do_reg_def Let_def line_complete_def term_ok_def split: if_splits)

lemma terminal_write_loop_puts:
  "0 \<le> i \<Longrightarrow> con_ok c \<Longrightarrow> \<forall>j. 0 \<le> j \<and> j < n \<longrightarrow> 4000 \<le> unat (buf + of_int j - video_mem c) \<Longrightarrow>
    terminal_write_loop i n buf c m =
    (let r = puts (map (\<lambda>j. m (buf + of_int j)) [i..n - 1]) c m in (fst r, snd r, max i n))"
proof (induction i n buf c m rule: terminal_write_loop.induct)
  case (1 i n buf c m)
  show ?case
  proof (cases "i < n")
    case True
    let ?ch = "m (buf + of_int i)"
    obtain c1 m1 where p: "putc ?ch c m = (c1, m1)" by (cases "putc ?ch c m")
    have sp: "putc_spec ?ch c m (c1, m1)" using putc_ok[OF "1.prems"(2), of ?ch m] p by simp
    have same: "m1 (buf + of_int j) = m (buf + of_int j)" if "0 \<le> j" "j < n" for j
      using sp "1.prems"(3) that by (auto simp: putc_spec_def page_frame_def)
    have meq: "map (\<lambda>j. m1 (buf + of_int j)) [i + 1..n - 1] = map (\<lambda>j. m (buf + of_int j)) [i + 1..n - 1]"
      using same "1.prems"(1) by auto
    have "con_ok c1" "video_mem c1 = video_mem c" using sp by (auto simp: putc_spec_def)
    then have "terminal_write_loop (i + 1) n buf c1 m1 =
        (let r = puts (map (\<lambda>j. m (buf + of_int j)) [i + 1..n - 1]) c1 m1 in (fst r, snd r, max (i + 1) n))"
      using "1.IH"[OF True p[symmetric] refl] "1.prems" True unfolding meq by simp
    moreover have "[i..n - 1] = i # [i + 1..n - 1]" using True by (simp add: upto_rec1)
    ultimately show ?thesis using True by (subst terminal_write_loop.simps) (simp add: p Let_def)
  next
    case False
    then show ?thesis by (subst terminal_write_loop.simps) auto
  qed
qed

text \<open>Writing \<open>nbytes\<close> bytes of a buffer outside the current video page prints exactly
  these bytes (NULs included) and returns their number; a NULL buffer gives -1 and prints
  nothing.\<close>

theorem terminal_write_prints:
  assumes "con_ok c" and "\<forall>j. 0 \<le> j \<and> j < sint nbytes \<longrightarrow> 4000 \<le> unat (buf + of_int j - video_mem c)"
  shows "terminal_write buf nbytes c m =
    (if buf = 0 then (c, m, -1)
     else let r = puts (map (\<lambda>j. m (buf + of_int j)) [0..sint nbytes - 1]) c m
          in (fst r, snd r, if 0 \<le> sint nbytes then nbytes else 0))"
  using terminal_write_loop_puts[of 0 c "sint nbytes" buf m] assms
  by (auto simp: terminal_write_def Let_def max_def of_int_sint)

section \<open>A concrete terminal\<close>

definition demo_kbd :: keyboard where
  "demo_kbd = \<lparr> caps_active = False, ctrl_active = False, shift_active = True, alt_active = False,
     terms = \<lambda>_. \<lparr> kbd_is_read = False, kbuf = [104, 105] @ replicate 126 0, buf_pos = 2, t_pos = (0, 0) \<rparr> \<rparr>"

lemma demo_kbd_ok: "kbd_ok demo_kbd"
  by (simp add: kbd_ok_def term_ok_def demo_kbd_def)

lemma demo_line: "line (terms demo_kbd i) = [104, 105]"
  by (simp add: line_def demo_kbd_def)

lemma demo_cur: "cur_terminal demo_con = 0"
  by (simp add: demo_con_def)

theorem key_char_modifiers_witness: "key_char demo_kbd 0x10 = byte_of (CHR ''Q'') \<and> is_letter (self_chars ! 0x10)"
proof -
  have "self_chars ! 16 = 113" by (simp add: self_chars_def lit_def byte_of_def)
  then show ?thesis using key_char_modifiers[of "0x10" demo_kbd]
    by (simp add: demo_kbd_def is_letter_def byte_of_def)
qed


theorem read_returns_line_witness:
  "case key_press ENTER demo_kbd demo_con (\<lambda>_. 0) of (k, c, m) \<Rightarrow>
     \<exists>k'. terminal_read 0 0x8000000 128 k m = Some (k', wr m 0x8000000 [104, 105, 10], 3)"
proof -
  obtain k c m where p: "key_press ENTER demo_kbd demo_con (\<lambda>_. 0) = (k, c, m)"
    by (cases "key_press ENTER demo_kbd demo_con (\<lambda>_. 0)") auto
  show ?thesis
    using read_returns_line[OF demo_kbd_ok _ p, of 128 "0x8000000"] by (auto simp: p demo_line demo_cur)
qed

theorem typeahead_overwrites_newline_witness:
  "kbuf (terms (fst (do_reg 0x10 (set_term 0 ((terms demo_kbd 0)\<lparr> kbuf := [104, 105, 10] @ replicate 125 0, kbd_is_read := True \<rparr>) demo_kbd)
     demo_con (\<lambda>_. 0))) 0) ! 2 = 81"
proof -
  let ?k = "set_term 0 ((terms demo_kbd 0)\<lparr> kbuf := [104, 105, 10] @ replicate 125 0, kbd_is_read := True \<rparr>) demo_kbd"
  obtain k c m where p: "do_reg 0x10 ?k demo_con (\<lambda>_. 0) = (k, c, m)" by (cases "do_reg 0x10 ?k demo_con (\<lambda>_. 0)") auto
  have ch: "key_char ?k 0x10 = 81" by (simp add: key_char_def demo_kbd_def shift_chars_def lit_def byte_of_def)
  show ?thesis
    using typeahead_overwrites_newline[of ?k demo_con "0x10" "\<lambda>_. 0" k c m] p ch
    by (simp add: demo_cur term_ok_def line_complete_def demo_kbd_def word_le_nat_alt)
qed

theorem terminal_write_prints_witness:
  "con_ok demo_con \<and> snd (snd (terminal_write 0x8000000 2 demo_con (\<lambda>_. 65))) = 2"
proof -
  have j: "\<forall>j. 0 \<le> j \<and> j < sint (2 :: u32) \<longrightarrow> 4000 \<le> unat (0x8000000 + of_int j - video_mem demo_con)"
  proof (intro allI impI)
    fix j :: int assume "0 \<le> j \<and> j < sint (2 :: u32)"
    then have "j = 0 \<or> j = 1" by auto
    then show "4000 \<le> unat (0x8000000 + of_int j - video_mem demo_con)" by (auto simp: demo_con_def)
  qed
  show ?thesis using demo_con_ok terminal_write_prints[OF demo_con_ok j] by (simp add: Let_def)
qed

end
