(* ===== verification/Syscalls.thy ===== *)
theory Syscalls
  imports Filesys Paging Timers Terminal
begin

text \<open>
  Processes and system calls: \<^verbatim>\<open>student-distrib/syscalls.c\<close>, the jump table of
  \<^verbatim>\<open>syscalls_asm.S\<close>, and the interrupt handlers that act on processes
  (\<open>pitHandler\<close> of pit.c; \<open>keyboardHandler\<close> and \<open>terminal_switch\<close> of
  terminal.c).  The state is the record \<open>kernel\<close>: the global variables of syscalls.c and the
  states of the components.

  Memory is physical; kernel code sees it through the page tables (\<open>kview\<close>), and what it
  stores goes back to the physical bytes behind the addresses (\<open>with_mem\<close>).  A kernel access
  to an unmapped address would fault; here it reads 0 and stores nothing.

  Code that leaves its caller for good is an \<open>outcome\<close>: \<open>Ret v\<close> is an ordinary return,
  \<open>Enter_user eip\<close> the \<open>iret\<close> of \<open>kernel_to_user\<close>, \<open>Resume_execute ebp esp v\<close>
  the \<open>haltasm\<close> that makes the parent's \<open>execute\<close> return \<open>v\<close>, and
  \<open>Resume_switch ebp esp\<close> the stack switch of \<open>task_switch\<close>.  An operation that
  would loop forever has no result.  The values of \<open>esp\<close> and \<open>ebp\<close> where the code reads the
  registers, the places of local arrays on the kernel stack (\<open>layout\<close>), the number of clock
  interrupts during a wait and the scan code are arguments.
\<close>

section \<open>State (syscalls.h, syscalls.c)\<close>

abbreviation MAX_FD :: nat where "MAX_FD \<equiv> 8"
abbreviation NUM_TERMINALS :: nat where "NUM_TERMINALS \<equiv> 3"
abbreviation USER_PAGE_BOTTOM :: u32 where "USER_PAGE_BOTTOM \<equiv> 0x08400000"
abbreviation PROCESS_KERNEL_STACK_ADDR :: u32 where "PROCESS_KERNEL_STACK_ADDR \<equiv> 0x007ffffc"
abbreviation EXE_ENTRY_POINT :: u32 where "EXE_ENTRY_POINT \<equiv> 0x08048000"
abbreviation STACK_SIZE :: u32 where "STACK_SIZE \<equiv> 0x2000"
abbreviation KERNEL_DS :: u16 where "KERNEL_DS \<equiv> 0x18"

definition MAGIC_EXE_NUMS :: "u8 list" where
  "MAGIC_EXE_NUMS = [0x7f, 0x45, 0x4c, 0x46]"

record pcb_t =
  fd_array :: "nat \<Rightarrow> file_t"
  PID :: nat
  PPID :: nat
  esp_execute :: i32
  ebp_execute :: i32
  esp_switch :: i32
  ebp_switch :: i32
  args :: "u8 list"
  args_size :: u32
  running :: bool
  active :: bool
  terminal :: nat
  using_video_mem :: bool

record kernel =
  CPID :: nat
  processes :: "nat \<Rightarrow> pcb_t"
  active_processes :: "nat \<Rightarrow> nat"
  needs_to_be_halted :: "nat \<Rightarrow> bool"
  tss_ss0 :: u16
  tss_esp0 :: u32
  k_fs :: filesys
  k_rtc :: rtc
  k_pic :: pic
  k_con :: console
  k_kbd :: keyboard
  k_mmu :: mmu
  k_mem :: mem

text \<open>The linker's and compiler's choices: the paging arrays, the local arrays
  \<open>exename\<close> and \<open>first_bytes\<close> of \<open>execute\<close>, the variable-length array of
  \<open>fs_copy\<close> and the literal \<open>"shell"\<close>.\<close>

record layout =
  l_syms :: symbols
  l_exename :: u32
  l_first_bytes :: u32
  l_data :: u32
  l_shell :: u32

datatype outcome = Ret i32 | Enter_user u32 | Resume_execute i32 i32 u32 | Resume_switch i32 i32

subsection \<open>Access to parts of the state\<close>

definition vview :: "mem \<Rightarrow> mmu \<Rightarrow> mem" where
  "vview m c = (\<lambda>va. case translate m c False va of None \<Rightarrow> 0 | Some pa \<Rightarrow> m pa)"

abbreviation kview :: "kernel \<Rightarrow> mem" where
  "kview k \<equiv> vview (k_mem k) (k_mmu k)"

text \<open>A physical address is reached through itself or through the program page.\<close>

definition kstore :: "mem \<Rightarrow> mmu \<Rightarrow> mem \<Rightarrow> mem" where
  "kstore m c vm = (\<lambda>pa. if translate m c False pa = Some pa then vm pa
     else let va = PROGRAM_IMAGE + (pa AND 0x3FFFFF)
          in if translate m c False va = Some pa then vm va else m pa)"

definition with_mem :: "mem \<Rightarrow> kernel \<Rightarrow> kernel" where
  "with_mem vm k = k\<lparr> k_mem := kstore (k_mem k) (k_mmu k) vm \<rparr>"

definition with_con :: "console \<times> mem \<Rightarrow> kernel \<Rightarrow> kernel" where
  "with_con cm k = with_mem (snd cm) (k\<lparr> k_con := fst cm \<rparr>)"

definition with_pic :: "(pic \<Rightarrow> pic) \<Rightarrow> kernel \<Rightarrow> kernel" where
  "with_pic f k = k\<lparr> k_pic := f (k_pic k) \<rparr>"

definition k_set_video_context :: "int \<Rightarrow> kernel \<Rightarrow> kernel" where
  "k_set_video_context ctx k = k\<lparr> k_con := set_video_context ctx (k_con k) \<rparr>"

definition upd_pcb :: "nat \<Rightarrow> (pcb_t \<Rightarrow> pcb_t) \<Rightarrow> kernel \<Rightarrow> kernel" where
  "upd_pcb i f k = k\<lparr> processes := (processes k)(i := f (processes k i)) \<rparr>"

abbreviation cur :: "kernel \<Rightarrow> pcb_t" where
  "cur k \<equiv> processes k (CPID k)"

definition upd_fd :: "nat \<Rightarrow> (file_t \<Rightarrow> file_t) \<Rightarrow> pcb_t \<Rightarrow> pcb_t" where
  "upd_fd i f p = p\<lparr> fd_array := (fd_array p)(i := f (fd_array p i)) \<rparr>"

definition set_in_use :: "bool \<Rightarrow> file_t \<Rightarrow> file_t" where
  "set_in_use b f = f\<lparr> flags := (flags f)\<lparr> in_use := b \<rparr> \<rparr>"

abbreviation used_fd :: "pcb_t \<Rightarrow> nat \<Rightarrow> bool" where
  "used_fd p i \<equiv> in_use (flags (fd_array p i))"

definition stack_top :: "nat \<Rightarrow> u32" where
  "stack_top pid = PROCESS_KERNEL_STACK_ADDR - STACK_SIZE * (of_nat pid - 1)"

text \<open>Switch the video context back to what process \<open>pid\<close> writes to.\<close>

definition video_context_of :: "nat \<Rightarrow> kernel \<Rightarrow> kernel" where
  "video_context_of pid k =
     (if terminal (processes k pid) = cur_terminal (k_con k) then k_set_video_context ACTIVE_CONTEXT k
      else k_set_video_context (int (terminal (processes k pid))) k)"

section \<open>File descriptors\<close>

definition no_read :: i32 where "no_read = -1"
definition no_write :: i32 where "no_write = -1"

text \<open>The loop over \<open>flags.in_use\<close>, and the other fields a new process gets.\<close>

primrec init_fds :: "nat \<Rightarrow> pcb_t \<Rightarrow> pcb_t" where
  "init_fds 0 p = p"
| "init_fds (Suc i) p = upd_fd i (set_in_use (i = 0 \<or> i = 1)) (init_fds i p)"

definition std_fds :: "pcb_t \<Rightarrow> pcb_t" where
  "std_fds p = upd_fd 1 (\<lambda>f. f\<lparr> jumptable := Stdout_jumptable \<rparr>) (upd_fd 0 (\<lambda>f. f\<lparr> jumptable := Stdin_jumptable \<rparr>) p)"

function fd_search :: "pcb_t \<Rightarrow> nat \<Rightarrow> nat option" where
  "fd_search p i = (if i < MAX_FD then if \<not> used_fd p i then Some i else fd_search p (i + 1) else None)"
  by pat_completeness auto
termination
  by (relation "measure (\<lambda>(p, i). 8 - i)") auto

declare fd_search.simps [simp del]

definition jt_open :: "fileops \<Rightarrow> kernel \<Rightarrow> i32" where
  "jt_open j k = (case j of Fs_jumptable \<Rightarrow> fs_open (k_fs k) | Rtc_jumptable \<Rightarrow> rtc_open | _ \<Rightarrow> terminal_open)"

definition sys_open :: "u32 \<Rightarrow> kernel \<Rightarrow> kernel \<times> i32" where
  "sys_open filename k =
     (if filename = 0 then (k, -1)
      else let (r, d) = read_dentry_by_name (k_fs k) (kview k) filename (Some local_dentry)
           in if r \<noteq> 0 then (k, -1)
              else case fd_search (cur k) 0 of None \<Rightarrow> (k, -1)
                | Some i \<Rightarrow>
                    let dentry = the d;
                        j = (if d_type dentry = 0 then Rtc_jumptable else Fs_jumptable);
                        k = upd_pcb (CPID k) (upd_fd i (\<lambda>f. f\<lparr> jumptable := j \<rparr>)) k
                    in if jt_open j k \<noteq> 0 then (k, -1)
                       else (upd_pcb (CPID k) (upd_fd i (\<lambda>f. f\<lparr> f_inode := d_inode dentry, position := 0,
                               filetype := d_type dentry,
                               flags := \<lparr> in_use = True, read_only = True, write_only = False \<rparr> \<rparr>)) k, of_nat i))"

definition jt_close :: "file_t \<Rightarrow> kernel \<Rightarrow> kernel \<times> i32" where
  "jt_close f k =
     (case jumptable f of
        Fs_jumptable \<Rightarrow> (let (fs, r) = fs_close (k_fs k) (Some f) in (k\<lparr> k_fs := fs \<rparr>, r))
      | Rtc_jumptable \<Rightarrow> (let (rt, r) = rtc_close (CPID k) (k_rtc k) in (k\<lparr> k_rtc := rt \<rparr>, r))
      | _ \<Rightarrow> (k, terminal_close))"

definition sys_close :: "i32 \<Rightarrow> kernel \<Rightarrow> kernel \<times> i32" where
  "sys_close fd k =
     (if sint fd < 2 \<or> sint fd \<ge> int MAX_FD \<or> \<not> used_fd (cur k) (nat (sint fd)) then (k, -1)
      else let i = nat (sint fd);
               k = upd_pcb (CPID k) (upd_fd i (set_in_use False)) k
           in jt_close (fd_array (cur k) i) k)"

definition jt_read :: "nat \<Rightarrow> nat \<Rightarrow> u32 \<Rightarrow> i32 \<Rightarrow> kernel \<Rightarrow> (kernel \<times> i32) option" where
  "jt_read n i buf nbytes k =
     (case jumptable (fd_array (cur k) i) of
        Fs_jumptable \<Rightarrow>
          (let (fs, m, f, r) = fs_read (k_fs k) (kview k) (Some (fd_array (cur k) i)) buf nbytes;
               k = with_mem m (k\<lparr> k_fs := fs \<rparr>)
           in Some (upd_pcb (CPID k) (upd_fd i (\<lambda>_. the f)) k, r))
      | Stdin_jumptable \<Rightarrow>
          (case terminal_read (terminal (cur k)) buf nbytes (k_kbd k) (kview k) of None \<Rightarrow> None
           | Some (kb, m, r) \<Rightarrow> Some (with_mem m (k\<lparr> k_kbd := kb \<rparr>), r))
      | Stdout_jumptable \<Rightarrow> Some (k, no_read)
      | Rtc_jumptable \<Rightarrow>
          (case rtc_read (CPID k) n (k_rtc k, k_pic k) nbytes of None \<Rightarrow> None
           | Some ((rt, p), r) \<Rightarrow> Some (k\<lparr> k_rtc := rt, k_pic := p \<rparr>, r)))"

definition sys_read :: "nat \<Rightarrow> i32 \<Rightarrow> u32 \<Rightarrow> i32 \<Rightarrow> kernel \<Rightarrow> (kernel \<times> i32) option" where
  "sys_read n fd buf nbytes k =
     (if sint fd < 0 \<or> sint fd \<ge> int MAX_FD \<or> \<not> used_fd (cur k) (nat (sint fd)) then Some (k, -1)
      else jt_read n (nat (sint fd)) buf nbytes k)"

definition jt_write :: "nat \<Rightarrow> u32 \<Rightarrow> i32 \<Rightarrow> kernel \<Rightarrow> kernel \<times> i32" where
  "jt_write i buf nbytes k =
     (case jumptable (fd_array (cur k) i) of
        Fs_jumptable \<Rightarrow> (k, fs_write (k_fs k) (Some (fd_array (cur k) i)) buf nbytes)
      | Stdin_jumptable \<Rightarrow> (k, no_write)
      | Stdout_jumptable \<Rightarrow>
          (let (c, m, r) = terminal_write buf nbytes (k_con k) (kview k) in (with_con (c, m) k, r))
      | Rtc_jumptable \<Rightarrow>
          (let (rt, r) = rtc_write (CPID k) (kview k) (k_rtc k) buf nbytes in (k\<lparr> k_rtc := rt \<rparr>, r)))"

definition sys_write :: "i32 \<Rightarrow> u32 \<Rightarrow> i32 \<Rightarrow> kernel \<Rightarrow> kernel \<times> i32" where
  "sys_write fd buf nbytes k =
     (if sint fd < 0 \<or> sint fd \<ge> int MAX_FD \<or> \<not> used_fd (cur k) (nat (sint fd)) then (k, -1)
      else jt_write (nat (sint fd)) buf nbytes k)"

section \<open>Creating and ending processes\<close>

text \<open>\<open>while (processes[CPID].running) { CPID++; if (CPID > MAX_PROCESSES) ... }\<close>.\<close>

function pcb_search :: "(nat \<Rightarrow> pcb_t) \<Rightarrow> nat \<Rightarrow> nat option" where
  "pcb_search ps i = (if running (ps i) then if i + 1 > MAX_PROCESSES then None else pcb_search ps (i + 1) else Some i)"
  by pat_completeness auto
termination
  by (relation "measure (\<lambda>(p, i). 7 - i)") auto

declare pcb_search.simps [simp del]

definition syscalls_init :: "kernel \<Rightarrow> kernel" where
  "syscalls_init k =
     (let k = upd_pcb (CPID k) (init_fds MAX_FD) k;
          k = upd_pcb (CPID k) std_fds k;
          k = upd_pcb (CPID k) (\<lambda>p. p\<lparr> PID := CPID k, PPID := 0, running := True, args := (args p)[0 := 0],
                args_size := 0, terminal := 0 \<rparr>) k
      in k\<lparr> active_processes := (active_processes k)(0 := 0, 1 := 0, 2 := 0),
            needs_to_be_halted := (needs_to_be_halted k)(0 := False, 1 := False, 2 := False) \<rparr>)"

text \<open>\<open>user_entry |= (uint32_t) new_eip[i] << (8*i)\<close>.\<close>

primrec user_entry :: "(nat \<Rightarrow> u8) \<Rightarrow> nat \<Rightarrow> u32" where
  "user_entry new_eip 0 = 0"
| "user_entry new_eip (Suc i) = user_entry new_eip i OR push_bit (8 * i) (ucast (new_eip i))"

text \<open>The common end of \<open>execute\<close> and \<open>execute_base_shell\<close>: page directory, program
  image, entry point.  \<open>execute\<close> saves its stack pointers in the parent's PCB
  (\<open>save\<close>) after the image has been loaded.\<close>

definition load_program :: "layout \<Rightarrow> u32 \<Rightarrow> (kernel \<Rightarrow> kernel) \<Rightarrow> kernel \<Rightarrow> kernel \<times> outcome" where
  "load_program ly fname save k =
     (let (m, c) = new_page_directory (l_syms ly) (k_mem k) (k_mmu k) (of_nat (CPID k));
          k = k\<lparr> k_mem := m, k_mmu := c \<rparr>;
          (vm, r) = fs_copy (k_fs k) (kview k) (l_data ly) fname EXE_ENTRY_POINT;
          k = with_mem vm k
      in if r \<noteq> 0 then (k, Ret (-1))
         else let entry = user_entry (\<lambda>i. kview k (EXE_ENTRY_POINT + 24 + of_nat i)) 4;
                  k = save k;
                  k = k\<lparr> tss_ss0 := KERNEL_DS, tss_esp0 := stack_top (CPID k) \<rparr>
              in (with_pic cli k, Enter_user entry))"

text \<open>The PCB of a base shell.\<close>

definition setup_shell :: "nat \<Rightarrow> nat \<Rightarrow> kernel \<Rightarrow> kernel" where
  "setup_shell term pid k =
     (let k = k\<lparr> CPID := pid \<rparr>;
          k = upd_pcb pid (init_fds MAX_FD) k;
          k = upd_pcb pid (\<lambda>p. p\<lparr> PID := pid, PPID := 0, running := True \<rparr>) k;
          k = upd_pcb pid std_fds k;
          k = upd_pcb pid (\<lambda>p. p\<lparr> args := (args p)[0 := 0], args_size := 0 \<rparr>) k;
          k = upd_pcb pid (\<lambda>p. p\<lparr> active := True \<rparr>) k;
          k = upd_pcb 0 (\<lambda>p. p\<lparr> active := False \<rparr>) k;
          k = upd_pcb pid (\<lambda>p. p\<lparr> terminal := term \<rparr>) k;
          k = k\<lparr> active_processes := (active_processes k)(terminal (processes k pid) := pid) \<rparr>
      in upd_pcb pid (\<lambda>p. p\<lparr> using_video_mem := False \<rparr>) k)"

definition execute_base_shell :: "layout \<Rightarrow> nat \<Rightarrow> kernel \<Rightarrow> kernel \<times> outcome" where
  "execute_base_shell ly term k =
     (let k = with_pic cli k;
          (kb, c) = terminal_init term (k_kbd k) (k_con k);
          k = k\<lparr> k_kbd := kb, k_con := c \<rparr>
      in case pcb_search (processes k) 0 of
           None \<Rightarrow> (k\<lparr> CPID := 0 \<rparr>, Ret (-2))
         | Some pid \<Rightarrow> load_program ly (l_shell ly) (\<lambda>k. k) (setup_shell term pid k))"

primrec close_all :: "nat \<Rightarrow> kernel \<Rightarrow> kernel" where
  "close_all 0 k = k"
| "close_all (Suc i) k = fst (sys_close (of_nat i) (close_all i k))"

text \<open>\<open>halt\<close> and \<open>exception_halt\<close> have the same body; they differ in the value the
  parent's \<open>execute\<close> returns.  \<open>end_process\<close> is the body up to the reset of the
  parent's arguments; nothing in it changes the \<open>terminal\<close> of a process.\<close>

definition end_process :: "kernel \<Rightarrow> kernel" where
  "end_process k =
     (let k = with_pic cli k;
          k = close_all MAX_FD k;
          k = upd_pcb (CPID k) (\<lambda>p. p\<lparr> running := False, active := False \<rparr>) k;
          term = terminal (cur k);
          k = k\<lparr> CPID := PPID (cur k) \<rparr>;
          k = (if CPID k = 0 then k\<lparr> active_processes := (active_processes k)(term := CPID k) \<rparr>
               else k\<lparr> active_processes := (active_processes k)(terminal (cur k) := CPID k) \<rparr>)
      in upd_pcb (CPID k) (\<lambda>p. p\<lparr> active := True, args := (args p)[0 := 0], args_size := 0 \<rparr>) k)"

definition restart_message :: cstring where
  "restart_message = lit ''Cannot close last process! Restarting shell...'' @ [10]"

definition halt_process :: "layout \<Rightarrow> u32 \<Rightarrow> kernel \<Rightarrow> (kernel \<times> outcome) option" where
  "halt_process ly ret k =
     (let term = terminal (cur k);
          k = end_process k;
          k = k\<lparr> k_mmu := swap_pages (l_syms ly) (k_mmu k) (of_nat (CPID k)) \<rparr>
      in if CPID k = 0
         then case printf restart_message [] (k_con k) (kview k) of
                None \<Rightarrow> None
              | Some (cm, _) \<Rightarrow>
                  (case execute_base_shell ly term (with_con cm k) of
                     (k, Ret _) \<Rightarrow> Some (k, Ret 0) | (k, out) \<Rightarrow> Some (k, out))
         else let k = k\<lparr> tss_esp0 := stack_top (CPID k) \<rparr>
              in Some (k, Resume_execute (ebp_execute (cur k)) (esp_execute (cur k)) ret))"

definition halt :: "layout \<Rightarrow> u8 \<Rightarrow> kernel \<Rightarrow> (kernel \<times> outcome) option" where
  "halt ly status k = halt_process ly (ucast status) k"

definition exception_halt :: "layout \<Rightarrow> kernel \<Rightarrow> (kernel \<times> outcome) option" where
  "exception_halt ly k = halt_process ly 256 k"

text \<open>The three loops over the command line in \<open>execute\<close>.\<close>

function exe_name :: "u32 \<Rightarrow> u32 \<Rightarrow> nat \<Rightarrow> mem \<Rightarrow> mem \<times> nat option" where
  "exe_name command exename i m =
     (if m (command + of_nat i) \<noteq> 0 \<and> m (command + of_nat i) \<noteq> 32
      then if i \<ge> MAX_FNAME_LEN then (m, None)
           else exe_name command exename (i + 1) (m(exename + of_nat i := m (command + of_nat i)))
      else (m, Some i))"
  by pat_completeness auto
termination
  by (relation "measure (\<lambda>(c, e, i, m). 32 - i)") auto

partial_function (option) skip_spaces :: "mem \<Rightarrow> u32 \<Rightarrow> nat \<Rightarrow> nat option" where
  "skip_spaces m command i = (if m (command + of_nat i) = 32 then skip_spaces m command (i + 1) else Some i)"

function args_loop :: "bool \<Rightarrow> mem \<Rightarrow> u32 \<Rightarrow> nat \<Rightarrow> nat \<Rightarrow> u8 list \<Rightarrow> u8 list" where
  "args_loop room m command i j ar =
     (if m (command + of_nat j) \<noteq> 0 \<and> int j < BUFFER_SIZE - int i
      then args_loop room m command i (j + 1) (if room then ar @ [m (command + of_nat j)] else ar)
      else ar)"
  by pat_completeness auto
termination
  by (relation "measure (\<lambda>(room, m, c, i, j, ar). 128 - j)") auto

declare exe_name.simps [simp del] args_loop.simps [simp del]

text \<open>\<open>execute\<close> from the choice of a PCB on: the child's PCB, and the rest.\<close>

definition setup_child :: "u8 list \<Rightarrow> nat \<Rightarrow> kernel \<Rightarrow> kernel" where
  "setup_child ar pid k =
     (let old_CPID = CPID k;
          k = k\<lparr> CPID := pid \<rparr>;
          k = upd_pcb pid (init_fds MAX_FD) k;
          k = upd_pcb pid (\<lambda>p. p\<lparr> PID := pid, PPID := old_CPID, running := True \<rparr>) k;
          k = upd_pcb pid std_fds k;
          k = upd_pcb pid (\<lambda>p. p\<lparr> args := (ar @ drop (length ar) (args p))[length ar := 0],
                args_size := of_nat (length ar) \<rparr>) k;
          k = upd_pcb pid (\<lambda>p. p\<lparr> active := True \<rparr>) k;
          k = upd_pcb old_CPID (\<lambda>p. p\<lparr> active := False \<rparr>) k;
          k = upd_pcb pid (\<lambda>p. p\<lparr> terminal := terminal (processes k old_CPID) \<rparr>) k;
          k = k\<lparr> active_processes := (active_processes k)(terminal (processes k pid) := pid) \<rparr>
      in upd_pcb pid (\<lambda>p. p\<lparr> using_video_mem := False \<rparr>) k)"

definition save_execute :: "nat \<Rightarrow> i32 \<Rightarrow> i32 \<Rightarrow> kernel \<Rightarrow> kernel" where
  "save_execute pid esp ebp k = upd_pcb pid (\<lambda>p. p\<lparr> esp_execute := esp, ebp_execute := ebp \<rparr>) k"

definition start_process :: "layout \<Rightarrow> i32 \<Rightarrow> i32 \<Rightarrow> u8 list \<Rightarrow> kernel \<Rightarrow> kernel \<times> outcome" where
  "start_process ly esp ebp ar k =
     (case pcb_search (processes k) 0 of
        None \<Rightarrow> (k, Ret (-2))
      | Some pid \<Rightarrow> load_program ly (l_exename ly) (save_execute (CPID k) esp ebp) (setup_child ar pid k))"

definition execute :: "layout \<Rightarrow> nat \<Rightarrow> i32 \<Rightarrow> i32 \<Rightarrow> u32 \<Rightarrow> kernel \<Rightarrow> (kernel \<times> outcome) option" where
  "execute ly n esp ebp command k =
     (let k = with_pic cli k
      in if command = 0 then Some (k, Ret (-1))
         else case exe_name command (l_exename ly) 0 (kview k) of
           (vm, None) \<Rightarrow> Some (with_mem vm k, Ret (-1))
         | (vm, Some i) \<Rightarrow>
             let k = with_mem (vm(l_exename ly + of_nat i := 0)) k
             in case skip_spaces (kview k) command i of None \<Rightarrow> None
              | Some i \<Rightarrow>
                  let ar = args_loop (CPID k < MAX_PROCESSES) (kview k) command i i [];
                      (k, fd) = sys_open (l_exename ly) k
                  in if fd = -1 then Some (k, Ret (-1))
                     else case sys_read n fd (l_first_bytes ly) 4 k of None \<Rightarrow> None
                      | Some (k, r) \<Rightarrow>
                          if r = -1 then Some (k, Ret (-1))
                          else let (k, r) = sys_close fd k
                               in if r = -1 \<and> CPID k \<noteq> 0 then Some (k, Ret (-1))
                                  else if strncmp ((!) MAGIC_EXE_NUMS) (arr (kview k) (l_first_bytes ly)) 4 \<noteq> 0
                                  then Some (k, Ret (-1))
                                  else Some (start_process ly esp ebp ar k))"

section \<open>getargs, vidmap and signals\<close>

text \<open>The comparison with \<open>nbytes - 1\<close> is unsigned, since \<open>args_size\<close> is.  The PCB's
  \<open>args\<close> lies outside the modelled memory: copying from it is one block write.\<close>

definition getargs :: "u32 \<Rightarrow> i32 \<Rightarrow> kernel \<Rightarrow> kernel \<times> i32" where
  "getargs buf nbytes k =
     (if buf = 0 \<or> args_size (cur k) \<ge> nbytes - 1 then (k, -1)
      else let vm = memset (kview k) buf 0 nbytes;
               vm = wr vm buf (take (unat (args_size (cur k))) (args (cur k)));
               vm = vm(buf + args_size (cur k) := 0)
           in (with_mem vm k, 0))"

text \<open>The video page of a process: the chain of conditions in \<open>vidmap\<close> and in
  \<open>task_switch\<close>.\<close>

definition map_video :: "layout \<Rightarrow> nat \<Rightarrow> kernel \<Rightarrow> kernel \<times> i32" where
  "map_video ly pid k =
     (let entry = (\<lambda>page. let (m, c, r) = new_page_directory_entry (l_syms ly) (k_mem k) (k_mmu k) (of_nat pid)
                                             USER_PAGE_BOTTOM page 0 3
                          in (k\<lparr> k_mem := m, k_mmu := c \<rparr>, r))
      in if terminal (processes k pid) = cur_terminal (k_con k) then entry VIDEO
         else if terminal (processes k pid) = 0 then entry VIDEO_0
         else if terminal (processes k pid) = 1 then entry VIDEO_1
         else if terminal (processes k pid) = 2 then entry VIDEO_2
         else (k, 0))"

definition vidmap :: "layout \<Rightarrow> u32 \<Rightarrow> kernel \<Rightarrow> kernel \<times> i32" where
  "vidmap ly screenstart k =
     (if screenstart = 0 then (k, -1)
      else if sint screenstart > sint (USER_PAGE_BOTTOM - 4) \<or> sint screenstart < sint PROGRAM_IMAGE then (k, -1)
      else let k = upd_pcb (CPID k) (\<lambda>p. p\<lparr> using_video_mem := True \<rparr>) k;
               (k, r) = map_video ly (CPID k) k
           in if r \<noteq> 0 then (k, -1)
              else (with_mem (store32 (kview k) screenstart USER_PAGE_BOTTOM) k, 0))"

definition set_handler :: "i32 \<Rightarrow> u32 \<Rightarrow> i32" where
  "set_handler signum handler_address = -1"

definition sigreturn :: i32 where
  "sigreturn = -1"

section \<open>Scheduling\<close>

text \<open>\<open>do { i++; } while (active_processes[i % NUM_TERMINALS] == 0)\<close>.\<close>

partial_function (option) next_active :: "(nat \<Rightarrow> nat) \<Rightarrow> nat \<Rightarrow> nat option" where
  "next_active ap i =
     (let i = i + 1 in if ap (i mod NUM_TERMINALS) = 0 then next_active ap i else Some i)"

text \<open>\<open>clear(); set_pos(0, 0); puts("391OS> ")\<close>.\<close>

definition prompt_text :: cstring where
  "prompt_text = lit ''391OS> ''"

definition prompt :: "kernel \<Rightarrow> kernel" where
  "prompt k = with_con (puts prompt_text (set_pos 0 0 (k_con k)) (clear (k_con k) (kview k))) k"

text \<open>\<open>task_switch\<close> from the adjustment of the video memory to the new stack.\<close>

definition switch_context :: "layout \<Rightarrow> nat \<Rightarrow> i32 \<Rightarrow> i32 \<Rightarrow> kernel \<Rightarrow> kernel" where
  "switch_context ly old_CPID old_esp old_ebp k =
     (let k = video_context_of (CPID k) k;
          k = (if using_video_mem (processes k old_CPID) then fst (map_video ly old_CPID k) else k);
          k = (if using_video_mem (cur k) then fst (map_video ly (CPID k) k) else k);
          k = upd_pcb old_CPID (\<lambda>p. p\<lparr> esp_switch := old_esp, ebp_switch := old_ebp \<rparr>) k;
          k = k\<lparr> tss_ss0 := KERNEL_DS, tss_esp0 := stack_top (CPID k) \<rparr>;
          k = k\<lparr> k_mmu := swap_pages (l_syms ly) (k_mmu k) (of_nat (CPID k)) \<rparr>
      in with_pic sti k)"

definition task_switch :: "layout \<Rightarrow> i32 \<Rightarrow> i32 \<Rightarrow> kernel \<Rightarrow> (kernel \<times> outcome) option" where
  "task_switch ly old_esp old_ebp k =
     (let k = with_pic cli k
      in if needs_to_be_halted k (terminal (cur k))
         then let k = k\<lparr> needs_to_be_halted := (needs_to_be_halted k)(terminal (cur k) := False) \<rparr>
              in exception_halt ly (prompt k)
         else case next_active (active_processes k) (terminal (cur k)) of None \<Rightarrow> None
           | Some i \<Rightarrow>
               let old_CPID = CPID k;
                   k = k\<lparr> CPID := active_processes k (i mod NUM_TERMINALS) \<rparr>
               in if CPID k = old_CPID then Some (k, Ret 0)
                  else let k = switch_context ly old_CPID old_esp old_ebp k
                       in Some (k, Resume_switch (ebp_switch (cur k)) (esp_switch (cur k))))"

definition pitHandler :: "layout \<Rightarrow> i32 \<Rightarrow> i32 \<Rightarrow> kernel \<Rightarrow> (kernel \<times> outcome) option" where
  "pitHandler ly esp ebp k =
     (let k = with_pic (\<lambda>p. enable_irq PIT_IRQ_NUM (send_eoi PIT_IRQ_NUM (set_count COUNT (disable_irq PIT_IRQ_NUM (cli p))))) k
      in if CPID k \<noteq> 0
         then case task_switch ly esp ebp k of None \<Rightarrow> None
           | Some (k, Ret v) \<Rightarrow> Some (with_pic sti k, Ret v)
           | Some (k, out) \<Rightarrow> Some (k, out)
         else Some (with_pic sti k, Ret 0))"

section \<open>The keyboard interrupt (terminal.c)\<close>

abbreviation F1 :: u8 where "F1 \<equiv> 0x3B"
abbreviation F2 :: u8 where "F2 \<equiv> 0x3C"
abbreviation F3 :: u8 where "F3 \<equiv> 0x3D"
abbreviation L_KEY :: u8 where "L_KEY \<equiv> 0x26"
abbreviation C_KEY :: u8 where "C_KEY \<equiv> 0x2E"

definition terminal_switch :: "layout \<Rightarrow> i32 \<Rightarrow> i32 \<Rightarrow> nat \<Rightarrow> kernel \<Rightarrow> kernel \<times> outcome" where
  "terminal_switch ly old_esp old_ebp new_terminal k =
     (if new_terminal = cur_terminal (k_con k) then (k, Ret 0)
      else let old_terminal = cur_terminal (k_con k);
               k = k\<lparr> k_con := (k_con k)\<lparr> cur_terminal := new_terminal \<rparr> \<rparr>;
               k = k\<lparr> k_con := set_cursor 0 (k_con k) \<rparr>
           in if active_processes k new_terminal = 0
              then let k = with_mem (save_video_context (int old_terminal) (kview k)) k;
                       k = k_set_video_context ACTIVE_CONTEXT k;
                       k = with_mem (clear (k_con k) (kview k)) k;
                       k = upd_pcb (CPID k) (\<lambda>p. p\<lparr> esp_switch := old_esp, ebp_switch := old_ebp \<rparr>) k
                   in (case execute_base_shell ly new_terminal k of (k, Ret _) \<Rightarrow> (k, Ret 0) | r \<Rightarrow> r)
              else let k = with_mem (save_video_context (int old_terminal) (kview k)) k;
                       k = with_mem (load_video_context (int new_terminal) (kview k)) k
                   in (video_context_of (CPID k) k, Ret 0))"

definition process_available :: "kernel \<Rightarrow> bool" where
  "process_available k = list_ex (\<lambda>i. \<not> running (processes k i)) [1..<MAX_PROCESSES + 1]"

text \<open>\<open>t->buf_pos = 0\<close>, after \<open>clear(); set_pos(0, 0); puts("391OS> ")\<close>.\<close>

definition clear_line :: "kernel \<Rightarrow> kernel" where
  "clear_line k = k\<lparr> k_kbd := set_term (cur_terminal (k_con k))
     ((cur_term (k_kbd k) (k_con k))\<lparr> buf_pos := 0 \<rparr>) (k_kbd k) \<rparr>"

definition with_kbd :: "keyboard \<times> console \<times> mem \<Rightarrow> kernel \<Rightarrow> kernel" where
  "with_kbd r k = with_con (snd r) (k\<lparr> k_kbd := fst r \<rparr>)"

definition kbd_done :: "kernel \<Rightarrow> kernel" where
  "kbd_done k = with_pic (\<lambda>p. enable_irq KEYBOARD_IRQ_NUM (send_eoi KEYBOARD_IRQ_NUM p)) k"

text \<open>\<open>keyboardHandler\<close> from \<open>set_cursor(0)\<close> to its end.\<close>

definition kbd_finish :: "kernel \<Rightarrow> kernel" where
  "kbd_finish k =
     (let k = k\<lparr> k_con := set_cursor 0 (k_con k) \<rparr>;
          k = video_context_of (CPID k) k
      in with_pic sti (kbd_done k))"

text \<open>\<open>keyboardHandler\<close> up to the treatment of key combinations.\<close>

definition kbd_entry :: "u8 \<Rightarrow> kernel \<Rightarrow> kernel" where
  "kbd_entry scancode k =
     (let k = with_pic (\<lambda>p. cli (disable_irq KEYBOARD_IRQ_NUM p)) k;
          k = k_set_video_context ACTIVE_CONTEXT k;
          k = with_kbd (key_special scancode (k_kbd k) (k_con k) (kview k)) k
      in k\<lparr> k_kbd := key_release scancode (k_kbd k) \<rparr>)"

definition keyboardHandler :: "layout \<Rightarrow> i32 \<Rightarrow> i32 \<Rightarrow> u8 \<Rightarrow> kernel \<Rightarrow> (kernel \<times> outcome) option" where
  "keyboardHandler ly esp ebp scancode k =
     (let k = kbd_entry scancode k;
          kb = k_kbd k
      in if alt_active kb \<and> scancode = F1 then Some (terminal_switch ly esp ebp 0 (kbd_done k))
         else if alt_active kb \<and> scancode = F2 \<and> (active_processes k 1 \<noteq> 0 \<or> process_available k)
         then Some (terminal_switch ly esp ebp 1 (kbd_done k))
         else if alt_active kb \<and> scancode = F3 \<and> (active_processes k 2 \<noteq> 0 \<or> process_available k)
         then Some (terminal_switch ly esp ebp 2 (kbd_done k))
         else if ctrl_active kb \<and> scancode = C_KEY
         then let k = clear_line (prompt k)
              in if CPID k = active_processes k (cur_terminal (k_con k))
                 then case exception_halt ly (kbd_done k) of None \<Rightarrow> None
                   | Some (k, Ret _) \<Rightarrow> Some (kbd_finish k, Ret 0)
                   | Some (k, out) \<Rightarrow> Some (k, out)
                 else Some (kbd_finish (k\<lparr> needs_to_be_halted := (needs_to_be_halted k)(cur_terminal (k_con k) := True) \<rparr>), Ret 0)
         else if ctrl_active kb \<and> scancode = L_KEY then Some (kbd_finish (clear_line (prompt k)), Ret 0)
         else if buf_pos (cur_term kb (k_con k)) < BUFFER_SIZE - 1
         then Some (kbd_finish (with_kbd (do_reg scancode kb (k_con k) (kview k)) k), Ret 0)
         else Some (kbd_finish k, Ret 0))"

definition k_rtcHandler :: "kernel \<Rightarrow> kernel" where
  "k_rtcHandler k = (let (rt, p) = rtcHandler (k_rtc k) (k_pic k) in k\<lparr> k_rtc := rt, k_pic := p \<rparr>)"

section \<open>The system call gate (syscalls_asm.S)\<close>

definition ret_val :: "kernel \<times> i32 \<Rightarrow> (kernel \<times> outcome) option" where
  "ret_val r = Some (fst r, Ret (snd r))"

definition syscall_wrapper ::
  "layout \<Rightarrow> nat \<Rightarrow> i32 \<Rightarrow> i32 \<Rightarrow> i32 \<Rightarrow> u32 \<Rightarrow> u32 \<Rightarrow> u32 \<Rightarrow> kernel \<Rightarrow> (kernel \<times> outcome) option" where
  "syscall_wrapper ly n esp ebp eax ebx ecx edx k =
     (if sint eax \<le> 0 \<or> sint eax > 10 then Some (k, Ret (-1))
      else if eax = 1 then halt ly (ucast ebx) k
      else if eax = 2 then execute ly n esp ebp ebx k
      else if eax = 3 then map_option (\<lambda>(k, r). (k, Ret r)) (sys_read n ebx ecx edx k)
      else if eax = 4 then ret_val (sys_write ebx ecx edx k)
      else if eax = 5 then ret_val (sys_open ebx k)
      else if eax = 6 then ret_val (sys_close ebx k)
      else if eax = 7 then ret_val (getargs ebx ecx k)
      else if eax = 8 then ret_val (vidmap ly ebx k)
      else if eax = 9 then Some (k, Ret (set_handler ebx ecx))
      else Some (k, Ret sigreturn))"

end
