(* ===== verification/Kview.thy ===== *)
theory Kview
  imports Syscalls
begin

text \<open>
  Kernel code under a process's page directory: through a directory in the invariant
  \<open>user_dir\<close> of the paging theory, \<open>vview\<close> shows the first 8 MB as they are and the
  process's own 4 MB frame at 128 MB, and \<open>kstore\<close> puts stores back into exactly those
  bytes.  A system call that leaves the page tables alone therefore reads back what it
  stored, and changes no other process's memory.
\<close>

section \<open>Which addresses the kernel reaches\<close>

definition user_page :: "u32 \<Rightarrow> bool" where
  "user_page a \<longleftrightarrow> 0x08000000 \<le> a \<and> a < 0x08400000"

definition kernel_page :: "u32 \<Rightarrow> bool" where
  "kernel_page a \<longleftrightarrow> 0x1000 \<le> a \<and> a < 0x00800000"

text \<open>The physical frame of a process.\<close>

definition own_frame :: "u32 \<Rightarrow> u32 \<Rightarrow> bool" where
  "own_frame P pa \<longleftrightarrow> drop_bit 22 pa = P + 1"

text \<open>The directory of process \<open>P\<close> is in force.\<close>

definition space :: "symbols \<Rightarrow> mem \<Rightarrow> mmu \<Rightarrow> u32 \<Rightarrow> bool" where
  "space sy m c P \<longleftrightarrow> syms_ok sy \<and> P < 7 \<and> user_dir sy m P \<and> paging_on c \<and> cr3 c = tbl_addr (pageDir sy) P"

lemma space_translation:
  "space sy m c P \<Longrightarrow> drop_bit 22 va \<noteq> 33 \<Longrightarrow> translate m c user va = process_map P user va"
  by (rule process_translation) (auto simp: space_def user_dir_def)

lemma window_user:
  assumes "space sy m c P" and "drop_bit 22 va = 33"
  shows "translate m c False va = translate m c True va"
proof -
  have cr3: "cr3 c = tbl_addr (pageDir sy) P" and pg: "paging_on c" and u: "user_dir sy m P"
    using assms(1) by (auto simp: space_def)
  have pde: "pde_at m c va = tbl_get m (pageDir sy) P 33" unfolding pde_at_dir[OF cr3] assms(2) by simp
  let ?t = "tbl_addr (video_page_tables sy) P OR 7"
  have pte: "pte_at m ?t va = tbl_get m (video_page_tables sy) P (unat (drop_bit 12 va AND 0x3FF))"
    by (rule pte_at_table) (simp add: take_bit_eq_mod)
  have "entry_ok user (pte_at m ?t va) \<longleftrightarrow> bit (pte_at m ?t va) 0" if n2: "pde_at m c va \<noteq> 2" for user
  proof (cases "unat (drop_bit 12 va AND 0x3FF) = 0")
    case True
    obtain v where "video_page v" "tbl_get m (video_page_tables sy) P 0 = v OR 7"
      using u n2 pde by (auto simp: user_dir_def)
    moreover obtain x where "v = push_bit 12 x" using video_page_push[OF calculation(1)] by blast
    ultimately show ?thesis unfolding pte True by (simp add: entry_ok_def bit_simps)
  next
    case False
    then show ?thesis unfolding pte using u pt_index_less[of va] by (auto simp: user_dir_def entry_ok_def)
  qed
  moreover have "pde_at m c va = 2 \<or> pde_at m c va = ?t" using u pde by (auto simp: user_dir_def)
  moreover have "entry_ok user ?t" "\<not> bit ?t 7" for user
    using entry_ok_flags(5)[of user "of_nat (video_page_tables sy + unat P)"]
      entry_ok_flags(6)[of "of_nat (video_page_tables sy + unat P)"] by (simp_all add: tbl_addr_push)
  moreover have "(2 :: u32) \<noteq> ?t" using entry_ok_flags(5)[of True] entry_ok_flags(9)[of True] by (metis calculation(3))
  ultimately show ?thesis using pg by (auto simp: translate_def paging_on_def Let_def entry_ok_flags)
qed

lemma region_bits:
  "user_page a \<Longrightarrow> drop_bit 22 a = 32" "kernel_page a \<Longrightarrow> drop_bit 22 a = 0 \<or> drop_bit 22 a = 1"
  by (auto simp: user_page_def kernel_page_def word_unat_eq_iff drop_bit_unat word_le_nat_alt word_less_nat_alt)

lemma vview_kernel: "space sy m c P \<Longrightarrow> kernel_page va \<Longrightarrow> vview m c va = m va"
  using space_translation[of sy m c P va False] region_bits(2)[of va]
  by (auto simp: vview_def process_map_def kernel_page_def word_le_nat_alt word_less_nat_alt)

lemma vview_user: "space sy m c P \<Longrightarrow> user_page va \<Longrightarrow> vview m c va = m (FOUR_MB * (P + 1) + (va - 0x08000000))"
  using space_translation[of sy m c P va False] region_bits(1)[of va]
  by (auto simp: vview_def process_map_def user_page_def)

lemma frame_arith:
  assumes "P < (7 :: u32)" and "user_page va"
  shows "own_frame P (FOUR_MB * (P + 1) + (va - 0x08000000))"
    and "PROGRAM_IMAGE + ((FOUR_MB * (P + 1) + (va - 0x08000000)) AND 0x3FFFFF) = va"
    and "\<not> kernel_page (FOUR_MB * (P + 1) + (va - 0x08000000)) \<or> P = 0"
proof -
  define d where "d = va - 0x08000000"
  define f where "f = FOUR_MB * (P + 1) + d"
  have d: "unat d < 4194304"
    using assms(2) by (auto simp: d_def user_page_def word_le_nat_alt word_less_nat_alt unat_sub_if_size word_size)
  have p: "unat P < 7" using assms(1) by (rule unat_pid)
  then have u: "unat f = unat d + 4194304 * (unat P + 1)" using d by (simp add: f_def unat_word_ariths)
  have "unat (drop_bit 22 f) = unat P + 1" using d unfolding drop_bit_unat u by simp
  moreover have "unat (P + 1) = unat P + 1" using p by (simp add: unat_word_ariths)
  ultimately show "own_frame P (FOUR_MB * (P + 1) + (va - 0x08000000))"
    unfolding d_def[symmetric] f_def[symmetric] own_frame_def word_unat_eq_iff by simp
  have "unat (f AND 0x3FFFFF) = (unat d + 4194304 * (unat P + 1)) mod 4194304"
    unfolding mask_22 take_bit_eq_mask[symmetric] take_bit_eq_mod by (simp add: unat_mod u)
  also have "\<dots> = unat d" using d by (simp only: mod_mult_self2) simp
  finally have "f AND 0x3FFFFF = d" by (simp only: word_unat_eq_iff)
  then show "PROGRAM_IMAGE + ((FOUR_MB * (P + 1) + (va - 0x08000000)) AND 0x3FFFFF) = va"
    unfolding d_def[symmetric] f_def[symmetric] by (simp add: d_def)
  show "\<not> kernel_page (FOUR_MB * (P + 1) + (va - 0x08000000)) \<or> P = 0"
    unfolding d_def[symmetric] f_def[symmetric] kernel_page_def word_le_nat_alt word_less_nat_alt u
    by (auto simp: word_unat_eq_iff)
qed

text \<open>The addresses whose translation is the address itself, and the program page.\<close>

lemma identity_iff:
  assumes "space sy m c P"
  shows "translate m c False pa = Some pa \<longleftrightarrow> kernel_page pa"
proof (cases "drop_bit 22 pa = 33")
  case True
  then have "138412032 \<le> unat pa"
    using arg_cong[OF True, of unat] unfolding drop_bit_unat by simp
  moreover have "unat q < 0x2000000" if "translate m c False pa = Some q" for q
  proof -
    have "translate m c True pa = Some q" using that window_user[OF assms True] by simp
    then show ?thesis using user_phys_range[of sy m P c pa q] assms unat_pid[of P] by (auto simp: space_def)
  qed
  ultimately show ?thesis by (fastforce simp: kernel_page_def word_less_nat_alt)
next
  case False
  have "FOUR_MB * (P + 1) + (pa - 0x08000000) \<noteq> pa" if "user_page pa"
  proof
    assume "FOUR_MB * (P + 1) + (pa - 0x08000000) = pa"
    moreover have "P < 7" using assms by (simp add: space_def)
    ultimately have "P + 1 = 32" using frame_arith(1)[of P pa] region_bits(1)[OF that] that by (simp add: own_frame_def)
    then have "P = 31" by (simp add: eq_diff_eq[symmetric])
    with \<open>P < 7\<close> show False by simp
  qed
  moreover have "\<not> (user_page pa \<and> kernel_page pa)" by (auto simp: user_page_def kernel_page_def word_le_nat_alt word_less_nat_alt)
  ultimately show ?thesis
    using space_translation[OF assms False, of False] by (auto simp: process_map_def user_page_def kernel_page_def)
qed

lemma program_iff:
  assumes "space sy m c P"
  shows "translate m c False (PROGRAM_IMAGE + (pa AND 0x3FFFFF)) = Some pa \<longleftrightarrow> own_frame P pa"
proof -
  define d where "d = pa AND 0x3FFFFF"
  have d: "unat d < 4194304" "d = take_bit 22 pa" unfolding d_def mask_22
    by (simp_all add: take_bit_eq_mask[symmetric] take_bit_eq_mod unat_mod)
  have up: "user_page (PROGRAM_IMAGE + d)" using d(1) by (simp add: user_page_def word_le_nat_alt word_less_nat_alt unat_word_ariths)
  then have "translate m c False (PROGRAM_IMAGE + d) = Some (FOUR_MB * (P + 1) + d)"
    using space_translation[OF assms, of "PROGRAM_IMAGE + d" False] region_bits(1)[OF up]
    by (simp add: process_map_def user_page_def)
  moreover have "FOUR_MB * (P + 1) + d = push_bit 22 (P + 1) + take_bit 22 pa"
    by (simp add: d(2) push_bit_eq_mult mult.commute)
  moreover have "push_bit 22 (P + 1) + take_bit 22 pa = pa \<longleftrightarrow> drop_bit 22 pa = P + 1"
  proof
    assume "push_bit 22 (P + 1) + take_bit 22 pa = pa"
    then have "FOUR_MB * (P + 1) + ((PROGRAM_IMAGE + d) - 0x08000000) = pa" using calculation(2) by simp
    then show "drop_bit 22 pa = P + 1"
      using frame_arith(1)[OF _ up, of P] assms by (simp add: own_frame_def space_def)
  next
    assume "drop_bit 22 pa = P + 1"
    then show "push_bit 22 (P + 1) + take_bit 22 pa = pa" using split_at[of 22 pa] by simp
  qed
  ultimately show ?thesis by (simp add: own_frame_def d_def)
qed

lemma kstore_eq:
  assumes "space sy m c P"
  shows "kstore m c vm pa = (if kernel_page pa then vm pa
    else if own_frame P pa then vm (PROGRAM_IMAGE + (pa AND 0x3FFFFF)) else m pa)"
  unfolding kstore_def Let_def identity_iff[OF assms] program_iff[OF assms] ..

section \<open>Stores that leave the page tables alone\<close>

definition pt_addr :: "symbols \<Rightarrow> u32 \<Rightarrow> bool" where
  "pt_addr sy a \<longleftrightarrow> (\<exists>t \<in> {pageDir sy, first_4MB sy, video_page_tables sy}. 4096 * t \<le> unat a \<and> unat a < 4096 * (t + 7))"

lemma pt_addr_kernel: "syms_ok sy \<Longrightarrow> pt_addr sy a \<Longrightarrow> kernel_page a"
  by (auto simp: syms_ok_def pt_addr_def kernel_page_def word_le_nat_alt word_less_nat_alt)

lemma tbl_get_cong:
  assumes "\<And>a. pt_addr sy a \<Longrightarrow> m' a = m a" and "syms_ok sy" and "Q < 7" and "i < 1024"
    and "t \<in> {pageDir sy, first_4MB sy, video_page_tables sy}"
  shows "tbl_get m' t Q i = tbl_get m t Q i"
  unfolding tbl_get_def wld_def
proof (rule rd32_cong)
  fix k :: nat assume k: "k < 4"
  let ?x = "4 * (1024 * (t + unat Q) + i) + k"
  have t: "1024 \<le> t" "t + 7 \<le> 2048" using assms(2,5) by (auto simp: syms_ok_def)
  have q: "unat Q < 7" using assms(3) by (rule unat_pid)
  have "unat (of_nat ?x :: u32) = ?x" using t q assms(4) k by (intro unat_of_nat_32) (simp add: algebra_simps)
  moreover have "4096 * t \<le> ?x" "?x < 4096 * (t + 7)" using q assms(4) k by auto
  ultimately have "pt_addr sy (of_nat ?x)" unfolding pt_addr_def by (metis assms(5))
  then show "arr m' (of_nat (4 * (1024 * (t + unat Q) + i))) k = arr m (of_nat (4 * (1024 * (t + unat Q) + i))) k"
    using assms(1) by (simp add: arr_def)
qed

lemma user_dir_pt_cong:
  assumes "\<And>a. pt_addr sy a \<Longrightarrow> m' a = m a" and "syms_ok sy" and "Q < 7" and "user_dir sy m Q"
  shows "user_dir sy m' Q"
  by (rule user_dir_cong[OF assms(4)]) (use tbl_get_cong[OF assms(1-3)] in auto)

lemma kstore_spec:
  assumes "space sy m c P" and "\<And>a. pt_addr sy a \<Longrightarrow> vm a = vview m c a"
  shows "Q < 7 \<Longrightarrow> user_dir sy m Q \<Longrightarrow> user_dir sy (kstore m c vm) Q"
    and "space sy (kstore m c vm) c P"
    and "kernel_page va \<or> user_page va \<and> P \<noteq> 0 \<Longrightarrow> vview (kstore m c vm) c va = vm va"
    and "\<not> kernel_page pa \<and> \<not> own_frame P pa \<Longrightarrow> kstore m c vm pa = m pa"
proof -
  have sy: "syms_ok sy" "P < 7" using assms(1) by (auto simp: space_def)
  have pt: "kstore m c vm a = m a" if "pt_addr sy a" for a
    using assms(2)[OF that] pt_addr_kernel[OF sy(1) that] by (simp add: kstore_eq[OF assms(1)] vview_kernel[OF assms(1)])
  show u: "user_dir sy (kstore m c vm) Q" if "Q < 7" "user_dir sy m Q" for Q
    using user_dir_pt_cong[OF pt sy(1) that] .
  show sp: "space sy (kstore m c vm) c P" using assms(1) u by (auto simp: space_def)
  show "vview (kstore m c vm) c va = vm va" if "kernel_page va \<or> user_page va \<and> P \<noteq> 0"
  proof (cases "kernel_page va")
    case True
    then show ?thesis by (simp add: vview_kernel[OF sp] kstore_eq[OF assms(1)])
  next
    case False
    then have va: "user_page va" "P \<noteq> 0" using that by auto
    show ?thesis
      using frame_arith[OF sy(2) va(1)] va(2) by (simp only: vview_user[OF sp va(1)] kstore_eq[OF assms(1)]) simp
  qed
  show "kstore m c vm pa = m pa" if "\<not> kernel_page pa \<and> \<not> own_frame P pa"
    using that by (simp add: kstore_eq[OF assms(1)])
qed

section \<open>Creating a page directory changes page tables only\<close>

lemma tbl_set_outside:
  assumes "syms_ok sy" and "P < 7" and "i < 1024" and "t \<in> {pageDir sy, first_4MB sy, video_page_tables sy}" and "\<not> pt_addr sy a"
  shows "tbl_set m t P i v a = m a"
proof -
  let ?x = "1024 * (t + unat P) + i"
  have t: "t + 7 \<le> 2048" using assms(1,4) by (auto simp: syms_ok_def)
  have P: "unat P < 7" using assms(2) by (rule unat_pid)
  have "\<not> (4 * ?x \<le> unat a \<and> unat a < 4 * ?x + 4)"
  proof
    assume h: "4 * ?x \<le> unat a \<and> unat a < 4 * ?x + 4"
    then have "4096 * t \<le> unat a" "unat a < 4096 * (t + 7)" using P assms(3) by auto
    then show False using assms(4,5) unfolding pt_addr_def by blast
  qed
  then have o: "unat a < 4 * ?x \<or> 4 * ?x + 4 \<le> unat a" by linarith
  have "?x < 2 ^ 30" using t P assms(3) by simp
  then show ?thesis using wst_other[of ?x "unat a" m v] o unat_less_32[of a] by (simp add: tbl_set_def)
qed

lemma tbl_fill_outside:
  assumes "syms_ok sy" and "P < 7" and "t \<in> {pageDir sy, first_4MB sy, video_page_tables sy}" and "\<not> pt_addr sy a"
  shows "n \<le> 1024 \<Longrightarrow> tbl_fill m t P f n a = m a"
  by (induction n) (simp_all add: tbl_set_outside[OF assms(1,2) _ assms(3,4)])

lemma new_page_directory_outside:
  assumes "syms_ok sy" and "P < 7" and "new_page_directory sy m c P = (m', c')" and "\<not> pt_addr sy a"
  shows "m' a = m a"
proof -
  have m': "m' = fst (new_page_directory sy m c P)" by (simp add: assms(3))
  note s = tbl_set_outside[OF assms(1,2) _ _ assms(4)] tbl_fill_outside[OF assms(1,2) _ assms(4)]
  show ?thesis unfolding m' new_page_directory_def Let_def by (simp add: s)
qed

lemma new_entry_outside:
  assumes "syms_ok sy" and "P < 7" and "new_page_directory_entry sy m c P 0x08400000 v 0 3 = (m', c', r)" and "\<not> pt_addr sy a"
  shows "m' a = m a"
proof -
  have m': "m' = fst (new_page_directory_entry sy m c P 0x08400000 v 0 3)" by (simp add: assms(3))
  have ix: "unat (drop_bit 22 (0x08400000 :: u32)) = 33" "unat (drop_bit 12 (0x08400000 :: u32) AND 0x3FF) = 0"
    by (simp_all add: drop_bit_eq_div)
  show ?thesis unfolding m' new_page_directory_entry_def Let_def ix by (simp add: tbl_set_outside[OF assms(1,2) _ _ assms(4)])
qed

end
