(* ===== verification/Descriptors.thy ===== *)
theory Descriptors
  imports Kview
begin

text \<open>
  File descriptors: what \<open>sys_open\<close>, \<open>sys_close\<close>, \<open>sys_read\<close> and \<open>sys_write\<close>
  (syscalls.c) do to the descriptor table of the running process and which driver they
  reach.  The two searches for a free slot, of a descriptor and of a process control
  block, implement one interface, \<open>slot_search\<close>.
\<close>

section \<open>Searching for a free slot\<close>

locale slot_search =
  fixes search :: "'s \<Rightarrow> nat \<Rightarrow> nat option" and used :: "'s \<Rightarrow> nat \<Rightarrow> bool" and n :: nat
  assumes pos: "0 < n"
    and step: "i < n \<Longrightarrow> search s i = (if \<not> used s i then Some i else if Suc i < n then search s (Suc i) else None)"
begin

lemma search_find: "i < n \<Longrightarrow> search s i = List.find (\<lambda>j. \<not> used s j) [i..<n]"
proof (induction "n - i" arbitrary: i)
  case (Suc d)
  then have e: "search s i = (if \<not> used s i then Some i else if Suc i < n then search s (Suc i) else None)" "[i..<n] = i # [Suc i..<n]"
    using step upt_conv_Cons by auto
  show ?case
  proof (cases "Suc i < n")
    case True
    then have "search s (Suc i) = List.find (\<lambda>j. \<not> used s j) [Suc i..<n]" using Suc.hyps(2) by (intro Suc.hyps(1)) auto
    with e True show ?thesis by simp
  next
    case False
    with e show ?thesis by simp
  qed
qed simp

lemma search_Some: "search s 0 = Some k \<longleftrightarrow> k < n \<and> \<not> used s k \<and> (\<forall>j < k. used s j)"
proof -
  have "search s 0 = Some k \<longleftrightarrow> (\<exists>i < n. \<not> used s i \<and> k = i \<and> (\<forall>j < i. used s j))"
    by (auto simp: search_find[OF pos] find_Some_iff)
  then show ?thesis by blast
qed

lemma search_None: "search s 0 = None \<longleftrightarrow> (\<forall>j < n. used s j)"
  by (auto simp: search_find[OF pos] find_None_iff)

end

lemma fd_search_step:
  "i < 8 \<Longrightarrow> fd_search s i = (if \<not> used_fd s i then Some i else if Suc i < 8 then fd_search s (Suc i) else None)"
  by (subst fd_search.simps) (simp add: fd_search.simps[of s "Suc i"])

interpretation fds: slot_search fd_search used_fd 8
  by unfold_locales (simp, rule fd_search_step)

interpretation pcbs: slot_search pcb_search "\<lambda>ps i. running (ps i)" 7
  by unfold_locales (simp, subst pcb_search.simps, auto)

section \<open>open and close\<close>

definition new_file :: "dentry_t \<Rightarrow> file_t" where
  "new_file d = \<lparr> jumptable = (if d_type d = 0 then Rtc_jumptable else Fs_jumptable), f_inode = d_inode d, position = 0,
     filetype = d_type d, flags = \<lparr> in_use = True, read_only = True, write_only = False \<rparr> \<rparr>"

definition lowest_free :: "pcb_t \<Rightarrow> nat option" where
  "lowest_free p = List.find (\<lambda>i. \<not> used_fd p i) [0..<MAX_FD]"

lemma upd_pcb_twice [simp]: "upd_pcb i f (upd_pcb i g k) = upd_pcb i (\<lambda>p. f (g p)) k"
  by (simp add: upd_pcb_def)

lemma upd_fd_twice [simp]: "upd_fd i f (upd_fd i g p) = upd_fd i (\<lambda>x. f (g x)) p"
  by (simp add: upd_fd_def)

lemma upd_pcb_sel [simp, frame_simps]:
  "CPID (upd_pcb i f k) = CPID k" "k_fs (upd_pcb i f k) = k_fs k" "k_mem (upd_pcb i f k) = k_mem k" "k_mmu (upd_pcb i f k) = k_mmu k"
  "k_rtc (upd_pcb i f k) = k_rtc k" "k_con (upd_pcb i f k) = k_con k" "k_kbd (upd_pcb i f k) = k_kbd k" "k_pic (upd_pcb i f k) = k_pic k"
  "active_processes (upd_pcb i f k) = active_processes k" "needs_to_be_halted (upd_pcb i f k) = needs_to_be_halted k"
  "tss_ss0 (upd_pcb i f k) = tss_ss0 k" "tss_esp0 (upd_pcb i f k) = tss_esp0 k"
  "processes (upd_pcb i f k) = (processes k)(i := f (processes k i))"
  by (simp_all add: upd_pcb_def)

lemma upd_fd_sel [simp, frame_simps]:
  "fd_array (upd_fd i f p) = (fd_array p)(i := f (fd_array p i))" "running (upd_fd i f p) = running p"
  "active (upd_fd i f p) = active p" "terminal (upd_fd i f p) = terminal p" "PID (upd_fd i f p) = PID p" "PPID (upd_fd i f p) = PPID p"
  "args (upd_fd i f p) = args p" "args_size (upd_fd i f p) = args_size p" "using_video_mem (upd_fd i f p) = using_video_mem p"
  "esp_execute (upd_fd i f p) = esp_execute p" "ebp_execute (upd_fd i f p) = ebp_execute p"
  "esp_switch (upd_fd i f p) = esp_switch p" "ebp_switch (upd_fd i f p) = ebp_switch p"
  by (simp_all add: upd_fd_def)

lemma open_file_fields:
  "f\<lparr> jumptable := j, f_inode := a, position := b, filetype := c, flags := d \<rparr> =
    \<lparr> jumptable = j, f_inode = a, position = b, filetype = c, flags = d \<rparr>" for f :: file_t
  by simp

lemma open_spec:
  "sys_open filename k =
     (if filename = 0 then (k, -1)
      else case find_dentry (k_fs k) (kview k) (name_key (arr (kview k) filename)) of
        None \<Rightarrow> (k, -1)
      | Some ix \<Rightarrow>
          (case lowest_free (cur k) of None \<Rightarrow> (k, -1)
           | Some i \<Rightarrow> (upd_pcb (CPID k) (upd_fd i (\<lambda>_. new_file (dentries (k_fs k) (kview k) ix))) k, of_nat i)))"
  by (auto simp: sys_open_def read_dentry_by_name_find fds.search_find lowest_free_def new_file_def jt_open_def
      fs_open_def rtc_open_def Let_def open_file_fields split: option.splits)

text \<open>C31: \<open>open\<close> on every branch: it returns -1 and changes nothing for a NULL name, for a
  name no directory entry has, and when all eight descriptors are in use; otherwise it
  allocates the lowest free descriptor of the running process, opened at position 0 on the
  entry found, with the clock's operations for a device entry and the file system's for any
  other, and changes nothing else in the whole kernel state.\<close>

theorem open_correct:
  "sys_open filename k =
     (if filename = 0 then (k, -1)
      else case find_dentry (k_fs k) (kview k) (name_key (arr (kview k) filename)) of
        None \<Rightarrow> (k, -1)
      | Some ix \<Rightarrow>
          (case lowest_free (cur k) of None \<Rightarrow> (k, -1)
           | Some i \<Rightarrow> (upd_pcb (CPID k) (upd_fd i (\<lambda>_. new_file (dentries (k_fs k) (kview k) ix))) k, of_nat i)))"
  by (rule open_spec)

text \<open>The running process's standard descriptors are in place.\<close>

definition std_ok :: "pcb_t \<Rightarrow> bool" where
  "std_ok p \<longleftrightarrow> used_fd p 0 \<and> used_fd p 1 \<and> jumptable (fd_array p 0) = Stdin_jumptable \<and>
     jumptable (fd_array p 1) = Stdout_jumptable \<and>
     (\<forall>i. 2 \<le> i \<and> i < MAX_FD \<and> used_fd p i \<longrightarrow> jumptable (fd_array p i) \<in> {Fs_jumptable, Rtc_jumptable})"

lemma lowest_free_Some: "lowest_free p = Some i \<longleftrightarrow> i < 8 \<and> \<not> used_fd p i \<and> (\<forall>j < i. used_fd p j)"
  using fds.search_Some[of p i] fds.search_find[of 0 p] by (simp add: lowest_free_def)

lemma lowest_free_ge2: "std_ok p \<Longrightarrow> lowest_free p = Some i \<Longrightarrow> 2 \<le> i"
  unfolding lowest_free_Some std_ok_def by (metis One_nat_def Suc_1 less_2_cases not_less)

lemma sint_fd: "i < 8 \<Longrightarrow> sint (of_nat i :: i32) = int i"
  using sint_dec[of "Suc i"] by simp

lemma close_spec:
  assumes "2 \<le> i" and "i < MAX_FD" and "used_fd (cur k) i"
  shows "sys_close (of_nat i) k =
    (let k = upd_pcb (CPID k) (upd_fd i (set_in_use False)) k in
     case jumptable (fd_array (cur k) i) of
       Fs_jumptable \<Rightarrow> (if filetype (fd_array (cur k) i) = 1 then k\<lparr> k_fs := (k_fs k)\<lparr> dirs_read := 0 \<rparr> \<rparr> else k, 0)
     | Rtc_jumptable \<Rightarrow> (k\<lparr> k_rtc := (k_rtc k)\<lparr> active_freq := (active_freq (k_rtc k))(CPID k := 0) \<rparr> \<rparr>, 0)
     | _ \<Rightarrow> (k, -1))"
  using assms by (auto simp: sys_close_def sint_fd jt_close_def fs_close_def rtc_close_def terminal_close_def Let_def
      upd_pcb_def upd_fd_def set_in_use_def split: fileops.splits)

lemma close_fail:
  "sint fd < 2 \<or> 8 \<le> sint fd \<or> \<not> used_fd (cur k) (nat (sint fd)) \<Longrightarrow> sys_close fd k = (k, -1)"
  by (auto simp: sys_close_def)

text \<open>\<open>close\<close> on every branch: descriptors 0 and 1, numbers out of range and unused
  descriptors give -1 and change nothing; any other descriptor becomes free, and besides
  that only the driver's own state changes: a directory's closing rewinds the directory
  position, the clock's resets the process's rate to 0.\<close>

theorem close_correct:
  "(sint fd < 2 \<or> 8 \<le> sint fd \<or> \<not> used_fd (cur k) (nat (sint fd)) \<longrightarrow> sys_close fd k = (k, -1)) \<and>
   (2 \<le> i \<and> i < MAX_FD \<and> used_fd (cur k) i \<longrightarrow>
     sys_close (of_nat i) k =
      (let k = upd_pcb (CPID k) (upd_fd i (set_in_use False)) k in
       case jumptable (fd_array (cur k) i) of
         Fs_jumptable \<Rightarrow> (if filetype (fd_array (cur k) i) = 1 then k\<lparr> k_fs := (k_fs k)\<lparr> dirs_read := 0 \<rparr> \<rparr> else k, 0)
       | Rtc_jumptable \<Rightarrow> (k\<lparr> k_rtc := (k_rtc k)\<lparr> active_freq := (active_freq (k_rtc k))(CPID k := 0) \<rparr> \<rparr>, 0)
       | _ \<Rightarrow> (k, -1)))"
  using close_fail[of fd k] close_spec[of i k] by blast

section \<open>Reading into user memory\<close>

definition in_space :: "layout \<Rightarrow> kernel \<Rightarrow> bool" where
  "in_space ly k \<longleftrightarrow> space (l_syms ly) (k_mem k) (k_mmu k) (of_nat (CPID k)) \<and> 0 < CPID k \<and> CPID k < 7"

definition user_buf :: "u32 \<Rightarrow> nat \<Rightarrow> bool" where
  "user_buf buf n \<longleftrightarrow> (\<forall>i < n. user_page (buf + of_nat i))"

text \<open>What a call that stores only in a buffer of the running process does to memory.\<close>

definition user_write :: "layout \<Rightarrow> mem \<Rightarrow> kernel \<Rightarrow> kernel \<Rightarrow> bool" where
  "user_write ly vm k k' \<longleftrightarrow> in_space ly k' \<and>
     (\<forall>va. kernel_page va \<or> user_page va \<longrightarrow> kview k' va = vm va) \<and>
     (\<forall>pa. \<not> own_frame (of_nat (CPID k)) pa \<longrightarrow> k_mem k' pa = k_mem k pa)"

lemma user_not_kernel: "user_page a \<Longrightarrow> \<not> kernel_page a"
  by (auto simp: user_page_def kernel_page_def word_le_nat_alt word_less_nat_alt)

lemma with_mem_sel [simp, frame_simps]:
  "CPID (with_mem vm k) = CPID k" "processes (with_mem vm k) = processes k" "k_mmu (with_mem vm k) = k_mmu k"
  "k_mem (with_mem vm k) = kstore (k_mem k) (k_mmu k) vm" "k_fs (with_mem vm k) = k_fs k" "k_rtc (with_mem vm k) = k_rtc k"
  "k_con (with_mem vm k) = k_con k" "k_kbd (with_mem vm k) = k_kbd k" "k_pic (with_mem vm k) = k_pic k"
  "active_processes (with_mem vm k) = active_processes k" "needs_to_be_halted (with_mem vm k) = needs_to_be_halted k"
  "tss_ss0 (with_mem vm k) = tss_ss0 k" "tss_esp0 (with_mem vm k) = tss_esp0 k"
  by (simp_all add: with_mem_def)

lemma user_writeI:
  assumes "in_space ly k" and "\<And>a. n \<le> unat (a - buf) \<Longrightarrow> vm a = kview k a" and "user_buf buf n"
    and "k_mem k' = kstore (k_mem k) (k_mmu k) vm" and "k_mmu k' = k_mmu k" and "CPID k' = CPID k"
  shows "user_write ly vm k k'"
proof -
  let ?P = "of_nat (CPID k) :: u32"
  have sp: "space (l_syms ly) (k_mem k) (k_mmu k) ?P" and sy: "syms_ok (l_syms ly)" and P: "?P \<noteq> 0"
    using assms(1) unat_of_nat_32[of "CPID k"] by (auto simp: in_space_def space_def)
  have kern: "vm a = kview k a" if "kernel_page a" for a
  proof (rule assms(2), rule ccontr)
    assume "\<not> n \<le> unat (a - buf)"
    then have "user_page (buf + of_nat (unat (a - buf)))" using assms(3) unfolding user_buf_def by (meson not_le)
    then show False using user_not_kernel that by simp
  qed
  note ks = kstore_spec[OF sp kern[OF pt_addr_kernel[OF sy]]]
  have "space (l_syms ly) (k_mem k') (k_mmu k') ?P" using ks(2) by (simp add: assms(4,5))
  then have "in_space ly k'" using assms(1) by (simp add: in_space_def assms(6))
  moreover have "kview k' va = vm va" if "kernel_page va \<or> user_page va" for va
    using ks(3)[of va] that P by (auto simp: assms(4,5))
  moreover have "k_mem k' pa = k_mem k pa" if "\<not> own_frame ?P pa" for pa
    using ks(4)[of pa] that kern[of pa] vview_kernel[OF sp, of pa] kstore_eq[OF sp, of vm pa] by (auto simp: assms(4))
  ultimately show ?thesis by (simp add: user_write_def)
qed

lemma blit_frame: "n \<le> unat (a - buf) \<Longrightarrow> blit m buf f n a = m a"
  by (simp add: blit_def)

lemma small_not_minus1: "n \<le> 4190208 \<Longrightarrow> (of_nat n :: i32) \<noteq> -1"
  using unat_of_nat_32[of n] unat_neg1_32 by fastforce

lemma read_file_spec:
  assumes "in_space ly k" and "i < MAX_FD" and "used_fd (cur k) i" and "jumptable (fd_array (cur k) i) = Fs_jumptable"
    and "filetype (fd_array (cur k) i) = 2" and "wf_fs (k_fs k) (kview k)"
    and "file_ok (k_fs k) (kview k) (f_inode (fd_array (cur k) i))"
    and "data_valid (k_fs k) (kview k) (f_inode (fd_array (cur k) i))"
    and "buf \<noteq> 0" and "user_buf buf (unat nbytes)" and "buf_ok (k_fs k) (kview k) buf (unat nbytes)"
  defines "off \<equiv> unat (position (fd_array (cur k) i))"
  defines "len \<equiv> min (unat nbytes) (file_len (k_fs k) (kview k) (f_inode (fd_array (cur k) i)) - off)"
  defines "vm \<equiv> blit (kview k) buf (\<lambda>j. file_byte (k_fs k) (kview k) (f_inode (fd_array (cur k) i)) (off + j)) len"
  shows "\<exists>k'. sys_read n (of_nat i) buf nbytes k = Some (k', of_nat len) \<and> user_write ly vm k k' \<and>
    processes k' = (processes k)(CPID k := upd_fd i (\<lambda>f. f\<lparr> position := position f + of_nat len \<rparr>) (cur k)) \<and>
    CPID k' = CPID k \<and> k_fs k' = k_fs k \<and> k_con k' = k_con k \<and> k_kbd k' = k_kbd k \<and> k_rtc k' = k_rtc k \<and> k_pic k' = k_pic k"
proof -
  let ?f = "fd_array (cur k) i"
  have rd: "read_data (k_fs k) (kview k) (f_inode ?f) (position ?f) buf nbytes = (vm, of_nat len)"
    unfolding vm_def len_def off_def by (rule read_data_valid[OF assms(6-9,11)])
  have "len \<le> 4190208" using assms(7) by (auto simp: len_def file_ok_def)
  then have "(of_nat len :: i32) \<noteq> -1" by (rule small_not_minus1)
  then have "fs_read (k_fs k) (kview k) (Some ?f) buf nbytes =
      (k_fs k, vm, Some (?f\<lparr> position := position ?f + of_nat len \<rparr>), of_nat len)"
    using assms(5,9) by (simp add: fs_read_def file_read_def rd)
  then have "sys_read n (of_nat i) buf nbytes k = Some (upd_pcb (CPID k)
      (upd_fd i (\<lambda>_. ?f\<lparr> position := position ?f + of_nat len \<rparr>)) (with_mem vm (k\<lparr> k_fs := k_fs k \<rparr>)), of_nat len)"
    using assms(2-4) by (simp add: sys_read_def sint_fd jt_read_def)
  moreover have "user_write ly vm k (upd_pcb (CPID k)
      (upd_fd i (\<lambda>_. ?f\<lparr> position := position ?f + of_nat len \<rparr>)) (with_mem vm (k\<lparr> k_fs := k_fs k \<rparr>)))"
  proof (rule user_writeI[OF assms(1), of "unat nbytes" buf])
    show "vm a = kview k a" if "unat nbytes \<le> unat (a - buf)" for a
      using that by (simp add: vm_def blit_frame len_def)
  qed (simp_all add: assms(10))
  ultimately show ?thesis by (auto simp: upd_fd_def)
qed


section \<open>getargs\<close>

lemma getargs_spec:
  assumes "in_space ly k" and "buf \<noteq> 0" and "length s < 128" and "take (length s) (args (cur k)) = s" and "length s \<le> length (args (cur k))"
    and "args_size (cur k) = of_nat (length s)" and "length s + 1 < unat nbytes" and "user_buf buf (unat nbytes)"
  shows "getargs buf nbytes k = (with_mem (wr (kview k) buf (s @ replicate (unat nbytes - length s) 0)) k, 0)"
    and "user_write ly (wr (kview k) buf (s @ replicate (unat nbytes - length s) 0)) k
      (with_mem (wr (kview k) buf (s @ replicate (unat nbytes - length s) 0)) k)"
proof -
  let ?n = "length s" and ?N = "unat nbytes"
  have n: "unat (of_nat ?n :: u32) = ?n" using assms(3) by (intro unat_of_nat_32) simp
  have "nbytes \<noteq> 0" using assms(7) by auto
  then have "unat (nbytes - 1) = ?N - 1" using unat_dec by blast
  then have g: "\<not> nbytes - 1 \<le> (of_nat ?n :: u32)" using assms(7) by (simp add: word_le_nat_alt n)
  have "?N < 2 ^ 32" using unat_less_32[of nbytes] by simp
  have m: "memset (kview k) buf 0 nbytes = wr (kview k) buf (replicate ?N 0)"
    by (auto simp: memset_blit wr_def blit_def)
  have "wr (wr (kview k) buf (replicate ?N 0)) buf s = wr (kview k) buf (s @ replicate (?N - ?n) 0)"
    using assms(7) by (subst wr_wr) auto
  moreover have "(wr (kview k) buf (s @ replicate (?N - ?n) 0))(buf + of_nat ?n := 0) = wr (kview k) buf (s @ replicate (?N - ?n) 0)"
    using assms(7) by (auto simp: wr_def blit_def fun_upd_def nth_append n fun_eq_iff)
  ultimately show "getargs buf nbytes k = (with_mem (wr (kview k) buf (s @ replicate (?N - ?n) 0)) k, 0)"
    using g assms(2,4,5) by (simp add: getargs_def assms(6) m n Let_def)
  show "user_write ly (wr (kview k) buf (s @ replicate (?N - ?n) 0)) k (with_mem (wr (kview k) buf (s @ replicate (?N - ?n) 0)) k)"
    by (rule user_writeI[OF assms(1) _ assms(8)]) (use assms(7) in \<open>simp_all add: wr_def blit_def\<close>)
qed

text \<open>\<open>getargs\<close> with a large enough buffer in the process's program page stores the
  process's argument string there, filled up with NULs, and changes nothing else; with a
  NULL buffer, or one without room for the string and one more byte, it returns -1 and
  changes nothing.\<close>

theorem getargs_returns_args:
  assumes "in_space ly k" and "length s < 128" and "take (length s) (args (cur k)) = s" and "length s \<le> length (args (cur k))"
    and "args_size (cur k) = of_nat (length s)" and "0 < unat nbytes" and "user_buf buf (unat nbytes)" and "buf \<noteq> 0"
  shows "if length s + 1 < unat nbytes
     then \<exists>k'. getargs buf nbytes k = (k', 0) \<and> processes k' = processes k \<and>
       user_write ly (wr (kview k) buf (s @ replicate (unat nbytes - length s) 0)) k k'
     else getargs buf nbytes k = (k, -1)"
proof (cases "length s + 1 < unat nbytes")
  case True
  then show ?thesis using getargs_spec[OF assms(1,8,2-5) True assms(7)] by auto
next
  case False
  have "nbytes \<noteq> 0" using assms(6) by auto
  then have "unat (nbytes - 1) = unat nbytes - 1" using unat_dec by blast
  moreover have "unat (of_nat (length s) :: u32) = length s" using assms(2) by (intro unat_of_nat_32) simp
  ultimately have "nbytes - 1 \<le> args_size (cur k)" using False by (simp add: word_le_nat_alt assms(5))
  with False show ?thesis by (simp add: getargs_def)
qed

text \<open>The length check of \<open>getargs\<close> is an unsigned comparison: a length of 0 passes it,
  and the whole argument string and its NUL are stored in the empty buffer.\<close>

theorem getargs_length_zero:
  assumes "buf \<noteq> 0" and "args_size (cur k) = of_nat (length s)" and "length s < 128" and "take (length s) (args (cur k)) = s"
  shows "getargs buf 0 k = (with_mem (wr (kview k) buf (s @ [0])) k, 0)"
proof -
  have n: "unat (of_nat (length s) :: u32) = length s" using assms(3) by (intro unat_of_nat_32) simp
  then have "\<not> (-1 :: u32) \<le> of_nat (length s)" using assms(3) by (simp add: word_le_nat_alt unat_neg1_32)
  moreover have "memset (kview k) buf 0 0 = kview k" by (simp add: memset_blit blit_def)
  moreover have "(wr (kview k) buf s)(buf + of_nat (length s) := 0) = wr (kview k) buf (s @ [0])"
    using wr_append[of s "[0]" "kview k" buf] assms(3) by (simp add: wr_single)
  ultimately show ?thesis using assms by (simp add: getargs_def n Let_def)
qed

section \<open>A concrete kernel state\<close>

text \<open>Process 1 runs in its address space, with the file of the demonstration image open as
  descriptor 2 and the argument string \<open>hi\<close>.\<close>

definition demo_kmem :: mem where
  "demo_kmem = (\<lambda>a. if pt_addr demo_syms a then fst demo_1 a else demo_mem a)"

definition demo_pcb :: pcb_t where
  "demo_pcb = \<lparr> fd_array = (\<lambda>i. if i = 0 then demo_file\<lparr> jumptable := Stdin_jumptable \<rparr>
       else if i = 1 then demo_file\<lparr> jumptable := Stdout_jumptable \<rparr>
       else if i = 2 then demo_file else demo_file\<lparr> flags := \<lparr> in_use = False, read_only = False, write_only = False \<rparr> \<rparr>),
     PID = 1, PPID = 0, esp_execute = 0, ebp_execute = 0, esp_switch = 0, ebp_switch = 0,
     args = [104, 105] @ replicate 126 0, args_size = 2, running = True, active = True, terminal = 0, using_video_mem = False \<rparr>"

definition demo_ly :: layout where
  "demo_ly = \<lparr> l_syms = demo_syms, l_exename = 0x7FF000, l_first_bytes = 0x7FF040, l_data = 0x700000, l_shell = 0x5000 \<rparr>"

definition demo_k :: kernel where
  "demo_k = \<lparr> CPID = 1, processes = (\<lambda>i. demo_pcb\<lparr> running := i < 2, PID := i \<rparr>), active_processes = (\<lambda>_. 0)(0 := 1),
     needs_to_be_halted = \<lambda>_. False, tss_ss0 = KERNEL_DS, tss_esp0 = stack_top 1, k_fs = demo_fs, k_rtc = demo_rtc,
     k_pic = demo_pic, k_con = demo_con, k_kbd = demo_kbd, k_mmu = snd demo_1, k_mem = demo_kmem \<rparr>"

lemma demo_k_sel:
  "CPID demo_k = 1" "k_fs demo_k = demo_fs" "k_mem demo_k = demo_kmem" "k_mmu demo_k = snd demo_1"
  "processes demo_k 1 = demo_pcb" "processes demo_k (Suc 0) = demo_pcb" "active_processes demo_k = (\<lambda>_. 0)(0 := 1)" "needs_to_be_halted demo_k = (\<lambda>_. False)"
  "k_con demo_k = demo_con" "k_kbd demo_k = demo_kbd"
  by (simp_all add: demo_k_def demo_pcb_def)

lemma demo_space: "space demo_syms demo_kmem (snd demo_1) 1" "in_space demo_ly demo_k"
proof -
  have "user_dir demo_syms demo_kmem 1"
    by (rule user_dir_pt_cong[OF _ demo_syms_ok _ demo_dirs(1)]) (simp_all add: demo_kmem_def)
  then show "space demo_syms demo_kmem (snd demo_1) 1" using demo_syms_ok demo_regs by (simp add: space_def)
  then show "in_space demo_ly demo_k" by (simp add: in_space_def demo_k_sel demo_ly_def)
qed

lemma demo_fs_addr:
  assumes "fs_addr demo_fs demo_mem a"
  shows "kernel_page a \<and> \<not> pt_addr demo_syms a"
proof -
  have "unat (a - 0x1000) < 4096 \<or> unat (a - 0x401000) < 8192"
    using assms by (simp add: fs_addr_def demo_header) (simp add: demo_fs_def)
  then show ?thesis
    by (auto simp: kernel_page_def pt_addr_def demo_syms_def word_le_nat_alt word_less_nat_alt unat_sub_if_size word_size split: if_splits)
qed

lemma demo_agree: "fs_agree demo_fs demo_mem (vview demo_kmem (snd demo_1))" "fs_agree demo_fs demo_mem demo_kmem"
proof -
  show "fs_agree demo_fs demo_mem (vview demo_kmem (snd demo_1))"
    using demo_fs_addr vview_kernel[OF demo_space(1)] by (simp add: fs_agree_def demo_kmem_def)
  show "fs_agree demo_fs demo_mem demo_kmem" using demo_fs_addr by (simp add: fs_agree_def demo_kmem_def)
qed

lemma demo_image:
  "wf_fs demo_fs (vview demo_kmem (snd demo_1))" "file_ok demo_fs (vview demo_kmem (snd demo_1)) 0"
  "data_valid demo_fs (vview demo_kmem (snd demo_1)) 0" "file_len demo_fs (vview demo_kmem (snd demo_1)) 0 = 3"
  "file_byte demo_fs (vview demo_kmem (snd demo_1)) 0 1 = 105"
proof -
  note a = demo_agree(1) and w = demo_ok(1) and f = demo_ok(2) and v = demo_ok(3)
  show "wf_fs demo_fs (vview demo_kmem (snd demo_1))" using wf_fs_agree[OF a] w by simp
  show "file_ok demo_fs (vview demo_kmem (snd demo_1)) 0" using agree_file_ok[OF a w f] .
  show "data_valid demo_fs (vview demo_kmem (snd demo_1)) 0" using agree_data_valid[OF a w f] v by simp
  have l: "file_len demo_fs demo_mem 0 = 3" by (simp add: file_len_def demo_header)
  show "file_len demo_fs (vview demo_kmem (snd demo_1)) 0 = 3" using agree_file(1)[OF a w] f l by (simp add: file_ok_def)
  have "file_byte demo_fs demo_mem 0 1 = 105"
    by (simp add: file_byte_def file_block_def demo_header arr_def) (simp add: demo_fs_def demo_mem_def)
  then show "file_byte demo_fs (vview demo_kmem (snd demo_1)) 0 1 = 105"
    using agree_file_byte[OF a w f, of 1] data_valid_block[OF v, of 1] l by simp
qed

lemma demo_user_buf: "n \<le> 64 \<Longrightarrow> user_buf 0x08100000 n"
  by (auto simp: user_buf_def user_page_def word_le_nat_alt word_less_nat_alt unat_word_ariths unat_of_nat_32)

lemma demo_buf_ok: "n \<le> 64 \<Longrightarrow> buf_ok demo_fs (vview demo_kmem (snd demo_1)) 0x08100000 n"
  by (rule buf_okI) (simp_all add: agree_header[OF demo_agree(1)] demo_header, simp_all add: demo_fs_def)

theorem close_correct_witness:
  "snd (sys_close 2 demo_k) = 0 \<and> \<not> used_fd (cur (fst (sys_close 2 demo_k))) 2 \<and> sys_close 1 demo_k = (demo_k, -1)"
  using close_correct[of 1 demo_k 2]
  by (simp add: demo_k_sel demo_pcb_def demo_file_def set_in_use_def Let_def)


theorem getargs_returns_args_witness:
  "\<exists>k'. getargs 0x08100000 16 demo_k = (k', 0) \<and> kview k' 0x08100001 = 105 \<and> kview k' 0x08100002 = 0"
proof -
  have "user_page 0x08100001" "user_page 0x08100002" by (simp_all add: user_page_def)
  then show ?thesis
    using getargs_returns_args[OF demo_space(2), of "[104, 105]" 16 "0x08100000"] demo_user_buf[of 16]
    by (auto simp: demo_k_sel demo_pcb_def user_write_def wr_def blit_def)
qed

theorem getargs_length_zero_witness:
  "snd (getargs 0x08100000 0 demo_k) = 0 \<and> args_size (cur demo_k) = 2"
  using getargs_length_zero[of "0x08100000" demo_k "[104, 105]"] by (simp add: demo_k_sel demo_pcb_def)

end
