(* ===== verification/Processes.thy ===== *)
theory Processes
  imports Descriptors
begin

text \<open>
  The process table.  The abstract picture (\<open>stacks\<close>): every terminal has a stack of
  processes, the base shell at the bottom, each process above the one that executed it, and
  the active process on top; the processor runs the top of one stack.  \<open>execute\<close> pushes,
  \<open>halt\<close> pops, and popping a base shell pushes a new one; a timer interrupt moves to the
  next terminal that has processes.

  The relation \<open>proc_inv\<close> connects the process control blocks, \<open>active_processes\<close> and
  \<open>CPID\<close> with the stacks, and every system call and interrupt is shown to be a step of the
  abstract picture.
\<close>

section \<open>Abstraction\<close>

type_synonym stacks = "nat \<Rightarrow> nat list"

primrec chain :: "(nat \<Rightarrow> pcb_t) \<Rightarrow> nat list \<Rightarrow> bool" where
  "chain ps [] \<longleftrightarrow> True"
| "chain ps (p # xs) \<longleftrightarrow> PPID (ps p) = (case xs of [] \<Rightarrow> 0 | q # _ \<Rightarrow> q) \<and> chain ps xs"

definition top_of :: "nat list \<Rightarrow> nat" where
  "top_of xs = (case xs of [] \<Rightarrow> 0 | p # _ \<Rightarrow> p)"

definition on_terminal :: "(nat \<Rightarrow> pcb_t) \<Rightarrow> nat \<Rightarrow> nat set" where
  "on_terminal ps t = {p. 0 < p \<and> p \<le> MAX_PROCESSES \<and> running (ps p) \<and> terminal (ps p) = t}"

definition pcb_ok :: "nat \<Rightarrow> pcb_t \<Rightarrow> bool" where
  "pcb_ok p b \<longleftrightarrow> length (args b) = 128 \<and>
     (0 < p \<and> p \<le> MAX_PROCESSES \<and> running b \<longrightarrow> std_ok b \<and> unat (args_size b) \<le> 128 \<and> PID b = p \<and> terminal b < 3)"

definition table_inv :: "kernel \<Rightarrow> stacks \<Rightarrow> bool" where
  "table_inv k st \<longleftrightarrow>
     (\<forall>u < 3. chain (processes k) (st u) \<and> distinct (st u) \<and> set (st u) = on_terminal (processes k) u \<and>
        active_processes k u = top_of (st u)) \<and>
     (\<forall>p. pcb_ok p (processes k p)) \<and> running (processes k 0)"

text \<open>Terminal \<open>t\<close> has the processor, and terminal 0 always has its shell.\<close>

definition proc_inv :: "kernel \<Rightarrow> stacks \<Rightarrow> nat \<Rightarrow> bool" where
  "proc_inv k st t \<longleftrightarrow> table_inv k st \<and> t < 3 \<and> st t \<noteq> [] \<and> CPID k = top_of (st t) \<and> st 0 \<noteq> []"

section \<open>Operations that keep the table\<close>

definition tab :: "pcb_t \<Rightarrow> bool \<times> nat \<times> nat \<times> nat" where
  "tab b = (running b, PPID b, terminal b, PID b)"

definition keeps :: "kernel \<Rightarrow> kernel \<Rightarrow> bool" where
  "keeps k k' \<longleftrightarrow> CPID k' = CPID k \<and> active_processes k' = active_processes k \<and>
     (\<forall>p. tab (processes k' p) = tab (processes k p) \<and> (pcb_ok p (processes k p) \<longrightarrow> pcb_ok p (processes k' p)))"

lemma keeps_refl [simp, inv_intros]: "keeps k k"
  by (simp add: keeps_def)

lemma keeps_trans: "keeps k k' \<Longrightarrow> keeps k' k'' \<Longrightarrow> keeps k k''"
  by (simp add: keeps_def)

lemma keeps_same [inv_intros]:
  "CPID k' = CPID k \<Longrightarrow> active_processes k' = active_processes k \<Longrightarrow> processes k' = processes k \<Longrightarrow> keeps k k'"
  by (simp add: keeps_def)

lemma keeps_upd_pcb [inv_intros]:
  "tab (f (processes k i)) = tab (processes k i) \<Longrightarrow> (pcb_ok i (processes k i) \<Longrightarrow> pcb_ok i (f (processes k i))) \<Longrightarrow> keeps k (upd_pcb i f k)"
  by (simp add: keeps_def)

lemma chain_cong: "(\<And>p. p \<in> set xs \<Longrightarrow> PPID (ps' p) = PPID (ps p)) \<Longrightarrow> chain ps' xs = chain ps xs"
  by (induction xs) auto

lemma tab_eq: "tab b = tab b' \<longleftrightarrow> running b = running b' \<and> PPID b = PPID b' \<and> terminal b = terminal b' \<and> PID b = PID b'"
  by (auto simp: tab_def)

lemma table_inv_keeps:
  assumes "keeps k k'" and "table_inv k st"
  shows "table_inv k' st"
proof -
  have tb: "running (processes k' p) = running (processes k p)" "PPID (processes k' p) = PPID (processes k p)"
    "terminal (processes k' p) = terminal (processes k p)" for p
    using assms(1) by (auto simp: keeps_def tab_eq)
  then have "on_terminal (processes k') u = on_terminal (processes k) u" "chain (processes k') xs = chain (processes k) xs" for u xs
    by (simp_all add: on_terminal_def chain_cong[of xs "processes k'" "processes k"])
  then show ?thesis using assms tb by (simp add: table_inv_def keeps_def)
qed

lemma proc_inv_keeps: "keeps k k' \<Longrightarrow> proc_inv k st t \<Longrightarrow> proc_inv k' st t"
  using table_inv_keeps[of k k' st] by (simp add: proc_inv_def keeps_def)

subsection \<open>File descriptors\<close>

lemma tab_upd_fd [simp]: "tab (upd_fd i f b) = tab b"
  by (simp add: tab_def)

lemma open_keeps [inv_intros]: "keeps k (fst (sys_open fname k))"
proof -
  have "pcb_ok p (upd_fd i (\<lambda>_. new_file d) b)" if "pcb_ok p b" "lowest_free b = Some i" for p b i d
    using that lowest_free_ge2[OF _ that(2)] by (auto simp: pcb_ok_def std_ok_def new_file_def)
  then show ?thesis by (auto simp: open_spec intro!: keeps_upd_pcb split: option.splits)
qed

lemma close_keeps [inv_intros]: "keeps k (fst (sys_close fd k))"
proof (cases "sint fd < 2 \<or> 8 \<le> sint fd \<or> \<not> used_fd (cur k) (nat (sint fd))")
  case False
  let ?k = "upd_pcb (CPID k) (upd_fd (nat (sint fd)) (set_in_use False)) k"
  have "2 \<le> nat (sint fd)" using False by linarith
  then have "keeps k ?k"
    by (intro keeps_upd_pcb) (auto simp: pcb_ok_def std_ok_def set_in_use_def)
  moreover have "keeps ?k (fst (jt_close f ?k))" for f
    by (auto simp: jt_close_def intro!: keeps_same split: fileops.splits prod.splits)
  ultimately show ?thesis using False by (auto simp: sys_close_def Let_def intro: keeps_trans)
qed (simp add: close_fail)

lemma close_all_keeps [inv_intros]: "keeps k (close_all n k)"
  by (induction n) (auto intro: keeps_trans close_keeps)

lemma fs_read_descriptor:
  "fs_read fs m (Some f) buf nbytes = (fs', m', f', r) \<Longrightarrow> jumptable (the f') = jumptable f \<and> flags (the f') = flags f"
  by (auto simp: fs_read_def file_read_def Let_def split: if_splits prod.splits)

lemma with_mem_keeps [inv_intros]: "keeps k (with_mem vm k)"
  by (rule keeps_same) simp_all

lemma jt_read_keeps:
  assumes "jt_read n i buf nbytes k = Some (k', r)"
  shows "keeps k k'"
proof (cases "jumptable (fd_array (cur k) i)")
  case Fs_jumptable
  obtain fs m f v where e: "fs_read (k_fs k) (kview k) (Some (fd_array (cur k) i)) buf nbytes = (fs, m, f, v)"
    by (rule prod_cases4)
  note fd = fs_read_descriptor[OF e]
  have "k' = upd_pcb (CPID k) (upd_fd i (\<lambda>_. the f)) (with_mem m (k\<lparr> k_fs := fs \<rparr>))"
    using assms Fs_jumptable e by (simp add: jt_read_def)
  moreover have "keeps k (with_mem m (k\<lparr> k_fs := fs \<rparr>))" by (rule keeps_same) simp_all
  moreover have "keeps (with_mem m (k\<lparr> k_fs := fs \<rparr>)) (upd_pcb (CPID k) (upd_fd i (\<lambda>_. the f)) (with_mem m (k\<lparr> k_fs := fs \<rparr>)))"
    using fd by (intro keeps_upd_pcb) (auto simp: pcb_ok_def std_ok_def)
  ultimately show ?thesis using keeps_trans by blast
qed (use assms in \<open>auto simp: jt_read_def intro!: keeps_same split: option.splits\<close>)

lemma read_keeps: "sys_read n fd buf nbytes k = Some (k', r) \<Longrightarrow> keeps k k'"
  by (auto simp: sys_read_def split: if_splits dest: jt_read_keeps)

lemma with_con_sel [simp, frame_simps]:
  "CPID (with_con cm k) = CPID k" "processes (with_con cm k) = processes k" "active_processes (with_con cm k) = active_processes k"
  "k_con (with_con cm k) = fst cm" "needs_to_be_halted (with_con cm k) = needs_to_be_halted k"
  by (simp_all add: with_con_def)

lemma with_pic_sel [simp, frame_simps]:
  "CPID (with_pic f k) = CPID k" "processes (with_pic f k) = processes k" "active_processes (with_pic f k) = active_processes k"
  "k_con (with_pic f k) = k_con k" "k_mem (with_pic f k) = k_mem k" "k_mmu (with_pic f k) = k_mmu k" "k_fs (with_pic f k) = k_fs k"
  "k_kbd (with_pic f k) = k_kbd k" "needs_to_be_halted (with_pic f k) = needs_to_be_halted k" "tss_esp0 (with_pic f k) = tss_esp0 k"
  by (simp_all add: with_pic_def)

lemma write_keeps [inv_intros]: "keeps k (fst (sys_write fd buf nbytes k))"
  by (auto simp: sys_write_def jt_write_def intro!: keeps_same split: fileops.splits prod.splits)

lemma getargs_keeps [inv_intros]: "keeps k (fst (getargs buf nbytes k))"
  by (auto simp: getargs_def Let_def intro!: keeps_same)

lemma map_video_keeps [inv_intros]: "keeps k (fst (map_video ly pid k))"
  by (auto simp: map_video_def Let_def intro!: keeps_same split: prod.splits)

lemma vidmap_keeps [inv_intros]: "keeps k (fst (vidmap ly a k))"
proof -
  let ?k = "upd_pcb (CPID k) (\<lambda>p. p\<lparr> using_video_mem := True \<rparr>) k"
  have "keeps k ?k" by (intro keeps_upd_pcb) (auto simp: tab_def pcb_ok_def std_ok_def)
  then have "keeps k (fst (map_video ly (CPID k) ?k))" by (rule keeps_trans) (rule map_video_keeps)
  then show ?thesis
    by (auto simp: vidmap_def Let_def split: prod.splits intro: keeps_trans with_mem_keeps)
qed

section \<open>Pushing and popping\<close>

lemma chain_other:
  "p \<notin> set xs \<Longrightarrow> (\<And>q. q \<noteq> p \<Longrightarrow> PPID (ps' q) = PPID (ps q)) \<Longrightarrow> chain ps' xs = chain ps xs"
  by (rule chain_cong) metis

lemma push_table:
  assumes "table_inv k st" and "pcb_search (processes k) 0 = Some pid" and "u < 3"
    and "active_processes k' = (active_processes k)(u := pid)" and "tab (processes k' pid) = (True, top_of (st u), u, pid)"
    and "\<And>p. p \<noteq> pid \<Longrightarrow> tab (processes k' p) = tab (processes k p)" and "\<And>p. pcb_ok p (processes k' p)"
  shows "table_inv k' (st(u := pid # st u))" and "0 < pid" and "pid \<le> MAX_PROCESSES"
proof -
  have pid: "pid < 7" "\<not> running (processes k pid)" using assms(2) by (auto simp: pcbs.search_Some)
  show p0: "0 < pid" using pid(2) assms(1) by (cases pid) (auto simp: table_inv_def)
  show p6: "pid \<le> MAX_PROCESSES" using pid(1) by simp
  have new: "running (processes k' pid)" "PPID (processes k' pid) = top_of (st u)" "terminal (processes k' pid) = u"
    using assms(5) by (auto simp: tab_def)
  have old: "running (processes k' p) = running (processes k p)" "PPID (processes k' p) = PPID (processes k p)"
    "terminal (processes k' p) = terminal (processes k p)" if "p \<noteq> pid" for p
    using assms(6)[OF that] by (auto simp: tab_eq)
  have on: "on_terminal (processes k') v = (if v = u then insert pid (on_terminal (processes k) u) else on_terminal (processes k) v)" for v
    using new old pid p0 p6 by (auto simp: on_terminal_def) metis+
  have nin: "pid \<notin> set (st v)" if "v < 3" for v using assms(1) pid(2) that by (auto simp: table_inv_def on_terminal_def)
  have ch: "chain (processes k') (st v) = chain (processes k) (st v)" if "v < 3" for v
    by (rule chain_other[OF nin[OF that]]) (rule old)
  show "table_inv k' (st(u := pid # st u))"
    using assms(1,3,4,7) new on nin ch p0 old(1)[of 0] by (auto simp: table_inv_def top_of_def split: list.splits)
qed

lemma pop_table:
  assumes "table_inv k st" and "u < 3" and "st u = p # xs"
    and "active_processes k' = (active_processes k)(u := top_of xs)" and "\<not> running (processes k' p)"
    and "\<And>q. q \<noteq> p \<Longrightarrow> tab (processes k' q) = tab (processes k q)" and "\<And>q. pcb_ok q (processes k' q)"
  shows "table_inv k' (st(u := xs))"
proof -
  have set: "set (st v) = on_terminal (processes k) v" and ds: "distinct (st v)" and ch: "chain (processes k) (st v)" if "v < 3" for v
    using assms(1) that by (auto simp: table_inv_def)
  have pu: "p \<in> on_terminal (processes k) u" using set[OF assms(2)] assms(3) by auto
  then have p0: "p \<noteq> 0" and tp: "terminal (processes k p) = u" by (auto simp: on_terminal_def)
  have old: "running (processes k' q) = running (processes k q)" "PPID (processes k' q) = PPID (processes k q)"
    "terminal (processes k' q) = terminal (processes k q)" if "q \<noteq> p" for q
    using assms(6)[OF that] by (auto simp: tab_eq)
  have on: "on_terminal (processes k') v = on_terminal (processes k) v - {p}" for v
    using old assms(5) by (auto simp: on_terminal_def) metis+
  have nin: "p \<notin> set (st v)" if "v < 3" "v \<noteq> u" for v using set[OF that(1)] tp that(2) by (auto simp: on_terminal_def)
  have px: "p \<notin> set xs" using ds[OF assms(2)] assms(3) by simp
  have cx: "chain (processes k') xs"
    using ch[OF assms(2)] assms(3) chain_other[OF px, of "processes k'" "processes k", OF old(2)] by simp
  have "chain (processes k') (st v)" if "v < 3" "v \<noteq> u" for v
    using ch[OF that(1)] chain_other[OF nin[OF that], of "processes k'" "processes k", OF old(2)] by simp
  moreover have "on_terminal (processes k') v = on_terminal (processes k) v" if "v < 3" "v \<noteq> u" for v
    using on nin[OF that] set[OF that(1)] by auto
  moreover have "set xs = on_terminal (processes k') u" using on px set[OF assms(2)] assms(3) by auto
  ultimately show ?thesis
    using assms(1,2,3,4,7) cx old(1)[of 0] p0 ds ds[OF assms(2)] by (auto simp: table_inv_def)
qed

section \<open>The operations as pushes and pops\<close>

lemma init_fds_array: "fd_array (init_fds n p) i = (if i < n then set_in_use (i = 0 \<or> i = 1) (fd_array p i) else fd_array p i)"
  by (induction n) (auto simp: less_Suc_eq)

lemma init_fds_sel [simp]:
  "args (init_fds n p) = args p" "running (init_fds n p) = running p" "terminal (init_fds n p) = terminal p" "PPID (init_fds n p) = PPID p"
  "PID (init_fds n p) = PID p" "args_size (init_fds n p) = args_size p" "esp_execute (init_fds n p) = esp_execute p" "ebp_execute (init_fds n p) = ebp_execute p"
  by (induction n) simp_all

lemma std_fds_sel [simp]:
  "args (std_fds p) = args p" "running (std_fds p) = running p" "terminal (std_fds p) = terminal p" "PPID (std_fds p) = PPID p"
  "PID (std_fds p) = PID p" "args_size (std_fds p) = args_size p" "esp_execute (std_fds p) = esp_execute p" "ebp_execute (std_fds p) = ebp_execute p"
  by (simp_all add: std_fds_def)

text \<open>A new PCB has exactly the two standard descriptors.\<close>

lemma std_ok_new:
  assumes "fd_array b = fd_array (std_fds b')" and "fd_array b' = fd_array (init_fds MAX_FD b'')"
  shows "std_ok b"
proof -
  have "fd_array b = (fd_array b')(0 := (fd_array b' 0)\<lparr> jumptable := Stdin_jumptable \<rparr>, 1 := (fd_array b' 1)\<lparr> jumptable := Stdout_jumptable \<rparr>)"
    using assms(1) by (simp add: std_fds_def upd_fd_def fun_eq_iff)
  then show ?thesis unfolding std_ok_def assms(2) by (auto simp: init_fds_array set_in_use_def)
qed

lemma table_invD:
  assumes "table_inv k st"
  shows "u < 3 \<Longrightarrow> chain (processes k) (st u)" "u < 3 \<Longrightarrow> distinct (st u)" "u < 3 \<Longrightarrow> set (st u) = on_terminal (processes k) u"
    "u < 3 \<Longrightarrow> active_processes k u = top_of (st u)" "pcb_ok p (processes k p)" "running (processes k 0)"
  using assms by (auto simp: table_inv_def)

lemma pcb_ok_upd:
  "pcb_ok p (b\<lparr> active := x \<rparr>) = pcb_ok p b" "pcb_ok p b \<Longrightarrow> pcb_ok p (b\<lparr> running := False, active := x \<rparr>)"
  "pcb_ok p b \<Longrightarrow> pcb_ok p (b\<lparr> active := x, args := (args b)[i := y], args_size := 0 \<rparr>)"
  by (auto simp: pcb_ok_def std_ok_def)

lemma free_pid: "table_inv k st \<Longrightarrow> pcb_search (processes k) 0 = Some pid \<Longrightarrow> \<not> running (processes k pid) \<and> 0 < pid"
  using table_invD(6)[of k st] by (cases pid) (auto simp: pcbs.search_Some)

lemma terminal_of_top:
  assumes "table_inv k st" and "t < 3" and "st t \<noteq> []"
  shows "terminal (processes k (top_of (st t))) = t" and "0 < top_of (st t)" and "top_of (st t) \<le> MAX_PROCESSES"
    and "running (processes k (top_of (st t)))"
proof -
  have "top_of (st t) \<in> on_terminal (processes k) t"
    using table_invD(3)[OF assms(1,2)] assms(3) by (cases "st t") (auto simp: top_of_def)
  then show "terminal (processes k (top_of (st t))) = t" "0 < top_of (st t)" "top_of (st t) \<le> MAX_PROCESSES"
    "running (processes k (top_of (st t)))" by (auto simp: on_terminal_def)
qed

lemma setup_child_push:
  assumes "proc_inv k st t" and "pcb_search (processes k) 0 = Some pid" and "length ar \<le> 128"
  shows "proc_inv (setup_child ar pid k) (st(t := pid # st t)) t" and "CPID (setup_child ar pid k) = pid"
proof -
  let ?k = "setup_child ar pid k" and ?c = "CPID k"
  have inv: "table_inv k st" and t: "t < 3" "st t \<noteq> []" and c: "?c = top_of (st t)" and s0: "st 0 \<noteq> []"
    using assms(1) by (auto simp: proc_inv_def)
  note tt = terminal_of_top[OF inv t]
  have ne: "pid \<noteq> ?c" using free_pid[OF inv assms(2)] tt(4) c by auto
  have ok: "pcb_ok p (processes k p)" for p by (rule table_invD(5)[OF inv])
  show cp: "CPID ?k = pid" by (simp add: setup_child_def Let_def)
  have new: "processes ?k pid = (std_fds ((init_fds 8 (processes k pid))\<lparr> PID := pid, PPID := ?c, running := True \<rparr>))
      \<lparr> args := (ar @ drop (length ar) (args (processes k pid)))[length ar := 0], args_size := of_nat (length ar),
        active := True, terminal := t, using_video_mem := False \<rparr>"
    using ne tt(1) c by (simp add: setup_child_def Let_def)
  have old: "processes ?k ?c = (cur k)\<lparr> active := False \<rparr>" using ne by (simp add: setup_child_def Let_def)
  have oth: "processes ?k p = processes k p" if "p \<noteq> pid" "p \<noteq> ?c" for p using that by (simp add: setup_child_def Let_def)
  have ap: "active_processes ?k = (active_processes k)(t := pid)" using ne tt(1) c by (simp add: setup_child_def Let_def)
  have "std_ok (processes ?k pid)"
    by (rule std_ok_new[where b' = "(init_fds 8 (processes k pid))\<lparr> PID := pid, PPID := ?c, running := True \<rparr>" and b'' = "processes k pid"])
      (simp_all add: new)
  moreover have "length (args (processes k pid)) = 128" using ok[of pid] by (simp add: pcb_ok_def)
  moreover have "unat (of_nat (length ar) :: u32) = length ar" using assms(3) by (intro unat_of_nat_32) simp
  ultimately have "pcb_ok pid (processes ?k pid)" using assms(3) t(1) unfolding pcb_ok_def by (simp add: new)
  moreover have "pcb_ok p (processes ?k p)" if "p \<noteq> pid" for p
    using ok[of p] old oth[OF that] by (cases "p = ?c") (simp_all add: pcb_ok_upd)
  ultimately have okp: "pcb_ok p (processes ?k p)" for p by (cases "p = pid") simp_all
  have "tab (processes ?k pid) = (True, top_of (st t), t, pid)" by (simp add: tab_def new c)
  moreover have "tab (processes ?k p) = tab (processes k p)" if "p \<noteq> pid" for p
    using old oth[OF that] by (cases "p = ?c") (auto simp: tab_def)
  ultimately have "table_inv ?k (st(t := pid # st t))"
    by (intro push_table(1)[OF inv assms(2) t(1) ap _ _ okp]) auto
  then show "proc_inv ?k (st(t := pid # st t)) t" using t s0 cp by (simp add: proc_inv_def top_of_def)
qed

lemma setup_shell_push:
  assumes "table_inv k st" and "pcb_search (processes k) 0 = Some pid" and "t < 3" and "st t = []" and "t = 0 \<or> st 0 \<noteq> []"
  shows "proc_inv (setup_shell t pid k) (st(t := [pid])) t" and "CPID (setup_shell t pid k) = pid"
proof -
  let ?k = "setup_shell t pid k"
  have ne: "pid \<noteq> 0" using free_pid[OF assms(1,2)] by simp
  have ok: "pcb_ok p (processes k p)" for p by (rule table_invD(5)[OF assms(1)])
  show cp: "CPID ?k = pid" by (simp add: setup_shell_def Let_def)
  have new: "processes ?k pid = (std_fds ((init_fds 8 (processes k pid))\<lparr> PID := pid, PPID := 0, running := True \<rparr>))
      \<lparr> args := (args (processes k pid))[0 := 0], args_size := 0, active := True, terminal := t, using_video_mem := False \<rparr>"
    using ne by (simp add: setup_shell_def Let_def)
  have old: "processes ?k 0 = (processes k 0)\<lparr> active := False \<rparr>" using ne by (simp add: setup_shell_def Let_def)
  have oth: "processes ?k p = processes k p" if "p \<noteq> pid" "p \<noteq> 0" for p using that by (simp add: setup_shell_def Let_def)
  have ap: "active_processes ?k = (active_processes k)(t := pid)" using ne by (simp add: setup_shell_def Let_def)
  have "std_ok (processes ?k pid)"
    by (rule std_ok_new[where b' = "(init_fds 8 (processes k pid))\<lparr> PID := pid, PPID := 0, running := True \<rparr>" and b'' = "processes k pid"])
      (simp_all add: new)
  then have "pcb_ok pid (processes ?k pid)" using assms(3) ok[of pid] unfolding pcb_ok_def by (simp add: new)
  moreover have "pcb_ok p (processes ?k p)" if "p \<noteq> pid" for p
    using ok[of p] old oth[OF that] by (cases "p = 0") (simp_all add: pcb_ok_upd)
  ultimately have okp: "pcb_ok p (processes ?k p)" for p by (cases "p = pid") simp_all
  have "tab (processes ?k pid) = (True, top_of (st t), t, pid)" by (simp add: tab_def new assms(4) top_of_def)
  moreover have "tab (processes ?k p) = tab (processes k p)" if "p \<noteq> pid" for p
    using old oth[OF that] by (cases "p = 0") (auto simp: tab_def)
  ultimately have "table_inv ?k (st(t := pid # st t))"
    by (intro push_table(1)[OF assms(1,2,3) ap _ _ okp]) auto
  then show "proc_inv ?k (st(t := [pid])) t" using assms(3-5) cp by (auto simp: proc_inv_def top_of_def)
qed

lemma end_process_pop:
  assumes "proc_inv k st t"
  shows "table_inv (end_process k) (st(t := tl (st t)))" and "CPID (end_process k) = top_of (tl (st t))"
    and "terminal (cur k) = t"
proof -
  have inv: "table_inv k st" and t: "t < 3" and c: "CPID k = top_of (st t)" and ne: "st t \<noteq> []"
    using assms by (auto simp: proc_inv_def)
  then obtain xs where st: "st t = CPID k # xs" by (cases "st t") (auto simp: top_of_def)
  note tt = terminal_of_top[OF inv t ne]
  show tc: "terminal (cur k) = t" using tt(1) c by simp
  let ?k1 = "close_all MAX_FD (with_pic cli k)" and ?p = "CPID k"
  have "keeps (with_pic cli k) ?k1" by (rule close_all_keeps)
  then have kp: "keeps k ?k1" by (rule keeps_trans[rotated]) (rule keeps_same, simp_all)
  have inv1: "table_inv ?k1 st" by (rule table_inv_keeps[OF kp inv])
  have c1: "CPID ?k1 = ?p" using kp by (simp add: keeps_def)
  have tc1: "terminal (processes ?k1 ?p) = t" using kp tc by (auto simp: keeps_def tab_eq)
  have chp: "PPID (processes ?k1 ?p) = top_of xs" "?p \<notin> set xs" "set (st t) = on_terminal (processes ?k1) t"
    using table_invD(1-3)[OF inv1 t] st by (auto simp: top_of_def)
  have q: "terminal (processes ?k1 (top_of xs)) = t" "top_of xs \<noteq> ?p" if "top_of xs \<noteq> 0"
    using that chp(2,3) st by (cases xs; auto simp: top_of_def on_terminal_def)+
  have p0: "?p \<noteq> 0" using tt(2) c by simp
  show "CPID (end_process k) = top_of (tl (st t))"
    using c1 chp(1) st by (simp add: end_process_def Let_def)
  have ap: "active_processes (end_process k) = (active_processes ?k1)(t := top_of xs)"
    using c1 tc1 chp(1) q by (cases "top_of xs = 0") (auto simp: end_process_def Let_def)
  have pr: "processes (end_process k) = (processes ?k1)(?p := (processes ?k1 ?p)\<lparr> running := False, active := False \<rparr>,
      top_of xs := (processes ?k1 (top_of xs))\<lparr> active := True, args := (args (processes ?k1 (top_of xs)))[0 := 0], args_size := 0 \<rparr>)"
    using c1 tc1 chp(1) q p0 by (cases "top_of xs = 0") (simp_all add: end_process_def Let_def)
  have nex: "top_of xs \<noteq> ?p" using q(2) p0 by (cases "top_of xs = 0") auto
  have ok1: "pcb_ok r (processes ?k1 r)" for r by (rule table_invD(5)[OF inv1])
  have "table_inv (end_process k) (st(t := xs))"
    by (rule pop_table[OF inv1 t st ap]) (use nex ok1 in \<open>auto simp: pr tab_def intro: pcb_ok_upd\<close>)
  then show "table_inv (end_process k) (st(t := tl (st t)))" by (simp add: st)
qed

section \<open>The abstract scheduler\<close>

text \<open>The lowest PID on no stack, and the next terminal in cyclic order that has processes.\<close>

definition a_free :: "stacks \<Rightarrow> nat option" where
  "a_free st = List.find (\<lambda>p. p \<notin> set (st 0) \<union> set (st 1) \<union> set (st 2)) [1..<MAX_PROCESSES + 1]"

definition next_terminal :: "stacks \<Rightarrow> nat \<Rightarrow> nat" where
  "next_terminal st t = (if st ((t + 1) mod 3) \<noteq> [] then (t + 1) mod 3 else if st ((t + 2) mod 3) \<noteq> [] then (t + 2) mod 3 else t)"

inductive astep :: "stacks \<times> nat \<Rightarrow> stacks \<times> nat \<Rightarrow> bool" where
  stay: "astep (st, t) (st, t)"
| push: "a_free st = Some p \<Longrightarrow> astep (st, t) (st(t := p # st t), t)"
| pop: "st t = p # q # xs \<Longrightarrow> astep (st, t) (st(t := q # xs), t)"
| restart: "st t = [p] \<Longrightarrow> a_free (st(t := [])) = Some q \<Longrightarrow> astep (st, t) (st(t := [q]), t)"
| new_shell: "u < 3 \<Longrightarrow> st u = [] \<Longrightarrow> a_free st = Some q \<Longrightarrow> astep (st, t) (st(u := [q]), u)"
| switch: "astep (st, t) (st, next_terminal st t)"

lemma less_3: "(\<forall>u < (3 :: nat). P u) \<longleftrightarrow> P 0 \<and> P 1 \<and> P 2"
  by (auto simp: numeral_3_eq_3 less_Suc_eq numeral_2_eq_2)

lemma running_iff:
  assumes "table_inv k st" and "0 < p" and "p \<le> MAX_PROCESSES"
  shows "running (processes k p) \<longleftrightarrow> p \<in> set (st 0) \<union> set (st 1) \<union> set (st 2)"
proof -
  have "terminal (processes k p) < 3" if "running (processes k p)"
    using table_invD(5)[OF assms(1), of p] that assms(2,3) by (simp add: pcb_ok_def)
  then have "running (processes k p) \<longleftrightarrow> (\<exists>u < 3. p \<in> on_terminal (processes k) u)"
    using assms(2,3) by (auto simp: on_terminal_def)
  also have "\<dots> \<longleftrightarrow> (\<exists>u < 3. p \<in> set (st u))" using table_invD(3)[OF assms(1)] by blast
  also have "\<dots> \<longleftrightarrow> p \<in> set (st 0) \<union> set (st 1) \<union> set (st 2)" using less_3[of "\<lambda>u. p \<notin> set (st u)"] by blast
  finally show ?thesis .
qed

lemma pcb_search_free: "table_inv k st \<Longrightarrow> pcb_search (processes k) 0 = a_free st"
proof -
  assume inv: "table_inv k st"
  have "List.find (\<lambda>p. \<not> running (processes k p)) [1..<7] = a_free st"
    unfolding a_free_def by (rule find_cong) (use running_iff[OF inv] in auto)
  moreover have "[0..<7] = 0 # [1..<7]" by (simp add: upt_rec)
  ultimately show ?thesis
    using pcbs.search_find[of 0 "processes k"] table_invD(6)[OF inv] by simp
qed

lemma a_free_pop: "table_inv k st \<Longrightarrow> t < 3 \<Longrightarrow> st t = p # xs \<Longrightarrow> \<exists>q. a_free (st(t := xs)) = Some q"
proof -
  assume inv: "table_inv k st" and t: "t < 3" and st: "st t = p # xs"
  have on: "set (st u) = on_terminal (processes k) u" "distinct (st u)" if "u < 3" for u using table_invD(2,3)[OF inv that] by auto
  have p: "0 < p" "p \<le> 6" "terminal (processes k p) = t" using on(1)[OF t] st by (auto simp: on_terminal_def)
  have "p \<notin> set ((st(t := xs)) u)" if "u < 3" for u
    using on[OF that] on(2)[OF t] st p(3) by (cases "u = t") (auto simp: on_terminal_def)
  then have "p \<notin> set ((st(t := xs)) 0) \<union> set ((st(t := xs)) 1) \<union> set ((st(t := xs)) 2)"
    using less_3[of "\<lambda>u. p \<notin> set ((st(t := xs)) u)"] by blast
  moreover have "p \<in> set [1..<MAX_PROCESSES + 1]" using p by simp
  ultimately have "a_free (st(t := xs)) \<noteq> None" unfolding a_free_def find_None_iff by blast
  then show ?thesis by blast
qed

subsection \<open>execute and halt\<close>

lemma load_program_keeps:
  assumes "\<And>k. keeps k (save k)"
  shows "keeps k (fst (load_program ly fname save k))"
proof -
  obtain m c where e: "new_page_directory (l_syms ly) (k_mem k) (k_mmu k) (of_nat (CPID k)) = (m, c)" by fastforce
  obtain vm r where f: "fs_copy (k_fs k) (vview m c) (l_data ly) fname EXE_ENTRY_POINT = (vm, r)" by fastforce
  let ?k = "with_mem vm (k\<lparr> k_mem := m, k_mmu := c \<rparr>)"
  have k: "keeps k ?k" by (rule keeps_same) simp_all
  have "keeps k' (with_pic cli ((save k')\<lparr> tss_ss0 := a, tss_esp0 := b \<rparr>))" for k' a b
    by (rule keeps_trans[OF assms]) (rule keeps_same, simp_all)
  then show ?thesis using k by (auto simp: load_program_def e f Let_def intro: keeps_trans)
qed

lemma save_execute_keeps [inv_intros]: "keeps k (save_execute p esp ebp k)"
  unfolding save_execute_def by (rule keeps_upd_pcb) (auto simp: tab_def pcb_ok_def std_ok_def)

lemma execute_base_shell_push:
  assumes "table_inv k st" and "a_free st = Some q" and "t < 3" and "st t = []" and "t = 0 \<or> st 0 \<noteq> []"
  shows "proc_inv (fst (execute_base_shell ly t k)) (st(t := [q])) t"
proof -
  obtain kb c where ti: "terminal_init t (k_kbd k) (k_con k) = (kb, c)" by fastforce
  let ?k = "(with_pic cli k)\<lparr> k_kbd := kb, k_con := c \<rparr>"
  have inv: "table_inv ?k st" by (rule table_inv_keeps[OF _ assms(1)]) (rule keeps_same, simp_all)
  then have s: "pcb_search (processes ?k) 0 = Some q" using pcb_search_free assms(2) by metis
  have "fst (execute_base_shell ly t k) = fst (load_program ly (l_shell ly) (\<lambda>k. k) (setup_shell t q ?k))"
    using s by (simp add: execute_base_shell_def ti Let_def)
  then show ?thesis
    using proc_inv_keeps[OF load_program_keeps setup_shell_push(1)[OF inv s assms(3-5)]] by simp
qed

lemma halt_step:
  assumes "proc_inv k st t" and "halt_process ly v k = Some (k', out)"
  shows "\<exists>st' t'. astep (st, t) (st', t') \<and> proc_inv k' st' t'"
proof -
  let ?e = "end_process k"
  let ?k = "?e\<lparr> k_mmu := swap_pages (l_syms ly) (k_mmu ?e) (of_nat (CPID ?e)) \<rparr>"
  have inv: "table_inv k st" and t: "t < 3" "st t \<noteq> []" and s0: "st 0 \<noteq> []" using assms(1) by (auto simp: proc_inv_def)
  note pop = end_process_pop[OF assms(1)]
  have tb: "table_inv ?k (st(t := tl (st t)))" by (rule table_inv_keeps[OF _ pop(1)]) (rule keeps_same, simp_all)
  obtain p xs where st: "st t = p # xs" using t(2) by (cases "st t") auto
  show ?thesis
  proof (cases xs)
    case Nil
    then have c: "CPID ?e = 0" using pop(2) st by (simp add: top_of_def)
    obtain q where q: "a_free (st(t := [])) = Some q" using a_free_pop[OF inv t(1) st] Nil by auto
    obtain cm w where pr: "printf restart_message [] (k_con ?k) (kview ?k) = Some (cm, w)"
      and k': "k' = fst (execute_base_shell ly t (with_con cm ?k))"
      using assms(2) c pop(3) by (auto simp: halt_process_def Let_def split: option.splits prod.splits outcome.splits)
    have "table_inv (with_con cm ?k) (st(t := []))"
      by (rule table_inv_keeps[of ?k]) (rule keeps_same, use Nil st tb in simp_all)
    then have "proc_inv k' ((st(t := []))(t := [q])) t"
      unfolding k' using q t(1) s0 by (intro execute_base_shell_push) auto
    then show ?thesis using astep.restart[of st t p q] st Nil q by auto
  next
    case (Cons q ys)
    then have c: "CPID ?e = q" "q \<noteq> 0" using pop(2) st table_invD(3)[OF inv t(1)] by (auto simp: top_of_def on_terminal_def)
    then have k': "k' = ?k\<lparr> tss_esp0 := stack_top q \<rparr>" using assms(2) by (auto simp: halt_process_def Let_def)
    have "proc_inv ?k (st(t := q # ys)) t" using tb st Cons t(1) c(1) s0 by (simp add: proc_inv_def top_of_def)
    then have "proc_inv k' (st(t := q # ys)) t" unfolding k' by (rule proc_inv_keeps[rotated]) (rule keeps_same, simp_all)
    then show ?thesis using astep.pop[of st t p q ys] st Cons by auto
  qed
qed

lemma args_loop_length: "length (args_loop room m c i j ar) \<le> length ar + (128 - i - j)"
proof (induction room m c i j ar rule: args_loop.induct)
  case (1 room m c i j ar)
  show ?case
  proof (cases "m (c + of_nat j) \<noteq> 0 \<and> int j < BUFFER_SIZE - int i")
    case True
    let ?ar = "if room then ar @ [m (c + of_nat j)] else ar"
    have "args_loop room m c i j ar = args_loop room m c i (j + 1) ?ar" using True by (subst args_loop.simps) simp
    also have "length \<dots> \<le> length ?ar + (128 - i - (j + 1))" using "1.IH"[OF True] by simp
    also have "\<dots> \<le> length ar + (128 - i - j)" using True by auto
    finally show ?thesis .
  next
    case False
    then show ?thesis by (subst args_loop.simps) auto
  qed
qed

lemma start_process_step:
  assumes "proc_inv k st t" and "length ar \<le> 128"
  shows "\<exists>st' t'. astep (st, t) (st', t') \<and> proc_inv (fst (start_process ly esp ebp ar k)) st' t'"
proof -
  have inv: "table_inv k st" using assms(1) by (simp add: proc_inv_def)
  show ?thesis
  proof (cases "a_free st")
    case None
    then have "start_process ly esp ebp ar k = (k, Ret (-2))" by (simp add: start_process_def pcb_search_free[OF inv])
    then show ?thesis using assms(1) astep.stay by fastforce
  next
    case (Some pid)
    then have s: "pcb_search (processes k) 0 = Some pid" by (simp add: pcb_search_free[OF inv])
    let ?k = "setup_child ar pid k"
    have "proc_inv (fst (load_program ly (l_exename ly) (save_execute (CPID k) esp ebp) ?k)) (st(t := pid # st t)) t"
      by (rule proc_inv_keeps[OF load_program_keeps setup_child_push(1)[OF assms(1) s assms(2)]]) (rule save_execute_keeps)
    then show ?thesis using astep.push[OF Some, of t] s by (auto simp: start_process_def)
  qed
qed

lemma execute_cases:
  assumes "execute ly n esp ebp command k = Some (k', out)"
  shows "keeps k k' \<or> (\<exists>k1 ar. keeps k k1 \<and> length ar \<le> 128 \<and> start_process ly esp ebp ar k1 = (k', out))"
proof -
  let ?k0 = "with_pic cli k"
  have k0: "keeps k ?k0" by (rule keeps_same) simp_all
  obtain vm oi where en: "exe_name command (l_exename ly) 0 (kview ?k0) = (vm, oi)" by fastforce
  consider "command = 0" | "command \<noteq> 0" "oi = None" | i where "command \<noteq> 0" "oi = Some i" by (cases oi) auto
  then show ?thesis
  proof cases
    case 1
    then show ?thesis using assms k0 by (auto simp: execute_def)
  next
    case 2
    then have "k' = with_mem vm ?k0" using assms en by (auto simp: execute_def Let_def)
    then show ?thesis using keeps_trans[OF k0 with_mem_keeps] by simp
  next
    case (3 i)
    let ?k1 = "with_mem (vm(l_exename ly + of_nat i := 0)) ?k0"
    have k1: "keeps k ?k1" by (rule keeps_trans[OF k0 with_mem_keeps])
    obtain i2 where sk: "skip_spaces (kview ?k1) command i = Some i2"
      using assms en 3 by (auto simp: execute_def Let_def split: option.splits)
    define ar where "ar = args_loop (CPID ?k1 < MAX_PROCESSES) (kview ?k1) command i2 i2 []"
    have ar: "length ar \<le> 128" unfolding ar_def using args_loop_length[of _ _ command i2 i2 "[]"] by (rule le_trans) simp
    obtain k2 fd where o: "sys_open (l_exename ly) ?k1 = (k2, fd)" by fastforce
    have k2: "keeps k k2" using keeps_trans[OF k1 open_keeps[of ?k1 "l_exename ly"]] o by simp
    have ex: "(if fd = -1 then Some (k2, Ret (-1)) else case sys_read n fd (l_first_bytes ly) 4 k2 of None \<Rightarrow> None
        | Some (k, r) \<Rightarrow> if r = -1 then Some (k, Ret (-1)) else let (k, r) = sys_close fd k in
            if r = -1 \<and> CPID k \<noteq> 0 then Some (k, Ret (-1))
            else if strncmp ((!) MAGIC_EXE_NUMS) (arr (kview k) (l_first_bytes ly)) 4 \<noteq> 0 then Some (k, Ret (-1))
            else Some (start_process ly esp ebp ar k)) = Some (k', out)"
      using assms en 3 sk o unfolding execute_def Let_def ar_def by simp
    show ?thesis
    proof (cases "fd = -1")
      case True
      then show ?thesis using ex k2 by auto
    next
      case False
      then obtain k3 r where rd: "sys_read n fd (l_first_bytes ly) 4 k2 = Some (k3, r)" using ex by (auto split: option.splits)
      have k3: "keeps k k3" using keeps_trans[OF k2 read_keeps[OF rd]] .
      have k4: "keeps k (fst (sys_close fd k3))" using keeps_trans[OF k3 close_keeps] .
      show ?thesis using ex False rd k3 k4 ar by (auto simp: Let_def split: if_splits prod.splits)
    qed
  qed
qed

lemma execute_step:
  assumes "proc_inv k st t" and "execute ly n esp ebp command k = Some (k', out)"
  shows "\<exists>st' t'. astep (st, t) (st', t') \<and> proc_inv k' st' t'"
  using execute_cases[OF assms(2)]
proof
  assume "keeps k k'"
  then show ?thesis using proc_inv_keeps[OF _ assms(1)] astep.stay by blast
next
  assume "\<exists>k1 ar. keeps k k1 \<and> length ar \<le> 128 \<and> start_process ly esp ebp ar k1 = (k', out)"
  then obtain k1 ar where "keeps k k1" "length ar \<le> 128" "k' = fst (start_process ly esp ebp ar k1)" by (metis fst_conv)
  then show ?thesis using start_process_step[OF proc_inv_keeps[OF _ assms(1)]] by blast
qed

subsection \<open>Task and terminal switches\<close>

lemma next_active_terminal:
  assumes "table_inv k st" and "t < 3" and "st t \<noteq> []"
  shows "\<exists>i. next_active (active_processes k) t = Some i \<and> i mod 3 = next_terminal st t"
proof -
  have z: "active_processes k u = 0 \<longleftrightarrow> st u = []" if "u < 3" for u
    using table_invD(3,4)[OF assms(1) that] by (cases "st u") (auto simp: top_of_def on_terminal_def)
  have m: "Suc t mod 3 < 3" "Suc (Suc t) mod 3 < 3" "Suc (Suc (Suc t)) mod 3 = t" using assms(2) by auto
  have na: "next_active (active_processes k) i =
      (if active_processes k (Suc i mod 3) = 0 then next_active (active_processes k) (Suc i) else Some (Suc i))" for i
    by (subst next_active.simps) (simp add: Let_def)
  have "next_active (active_processes k) t = Some (if st (Suc t mod 3) \<noteq> [] then Suc t else if st (Suc (Suc t) mod 3) \<noteq> [] then Suc (Suc t) else Suc (Suc (Suc t)))"
    using na[of t] na[of "Suc t"] na[of "Suc (Suc t)"] z[OF m(1)] z[OF m(2)] z[OF assms(2)] m(3) assms(3)
    by (cases "st (Suc t mod 3) = []"; cases "st (Suc (Suc t) mod 3) = []") simp_all
  then show ?thesis using m by (simp add: next_terminal_def)
qed

lemma next_terminal_ok: "t < 3 \<Longrightarrow> st t \<noteq> [] \<Longrightarrow> next_terminal st t < 3 \<and> st (next_terminal st t) \<noteq> []"
  by (auto simp: next_terminal_def)

lemma prompt_keeps [inv_intros]: "keeps k (prompt k)"
  by (rule keeps_same) (simp_all add: prompt_def)

lemma k_set_video_context_keeps [inv_intros]: "keeps k (k_set_video_context c k)"
  by (rule keeps_same) (simp_all add: k_set_video_context_def)

lemma video_context_of_keeps [inv_intros]: "keeps k (video_context_of p k)"
  by (simp add: video_context_of_def k_set_video_context_keeps)

text \<open>What \<open>task_switch\<close> does once the next process is chosen.\<close>

lemma switch_context_keeps:
  "keeps k (switch_context ly old a b k)"
proof -
  define k1 where "k1 = video_context_of (CPID k) k"
  define k2 where "k2 = (if using_video_mem (processes k1 old) then fst (map_video ly old k1) else k1)"
  define k3 where "k3 = (if using_video_mem (cur k2) then fst (map_video ly (CPID k2) k2) else k2)"
  have "keeps k k1" "keeps k1 k2" "keeps k2 k3"
    unfolding k1_def k2_def k3_def by (auto intro: video_context_of_keeps map_video_keeps)
  then have k3: "keeps k k3" by (blast intro: keeps_trans)
  have "keeps k3 (upd_pcb old (\<lambda>p. p\<lparr> esp_switch := a, ebp_switch := b \<rparr>) k3)"
    by (rule keeps_upd_pcb) (auto simp: tab_def pcb_ok_def std_ok_def)
  then have "keeps k (upd_pcb old (\<lambda>p. p\<lparr> esp_switch := a, ebp_switch := b \<rparr>) k3)" by (rule keeps_trans[OF k3])
  then show ?thesis unfolding switch_context_def Let_def k1_def[symmetric] k2_def[symmetric] k3_def[symmetric]
    by (rule keeps_trans) (rule keeps_same, simp_all)
qed

lemma task_switch_step:
  assumes "proc_inv k st t" and "task_switch ly esp ebp k = Some (k', out)"
  shows "\<exists>st' t'. astep (st, t) (st', t') \<and> proc_inv k' st' t'"
proof -
  let ?k = "with_pic cli k"
  have inv: "proc_inv ?k st t" by (rule proc_inv_keeps[OF _ assms(1)]) (rule keeps_same, simp_all)
  then have tb: "table_inv ?k st" and t: "t < 3" "st t \<noteq> []" and s0: "st 0 \<noteq> []" and c: "CPID ?k = top_of (st t)" by (auto simp: proc_inv_def)
  have tc: "terminal (cur ?k) = t" using terminal_of_top(1)[OF tb t] c by simp
  show ?thesis
  proof (cases "needs_to_be_halted ?k t")
    case True
    let ?h = "?k\<lparr> needs_to_be_halted := (needs_to_be_halted ?k)(t := False) \<rparr>"
    have "proc_inv ?h st t" by (rule proc_inv_keeps[OF _ inv]) (rule keeps_same, simp_all)
    then have "proc_inv (prompt ?h) st t" by (rule proc_inv_keeps[OF prompt_keeps])
    moreover have "halt_process ly 256 (prompt ?h) = Some (k', out)"
      using assms(2) True tc by (simp add: task_switch_def exception_halt_def Let_def)
    ultimately show ?thesis by (rule halt_step)
  next
    case False
    obtain i where i: "next_active (active_processes ?k) t = Some i" "i mod 3 = next_terminal st t"
      using next_active_terminal[OF tb t] by blast
    note nt = next_terminal_ok[of t st, OF t]
    let ?n = "next_terminal st t"
    let ?k1 = "?k\<lparr> CPID := active_processes ?k ?n \<rparr>"
    have "table_inv ?k1 st" using tb by (simp add: table_inv_def)
    then have k1: "proc_inv ?k1 st ?n" using nt s0 table_invD(4)[OF tb] by (simp add: proc_inv_def)
    have "keeps ?k1 k'"
    proof (cases "active_processes ?k ?n = CPID ?k")
      case True
      then have "k' = ?k1" using assms(2) False i tc by (simp add: task_switch_def Let_def)
      then show ?thesis by simp
    next
      case ne: False
      show ?thesis
        using assms(2) False i tc ne switch_context_keeps[of ?k1 ly "CPID ?k" esp ebp]
        by (simp add: task_switch_def Let_def)
    qed
    then have "proc_inv k' st ?n" by (rule proc_inv_keeps[OF _ k1])
    then show ?thesis using astep.switch[of st t] by blast
  qed
qed

lemma execute_base_shell_out:
  "fst (case execute_base_shell ly u k of (k, Ret _) \<Rightarrow> (k, Ret 0) | r \<Rightarrow> r) = fst (execute_base_shell ly u k)"
  by (auto split: prod.splits outcome.splits)

lemma available_free: "table_inv k st \<Longrightarrow> process_available k \<Longrightarrow> \<exists>q. a_free st = Some q"
proof -
  assume inv: "table_inv k st" and "process_available k"
  then obtain i where "i \<in> set [1..<MAX_PROCESSES + 1]" "\<not> running (processes k i)" by (auto simp: process_available_def list_ex_iff)
  then have "i \<in> set [1..<MAX_PROCESSES + 1]" "i \<notin> set (st 0) \<union> set (st 1) \<union> set (st 2)" using running_iff[OF inv, of i] by auto
  then have "a_free st \<noteq> None" unfolding a_free_def find_None_iff by blast
  then show ?thesis by blast
qed

lemma terminal_switch_step:
  assumes "proc_inv k st t" and "u < 3" and "u = 0 \<or> active_processes k u \<noteq> 0 \<or> process_available k"
  shows "\<exists>st' t'. astep (st, t) (st', t') \<and> proc_inv (fst (terminal_switch ly esp ebp u k)) st' t'"
proof -
  have tb: "table_inv k st" and s0: "st 0 \<noteq> []" using assms(1) by (auto simp: proc_inv_def)
  have z: "active_processes k u = 0 \<longleftrightarrow> st u = []"
    using table_invD(3,4)[OF tb assms(2)] by (cases "st u") (auto simp: top_of_def on_terminal_def)
  let ?k0 = "k\<lparr> k_con := set_cursor 0 ((k_con k)\<lparr> cur_terminal := u \<rparr>) \<rparr>"
  let ?k1 = "with_mem (save_video_context (int (cur_terminal (k_con k))) (kview ?k0)) ?k0"
  have k1: "keeps k ?k1" by (rule keeps_same) simp_all
  consider (same) "u = cur_terminal (k_con k)" | (shell) "u \<noteq> cur_terminal (k_con k)" "active_processes k u = 0"
    | (switch) "u \<noteq> cur_terminal (k_con k)" "active_processes k u \<noteq> 0" by blast
  then show ?thesis
  proof cases
    case same
    then show ?thesis using assms(1) astep.stay by (auto simp: terminal_switch_def)
  next
    case shell
    let ?k2 = "k_set_video_context ACTIVE_CONTEXT ?k1"
    let ?k3 = "upd_pcb (CPID k) (\<lambda>p. p\<lparr> esp_switch := esp, ebp_switch := ebp \<rparr>) (with_mem (clear (k_con ?k2) (kview ?k2)) ?k2)"
    have "keeps (with_mem (clear (k_con ?k2) (kview ?k2)) ?k2) ?k3"
      by (rule keeps_upd_pcb) (auto simp: tab_def pcb_ok_def std_ok_def)
    then have k3: "keeps k ?k3"
      by (rule keeps_trans[OF keeps_trans[OF keeps_trans[OF k1 k_set_video_context_keeps] with_mem_keeps]])
    have c: "CPID ?k2 = CPID k" by (simp add: k_set_video_context_def)
    have k': "fst (terminal_switch ly esp ebp u k) = fst (execute_base_shell ly u ?k3)"
      using shell c unfolding terminal_switch_def Let_def
      by (simp add: execute_base_shell_out del: with_mem_sel) (simp add: k_set_video_context_def)
    obtain q where q: "a_free st = Some q" "st u = []" using assms(3) shell(2) z s0 available_free[OF tb] by auto
    have "proc_inv (fst (execute_base_shell ly u ?k3)) (st(u := [q])) u"
      using table_inv_keeps[OF k3 tb] q assms(2) s0 by (intro execute_base_shell_push) auto
    then show ?thesis using astep.new_shell[OF assms(2) q(2,1), of t] k' by auto
  next
    case switch
    let ?k2 = "with_mem (load_video_context (int u) (kview ?k1)) ?k1"
    have "fst (terminal_switch ly esp ebp u k) = video_context_of (CPID ?k2) ?k2"
      using switch by (simp add: terminal_switch_def Let_def)
    moreover have "keeps k (video_context_of (CPID ?k2) ?k2)"
      by (rule keeps_trans[OF keeps_trans[OF k1 with_mem_keeps] video_context_of_keeps])
    ultimately show ?thesis using proc_inv_keeps[OF _ assms(1)] astep.stay by fastforce
  qed
qed

lemma kbd_done_keeps [inv_intros]: "keeps k (kbd_done k)"
  by (rule keeps_same) (simp_all add: kbd_done_def)

lemma with_kbd_keeps [inv_intros]: "keeps k (with_kbd r k)"
  by (rule keeps_same) (simp_all add: with_kbd_def)

lemma clear_line_keeps [inv_intros]: "keeps k (clear_line k)"
  by (rule keeps_same) (simp_all add: clear_line_def)

lemma kbd_finish_keeps [inv_intros]: "keeps k (kbd_finish k)"
proof -
  let ?k = "k\<lparr> k_con := set_cursor 0 (k_con k) \<rparr>"
  have "keeps k ?k" by (rule keeps_same) simp_all
  then have "keeps k (video_context_of (CPID ?k) ?k)" by (rule keeps_trans) (rule video_context_of_keeps)
  then have "keeps k (kbd_done (video_context_of (CPID ?k) ?k))" by (rule keeps_trans) (rule kbd_done_keeps)
  then show ?thesis unfolding kbd_finish_def Let_def by (rule keeps_trans) (rule keeps_same, simp_all)
qed

lemma kbd_entry_keeps: "keeps k (kbd_entry scancode k)"
proof -
  let ?k1 = "with_pic (\<lambda>p. cli (disable_irq KEYBOARD_IRQ_NUM p)) k"
  let ?k2 = "k_set_video_context ACTIVE_CONTEXT ?k1"
  have "keeps k ?k1" by (rule keeps_same) simp_all
  then have "keeps k ?k2" by (rule keeps_trans) (rule k_set_video_context_keeps)
  then have "keeps k (with_kbd (key_special scancode (k_kbd ?k2) (k_con ?k2) (kview ?k2)) ?k2)"
    by (rule keeps_trans) (rule with_kbd_keeps)
  then show ?thesis unfolding kbd_entry_def Let_def by (rule keeps_trans) (rule keeps_same, simp_all)
qed

lemma keyboard_step:
  assumes "proc_inv k st t" and "keyboardHandler ly esp ebp scancode k = Some (k', out)"
  shows "\<exists>st' t'. astep (st, t) (st', t') \<and> proc_inv k' st' t'"
proof -
  let ?k = "kbd_entry scancode k"
  have inv: "proc_inv ?k st t" by (rule proc_inv_keeps[OF kbd_entry_keeps assms(1)])
  have stay: ?thesis if "keeps ?k k'" using proc_inv_keeps[OF that inv] astep.stay by blast
  have sw: ?thesis if "k' = fst (terminal_switch ly esp ebp u (kbd_done ?k))" "u < 3"
      "u = 0 \<or> active_processes ?k u \<noteq> 0 \<or> process_available ?k" for u
    unfolding that(1) using that(2,3)
    by (intro terminal_switch_step proc_inv_keeps[OF kbd_done_keeps inv])
      (auto simp: kbd_done_def process_available_def)
  let ?p = "clear_line (prompt ?k)"
  have p: "keeps ?k ?p" by (rule keeps_trans[OF prompt_keeps clear_line_keeps])
  have halt: ?thesis if h: "exception_halt ly (kbd_done ?p) = Some (k2, o2)" and k': "keeps k2 k'" for k2 o2
  proof -
    have "proc_inv (kbd_done ?p) st t" by (rule proc_inv_keeps[OF keeps_trans[OF p kbd_done_keeps] inv])
    then show ?thesis using halt_step[of "kbd_done ?p" st t ly 256 k2 o2] h proc_inv_keeps[OF k'] unfolding exception_halt_def by blast
  qed
  have pend: "keeps ?k (kbd_finish (?p\<lparr> needs_to_be_halted := f \<rparr>))" for f
    by (rule keeps_trans[OF keeps_trans[OF p] kbd_finish_keeps]) (rule keeps_same, simp_all)
  note r = assms(2)[unfolded keyboardHandler_def Let_def]
  show ?thesis
  proof (cases "alt_active (k_kbd ?k) \<and> (scancode = F1 \<or> scancode = F2 \<and> (active_processes ?k 1 \<noteq> 0 \<or> process_available ?k) \<or>
      scancode = F3 \<and> (active_processes ?k 2 \<noteq> 0 \<or> process_available ?k))")
    case True
    then consider "scancode = F1" | "scancode = F2" "active_processes ?k 1 \<noteq> 0 \<or> process_available ?k"
      | "scancode = F3" "active_processes ?k 2 \<noteq> 0 \<or> process_available ?k" by blast
    then show ?thesis by cases (use r True sw[of 0] sw[of 1] sw[of 2] in \<open>auto dest: sym\<close>)
  next
    case nf: False
    show ?thesis
    proof (cases "ctrl_active (k_kbd ?k) \<and> scancode = C_KEY")
      case True
      show ?thesis
      proof (cases "CPID ?p = active_processes ?p (cur_terminal (k_con ?p))")
        case act: True
        then obtain k2 o2 where h: "exception_halt ly (kbd_done ?p) = Some (k2, o2)"
          using r nf True by (auto split: option.splits if_splits)
        moreover have "keeps k2 k'" using r nf True act h kbd_finish_keeps by (auto split: outcome.splits if_splits)
        ultimately show ?thesis by (rule halt)
      next
        case False
        then show ?thesis using r nf True pend stay by (auto split: if_splits)
      qed
    next
      case nc: False
      have "keeps ?k k'"
        using r nf nc keeps_trans[OF p kbd_finish_keeps] kbd_finish_keeps[of ?k]
          keeps_trans[OF with_kbd_keeps[of ?k "do_reg scancode (k_kbd ?k) (k_con ?k) (kview ?k)"] kbd_finish_keeps]
        by (auto split: if_splits)
      then show ?thesis by (rule stay)
    qed
  qed
qed

lemma pit_step:
  assumes "proc_inv k st t" and "pitHandler ly esp ebp k = Some (k', out)"
  shows "\<exists>st' t'. astep (st, t) (st', t') \<and> proc_inv k' st' t'"
proof -
  define k1 where "k1 = with_pic (\<lambda>p. enable_irq PIT_IRQ_NUM (send_eoi PIT_IRQ_NUM (set_count COUNT (disable_irq PIT_IRQ_NUM (cli p))))) k"
  have inv: "proc_inv k1 st t" unfolding k1_def by (rule proc_inv_keeps[OF _ assms(1)]) (rule keeps_same, simp_all)
  then have "CPID k1 \<noteq> 0" using terminal_of_top(2)[of k1 st t] by (auto simp: proc_inv_def)
  then obtain k2 o2 where ts: "task_switch ly esp ebp k1 = Some (k2, o2)"
    and k': "k' = k2 \<or> k' = with_pic sti k2"
    using assms(2) unfolding pitHandler_def k1_def[symmetric] by (auto simp: Let_def split: option.splits outcome.splits)
  have "keeps k2 k'" using k' by (auto intro: keeps_same)
  then show ?thesis using task_switch_step[OF inv ts] proc_inv_keeps by blast
qed

lemma syscall_step:
  assumes "proc_inv k st t" and "syscall_wrapper ly n esp ebp eax ebx ecx edx k = Some (k', out)"
  shows "\<exists>st' t'. astep (st, t) (st', t') \<and> proc_inv k' st' t'"
proof -
  have stay: ?thesis if "keeps k k'" using proc_inv_keeps[OF that assms(1)] astep.stay by blast
  show ?thesis
  proof (cases "eax = 1 \<or> eax = 2")
    case True
    then show ?thesis using assms halt_step execute_step by (auto simp: syscall_wrapper_def halt_def split: if_splits)
  next
    case False
    then have "keeps k k'"
      using assms(2) by (auto simp: syscall_wrapper_def ret_val_def split: if_splits
          intro: read_keeps write_keeps open_keeps close_keeps getargs_keeps vidmap_keeps)
    then show ?thesis by (rule stay)
  qed
qed

section \<open>Runs of the whole kernel\<close>

text \<open>One event: a system call, an interrupt, a processor exception, or computation of user
  code, which changes memory only.\<close>

inductive kstep :: "kernel \<Rightarrow> kernel \<Rightarrow> bool" where
  syscall: "syscall_wrapper ly n esp ebp eax ebx ecx edx k = Some (k', out) \<Longrightarrow> kstep k k'"
| pit: "pitHandler ly esp ebp k = Some (k', out) \<Longrightarrow> kstep k k'"
| keyboard: "keyboardHandler ly esp ebp scancode k = Some (k', out) \<Longrightarrow> kstep k k'"
| rtc: "kstep k (k_rtcHandler k)"
| fault: "exception_halt ly k = Some (k', out) \<Longrightarrow> kstep k k'"
| user: "kstep k (k\<lparr> k_mem := m \<rparr>)"

inductive_simps astep_simps: "astep (st, t) (st', t')"

lemma kstep_simulation:
  assumes "kstep k k'" and "proc_inv k st t"
  shows "\<exists>st' t'. astep (st, t) (st', t') \<and> proc_inv k' st' t'"
  using assms
proof (induction rule: kstep.induct)
  case (rtc k)
  have "keeps k (k_rtcHandler k)" by (rule keeps_same) (simp_all add: k_rtcHandler_def split: prod.splits)
  then show ?case using proc_inv_keeps[OF _ rtc] astep.stay by blast
next
  case (user k m)
  have "keeps k (k\<lparr> k_mem := m \<rparr>)" by (rule keeps_same) simp_all
  then show ?case using proc_inv_keeps[OF _ user] astep.stay by blast
qed (use syscall_step pit_step keyboard_step halt_step exception_halt_def in \<open>fastforce+\<close>)

text \<open>C2: every event of the running system is a step of the abstract scheduler on the
  terminals' process stacks: system calls and keys leave the stacks alone, push a new
  process with the lowest free PID, pop the running one, replace a base shell that ended, or
  start the shell of an empty terminal; a timer interrupt moves on to the next terminal with
  processes.  The process control blocks, \<open>active_processes\<close> and \<open>CPID\<close> represent
  the stacks throughout.\<close>

theorem process_stack_simulation:
  assumes "kstep k k'" and "proc_inv k st t"
  shows "\<exists>st' t'. astep (st, t) (st', t') \<and> proc_inv k' st' t'"
  using assms by (rule kstep_simulation)

subsection \<open>The boot state\<close>

definition pcbs_zeroed :: "kernel \<Rightarrow> bool" where
  "pcbs_zeroed k \<longleftrightarrow> CPID k = 0 \<and> (\<forall>p. \<not> running (processes k p) \<and> length (args (processes k p)) = 128)"

lemma syscalls_init_table:
  assumes "pcbs_zeroed k"
  shows "table_inv (syscalls_init k) (\<lambda>_. [])"
proof -
  have z: "CPID k = 0" "\<not> running (processes k p)" "length (args (processes k p)) = 128" for p using assms by (auto simp: pcbs_zeroed_def)
  have ap: "active_processes (syscalls_init k) u = 0" if "u < 3" for u
    using that by (auto simp: syscalls_init_def Let_def numeral_3_eq_3 less_Suc_eq numeral_2_eq_2)
  have p: "running (processes (syscalls_init k) q) = (q = 0)" "length (args (processes (syscalls_init k) q)) = 128" for q
    using z by (auto simp: syscalls_init_def Let_def)
  have "on_terminal (processes (syscalls_init k)) u = {}" for u using p(1) by (auto simp: on_terminal_def)
  moreover have "pcb_ok q (processes (syscalls_init k) q)" for q using p by (auto simp: pcb_ok_def)
  ultimately show ?thesis using ap p(1)[of 0] by (simp add: table_inv_def top_of_def)
qed

lemma chain_parent: "chain ps xs \<Longrightarrow> p \<in> set xs \<Longrightarrow> PPID (ps p) = 0 \<or> PPID (ps p) \<in> set xs"
proof (induction xs)
  case (Cons a xs)
  show ?case
  proof (cases "p = a")
    case True
    then show ?thesis using Cons.prems(1) by (cases xs) simp_all
  next
    case False
    then have "PPID (ps p) = 0 \<or> PPID (ps p) \<in> set xs" using Cons by simp
    then show ?thesis by auto
  qed
qed simp

lemma parent_running:
  assumes "table_inv k st" and "0 < p" and "p \<le> MAX_PROCESSES" and "running (processes k p)"
  shows "PPID (processes k p) = 0 \<or>
    running (processes k (PPID (processes k p))) \<and> terminal (processes k (PPID (processes k p))) = terminal (processes k p)"
proof -
  let ?u = "terminal (processes k p)"
  have u: "?u < 3" using table_invD(5)[OF assms(1), of p] assms(2-4) by (simp add: pcb_ok_def)
  have "p \<in> set (st ?u)" using table_invD(3)[OF assms(1) u] assms(2-4) by (simp add: on_terminal_def)
  then have "PPID (processes k p) = 0 \<or> PPID (processes k p) \<in> on_terminal (processes k) ?u"
    using chain_parent[OF table_invD(1)[OF assms(1) u]] table_invD(3)[OF assms(1) u] by simp
  then show ?thesis unfolding on_terminal_def by blast
qed

lemma a_free_empty: "a_free (\<lambda>_. []) = Some 1"
  by (simp add: a_free_def upt_rec)

lemma boot_table:
  assumes "pcbs_zeroed k" and "keeps (syscalls_init k) k'"
  shows "proc_inv (fst (execute_base_shell ly 0 k')) ((\<lambda>_. [])(0 := [1])) 0"
  by (rule execute_base_shell_push[OF table_inv_keeps[OF assms(2) syscalls_init_table[OF assms(1)]] a_free_empty]) simp_all

lemma run_simulation:
  assumes "kstep\<^sup>*\<^sup>* k k'" and "proc_inv k st t"
  shows "\<exists>st' t'. astep\<^sup>*\<^sup>* (st, t) (st', t') \<and> proc_inv k' st' t'"
  using assms
proof (induction rule: rtranclp_induct)
  case base
  then show ?case by blast
next
  case (step k1 k2)
  then obtain st1 t1 where s: "astep\<^sup>*\<^sup>* (st, t) (st1, t1)" "proc_inv k1 st1 t1" by blast
  then obtain st2 t2 where "astep (st1, t1) (st2, t2)" "proc_inv k2 st2 t2" using kstep_simulation step.hyps(2) by blast
  then show ?case using s(1) rtranclp.rtrancl_into_rtrancl by fast
qed

text \<open>C3: from the boot state on, after any sequence of system calls, interrupts, exceptions
  and user code: \<open>CPID\<close> is a process from 1 to 6 that is running and is the active process
  of its terminal; terminal 0 has an active process; every active process runs on its
  terminal; every running process has its standard descriptors open on the terminal and its
  parent is 0 or a running process of the same terminal.\<close>

theorem reachable_process_table:
  assumes "pcbs_zeroed k0" and "kstep\<^sup>*\<^sup>* (fst (execute_base_shell ly 0 (syscalls_init k0))) k"
  shows "0 < CPID k \<and> CPID k \<le> MAX_PROCESSES \<and> running (cur k) \<and> active_processes k (terminal (cur k)) = CPID k \<and>
    active_processes k 0 \<noteq> 0 \<and>
    (\<forall>u < NUM_TERMINALS. active_processes k u \<noteq> 0 \<longrightarrow> active_processes k u \<le> MAX_PROCESSES \<and>
       running (processes k (active_processes k u)) \<and> terminal (processes k (active_processes k u)) = u) \<and>
    (\<forall>p. 0 < p \<and> p \<le> MAX_PROCESSES \<and> running (processes k p) \<longrightarrow> std_ok (processes k p) \<and> PID (processes k p) = p \<and>
       unat (args_size (processes k p)) \<le> length (args (processes k p)) \<and>
       (PPID (processes k p) = 0 \<or>
        running (processes k (PPID (processes k p))) \<and> terminal (processes k (PPID (processes k p))) = terminal (processes k p)))"
proof -
  obtain st t where inv: "proc_inv k st t"
    using run_simulation[OF assms(2) boot_table[OF assms(1) keeps_refl]] by blast
  then have tb: "table_inv k st" and t: "t < 3" "st t \<noteq> []" and s0: "st 0 \<noteq> []" and c: "CPID k = top_of (st t)"
    by (auto simp: proc_inv_def)
  note tt = terminal_of_top[OF tb]
  have act: "active_processes k u \<le> MAX_PROCESSES \<and> running (processes k (active_processes k u)) \<and>
      terminal (processes k (active_processes k u)) = u" if "u < 3" "active_processes k u \<noteq> 0" for u
    using tt[OF that(1)] that(2) table_invD(4)[OF tb that(1)] by (cases "st u = []") (auto simp: top_of_def)
  have "active_processes k 0 \<noteq> 0" using tt(2)[OF _ s0] table_invD(4)[OF tb, of 0] by simp
  moreover have "active_processes k (terminal (cur k)) = CPID k" using tt(1)[OF t] table_invD(4)[OF tb t(1)] c by simp
  ultimately show ?thesis using tt[OF t] c act table_invD(5)[OF tb] parent_running[OF tb] by (simp add: pcb_ok_def)
qed

section \<open>A concrete system\<close>

lemma demo_inv: "proc_inv demo_k ((\<lambda>_. [])(0 := [1])) 0"
proof -
  have ps: "processes demo_k i = demo_pcb\<lparr> running := i < 2, PID := i \<rparr>" for i by (simp add: demo_k_def)
  have "on_terminal (processes demo_k) u = (if u = 0 then {1} else {})" for u
    by (auto simp: on_terminal_def ps demo_pcb_def)
  moreover have "pcb_ok i (processes demo_k i)" for i
    by (auto simp: pcb_ok_def ps std_ok_def demo_pcb_def demo_file_def)
  ultimately have "table_inv demo_k ((\<lambda>_. [])(0 := [1]))"
    by (simp add: table_inv_def ps top_of_def demo_k_sel) (simp add: demo_pcb_def)
  then show ?thesis by (simp add: proc_inv_def demo_k_sel top_of_def)
qed

lemma demo_free: "pcb_search (processes demo_k) 0 = Some 2"
  by (simp add: pcbs.search_Some demo_k_def demo_pcb_def)

theorem process_stack_simulation_witness:
  "\<exists>st' t'. astep ((\<lambda>_. [])(0 := [1]), 0) (st', t') \<and> proc_inv (k_rtcHandler demo_k) st' t'"
  by (rule process_stack_simulation[OF kstep.rtc demo_inv])

text \<open>A machine as the boot loader leaves it.\<close>

definition demo_boot :: kernel where
  "demo_boot = demo_k\<lparr> CPID := 0, processes := \<lambda>_. demo_pcb\<lparr> running := False \<rparr> \<rparr>"

theorem reachable_process_table_witness:
  "0 < CPID (k_rtcHandler (fst (execute_base_shell demo_ly 0 (syscalls_init demo_boot)))) \<and>
   active_processes (k_rtcHandler (fst (execute_base_shell demo_ly 0 (syscalls_init demo_boot)))) 0 \<noteq> 0"
proof -
  have "pcbs_zeroed demo_boot" by (simp add: pcbs_zeroed_def demo_boot_def demo_pcb_def)
  moreover have "kstep\<^sup>*\<^sup>* (fst (execute_base_shell demo_ly 0 (syscalls_init demo_boot)))
      (k_rtcHandler (fst (execute_base_shell demo_ly 0 (syscalls_init demo_boot))))"
    by (rule r_into_rtranclp) (rule kstep.rtc)
  ultimately show ?thesis using reachable_process_table by blast
qed

end
