(* ===== verification/Scheduling.thy ===== *)
theory Scheduling
  imports Processes
begin

text \<open>
  Scheduling and the life of a process, on top of the process stacks: the timer's round
  robin over the terminals (\<open>task_switch\<close>, \<open>pitHandler\<close>), \<open>execute\<close> and \<open>halt\<close> as
  call and return, the base shell's restart, the kernel stacks, and what \<open>execute\<close> reads
  from its command line.
\<close>

section \<open>Round robin\<close>

lemma needs_frame [simp, frame_simps]:
  "needs_to_be_halted (k_set_video_context c k) = needs_to_be_halted k" "needs_to_be_halted (video_context_of p k) = needs_to_be_halted k"
  "needs_to_be_halted (fst (map_video ly p k)) = needs_to_be_halted k"
  by (auto simp: k_set_video_context_def video_context_of_def map_video_def Let_def split: prod.splits)

lemma cpid_frame [simp, frame_simps]:
  "CPID (k_set_video_context c k) = CPID k" "CPID (video_context_of p k) = CPID k" "CPID (fst (map_video ly p k)) = CPID k"
  by (auto simp: k_set_video_context_def video_context_of_def map_video_def Let_def split: prod.splits)

lemma processes_frame [simp, frame_simps]:
  "processes (k_set_video_context c k) = processes k" "processes (video_context_of p k) = processes k"
  "processes (fst (map_video ly p k)) = processes k"
  by (auto simp: k_set_video_context_def video_context_of_def map_video_def Let_def split: prod.splits)

lemma switch_context_sel:
  "needs_to_be_halted (switch_context ly old a b k) = needs_to_be_halted k" "CPID (switch_context ly old a b k) = CPID k"
  "tss_esp0 (switch_context ly old a b k) = stack_top (CPID k)"
  "cr3 (k_mmu (switch_context ly old a b k)) = tbl_addr (pageDir (l_syms ly)) (of_nat (CPID k))"
  "processes (switch_context ly old a b k) = (processes k)(old := (processes k old)\<lparr> esp_switch := a, ebp_switch := b \<rparr>)"
  by (simp_all add: switch_context_def Let_def swap_pages_def loadPageDir_def)

lemma task_switch_spec:
  assumes "proc_inv k st t" and "\<not> needs_to_be_halted k t"
  defines "u \<equiv> next_terminal st t"
  shows "\<exists>k' out. task_switch ly esp ebp k = Some (k', out) \<and> proc_inv k' st u \<and> needs_to_be_halted k' = needs_to_be_halted k \<and>
    (if u = t then CPID k' = CPID k \<and> out = Ret 0
     else out = Resume_switch (ebp_switch (processes k (top_of (st u)))) (esp_switch (processes k (top_of (st u)))) \<and>
       tss_esp0 k' = stack_top (top_of (st u)) \<and> cr3 (k_mmu k') = tbl_addr (pageDir (l_syms ly)) (of_nat (top_of (st u))) \<and>
       esp_switch (processes k' (CPID k)) = esp \<and> ebp_switch (processes k' (CPID k)) = ebp)"
proof -
  let ?k = "with_pic cli k"
  have inv: "proc_inv ?k st t" by (rule proc_inv_keeps[OF _ assms(1)]) (rule keeps_same, simp_all)
  then have tb: "table_inv ?k st" and t: "t < 3" "st t \<noteq> []" and s0: "st 0 \<noteq> []" and c: "CPID ?k = top_of (st t)" by (auto simp: proc_inv_def)
  have tc: "terminal (cur ?k) = t" using terminal_of_top(1)[OF tb t] c by simp
  obtain i where i: "next_active (active_processes ?k) t = Some i" "i mod 3 = u"
    using next_active_terminal[OF tb t] by (auto simp: u_def)
  have u: "u < 3" "st u \<noteq> []" using next_terminal_ok[of t st, OF t] by (simp_all add: u_def)
  note au = table_invD(4)[OF tb u(1)]
  let ?k1 = "?k\<lparr> CPID := top_of (st u) \<rparr>"
  have "table_inv ?k1 st" using tb by (simp add: table_inv_def)
  then have k1: "proc_inv ?k1 st u" using u s0 by (simp add: proc_inv_def)
  have eq: "top_of (st u) = CPID ?k \<longleftrightarrow> u = t"
    using terminal_of_top(1)[OF tb u] terminal_of_top(1)[OF tb t] c by metis
  have ts: "task_switch ly esp ebp k = (if u = t then Some (?k1, Ret 0)
      else let k' = switch_context ly (CPID ?k) esp ebp ?k1 in Some (k', Resume_switch (ebp_switch (cur k')) (esp_switch (cur k'))))"
    using assms(2) i tc au eq by (simp add: task_switch_def Let_def)
  show ?thesis
  proof (cases "u = t")
    case True
    then show ?thesis using ts k1 eq by (intro exI[of _ ?k1] exI[of _ "Ret 0"]) simp
  next
    case False
    let ?k2 = "switch_context ly (CPID ?k) esp ebp ?k1"
    have "proc_inv ?k2 st u" by (rule proc_inv_keeps[OF switch_context_keeps k1])
    then show ?thesis using ts False eq by (simp add: switch_context_sel)
  qed
qed

text \<open>C17: \<open>task_switch\<close> always returns or switches, and gives the processor to the active
  process of the next terminal, in cyclic order, that has one.  When that is the running
  process it returns; otherwise execution continues on the stack that process was switched
  away from, with its page directory and kernel stack installed and the old stack pointers
  saved.\<close>

theorem task_switch_round_robin:
  assumes "proc_inv k st t" and "\<not> needs_to_be_halted k t" and "u = next_terminal st t"
  shows "\<exists>k' out. task_switch ly esp ebp k = Some (k', out) \<and> proc_inv k' st u \<and> needs_to_be_halted k' = needs_to_be_halted k \<and>
    (if u = t then CPID k' = CPID k \<and> out = Ret 0
     else out = Resume_switch (ebp_switch (processes k (top_of (st u)))) (esp_switch (processes k (top_of (st u)))) \<and>
       tss_esp0 k' = stack_top (top_of (st u)) \<and> cr3 (k_mmu k') = tbl_addr (pageDir (l_syms ly)) (of_nat (top_of (st u))) \<and>
       esp_switch (processes k' (CPID k)) = esp \<and> ebp_switch (processes k' (CPID k)) = ebp)"
  unfolding assms(3) by (rule task_switch_spec[OF assms(1,2)])

text \<open>A number of timer interrupts one after the other.\<close>

primrec timer_ticks :: "layout \<Rightarrow> i32 \<Rightarrow> i32 \<Rightarrow> nat \<Rightarrow> kernel \<Rightarrow> kernel option" where
  "timer_ticks ly esp ebp 0 k = Some k"
| "timer_ticks ly esp ebp (Suc n) k =
     (case pitHandler ly esp ebp k of None \<Rightarrow> None | Some (k, out) \<Rightarrow> timer_ticks ly esp ebp n k)"

lemma pit_tick:
  assumes "proc_inv k st t" and "\<forall>u. \<not> needs_to_be_halted k u"
  shows "\<exists>k' out. pitHandler ly esp ebp k = Some (k', out) \<and> proc_inv k' st (next_terminal st t) \<and> (\<forall>u. \<not> needs_to_be_halted k' u)"
proof -
  define k1 where "k1 = with_pic (\<lambda>p. enable_irq PIT_IRQ_NUM (send_eoi PIT_IRQ_NUM (set_count COUNT (disable_irq PIT_IRQ_NUM (cli p))))) k"
  have inv: "proc_inv k1 st t" unfolding k1_def by (rule proc_inv_keeps[OF _ assms(1)]) (rule keeps_same, simp_all)
  then have c: "CPID k1 \<noteq> 0" using terminal_of_top(2)[of k1 st t] by (auto simp: proc_inv_def)
  have "\<not> needs_to_be_halted k1 t" using assms(2) by (simp add: k1_def)
  then obtain k2 out where ts: "task_switch ly esp ebp k1 = Some (k2, out)" and k2: "proc_inv k2 st (next_terminal st t)"
    and nh: "needs_to_be_halted k2 = needs_to_be_halted k1" using task_switch_spec[OF inv] by blast
  let ?k3 = "case out of Ret v \<Rightarrow> with_pic sti k2 | _ \<Rightarrow> k2"
  have "pitHandler ly esp ebp k = Some (?k3, out)"
    using ts c unfolding pitHandler_def k1_def[symmetric] by (simp add: Let_def split: outcome.splits)
  moreover have "keeps k2 ?k3" by (cases out) (auto intro: keeps_same)
  then have "proc_inv ?k3 st (next_terminal st t)" by (rule proc_inv_keeps[OF _ k2])
  moreover have "needs_to_be_halted ?k3 = needs_to_be_halted k" using nh by (cases out) (simp_all add: k1_def)
  ultimately show ?thesis using assms(2) by auto
qed

lemma ticks_terminal:
  assumes "proc_inv k st t" and "\<forall>u. \<not> needs_to_be_halted k u"
  shows "\<exists>k'. timer_ticks ly esp ebp n k = Some k' \<and> proc_inv k' st ((next_terminal st ^^ n) t)"
  using assms
proof (induction n arbitrary: k t)
  case (Suc n)
  then obtain k1 out where "pitHandler ly esp ebp k = Some (k1, out)" "proc_inv k1 st (next_terminal st t)" "\<forall>u. \<not> needs_to_be_halted k1 u"
    using pit_tick by blast
  then show ?case using Suc.IH by (simp add: funpow_swap1)
qed auto

lemma next_terminal_reaches:
  assumes "t < 3" and "u < 3" and "st u \<noteq> []" and "st t \<noteq> []"
  shows "\<exists>n \<le> 2. (next_terminal st ^^ n) t = u"
proof -
  have "t = 0 \<or> t = 1 \<or> t = 2" "u = 0 \<or> u = 1 \<or> u = 2" using assms(1,2) by linarith+
  then have "u = t \<or> u = (t + 1) mod 3 \<or> u = (t + 2) mod 3" by (elim disjE) simp_all
  then consider "u = t" | "u = (t + 1) mod 3" | "u = (t + 2) mod 3" by blast
  then show ?thesis
  proof cases
    case 1
    then show ?thesis by (intro exI[of _ 0]) simp
  next
    case 2
    then show ?thesis using assms(3) by (intro exI[of _ 1]) (simp add: next_terminal_def)
  next
    case 3
    show ?thesis
    proof (cases "st ((t + 1) mod 3) = []")
      case True
      then show ?thesis using 3 assms(3) by (intro exI[of _ 1]) (simp add: next_terminal_def)
    next
      case False
      then have "next_terminal st t = (t + 1) mod 3" by (simp add: next_terminal_def)
      moreover have "((t + 1) mod 3 + 1) mod 3 = u" using 3 by (simp add: mod_simps)
      then have "next_terminal st ((t + 1) mod 3) = u" using assms(3) by (simp add: next_terminal_def)
      ultimately show ?thesis by (intro exI[of _ 2]) (simp add: numeral_2_eq_2)
    qed
  qed
qed

text \<open>C6: the scheduler is fair: while only timer interrupts happen, the active process of
  every terminal that has one gets the processor after at most two of them.\<close>

theorem timer_fairness:
  assumes "proc_inv k st t" and "\<forall>u. \<not> needs_to_be_halted k u" and "u < NUM_TERMINALS" and "active_processes k u \<noteq> 0"
  shows "\<exists>n \<le> 2. \<exists>k'. timer_ticks ly esp ebp n k = Some k' \<and> CPID k' = active_processes k u"
proof -
  have tb: "table_inv k st" and t: "t < 3" "st t \<noteq> []" using assms(1) by (auto simp: proc_inv_def)
  have a: "active_processes k u = top_of (st u)" by (rule table_invD(4)[OF tb assms(3)])
  then have "st u \<noteq> []" using assms(4) by (auto simp: top_of_def)
  then obtain n where n: "n \<le> 2" "(next_terminal st ^^ n) t = u" using next_terminal_reaches[OF t(1) assms(3)] t(2) by blast
  then show ?thesis using ticks_terminal[OF assms(1,2), of ly esp ebp n] a by (auto simp: proc_inv_def)
qed

section \<open>halt\<close>

lemma close_processes:
  "processes (fst (sys_close fd k)) = (if sint fd < 2 \<or> 8 \<le> sint fd \<or> \<not> used_fd (cur k) (nat (sint fd)) then processes k
     else (processes k)(CPID k := upd_fd (nat (sint fd)) (set_in_use False) (cur k)))"
  "CPID (fst (sys_close fd k)) = CPID k"
  by (auto simp: sys_close_def jt_close_def Let_def split: fileops.splits prod.splits)

lemma close_all_processes:
  "n \<le> 8 \<Longrightarrow> CPID (close_all n k) = CPID k \<and>
    esp_execute (processes (close_all n k) q) = esp_execute (processes k q) \<and>
    ebp_execute (processes (close_all n k) q) = ebp_execute (processes k q) \<and>
    (\<forall>i < n. 2 \<le> i \<longrightarrow> \<not> used_fd (processes (close_all n k) (CPID k)) i)"
proof (induction n)
  case (Suc n)
  then have "sint (of_nat n :: i32) = int n" by (intro sint_of_nat_small) simp
  with Suc show ?case by (auto simp: close_processes set_in_use_def less_Suc_eq)
qed simp

lemma end_process_processes:
  assumes "CPID k \<noteq> q"
  shows "esp_execute (processes (end_process k) q) = esp_execute (processes k q)"
    and "ebp_execute (processes (end_process k) q) = ebp_execute (processes k q)"
    and "PPID (cur k) \<noteq> CPID k \<Longrightarrow> 2 \<le> i \<Longrightarrow> i < 8 \<Longrightarrow> \<not> used_fd (processes (end_process k) (CPID k)) i"
proof -
  let ?k = "close_all MAX_FD (with_pic cli k)"
  have c: "CPID ?k = CPID k" "esp_execute (processes ?k r) = esp_execute (processes k r)" "ebp_execute (processes ?k r) = ebp_execute (processes k r)"
    "2 \<le> i \<Longrightarrow> i < 8 \<Longrightarrow> \<not> used_fd (processes ?k (CPID k)) i" for r
    using close_all_processes[of 8 "with_pic cli k" r] by simp_all
  have "keeps (with_pic cli k) ?k" by (rule close_all_keeps)
  then have p: "PPID (processes ?k (CPID k)) = PPID (cur k)" by (auto simp: keeps_def tab_eq)
  show "esp_execute (processes (end_process k) q) = esp_execute (processes k q)"
    "ebp_execute (processes (end_process k) q) = ebp_execute (processes k q)"
    using c p assms by (simp_all add: end_process_def Let_def)
  show "\<not> used_fd (processes (end_process k) (CPID k)) i" if "PPID (cur k) \<noteq> CPID k" "2 \<le> i" "i < 8"
    using c p that by (simp add: end_process_def Let_def)
qed

lemma halt_spec:
  assumes "proc_inv k st t" and "st t = p # q # xs"
  shows "\<exists>k'. halt_process ly v k = Some (k', Resume_execute (ebp_execute (processes k q)) (esp_execute (processes k q)) v) \<and>
    CPID k' = q \<and> proc_inv k' (st(t := q # xs)) t \<and> cr3 (k_mmu k') = tbl_addr (pageDir (l_syms ly)) (of_nat q) \<and>
    tss_esp0 k' = stack_top q \<and> (\<forall>i. 2 \<le> i \<and> i < MAX_FD \<longrightarrow> \<not> used_fd (processes k' p) i)"
proof -
  have inv: "table_inv k st" and t: "t < 3" and c: "CPID k = p" and s0: "st 0 \<noteq> []"
    using assms by (auto simp: proc_inv_def top_of_def)
  have q0: "q \<noteq> 0" "p \<noteq> q" using table_invD(2,3)[OF inv t] assms(2) by (auto simp: on_terminal_def)
  have pp: "PPID (processes k p) = q" using table_invD(1)[OF inv t] assms(2) by simp
  note pop = end_process_pop[OF assms(1)]
  have ce: "CPID (end_process k) = q" using pop(2) assms(2) by (simp add: top_of_def)
  let ?e = "end_process k"
  let ?k = "?e\<lparr> k_mmu := swap_pages (l_syms ly) (k_mmu ?e) (of_nat q), tss_esp0 := stack_top q \<rparr>"
  note ep = end_process_processes[of k q]
  have "halt_process ly v k = Some (?k, Resume_execute (ebp_execute (processes ?e q)) (esp_execute (processes ?e q)) v)"
    using ce q0(1) by (simp add: halt_process_def Let_def)
  then have r: "halt_process ly v k = Some (?k, Resume_execute (ebp_execute (processes k q)) (esp_execute (processes k q)) v)"
    using ep(1,2) c q0(2) by simp
  have "proc_inv ?e (st(t := q # xs)) t" using pop(1) assms(2) t ce s0 by (simp add: proc_inv_def top_of_def)
  then have "proc_inv ?k (st(t := q # xs)) t" by (rule proc_inv_keeps[rotated]) (rule keeps_same, simp_all)
  moreover have "\<forall>i. 2 \<le> i \<and> i < MAX_FD \<longrightarrow> \<not> used_fd (processes ?k p) i"
    using ep(3) pp c q0(2) by simp
  ultimately show ?thesis using r ce by (intro exI[of _ ?k]) (simp add: swap_pages_def loadPageDir_def)
qed

text \<open>When a process that was started by \<open>execute\<close> halts, its descriptors are closed, it
  leaves its terminal's stack, and its parent resumes inside its own \<open>execute\<close>, on the stack
  pointers saved there, with the halt status as the value, and with the parent's page
  directory and kernel stack installed.\<close>

theorem halt_resumes_parent:
  assumes "proc_inv k st t" and "st t = p # q # xs"
  shows "\<exists>k'. halt ly status k = Some (k', Resume_execute (ebp_execute (processes k q)) (esp_execute (processes k q)) (ucast status)) \<and>
    CPID k' = q \<and> proc_inv k' (st(t := q # xs)) t \<and> cr3 (k_mmu k') = tbl_addr (pageDir (l_syms ly)) (of_nat q) \<and>
    tss_esp0 k' = stack_top q \<and> (\<forall>i. 2 \<le> i \<and> i < MAX_FD \<longrightarrow> \<not> used_fd (processes k' p) i)"
  unfolding halt_def by (rule halt_spec[OF assms])

text \<open>A format without conversions is printed.\<close>

lemma printf_plain: "37 \<notin> set s \<Longrightarrow> \<exists>c' m'. printf_loop s [] c m = Some (c', m')"
  by (induction s arbitrary: c m) (auto simp: byte_of_def split: prod.splits)

lemma restart_message_plain: "37 \<notin> set restart_message"
  by (simp add: restart_message_def lit_def byte_of_def)

lemma halt_last:
  assumes "proc_inv k st t" and "st t = [p]"
  shows "\<exists>k' out q. halt_process ly v k = Some (k', out) \<and> a_free (st(t := [])) = Some q \<and> CPID k' = q \<and>
    proc_inv k' (st(t := [q])) t \<and> PPID (cur k') = 0"
proof -
  have inv: "table_inv k st" and t: "t < 3" and s0: "st 0 \<noteq> []" using assms by (auto simp: proc_inv_def)
  obtain q where q: "a_free (st(t := [])) = Some q" using a_free_pop[OF inv t assms(2)] by auto
  note pop = end_process_pop[OF assms(1)]
  let ?e = "end_process k"
  have ce: "CPID ?e = 0" using pop(2) assms(2) by (simp add: top_of_def)
  let ?k = "?e\<lparr> k_mmu := swap_pages (l_syms ly) (k_mmu ?e) 0 \<rparr>"
  obtain c m where "printf_loop restart_message [] (k_con ?k) (kview ?k) = Some (c, m)"
    using printf_plain[OF restart_message_plain] by blast
  then obtain cm w where pr: "printf restart_message [] (k_con ?k) (kview ?k) = Some (cm, w)" by (simp add: printf_def)
  obtain k' o' where sh: "execute_base_shell ly t (with_con cm ?k) = (k', o')" by fastforce
  have h: "halt_process ly v k = Some (k', case o' of Ret _ \<Rightarrow> Ret 0 | _ \<Rightarrow> o')"
    using ce pr sh pop(3) by (simp add: halt_process_def Let_def split: outcome.splits)
  have "table_inv ?k (st(t := []))" by (rule table_inv_keeps[of ?e]) (rule keeps_same, use pop(1) assms(2) in simp_all)
  then have "table_inv (with_con cm ?k) (st(t := []))" by (rule table_inv_keeps[rotated]) (rule keeps_same, simp_all)
  then have "proc_inv (fst (execute_base_shell ly t (with_con cm ?k))) ((st(t := []))(t := [q])) t"
    using q t s0 by (intro execute_base_shell_push) auto
  then have k': "proc_inv k' (st(t := [q])) t" using sh by simp
  then have "CPID k' = q" "table_inv k' (st(t := [q]))" by (simp_all add: proc_inv_def top_of_def)
  then have "PPID (cur k') = 0" using table_invD(1)[of k' "st(t := [q])" t] t by simp
  then show ?thesis using h q k' \<open>CPID k' = q\<close> by blast
qed


section \<open>execute\<close>

lemma load_program_enter:
  assumes "load_program ly fname save k = (k', Enter_user eip)"
  shows "\<exists>k1. keeps k k1 \<and> processes k1 = processes k \<and> k' = with_pic cli ((save k1)\<lparr> tss_ss0 := KERNEL_DS, tss_esp0 := stack_top (CPID (save k1)) \<rparr>)"
proof -
  obtain m c where e: "new_page_directory (l_syms ly) (k_mem k) (k_mmu k) (of_nat (CPID k)) = (m, c)" by fastforce
  obtain vm r where f: "fs_copy (k_fs k) (vview m c) (l_data ly) fname EXE_ENTRY_POINT = (vm, r)" by fastforce
  let ?k = "with_mem vm (k\<lparr> k_mem := m, k_mmu := c \<rparr>)"
  have "keeps k ?k" by (rule keeps_same) simp_all
  then show ?thesis using assms by (intro exI[of _ ?k]) (auto simp: load_program_def e f Let_def split: if_splits)
qed

subsection \<open>The command line\<close>

text \<open>The string at \<open>command\<close> and the array \<open>exename\<close> do not overlap.\<close>

definition apart :: "u32 \<Rightarrow> nat \<Rightarrow> u32 \<Rightarrow> bool" where
  "apart command n exename \<longleftrightarrow> (\<forall>j \<le> n. 33 \<le> unat (command + of_nat j - exename))"

lemma wr_apart: "apart command n e \<Longrightarrow> j \<le> n \<Longrightarrow> length xs \<le> 33 \<Longrightarrow> wr m e xs (command + of_nat j) = m (command + of_nat j)"
  by (fastforce simp: wr_def blit_def apart_def)

lemma exe_name_loop:
  assumes "\<And>j. j < length name \<Longrightarrow> m (command + of_nat j) = name ! j" and "0 \<notin> set name" and "32 \<notin> set name"
    and "m (command + of_nat (length name)) = 0 \<or> m (command + of_nat (length name)) = 32" and "apart command (length name) e"
  shows "i \<le> length name \<Longrightarrow> i \<le> 32 \<Longrightarrow> exe_name command e i (wr m e (take i name)) =
    (if length name \<le> 32 then (wr m e name, Some (length name)) else (wr m e (take 32 name), None))"
proof (induction "length name - i" arbitrary: i)
  case 0
  then have "i = length name" by simp
  then show ?case using assms(4) 0 by (subst exe_name.simps) (auto simp: wr_apart[OF assms(5)])
next
  case (Suc d)
  then have i: "i < length name" by simp
  have b: "wr m e (take i name) (command + of_nat i) = name ! i" "name ! i \<noteq> 0" "name ! i \<noteq> 32"
    using i Suc.prems assms(1)[OF i] assms(2,3) by (simp_all add: wr_apart[OF assms(5)]) (metis nth_mem)+
  show ?case
  proof (cases "i = 32")
    case True
    then show ?thesis using b i by (subst exe_name.simps) simp
  next
    case False
    have "(wr m e (take i name))(e + of_nat i := name ! i) = wr m e (take (Suc i) name)"
      using wr_append[of "take i name" "[name ! i]" m e] i Suc.prems(2)
      by (simp add: wr_single take_Suc_conv_app_nth min_def)
    then have "exe_name command e i (wr m e (take i name)) = exe_name command e (Suc i) (wr m e (take (Suc i) name))"
      using b False Suc.prems(2) by (subst exe_name.simps) (simp del: fun_upd_apply)
    then show ?thesis using Suc.hyps(1)[of "Suc i"] Suc.hyps(2) Suc.prems False by simp
  qed
qed

lemma skip_spaces_run:
  "(\<And>j. j < n \<Longrightarrow> m (command + of_nat (i + j)) = 32) \<Longrightarrow> m (command + of_nat (i + n)) \<noteq> 32 \<Longrightarrow> skip_spaces m command i = Some (i + n)"
proof (induction n arbitrary: i)
  case 0
  then show ?case by (subst skip_spaces.simps) simp
next
  case (Suc n)
  have "skip_spaces m command (Suc i) = Some (Suc i + n)"
  proof (rule Suc.IH)
    show "m (command + of_nat (Suc i + j)) = 32" if "j < n" for j using Suc.prems(1)[of "Suc j"] that by simp
    show "m (command + of_nat (Suc i + n)) \<noteq> 32" using Suc.prems(2) by simp
  qed
  then show ?case using Suc.prems(1)[of 0] by (subst skip_spaces.simps) simp
qed

lemma args_loop_take:
  assumes "\<And>j. j < length rest \<Longrightarrow> m (command + of_nat (i + j)) = rest ! j" and "m (command + of_nat (i + length rest)) = 0" and "0 \<notin> set rest"
  shows "d \<le> length rest \<Longrightarrow> d \<le> 128 - 2 * i \<Longrightarrow> args_loop True m command i (i + d) (take d rest) = take (128 - 2 * i) rest"
proof (induction "length rest - d" arbitrary: d)
  case 0
  then have "d = length rest" by simp
  then show ?case using assms(2) 0 by (subst args_loop.simps) simp
next
  case (Suc r)
  then have d: "d < length rest" by simp
  have b: "m (command + of_nat (i + d)) = rest ! d" "rest ! d \<noteq> 0" using assms(1)[OF d] assms(3) nth_mem[OF d] by auto
  show ?case
  proof (cases "d = 128 - 2 * i")
    case True
    then show ?thesis by (subst args_loop.simps) auto
  next
    case False
    then have "int (i + d) < BUFFER_SIZE - int i" using Suc.prems(2) by linarith
    then have "args_loop True m command i (i + d) (take d rest) = args_loop True m command i (i + Suc d) (take (Suc d) rest)"
      using b by (subst args_loop.simps) (simp add: take_Suc_conv_app_nth[OF d])
    then show ?thesis using Suc.hyps(1)[of "Suc d"] Suc.hyps(2) Suc.prems False by simp
  qed
qed

text \<open>C32: what \<open>execute\<close> makes of the command line \<open>name\<close>, spaces, \<open>rest\<close>: a name of
  more than 32 characters is refused; otherwise the name is copied, the spaces skipped,
  and the argument string is the rest, cut off after \<open>128 - 2 * i\<close> characters where
  \<open>i\<close> is the position at which it starts (the loop compares its index, not its length,
  with \<open>BUFFER_SIZE - i\<close>).\<close>

theorem execute_command_line:
  assumes "cstr_at m command (name @ replicate n 32 @ rest)" and "32 \<notin> set name" and "n = 0 \<longrightarrow> rest = []"
    and "rest \<noteq> [] \<longrightarrow> hd rest \<noteq> 32" and "apart command (length (name @ replicate n 32 @ rest)) e"
    and "i = length name + n" and "m' = (wr m e name)(e + of_nat (length name) := 0)"
  shows "(if length name \<le> 32 then exe_name command e 0 m = (wr m e name, Some (length name)) \<and>
      skip_spaces m' command (length name) = Some i \<and> args_loop True m' command i i [] = take (128 - 2 * i) rest
    else snd (exe_name command e 0 m) = None)"
proof -
  let ?s = "name @ replicate n 32 @ rest"
  have s: "0 \<notin> set ?s" "m (command + of_nat (length ?s)) = 0" "\<And>j. j < length ?s \<Longrightarrow> m (command + of_nat j) = ?s ! j"
    using assms(1) by (auto simp: cstr_at_def wf_cstring_def arr_def)
  have ap: "apart command (length name) e" using assms(5) by (auto simp: apart_def)
  have nm: "m (command + of_nat j) = name ! j" if "j < length name" for j using s(3)[of j] that by (simp add: nth_append)
  have "m (command + of_nat (length name)) = 0 \<or> m (command + of_nat (length name)) = 32"
    using s(2) s(3)[of "length name"] assms(3) by (cases n) (auto simp: nth_append)
  then have en: "exe_name command e 0 m = (if length name \<le> 32 then (wr m e name, Some (length name)) else (wr m e (take 32 name), None))"
    using exe_name_loop[OF nm _ assms(2) _ ap, of 0] s(1) by (simp add: wr_def blit_def)
  show ?thesis
  proof (cases "length name \<le> 32")
    case True
    have "m' = wr m e (name @ [0])" using wr_append[of name "[0]" m e] True by (simp add: assms(7) wr_single)
    then have m': "m' (command + of_nat j) = m (command + of_nat j)" if "j \<le> length ?s" for j
      using wr_apart[OF assms(5) that, of "name @ [0]"] True by simp
    have rest: "m' (command + of_nat (i + j)) = rest ! j" if "j < length rest" for j
      using m'[of "i + j"] s(3)[of "i + j"] that by (simp add: assms(6) nth_append)
    have nul: "m' (command + of_nat (i + length rest)) = 0" using m'[of "i + length rest"] s(2) by (simp add: assms(6) add.assoc)
    have "skip_spaces m' command (length name) = Some (length name + n)"
    proof (rule skip_spaces_run)
      show "m' (command + of_nat (length name + j)) = 32" if "j < n" for j
        using m'[of "length name + j"] s(3)[of "length name + j"] that by (simp add: nth_append)
      show "m' (command + of_nat (length name + n)) \<noteq> 32"
        using rest[of 0] nul assms(4,6) by (cases rest) auto
    qed
    moreover have "args_loop True m' command i i [] = take (128 - 2 * i) rest"
      using args_loop_take[OF rest nul, of 0] s(1) by simp
    ultimately show ?thesis using en True assms(6) by simp
  next
    case False
    then show ?thesis using en by simp
  qed
qed

section \<open>Kernel stacks\<close>

text \<open>The kernel stacks of the six processes (8 KB each, from the top of the kernel's page
  down) are disjoint and lie inside the kernel's 4 MB page.\<close>

theorem kernel_stacks_disjoint:
  assumes "0 < p" and "p \<le> MAX_PROCESSES" and "0 < q" and "q < p"
  shows "unat (stack_top q) = 0x7FFFFC - 0x2000 * (q - 1) \<and> unat (stack_top p) + 0x2000 \<le> unat (stack_top q) \<and>
    0x400000 + 0x2000 \<le> unat (stack_top p) \<and> unat (stack_top q) < 0x800000"
proof -
  have u: "unat (stack_top r) = 0x7FFFFC - 0x2000 * (r - 1)" if "0 < r" "r \<le> 6" for r
  proof -
    have "r \<in> {1, 2, 3, 4, 5, 6}" using that by auto
    then show ?thesis by (auto simp: stack_top_def)
  qed
  show ?thesis using u[of p] u[of q] assms by auto
qed

section \<open>Concrete systems\<close>

text \<open>Process 2 as a child of process 1, and as the shell of terminal 1.\<close>

definition demo_family :: kernel where
  "demo_family = setup_child [] 2 demo_k"

definition demo_two :: kernel where
  "demo_two = setup_shell 1 2 demo_k"

lemma demo_child: "proc_inv demo_family ((\<lambda>_. [])(0 := [2, 1])) 0"
  using setup_child_push(1)[OF demo_inv demo_free, of "[]"] by (simp add: demo_family_def)

lemma demo_shell: "proc_inv demo_two ((\<lambda>_. [])(0 := [1], 1 := [2])) 1"
  using setup_shell_push(1)[of demo_k "(\<lambda>_. [])(0 := [1])" 2 1] demo_inv demo_free by (simp add: proc_inv_def demo_two_def)

lemma demo_shell_sel:
  "needs_to_be_halted demo_two = (\<lambda>_. False)" "active_processes demo_two = (\<lambda>_. 0)(0 := 1, 1 := 2)"
  "CPID demo_two = 2"
  by (simp_all add: demo_two_def setup_shell_def Let_def demo_k_sel)

theorem task_switch_round_robin_witness:
  "\<exists>k' out. task_switch demo_ly 7 8 demo_two = Some (k', out) \<and> CPID k' = 1 \<and> tss_esp0 k' = stack_top 1"
  using task_switch_round_robin[OF demo_shell, of 0 demo_ly 7 8]
  by (auto simp: demo_shell_sel next_terminal_def proc_inv_def top_of_def)

theorem timer_fairness_witness:
  "\<exists>n \<le> 2. \<exists>k'. timer_ticks demo_ly 7 8 n demo_two = Some k' \<and> CPID k' = 1"
  using timer_fairness[OF demo_shell, of 0 demo_ly 7 8] by (simp add: demo_shell_sel)

theorem halt_resumes_parent_witness:
  "\<exists>k'. halt demo_ly 5 demo_family = Some (k', Resume_execute 0 0 5) \<and> CPID k' = 1"
proof -
  have "esp_execute (processes demo_family 1) = 0" "ebp_execute (processes demo_family 1) = 0"
    by (simp_all add: demo_family_def setup_child_def Let_def demo_k_sel demo_pcb_def)
  then show ?thesis using halt_resumes_parent[OF demo_child, of 2 1 "[]" demo_ly 5] by auto
qed


theorem kernel_stacks_disjoint_witness:
  "unat (stack_top 2) = 0x7FDFFC \<and> unat (stack_top 3) + 0x2000 \<le> unat (stack_top 2)"
  using kernel_stacks_disjoint[of 3 2] by simp

definition demo_line :: mem where
  "demo_line = wr (\<lambda>_. 0) 0x08100000 ([99, 97, 116, 32, 32, 102] @ [0])"

theorem execute_command_line_witness:
  "exe_name 0x08100000 0x7FF000 0 demo_line = (wr demo_line 0x7FF000 [99, 97, 116], Some 3) \<and>
   args_loop True ((wr demo_line 0x7FF000 [99, 97, 116])(0x7FF003 := 0)) 0x08100000 5 5 [] = [102]"
proof -
  define name :: cstring where "name = [99, 97, 116]"
  have n: "length name = 3" "32 \<notin> set name" by (simp_all add: name_def)
  have "name @ replicate 2 32 @ [102] = [99, 97, 116, 32, 32, 102]" by (simp add: name_def numeral_2_eq_2)
  moreover have "cstr_at demo_line 0x08100000 [99, 97, 116, 32, 32, 102]"
    unfolding demo_line_def by (rule cstr_at_wr) (simp_all add: wf_cstring_def)
  ultimately have c: "cstr_at demo_line 0x08100000 (name @ replicate 2 32 @ [102])" by (simp only:)
  have "33 \<le> unat (0x08100000 + of_nat j - 0x7FF000 :: u32)" if "j \<le> 6" for j
  proof -
    have "(0x08100000 + of_nat j - 0x7FF000 :: u32) = 0x7901000 + of_nat j" by simp
    then show ?thesis using that by (simp add: unat_word_ariths unat_of_nat_32)
  qed
  then have ap: "apart 0x08100000 (length (name @ replicate 2 32 @ [102])) 0x7FF000" by (simp add: apart_def n)
  let ?m = "(wr demo_line 0x7FF000 name)(0x7FF000 + of_nat (length name) := 0)"
  have "(if length name \<le> 32 then exe_name 0x08100000 0x7FF000 0 demo_line = (wr demo_line 0x7FF000 name, Some (length name)) \<and>
      skip_spaces ?m 0x08100000 (length name) = Some 5 \<and> args_loop True ?m 0x08100000 5 5 [] = take (128 - 2 * 5) [102]
    else snd (exe_name 0x08100000 0x7FF000 0 demo_line) = None)"
    by (rule execute_command_line[OF c n(2) _ _ ap]) (simp_all add: n)
  then have "exe_name 0x08100000 0x7FF000 0 demo_line = (wr demo_line 0x7FF000 name, Some 3) \<and> args_loop True ?m 0x08100000 5 5 [] = [102]"
    by (simp add: n del: fun_upd_apply)
  moreover have "0x7FF000 + of_nat (length name) = (0x7FF003 :: u32)" by (simp add: n)
  ultimately show ?thesis by (simp only: name_def) 
qed

end
