(* ===== verification/Loading.thy ===== *)
theory Loading
  imports Scheduling
begin

text \<open>
  Loading a program: the end of \<open>execute\<close> and of \<open>execute_base_shell\<close> (syscalls.c) as a
  composition of paging (\<open>new_page_directory\<close>), the file system (\<open>fs_copy\<close>) and the
  kernel's view of memory: the new process finds the bytes of the file in its own address
  space, and control enters at the address the file names.
\<close>

section \<open>The file system in the kernel's pages\<close>

text \<open>The image and the kernel's boot block copy lie in the kernel's pages and away from the
  page tables; \<open>fname\<close> points to such a place too, as does \<open>fs_copy\<close>'s array.\<close>

definition fs_in_kernel :: "layout \<Rightarrow> kernel \<Rightarrow> bool" where
  "fs_in_kernel ly k \<longleftrightarrow> (\<forall>a. fs_addr (k_fs k) (k_mem k) a \<longrightarrow> kernel_page a \<and> \<not> pt_addr (l_syms ly) a)"

definition kernel_buf :: "layout \<Rightarrow> u32 \<Rightarrow> nat \<Rightarrow> bool" where
  "kernel_buf ly b n \<longleftrightarrow> (\<forall>i < n. kernel_page (b + of_nat i) \<and> \<not> pt_addr (l_syms ly) (b + of_nat i))"

lemma name_key_cong: "(\<And>i. i < 33 \<Longrightarrow> f i = g i) \<Longrightarrow> name_key f = name_key g"
  unfolding name_key_def before_NUL_def by (rule arg_cong[of _ _ "takeWhile (\<lambda>b. b \<noteq> 0)"]) (rule map_cong, simp_all)

lemma find_map_comp: "List.find P (map f xs) = map_option f (List.find (P \<circ> f) xs)"
  by (induction xs) auto

lemma find_dentry_agree: "fs_agree fs m m' \<Longrightarrow> find_dentry fs m' key = find_dentry fs m key"
proof -
  assume a: "fs_agree fs m m'"
  have "name_key (arr m' (dentry_addr fs (of_nat i))) = name_key (arr m (dentry_addr fs (of_nat i)))"
    if "i < min 63 (unat (n_dentries fs m))" for i
    using agree_dentry[OF a, of "of_nat i"] that
    by (intro name_key_cong) (simp add: word_less_nat_alt unat_of_nat_32)
  then show ?thesis unfolding find_dentry_def agree_header[OF a] find_map_comp by (intro arg_cong[of _ _ "map_option _"] find_cong) auto
qed

lemma user_entry_le32: "user_entry e 4 = le32 e 0"
  by (simp add: eval_nat_numeral le32_def or.assoc)

section \<open>What can be loaded\<close>

text \<open>The file named at \<open>fname\<close> is in the image, sound, and fits between the load address
  and the end of the program's 4 MB page; the process's video table has no stray entries
  (\<open>user_dir\<close> keeps it so).\<close>

definition loadable :: "layout \<Rightarrow> kernel \<Rightarrow> nat \<Rightarrow> u32 \<Rightarrow> u32 \<Rightarrow> bool" where
  "loadable ly k pid fname inode \<longleftrightarrow>
     syms_ok (l_syms ly) \<and> 0 < pid \<and> pid < 7 \<and>
     (\<forall>i < 1024. i \<noteq> 0 \<longrightarrow> \<not> bit (tbl_get (k_mem k) (video_page_tables (l_syms ly)) (of_nat pid) i) 0) \<and>
     fs_in_kernel ly k \<and> fname \<noteq> 0 \<and> kernel_buf ly fname 33 \<and>
     map_option (\<lambda>i. d_inode (dentries (k_fs k) (k_mem k) i)) (find_dentry (k_fs k) (k_mem k) (name_key (arr (k_mem k) fname))) = Some inode \<and>
     wf_fs (k_fs k) (k_mem k) \<and> file_ok (k_fs k) (k_mem k) inode \<and> data_valid (k_fs k) (k_mem k) inode \<and>
     file_len (k_fs k) (k_mem k) inode \<le> 0x3B8000 \<and>
     l_data ly \<noteq> 0 \<and> kernel_buf ly (l_data ly) (file_len (k_fs k) (k_mem k) inode) \<and>
     buf_ok (k_fs k) (k_mem k) (l_data ly) (file_len (k_fs k) (k_mem k) inode)"

lemma load_space:
  assumes "loadable ly k pid fname inode" and "new_page_directory (l_syms ly) (k_mem k) (k_mmu k) (of_nat pid) = (m, c)"
  shows "space (l_syms ly) m c (of_nat pid)" and "fs_agree (k_fs k) (k_mem k) (vview m c)"
    and "i < 33 \<Longrightarrow> arr (vview m c) fname i = arr (k_mem k) fname i"
    and "Q < 7 \<Longrightarrow> Q \<noteq> of_nat pid \<Longrightarrow> user_dir (l_syms ly) (k_mem k) Q \<Longrightarrow> user_dir (l_syms ly) m Q"
proof -
  have sy: "syms_ok (l_syms ly)" "(of_nat pid :: u32) < 7"
    using assms(1) by (auto simp: loadable_def word_less_nat_alt unat_of_nat_32)
  have d: "user_dir (l_syms ly) m (of_nat pid) \<and> (\<forall>Q < 7. Q \<noteq> of_nat pid \<and> user_dir (l_syms ly) (k_mem k) Q \<longrightarrow> user_dir (l_syms ly) m Q)"
    using assms(1) by (intro new_page_directory_invariant[OF sy assms(2)]) (simp add: loadable_def)
  then show sp: "space (l_syms ly) m c (of_nat pid)" using sy new_page_directory_regs[OF assms(2)] by (simp add: space_def)
  show "Q < 7 \<Longrightarrow> Q \<noteq> of_nat pid \<Longrightarrow> user_dir (l_syms ly) (k_mem k) Q \<Longrightarrow> user_dir (l_syms ly) m Q" using d by simp
  have v: "vview m c a = k_mem k a" if "kernel_page a" "\<not> pt_addr (l_syms ly) a" for a
    using vview_kernel[OF sp that(1)] new_page_directory_outside[OF sy assms(2) that(2)] by simp
  then show "fs_agree (k_fs k) (k_mem k) (vview m c)"
    using assms(1) by (simp add: fs_agree_def loadable_def fs_in_kernel_def)
  show "i < 33 \<Longrightarrow> arr (vview m c) fname i = arr (k_mem k) fname i"
    using assms(1) v by (simp add: arr_def loadable_def kernel_buf_def)
qed

lemma user_image: "i < 0x3B8000 \<Longrightarrow> user_page (EXE_ENTRY_POINT + of_nat i)"
  by (simp add: user_page_def word_le_nat_alt word_less_nat_alt unat_word_ariths unat_of_nat_32)

text \<open>An address outside a run of addresses.\<close>

lemma outside_run: "(\<And>i. i < n \<Longrightarrow> a \<noteq> b + of_nat i) \<Longrightarrow> n \<le> unat (a - (b :: u32))"
proof (rule ccontr)
  assume h: "\<And>i. i < n \<Longrightarrow> a \<noteq> b + of_nat i" and "\<not> n \<le> unat (a - b)"
  then show False using h[of "unat (a - b)"] by simp
qed

lemma load_copy:
  assumes "loadable ly k pid fname inode" and "new_page_directory (l_syms ly) (k_mem k) (k_mmu k) (of_nat pid) = (m, c)"
    and "fs_copy (k_fs k) (vview m c) (l_data ly) fname EXE_ENTRY_POINT = (vm, r)"
  shows "r = 0" and "i < file_len (k_fs k) (k_mem k) inode \<Longrightarrow> vm (EXE_ENTRY_POINT + of_nat i) = file_byte (k_fs k) (k_mem k) inode i"
    and "pt_addr (l_syms ly) a \<Longrightarrow> vm a = vview m c a"
proof -
  note sp = load_space[OF assms(1,2)]
  let ?v = "vview m c" and ?n = "file_len (k_fs k) (k_mem k) inode"
  have ld: "fname \<noteq> 0" "l_data ly \<noteq> 0" "wf_fs (k_fs k) (k_mem k)" "file_ok (k_fs k) (k_mem k) inode" "data_valid (k_fs k) (k_mem k) inode"
      "?n \<le> 0x3B8000" "kernel_buf ly (l_data ly) ?n" "buf_ok (k_fs k) (k_mem k) (l_data ly) ?n" "syms_ok (l_syms ly)"
    using assms(1) by (auto simp: loadable_def)
  obtain j where j: "find_dentry (k_fs k) (k_mem k) (name_key (arr (k_mem k) fname)) = Some j"
      and ino: "d_inode (dentries (k_fs k) (k_mem k) j) = inode"
    using assms(1) by (auto simp: loadable_def)
  have key: "name_key (arr ?v fname) = name_key (arr (k_mem k) fname)" by (rule name_key_cong) (rule sp(3))
  have "j < 63" using j by (simp add: find_dentry_Some)
  then have d: "read_dentry_by_name (k_fs k) ?v fname (Some local_dentry) = (0, Some (dentries (k_fs k) (k_mem k) j))"
    using ld(1) j agree_dentries[OF sp(2)] by (simp add: read_dentry_by_name_find find_dentry_agree[OF sp(2)] key)
  have n: "file_len (k_fs k) ?v inode = ?n" using agree_file(1)[OF sp(2) ld(3)] ld(4) by (simp add: file_ok_def)
  have cp: "copy_ok EXE_ENTRY_POINT (l_data ly) ?n"
  proof (cases "?n = 0")
    case False
    then have "kernel_page (l_data ly)" using ld(7) by (auto simp: kernel_buf_def dest: spec[of _ 0])
    then have "4096 \<le> unat (l_data ly)" "unat (l_data ly) < 8388608" by (auto simp: kernel_page_def word_le_nat_alt word_less_nat_alt)
    then have "?n \<le> unat (EXE_ENTRY_POINT - l_data ly)" using ld(6) by (simp add: unat_sub_if_size word_size)
    then show ?thesis by (simp add: copy_ok_def)
  qed (simp add: copy_ok_def)
  note cf = fs_copy_file[OF ld(1) _ ld(2) d, of EXE_ENTRY_POINT, unfolded ino n wf_fs_agree[OF sp(2)] agree_data_valid[OF sp(2) ld(3,4)]
      buf_ok_agree[OF sp(2)], OF _ ld(3) agree_file_ok[OF sp(2) ld(3,4)] ld(5,8) cp, unfolded assms(3)]
  show "r = 0" using cf(1) by simp
  show "vm (EXE_ENTRY_POINT + of_nat i) = file_byte (k_fs k) (k_mem k) inode i" if "i < ?n"
    using cf(2)[of i] that agree_file_byte[OF sp(2) ld(3,4) that data_valid_block[OF ld(5) that]] by (simp add: arr_def)
  show "vm a = ?v a" if a: "pt_addr (l_syms ly) a"
  proof -
    have "kernel_page a" using pt_addr_kernel[OF ld(9) a] .
    then have "a \<noteq> EXE_ENTRY_POINT + of_nat i" if "i < ?n" for i
      using user_image[of i] that ld(6) by (auto simp: user_page_def kernel_page_def word_le_nat_alt word_less_nat_alt)
    moreover have "a \<noteq> l_data ly + of_nat i" if "i < ?n" for i using ld(7) a that by (auto simp: kernel_buf_def)
    ultimately show ?thesis using cf(3)[of a] outside_run by simp
  qed
qed

section \<open>Entering the program\<close>

text \<open>The little-endian word at offset 24 of a program file.\<close>

definition entry_point :: "filesys \<Rightarrow> mem \<Rightarrow> u32 \<Rightarrow> u32" where
  "entry_point fs m inode = le32 (\<lambda>i. file_byte fs m inode (24 + i)) 0"

lemma setup_child_mem [simp]:
  "k_mem (setup_child ar pid k) = k_mem k" "k_mmu (setup_child ar pid k) = k_mmu k" "k_fs (setup_child ar pid k) = k_fs k"
  "CPID (setup_child ar pid k) = pid"
  by (simp_all add: setup_child_def Let_def)

lemma save_execute_mem [simp]:
  "k_mem (save_execute p esp ebp k) = k_mem k" "k_mmu (save_execute p esp ebp k) = k_mmu k" "CPID (save_execute p esp ebp k) = CPID k"
  by (simp_all add: save_execute_def)

lemma load_program_loads:
  assumes "loadable ly k (CPID k) fname inode"
    and save: "\<And>k. k_mem (save k) = k_mem k" "\<And>k. k_mmu (save k) = k_mmu k" "\<And>k. CPID (save k) = CPID k"
    and res: "load_program ly fname save k = (k', out)"
  shows "out = Enter_user (le32 (\<lambda>i. kview k' (EXE_ENTRY_POINT + 24 + of_nat i)) 0)"
    and "CPID k' = CPID k" and "tss_esp0 k' = stack_top (CPID k)" and "in_space ly k'"
    and "i < file_len (k_fs k) (k_mem k) inode \<Longrightarrow> kview k' (EXE_ENTRY_POINT + of_nat i) = file_byte (k_fs k) (k_mem k) inode i"
    and "Q < 7 \<Longrightarrow> user_dir (l_syms ly) (k_mem k) Q \<Longrightarrow> user_dir (l_syms ly) (k_mem k') Q"
    and "\<not> kernel_page pa \<and> \<not> own_frame (of_nat (CPID k)) pa \<Longrightarrow> k_mem k' pa = k_mem k pa"
proof -
  obtain m c where d: "new_page_directory (l_syms ly) (k_mem k) (k_mmu k) (of_nat (CPID k)) = (m, c)" by fastforce
  obtain vm r where f: "fs_copy (k_fs k) (vview m c) (l_data ly) fname EXE_ENTRY_POINT = (vm, r)" by fastforce
  note sp = load_space[OF assms(1) d] and cp = load_copy[OF assms(1) d f]
  have pt: "pt_addr (l_syms ly) a \<Longrightarrow> vm a = vview m c a" for a by (rule cp(3))
  note st = kstore_spec[OF sp(1), of vm, simplified pt, simplified]
  have pid: "0 < CPID k" "CPID k < 7" "syms_ok (l_syms ly)" "file_len (k_fs k) (k_mem k) inode \<le> 0x3B8000"
    using assms(1) by (auto simp: loadable_def)
  then have p: "(of_nat (CPID k) :: u32) < 7" "(of_nat (CPID k) :: u32) \<noteq> 0"
    by (auto simp: word_less_nat_alt word_unat_eq_iff unat_of_nat_32)
  define k1 where "k1 = k\<lparr> k_mem := kstore m c vm, k_mmu := c \<rparr>"
  have k1: "with_mem vm (k\<lparr> k_mem := m, k_mmu := c \<rparr>) = k1" by (simp add: k1_def with_mem_def)
  have kv: "vview (kstore m c vm) c = kview k1" by (simp add: k1_def)
  have r: "(k', out) = (with_pic cli ((save k1)\<lparr> tss_ss0 := KERNEL_DS, tss_esp0 := stack_top (CPID (save k1)) \<rparr>),
      Enter_user (user_entry (\<lambda>i. kview k1 (EXE_ENTRY_POINT + 24 + of_nat i)) 4))"
    unfolding res[symmetric] load_program_def d prod.case Let_def using f cp(1) by (simp add: k1)
  then have k': "k' = with_pic cli ((save k1)\<lparr> tss_ss0 := KERNEL_DS, tss_esp0 := stack_top (CPID (save k1)) \<rparr>)"
    and o: "out = Enter_user (user_entry (\<lambda>i. kview k1 (EXE_ENTRY_POINT + 24 + of_nat i)) 4)" by simp_all
  have k'm: "k_mem k' = kstore m c vm" "k_mmu k' = c" "CPID k' = CPID k" unfolding k' by (simp_all add: save) (simp_all add: k1_def)
  then have kk: "kview k' = kview k1" by (simp add: k1_def)
  show "out = Enter_user (le32 (\<lambda>i. kview k' (EXE_ENTRY_POINT + 24 + of_nat i)) 0)" by (simp only: o kk user_entry_le32)
  show "CPID k' = CPID k" by (rule k'm)
  show "tss_esp0 k' = stack_top (CPID k)" unfolding k' by (simp add: save) (simp add: k1_def)
  show "in_space ly k'" using st(2) pid by (simp add: in_space_def k'm)
  show "kview k' (EXE_ENTRY_POINT + of_nat i) = file_byte (k_fs k) (k_mem k) inode i" if "i < file_len (k_fs k) (k_mem k) inode"
    using st(3)[of "EXE_ENTRY_POINT + of_nat i"] user_image[of i] cp(2)[OF that] that pid(4) p(2)
    by (simp add: kk kv[symmetric])
  show "user_dir (l_syms ly) (k_mem k') Q" if "Q < 7" "user_dir (l_syms ly) (k_mem k) Q"
    using st(1)[OF that(1)] sp(4)[OF that(1) _ that(2)] sp(1) by (cases "Q = of_nat (CPID k)") (auto simp: k'm space_def)
  show "k_mem k' pa = k_mem k pa" if "\<not> kernel_page pa \<and> \<not> own_frame (of_nat (CPID k)) pa"
    using st(4)[OF that] new_page_directory_outside[OF pid(3) p(1) d, of pa] pt_addr_kernel[OF pid(3), of pa] that
    by (auto simp: k'm)
qed

text \<open>C4: when \<open>execute\<close> has found a free PCB and the program is in the file system, control
  enters the new process at the address stored at offset 24 of its file; through the new
  directory the whole file is visible at 0x08048000; the kernel stack is the process's own;
  every page directory stays intact, and outside the kernel's pages no physical byte but
  those of the process's own 4 MB frame has changed.\<close>

theorem execute_loads_program:
  assumes "pcb_search (processes k) 0 = Some pid" and "loadable ly k pid (l_exename ly) inode"
  shows "\<exists>k' eip. start_process ly esp ebp ar k = (k', Enter_user eip) \<and> CPID k' = pid \<and> tss_esp0 k' = stack_top pid \<and>
    in_space ly k' \<and>
    (\<forall>i < file_len (k_fs k) (k_mem k) inode. kview k' (EXE_ENTRY_POINT + of_nat i) = file_byte (k_fs k) (k_mem k) inode i) \<and>
    (28 \<le> file_len (k_fs k) (k_mem k) inode \<longrightarrow> eip = entry_point (k_fs k) (k_mem k) inode) \<and>
    (\<forall>Q < 7. user_dir (l_syms ly) (k_mem k) Q \<longrightarrow> user_dir (l_syms ly) (k_mem k') Q) \<and>
    (\<forall>pa. \<not> kernel_page pa \<and> \<not> own_frame (of_nat pid) pa \<longrightarrow> k_mem k' pa = k_mem k pa)"
proof -
  let ?k = "setup_child ar pid k" and ?s = "save_execute (CPID k) esp ebp"
  obtain k' out where r: "load_program ly (l_exename ly) ?s ?k = (k', out)" by fastforce
  have ld: "loadable ly ?k (CPID ?k) (l_exename ly) inode" using assms(2) by (simp add: loadable_def fs_in_kernel_def)
  note ll = load_program_loads[OF ld _ _ _ r, simplified]
  have "le32 (\<lambda>i. kview k' (EXE_ENTRY_POINT + 24 + of_nat i)) 0 = entry_point (k_fs k) (k_mem k) inode"
    if n: "28 \<le> file_len (k_fs k) (k_mem k) inode"
    unfolding entry_point_def
  proof (rule le32_cong)
    fix i :: nat assume "i < 4"
    then show "kview k' (EXE_ENTRY_POINT + 24 + of_nat (0 + i)) = file_byte (k_fs k) (k_mem k) inode (24 + (0 + i))"
      using ll(5)[of "24 + i"] n by (simp add: add.assoc)
  qed
  moreover have "start_process ly esp ebp ar k = (k', out)" using r by (simp add: start_process_def assms(1))
  ultimately show ?thesis using ll by (intro exI[of _ k']) auto
qed

section \<open>A program runs and halts\<close>

text \<open>C5: \<open>execute\<close> and \<open>halt\<close> behave as call and return: when \<open>execute\<close> has entered the
  new program, the child runs with its own kernel stack, and its \<open>halt\<close> makes the parent's
  \<open>execute\<close> return the status (0 to 255) on the very stack pointers it was called with;
  the process stacks are those before the call.\<close>

theorem execute_halt_round_trip:
  assumes "proc_inv k st t" and "length ar \<le> 128" and "start_process ly esp ebp ar k = (k1, Enter_user eip)"
  shows "tss_esp0 k1 = stack_top (CPID k1) \<and> CPID k1 \<noteq> CPID k \<and>
    (\<exists>k2. halt ly' status k1 = Some (k2, Resume_execute ebp esp (ucast status)) \<and> CPID k2 = CPID k \<and> proc_inv k2 st t)"
proof -
  have inv: "table_inv k st" and t: "t < 3" and c: "CPID k = top_of (st t)" and ne: "st t \<noteq> []" using assms(1) by (auto simp: proc_inv_def)
  obtain pid where s: "pcb_search (processes k) 0 = Some pid"
    and ld: "load_program ly (l_exename ly) (save_execute (CPID k) esp ebp) (setup_child ar pid k) = (k1, Enter_user eip)"
    using assms(3) by (auto simp: start_process_def split: option.splits)
  note push = setup_child_push[OF assms(1) s assms(2)]
  obtain k' where kp: "keeps (setup_child ar pid k) k'" and k1: "k1 = with_pic cli ((save_execute (CPID k) esp ebp k')
      \<lparr> tss_ss0 := KERNEL_DS, tss_esp0 := stack_top (CPID (save_execute (CPID k) esp ebp k')) \<rparr>)"
    using load_program_enter[OF ld] by blast
  have "keeps k' k1" unfolding k1 by (rule keeps_trans[OF save_execute_keeps]) (rule keeps_same, simp_all)
  then have inv1: "proc_inv k1 (st(t := pid # st t)) t" using proc_inv_keeps[OF keeps_trans[OF kp] push(1)] by blast
  obtain q xs where st: "st t = q # xs" using ne by (cases "st t") auto
  have q: "CPID k = q" using c st by (simp add: top_of_def)
  have sv: "esp_execute (processes k1 q) = esp" "ebp_execute (processes k1 q) = ebp"
    unfolding k1 q by (simp_all add: save_execute_def)
  have pq: "CPID k1 = pid" "pid \<noteq> q" using inv1 table_invD(2)[of k1 "st(t := pid # st t)" t] t st by (auto simp: proc_inv_def top_of_def)
  have e0: "tss_esp0 k1 = stack_top (CPID k1)" unfolding k1 by (simp add: save_execute_def)
  obtain k2 where "halt_process ly' (ucast status) k1 = Some (k2, Resume_execute ebp esp (ucast status))" "CPID k2 = q"
      "proc_inv k2 ((st(t := pid # st t))(t := q # xs)) t"
    using halt_spec[OF inv1, of pid q xs ly' "ucast status"] st sv by auto
  moreover have "(st(t := pid # st t))(t := q # xs) = st" using st by auto
  ultimately show ?thesis using e0 pq q by (auto simp: halt_def)
qed

section \<open>A concrete system\<close>

text \<open>The command line's program name is the string at 0x5000, and process 2 is free.\<close>

definition demo_ly5 :: layout where
  "demo_ly5 = demo_ly\<lparr> l_exename := 0x5000 \<rparr>"

lemma demo_tables: "i < 1024 \<Longrightarrow> tbl_get demo_kmem (video_page_tables demo_syms) 2 i = 0"
proof -
  assume i: "i < 1024"
  have d1: "new_page_directory demo_syms (\<lambda>_. 0) demo_mmu 1 = (fst demo_1, snd demo_1)" by (simp add: demo_1_def)
  have "tbl_get demo_kmem (video_page_tables demo_syms) 2 i = tbl_get (fst demo_1) (video_page_tables demo_syms) 2 i"
    by (rule tbl_get_cong[OF _ demo_syms_ok _ i]) (simp_all add: demo_kmem_def)
  then show ?thesis using new_page_directory_tables(3)[OF demo_syms_ok _ _ d1 i, of 2] by (simp add: zero_tables)
qed

lemma demo_kernel_buf: "kernel_buf demo_ly5 0x5000 33" "kernel_buf demo_ly5 0x700000 3"
  by (auto simp: kernel_buf_def kernel_page_def pt_addr_def demo_ly5_def demo_ly_def demo_syms_def word_le_nat_alt word_less_nat_alt
      unat_word_ariths unat_of_nat_32)

lemma demo_find: "find_dentry demo_fs demo_kmem (name_key (arr demo_kmem 0x5000)) = Some 0"
proof -
  have "name_key (arr demo_kmem 0x5000) = name_key (arr demo_mem 0x5000)"
    using demo_kernel_buf(1) by (intro name_key_cong) (simp add: arr_def demo_kmem_def kernel_buf_def demo_ly5_def demo_ly_def)
  also have "\<dots> = [97]" unfolding name_key_def
    by (rule before_NUL_eqI) (auto simp: arr_def demo_mem_def)
  finally have k: "name_key (arr demo_kmem 0x5000) = [97]" .
  have "name_key (arr demo_mem (dentry_addr demo_fs 0)) = [97]" unfolding name_key_def
    by (rule before_NUL_eqI) (auto simp: arr_def dentry_addr_def demo_fs_def demo_mem_def)
  then show ?thesis unfolding k find_dentry_agree[OF demo_agree(2)] by (simp add: find_dentry_def demo_header)
qed

lemma demo_loadable: "loadable demo_ly5 demo_k 2 0x5000 0"
proof -
  note a = demo_agree(2) and w = demo_ok(1)
  have l: "file_len demo_fs demo_kmem 0 = 3" using agree_file(1)[OF a w, of 0] demo_ok(2,4) by (simp add: file_ok_def)
  have "buf_ok demo_fs demo_mem 0x700000 3" by (rule buf_okI) (simp_all add: demo_header, simp_all add: demo_fs_def)
  moreover have "d_inode (dentries demo_fs demo_kmem 0) = 0" using agree_dentries[OF a, of 0] demo_name(3) by simp
  moreover have "fs_in_kernel demo_ly5 demo_k"
    using demo_fs_addr fs_addr_agree[OF a] by (simp add: fs_in_kernel_def demo_k_sel demo_ly5_def demo_ly_def)
  ultimately show ?thesis
    using wf_fs_agree[OF a] w agree_file_ok[OF a w demo_ok(2)] agree_data_valid[OF a w demo_ok(2)] demo_ok(3) buf_ok_agree[OF a]
      demo_kernel_buf demo_find demo_tables demo_syms_ok
    by (simp add: loadable_def l demo_k_sel demo_ly5_def demo_ly_def)
qed

theorem execute_loads_program_witness:
  "\<exists>k' eip. start_process demo_ly5 7 9 [] demo_k = (k', Enter_user eip) \<and> CPID k' = 2 \<and> kview k' 0x08048001 = 105"
proof -
  have "file_byte demo_fs demo_mem 0 1 = 105"
    by (simp add: file_byte_def file_block_def demo_header arr_def) (simp add: demo_fs_def demo_mem_def)
  then have "file_byte demo_fs demo_kmem 0 1 = 105"
    using agree_file_byte[OF demo_agree(2) demo_ok(1,2), of 1] data_valid_block[OF demo_ok(3), of 1] demo_ok(4) by simp
  moreover have "file_len demo_fs demo_kmem 0 = 3"
    using agree_file(1)[OF demo_agree(2) demo_ok(1), of 0] demo_ok(2,4) by (simp add: file_ok_def)
  ultimately show ?thesis
    using execute_loads_program[OF demo_free, of demo_ly5 0 7 9 "[]"] demo_loadable
    by (auto simp: demo_ly5_def demo_k_sel dest!: spec[of _ 1])
qed

theorem execute_halt_round_trip_witness:
  "\<exists>k1 eip k2. start_process demo_ly5 7 9 [] demo_k = (k1, Enter_user eip) \<and>
     halt demo_ly5 5 k1 = Some (k2, Resume_execute 9 7 5) \<and> CPID k2 = 1"
proof -
  let ?k = "setup_child [] 2 demo_k" and ?s = "save_execute (CPID demo_k) 7 9"
  obtain k1 out where r: "load_program demo_ly5 (l_exename demo_ly5) ?s ?k = (k1, out)" by fastforce
  have ld: "loadable demo_ly5 ?k (CPID ?k) (l_exename demo_ly5) 0"
    using demo_loadable by (simp add: loadable_def fs_in_kernel_def demo_ly5_def)
  obtain eip where "out = Enter_user eip" using load_program_loads(1)[OF ld _ _ _ r] by simp
  then have st: "start_process demo_ly5 7 9 [] demo_k = (k1, Enter_user eip)" using r by (simp add: start_process_def demo_free)
  show ?thesis using execute_halt_round_trip[OF demo_inv _ st, of demo_ly5 5] st by (auto simp: demo_k_sel)
qed

end
