(* ===== verification/Idt.thy ===== *)
theory Idt
  imports Prelude
begin

unbundle bit_operations_syntax

text \<open>
  The interrupt descriptor table of idt.c and the segment descriptors of kernel.c, with the
  layouts and macros of x86_desc.h.  A descriptor is the record of the source's bit-fields;
  \<open>idt_val\<close> and \<open>seg_val\<close> are the two words of the union, laid out from the least
  significant bit on, and the \<open>gate_\<close> and \<open>seg_\<close> readers are what the processor takes
  from them.  The addresses of the assembly wrappers are chosen by the linker: they are the
  parameter \<open>addr\<close>.
\<close>

section \<open>Data\<close>

abbreviation KERNEL_CS :: u16 where "KERNEL_CS \<equiv> 0x10"
abbreviation NUM_VEC :: nat where "NUM_VEC \<equiv> 256"

datatype wrapper = divideByZero_wrapper | debug_wrapper | nonMaskableInterrupts_wrapper | breakpoint_wrapper
  | overflow_wrapper | bounds_wrapper | invalidOpCode_wrapper | coprocessorNotAvailable_wrapper
  | doubleFault_wrapper | coprocessorSegmentOverrun_wrapper | invalidTaskStateSegment_wrapper
  | segmentNotPresent_wrapper | stackFault_wrapper | generalProtectionFault_wrapper | pageFault_wrapper
  | reserved_wrapper | mathFault_wrapper | alignmentCheck_wrapper | machineCheck_wrapper
  | simdFloatingPointException_wrapper | rtcHandler_wrapper | keyboardHandler_wrapper | pitHandler_wrapper
  | syscall_gate

text \<open>An interrupt descriptor; the one-bit fields are truth values.\<close>

record idt_desc_t =
  offset_15_00 :: u16
  seg_selector :: u16
  reserved4 :: u8
  reserved3 :: bool
  reserved2 :: bool
  reserved1 :: bool
  gate_size :: bool
  reserved0 :: bool
  gate_dpl :: "2 word"
  gate_present :: bool
  offset_31_16 :: u16

definition idt_val :: "idt_desc_t \<Rightarrow> u32 \<times> u32" where
  "idt_val d =
     (ucast (offset_15_00 d) OR push_bit 16 (ucast (seg_selector d)),
      ucast (reserved4 d) OR push_bit 8 (of_bool (reserved3 d)) OR push_bit 9 (of_bool (reserved2 d))
        OR push_bit 10 (of_bool (reserved1 d)) OR push_bit 11 (of_bool (gate_size d)) OR push_bit 12 (of_bool (reserved0 d))
        OR push_bit 13 (ucast (gate_dpl d)) OR push_bit 15 (of_bool (gate_present d)) OR push_bit 16 (ucast (offset_31_16 d)))"

text \<open>What the processor reads from the two words of a gate.\<close>

definition gate_offset :: "u32 \<times> u32 \<Rightarrow> u32" where
  "gate_offset v = (fst v AND 0xFFFF) OR (snd v AND 0xFFFF0000)"

definition gate_selector :: "u32 \<times> u32 \<Rightarrow> u16" where
  "gate_selector v = ucast (drop_bit 16 (fst v))"

definition gate_type :: "u32 \<times> u32 \<Rightarrow> u32" where
  "gate_type v = drop_bit 8 (snd v) AND 0x1F"

definition gate_level :: "u32 \<times> u32 \<Rightarrow> u32" where
  "gate_level v = drop_bit 13 (snd v) AND 3"

definition gate_valid :: "u32 \<times> u32 \<Rightarrow> bool" where
  "gate_valid v \<longleftrightarrow> bit (snd v) 15"

section \<open>idt_init\<close>

definition SET_IDT_ENTRY :: "idt_desc_t \<Rightarrow> u32 \<Rightarrow> idt_desc_t" where
  "SET_IDT_ENTRY str handler = str\<lparr> offset_31_16 := ucast (drop_bit 16 (handler AND 0xFFFF0000)),
     offset_15_00 := ucast (handler AND 0xFFFF) \<rparr>"

text \<open>The vectors and their wrappers, in the order of the source.\<close>

definition kernel_gates :: "(nat \<times> wrapper) list" where
  "kernel_gates = [(0, divideByZero_wrapper), (1, debug_wrapper), (2, nonMaskableInterrupts_wrapper), (3, breakpoint_wrapper),
     (4, overflow_wrapper), (5, bounds_wrapper), (6, invalidOpCode_wrapper), (7, coprocessorNotAvailable_wrapper),
     (8, doubleFault_wrapper), (9, coprocessorSegmentOverrun_wrapper), (10, invalidTaskStateSegment_wrapper),
     (11, segmentNotPresent_wrapper), (12, stackFault_wrapper), (13, generalProtectionFault_wrapper), (14, pageFault_wrapper),
     (15, reserved_wrapper), (16, mathFault_wrapper), (17, alignmentCheck_wrapper), (18, machineCheck_wrapper),
     (19, simdFloatingPointException_wrapper), (40, rtcHandler_wrapper), (33, keyboardHandler_wrapper), (32, pitHandler_wrapper)]"

text \<open>\<open>junk\<close> is the uninitialised local \<open>the_idt_desc\<close>.\<close>

definition the_idt_desc :: "idt_desc_t \<Rightarrow> idt_desc_t" where
  "the_idt_desc junk = junk\<lparr> gate_dpl := 0, gate_size := True, reserved0 := False, reserved1 := True, reserved2 := True,
     reserved3 := False, reserved4 := 0, seg_selector := KERNEL_CS, gate_present := True \<rparr>"

definition idt_init :: "(wrapper \<Rightarrow> u32) \<Rightarrow> idt_desc_t \<Rightarrow> (nat \<Rightarrow> idt_desc_t) \<Rightarrow> nat \<Rightarrow> idt_desc_t" where
  "idt_init addr junk idt =
     (let desc = the_idt_desc junk;
          idt = fold (\<lambda>(n, w) idt. idt(n := SET_IDT_ENTRY desc (addr w))) kernel_gates idt;
          desc = desc\<lparr> reserved3 := True, gate_dpl := 3 \<rparr>
      in idt(128 := SET_IDT_ENTRY desc (addr syscall_gate)))"

section \<open>What the processor finds\<close>

lemma and_parts:
  "(x :: u32) AND 0xFFFF0000 = push_bit 16 (drop_bit 16 x)" "(x :: u32) AND 0xFFFF = take_bit 16 x"
  "(x :: u32) AND 0x1F = take_bit 5 x" "(x :: u32) AND 3 = take_bit 2 x"
proof -
  have h: "(0xFFFF0000 :: u32) = push_bit 16 (mask 16)" by (simp add: mask_eq_exp_minus_1 push_bit_eq_mult)
  show "x AND 0xFFFF0000 = push_bit 16 (drop_bit 16 x)" unfolding h by (rule bit_word_eqI) (auto simp: bit_simps)
  have h: "(0xFFFF :: u32) = mask 16" "(0x1F :: u32) = mask 5" "(3 :: u32) = mask 2" by (simp_all add: mask_eq_exp_minus_1)
  show "x AND 0xFFFF = take_bit 16 x" "x AND 0x1F = take_bit 5 x" "x AND 3 = take_bit 2 x"
    unfolding h by (simp_all add: take_bit_eq_mask)
qed

lemma ucast_16: "(ucast (ucast (x :: u32) :: u16) :: u32) = take_bit 16 x"
  by (rule bit_word_eqI) (auto simp: bit_simps)

text \<open>The two words of the gates that \<open>idt_init\<close> builds.\<close>

lemma gate_words:
  "idt_val (SET_IDT_ENTRY (the_idt_desc junk) a) = (take_bit 16 a OR push_bit 16 0x10, 0x8E00 OR push_bit 16 (drop_bit 16 a))"
  "idt_val (SET_IDT_ENTRY ((the_idt_desc junk)\<lparr> reserved3 := True, gate_dpl := 3 \<rparr>) a) =
     (take_bit 16 a OR push_bit 16 0x10, 0xEF00 OR push_bit 16 (drop_bit 16 a))"
proof -
  have t: "push_bit 16 (take_bit 16 (drop_bit 16 (push_bit 16 (drop_bit 16 a)))) = push_bit 16 (drop_bit 16 a)"
    by (rule bit_word_eqI) (auto simp: bit_simps)
  show "idt_val (SET_IDT_ENTRY (the_idt_desc junk) a) = (take_bit 16 a OR push_bit 16 0x10, 0x8E00 OR push_bit 16 (drop_bit 16 a))"
    "idt_val (SET_IDT_ENTRY ((the_idt_desc junk)\<lparr> reserved3 := True, gate_dpl := 3 \<rparr>) a) =
     (take_bit 16 a OR push_bit 16 0x10, 0xEF00 OR push_bit 16 (drop_bit 16 a))"
    by (simp_all add: idt_val_def SET_IDT_ENTRY_def the_idt_desc_def and_parts ucast_16 t or.assoc[symmetric])
qed

lemma gate_read:
  fixes a :: u32
  assumes "v = (take_bit 16 a OR push_bit 16 0x10, e OR push_bit 16 (drop_bit 16 a))" and "take_bit 16 e = e"
  shows "gate_offset v = a" "gate_selector v = KERNEL_CS" "gate_type v = take_bit 5 (drop_bit 8 e)"
    "gate_level v = take_bit 2 (drop_bit 13 e)" "gate_valid v = bit e 15"
proof -
  have e: "\<not> bit e n" if "16 \<le> n" for n
    using that assms(2) by (metis bit_take_bit_iff not_le)
  show "gate_offset v = a" unfolding gate_offset_def assms(1) and_parts
    by (rule bit_word_eqI) (auto simp: bit_simps e)
  show "gate_selector v = KERNEL_CS" unfolding gate_selector_def assms(1)
    by (simp add: drop_bit_push_bit drop_bit_take_bit)
  show "gate_type v = take_bit 5 (drop_bit 8 e)" "gate_level v = take_bit 2 (drop_bit 13 e)" "gate_valid v = bit e 15"
    unfolding gate_type_def gate_level_def gate_valid_def assms(1) and_parts by (auto intro!: bit_word_eqI simp: bit_simps)
qed

lemmas kernel_gate = gate_read[OF gate_words(1), simplified]
lemmas user_gate = gate_read[OF gate_words(2), simplified]

lemma fold_updates:
  "distinct (map fst xs) \<Longrightarrow> fold (\<lambda>(n, w) t. t(n := f w)) xs t i = (case map_of xs i of None \<Rightarrow> t i | Some w \<Rightarrow> f w)"
proof (induction xs arbitrary: t)
  case (Cons x xs)
  then show ?case by (cases x) (auto split: option.splits dest: map_of_SomeD, force dest: map_of_SomeD)
qed simp

lemma idt_init_entry:
  "idt_init addr junk t n =
     (if n = 128 then SET_IDT_ENTRY ((the_idt_desc junk)\<lparr> reserved3 := True, gate_dpl := 3 \<rparr>) (addr syscall_gate)
      else case map_of kernel_gates n of None \<Rightarrow> t n | Some w \<Rightarrow> SET_IDT_ENTRY (the_idt_desc junk) (addr w))"
  using fold_updates[of kernel_gates "\<lambda>w. SET_IDT_ENTRY (the_idt_desc junk) (addr w)" t n]
  by (simp add: idt_init_def Let_def) (simp add: kernel_gates_def)


section \<open>Segment descriptors\<close>

text \<open>A descriptor of the GDT.\<close>

record seg_desc_t =
  seg_lim_15_00 :: u16
  base_15_00 :: u16
  base_23_16 :: u8
  seg_type :: "4 word"
  seg_sys :: bool
  seg_dpl :: "2 word"
  seg_present :: bool
  seg_lim_19_16 :: "4 word"
  seg_avail :: bool
  seg_reserved :: bool
  seg_opsize :: bool
  seg_granularity :: bool
  base_31_24 :: u8

definition seg_val :: "seg_desc_t \<Rightarrow> u32 \<times> u32" where
  "seg_val d =
     (ucast (seg_lim_15_00 d) OR push_bit 16 (ucast (base_15_00 d)),
      ucast (base_23_16 d) OR push_bit 8 (ucast (seg_type d)) OR push_bit 12 (of_bool (seg_sys d))
        OR push_bit 13 (ucast (seg_dpl d)) OR push_bit 15 (of_bool (seg_present d)) OR push_bit 16 (ucast (seg_lim_19_16 d))
        OR push_bit 20 (of_bool (seg_avail d)) OR push_bit 21 (of_bool (seg_reserved d)) OR push_bit 22 (of_bool (seg_opsize d))
        OR push_bit 23 (of_bool (seg_granularity d)) OR push_bit 24 (ucast (base_31_24 d)))"

text \<open>\<open>SET_LDT_PARAMS\<close> and \<open>SET_TSS_PARAMS\<close> have the same body.\<close>

definition SET_LDT_PARAMS :: "seg_desc_t \<Rightarrow> u32 \<Rightarrow> u32 \<Rightarrow> seg_desc_t" where
  "SET_LDT_PARAMS str addr lim = str\<lparr> base_31_24 := ucast (drop_bit 24 (addr AND 0xFF000000)),
     base_23_16 := ucast (drop_bit 16 (addr AND 0x00FF0000)), base_15_00 := ucast (addr AND 0x0000FFFF),
     seg_lim_19_16 := ucast (drop_bit 16 (lim AND 0x000F0000)), seg_lim_15_00 := ucast (lim AND 0x0000FFFF) \<rparr>"

definition SET_TSS_PARAMS :: "seg_desc_t \<Rightarrow> u32 \<Rightarrow> u32 \<Rightarrow> seg_desc_t" where
  "SET_TSS_PARAMS str addr lim = str\<lparr> base_31_24 := ucast (drop_bit 24 (addr AND 0xFF000000)),
     base_23_16 := ucast (drop_bit 16 (addr AND 0x00FF0000)), base_15_00 := ucast (addr AND 0x0000FFFF),
     seg_lim_19_16 := ucast (drop_bit 16 (lim AND 0x000F0000)), seg_lim_15_00 := ucast (lim AND 0x0000FFFF) \<rparr>"

text \<open>The base address, the 20-bit limit and the type of a segment as the processor reads
  them.\<close>

definition seg_base :: "u32 \<times> u32 \<Rightarrow> u32" where
  "seg_base v = drop_bit 16 (fst v) OR push_bit 16 (take_bit 8 (snd v)) OR push_bit 24 (drop_bit 24 (snd v))"

definition seg_limit :: "u32 \<times> u32 \<Rightarrow> u32" where
  "seg_limit v = take_bit 16 (fst v) OR push_bit 16 (take_bit 4 (drop_bit 16 (snd v)))"

definition seg_kind :: "u32 \<times> u32 \<Rightarrow> u32" where
  "seg_kind v = take_bit 8 (drop_bit 8 (snd v))"

lemma byte_masks:
  "ucast (drop_bit 24 ((x :: u32) AND 0xFF000000)) = (ucast (drop_bit 24 x) :: u8)"
  "ucast (drop_bit 16 ((x :: u32) AND 0x00FF0000)) = (ucast (drop_bit 16 x) :: u8)"
  "ucast ((x :: u32) AND 0x0000FFFF) = (ucast x :: u16)"
  "ucast (drop_bit 16 ((x :: u32) AND 0x000F0000)) = (ucast (drop_bit 16 x) :: 4 word)"
proof -
  have h: "(0xFF000000 :: u32) = push_bit 24 (mask 8)" "(0x00FF0000 :: u32) = push_bit 16 (mask 8)"
    "(0x0000FFFF :: u32) = mask 16" "(0x000F0000 :: u32) = push_bit 16 (mask 4)"
    by (simp_all add: mask_eq_exp_minus_1 push_bit_eq_mult)
  show "ucast (drop_bit 24 ((x :: u32) AND 0xFF000000)) = (ucast (drop_bit 24 x) :: u8)"
    "ucast (drop_bit 16 ((x :: u32) AND 0x00FF0000)) = (ucast (drop_bit 16 x) :: u8)"
    "ucast ((x :: u32) AND 0x0000FFFF) = (ucast x :: u16)"
    "ucast (drop_bit 16 ((x :: u32) AND 0x000F0000)) = (ucast (drop_bit 16 x) :: 4 word)"
    unfolding h by (rule bit_word_eqI; auto simp: bit_simps)+
qed

lemma bit_of_bool_word: "bit (of_bool b :: u32) n \<longleftrightarrow> b \<and> n = 0"
  by (cases b) (auto simp: bit_1_iff)

lemma bit_high: "LENGTH('a) \<le> n \<Longrightarrow> bit (w :: 'a::len word) n = False"
  using bit_imp_le_length[of w n] by auto

text \<open>Where the fields are in the two words.\<close>

lemma seg_val_bits:
  "bit (fst (seg_val d)) n \<longleftrightarrow> n < 32 \<and> (if n < 16 then bit (seg_lim_15_00 d) n else bit (base_15_00 d) (n - 16))"
  "n < 8 \<Longrightarrow> bit (snd (seg_val d)) n \<longleftrightarrow> bit (base_23_16 d) n"
  "16 \<le> n \<Longrightarrow> n < 20 \<Longrightarrow> bit (snd (seg_val d)) n \<longleftrightarrow> bit (seg_lim_19_16 d) (n - 16)"
  "24 \<le> n \<Longrightarrow> n < 32 \<Longrightarrow> bit (snd (seg_val d)) n \<longleftrightarrow> bit (base_31_24 d) (n - 24)"
  by (auto simp: seg_val_def bit_simps bit_of_bool_word bit_high)

lemma seg_val_kind:
  "8 \<le> n \<Longrightarrow> n < 16 \<Longrightarrow> bit (snd (seg_val d)) n \<longleftrightarrow> (if n < 12 then bit (seg_type d) (n - 8) else if n = 12 then seg_sys d
     else if n < 15 then bit (seg_dpl d) (n - 13) else seg_present d)"
  by (auto simp: seg_val_def bit_simps bit_of_bool_word bit_high)

text \<open>After \<open>SET_TSS_PARAMS\<close> and \<open>SET_LDT_PARAMS\<close> the processor reads from the
  descriptor exactly the given base address and the low 20 bits of the limit; type,
  privilege level and presence are untouched.\<close>

lemma segment_params:
  assumes "d' = SET_TSS_PARAMS d addr lim \<or> d' = SET_LDT_PARAMS d addr lim"
  shows "seg_base (seg_val d') = addr \<and> seg_limit (seg_val d') = take_bit 20 lim \<and> seg_kind (seg_val d') = seg_kind (seg_val d)"
proof (intro conjI)
  have d': "d' = SET_TSS_PARAMS d addr lim" using assms by (auto simp: SET_TSS_PARAMS_def SET_LDT_PARAMS_def)
  note f = d' SET_TSS_PARAMS_def byte_masks
  show "seg_base (seg_val d') = addr"
  proof (rule bit_word_eqI)
    fix n :: nat assume "n < LENGTH(32)"
    then consider "n < 16" | "16 \<le> n" "n < 24" | "24 \<le> n" "n < 32" by force
    then show "bit (seg_base (seg_val d')) n = bit addr n"
      unfolding f seg_base_def by cases (simp_all add: bit_simps seg_val_bits less_diff_conv2)
  qed
  show "seg_limit (seg_val d') = take_bit 20 lim"
  proof (rule bit_word_eqI)
    fix n :: nat assume "n < LENGTH(32)"
    then consider "n < 16" | "16 \<le> n" "n < 20" | "20 \<le> n" by force
    then show "bit (seg_limit (seg_val d')) n = bit (take_bit 20 lim) n"
      unfolding f seg_limit_def by cases (simp_all add: bit_simps seg_val_bits less_diff_conv2)
  qed
  show "seg_kind (seg_val d') = seg_kind (seg_val d)"
    unfolding f seg_kind_def by (rule bit_word_eqI) (simp add: bit_simps seg_val_kind cong: conj_cong)
qed

text \<open>The type byte of a present system descriptor for the kernel.\<close>

lemma seg_kind_system:
  assumes "seg_type d = t" "\<not> seg_sys d" "seg_dpl d = 0" "seg_present d"
  shows "seg_kind (seg_val d) = (0x80 OR ucast t :: u32)"
proof (rule bit_word_eqI)
  fix n :: nat
  have b: "bit (0x80 :: int) n \<longleftrightarrow> n = 7" using bit_exp_iff[where 'a = int, of 7 n] by auto
  consider "n < 4" | "4 \<le> n" "n < 8" | "8 \<le> n" by linarith
  then show "bit (seg_kind (seg_val d)) n = bit (0x80 OR ucast t :: u32) n"
  proof cases
    case 2
    then have "n = 4 \<or> n = 5 \<or> n = 6 \<or> n = 7" by linarith
    then show ?thesis using assms seg_val_kind[of "8 + n" d] by (auto simp: seg_kind_def bit_simps b bit_high)
  qed (use assms seg_val_kind[of "8 + n" d] in \<open>auto simp: seg_kind_def bit_simps b bit_high\<close>)
qed

end
