(* ===== verification/Handlers.thy ===== *)
theory Handlers
  imports Scheduling Idt
begin

text \<open>
  The exception handlers of kernel_handlers.c, the assembly wrappers of int_wrapper.S around
  them and around the device handlers, and the delivery of an interrupt through the
  descriptor table: the gate names an address, the address a wrapper, and the wrapper calls
  its handler.
\<close>

section \<open>The handlers\<close>

definition k_printf :: "cstring \<Rightarrow> printf_arg list \<Rightarrow> kernel \<Rightarrow> kernel option" where
  "k_printf fmt ars k = map_option (\<lambda>(cm, _). with_con cm k) (printf fmt ars (k_con k) (kview k))"

fun k_printfs :: "(cstring \<times> printf_arg list) list \<Rightarrow> kernel \<Rightarrow> kernel option" where
  "k_printfs [] k = Some k"
| "k_printfs ((fmt, ars) # xs) k = (case k_printf fmt ars k of None \<Rightarrow> None | Some k \<Rightarrow> k_printfs xs k)"

text \<open>Every handler prints and ends the process.\<close>

definition exception :: "(cstring \<times> printf_arg list) list \<Rightarrow> layout \<Rightarrow> kernel \<Rightarrow> (kernel \<times> outcome) option" where
  "exception msgs ly k = (case k_printfs msgs k of None \<Rightarrow> None | Some k \<Rightarrow> exception_halt ly k)"

definition divideByZero :: "layout \<Rightarrow> kernel \<Rightarrow> (kernel \<times> outcome) option" where
  "divideByZero = exception [(lit ''0x00'' @ [10], []), (lit ''OScelot won't let you divide by zero'' @ [10], [])]"

definition debug_handler :: "layout \<Rightarrow> kernel \<Rightarrow> (kernel \<times> outcome) option" where
  "debug_handler = exception [(lit ''0x01'' @ [10], []), (lit ''OScelot won't let you debug'' @ [10], [])]"

definition nonMaskableInterrupts :: "layout \<Rightarrow> kernel \<Rightarrow> (kernel \<times> outcome) option" where
  "nonMaskableInterrupts = exception [(lit ''0x02'' @ [10], []), (lit ''OScelot asks about NMIs'' @ [10], [])]"

definition breakpoint :: "layout \<Rightarrow> kernel \<Rightarrow> (kernel \<times> outcome) option" where
  "breakpoint = exception [(lit ''0x03'' @ [10], []), (lit ''OScelot hits a breakpoint'' @ [10], [])]"

definition overflow :: "layout \<Rightarrow> kernel \<Rightarrow> (kernel \<times> outcome) option" where
  "overflow = exception [(lit ''0x04'' @ [10], []), (lit ''OScelot's cup has overflowed'' @ [10], [])]"

definition bounds :: "layout \<Rightarrow> kernel \<Rightarrow> (kernel \<times> outcome) option" where
  "bounds = exception [(lit ''0x05'' @ [10], []), (lit ''You are intruding on OScelot's bounds'' @ [10], [])]"

definition invalidOpCode :: "layout \<Rightarrow> kernel \<Rightarrow> (kernel \<times> outcome) option" where
  "invalidOpCode = exception [(lit ''0x06'' @ [10], []), (lit ''OScelot doesn't understand your speech'' @ [10], [])]"

definition coprocessorNotAvailable :: "layout \<Rightarrow> kernel \<Rightarrow> (kernel \<times> outcome) option" where
  "coprocessorNotAvailable = exception [(lit ''0x07'' @ [10], []), (lit ''OScelot's pardner ain't here yet'' @ [10], [])]"

definition doubleFault :: "layout \<Rightarrow> kernel \<Rightarrow> (kernel \<times> outcome) option" where
  "doubleFault = exception [(lit ''0x08'' @ [10], []), (lit ''OScelot hit a wall ... again'' @ [10], [])]"

definition coprocessorSegmentOverrun :: "layout \<Rightarrow> kernel \<Rightarrow> (kernel \<times> outcome) option" where
  "coprocessorSegmentOverrun = exception [(lit ''0x09'' @ [10], []), (lit ''OScelot's pardner's segment has been overrun'' @ [10], [])]"

definition invalidTaskStateSegment :: "layout \<Rightarrow> kernel \<Rightarrow> (kernel \<times> outcome) option" where
  "invalidTaskStateSegment = exception [(lit ''0x0A'' @ [10], []), (lit ''OScelot's TSS failed. You incompetent programmer'' @ [10], [])]"

definition segmentNotPresent :: "layout \<Rightarrow> kernel \<Rightarrow> (kernel \<times> outcome) option" where
  "segmentNotPresent = exception [(lit ''0x0B'' @ [10], []), (lit ''OScelot doesn't know what segment you are talking about'' @ [10], [])]"

definition stackFault :: "layout \<Rightarrow> kernel \<Rightarrow> (kernel \<times> outcome) option" where
  "stackFault = exception [(lit ''0x0C'' @ [10], []), (lit ''OScelot suggests you check the stack fault thingamajig'' @ [10], [])]"

definition generalProtectionFault :: "layout \<Rightarrow> kernel \<Rightarrow> (kernel \<times> outcome) option" where
  "generalProtectionFault = exception [(lit ''0x0D'' @ [10], []), (lit ''OScelot can't protect you any more'' @ [10], [])]"


text \<open>\<open>pageFault\<close> reads CR2 and the word on top of its own stack frame as the error code.\<close>

definition page_fault_messages :: "u32 \<Rightarrow> u32 \<Rightarrow> (cstring \<times> printf_arg list) list" where
  "page_fault_messages cr2 error_code =
     (let cr2_P = error_code AND 1;
          error_code = drop_bit 1 error_code;
          cr2_RW = error_code AND 1;
          error_code = drop_bit 1 error_code;
          cr2_US = error_code AND 1;
          error_code = drop_bit 1 error_code;
          cr2_RSVD = error_code AND 1
      in [(lit ''0x0E'' @ [10], []),
          (lit ''OScelot's book has a page fault. He can't read his book now. Happy?'' @ [10], []),
          ([10] @ lit ''Page Fault Information:'' @ [10], []),
          (lit ''Page Fault at address: 0x%#x'' @ [10], [Word_arg cr2]),
          (lit ''P flag (0 - non-present page; 1 - protection violation): %d'' @ [10], [Word_arg cr2_P]),
          (lit ''R/W flag (0 - occurred on a read; 1 - occurred on a write): %d'' @ [10], [Word_arg cr2_RW]),
          (lit ''U/S flag (0 - occurred in Supervisor Mode; 1 - occured in User Mode): %d'' @ [10], [Word_arg cr2_US]),
          (lit ''RSVD flag (0 - not caused by RSVD bit violation; 1 - caused by RSVD bits): %d'' @ [10], [Word_arg cr2_RSVD])])"

definition pageFault :: "u32 \<Rightarrow> u32 \<Rightarrow> layout \<Rightarrow> kernel \<Rightarrow> (kernel \<times> outcome) option" where
  "pageFault cr2 error_code = exception (page_fault_messages cr2 error_code)"

definition reserved :: "layout \<Rightarrow> kernel \<Rightarrow> (kernel \<times> outcome) option" where
  "reserved = exception [(lit ''0x0F'' @ [10], []), (lit ''OScelot won't let you do that'' @ [10], [])]"

definition mathFault :: "layout \<Rightarrow> kernel \<Rightarrow> (kernel \<times> outcome) option" where
  "mathFault = exception [(lit ''0x10'' @ [10], []), (lit ''OScelot can't do the math'' @ [10], [])]"

definition alignmentCheck :: "layout \<Rightarrow> kernel \<Rightarrow> (kernel \<times> outcome) option" where
  "alignmentCheck = exception [(lit ''0x11'' @ [10], []), (lit ''OScelot asks you to check your alignment'' @ [10], [])]"

definition machineCheck :: "layout \<Rightarrow> kernel \<Rightarrow> (kernel \<times> outcome) option" where
  "machineCheck = exception [(lit ''0x12'' @ [10], []), (lit ''OScelot needs you to check your machine and cry'' @ [10], [])]"

definition simdFloatingPointException :: "layout \<Rightarrow> kernel \<Rightarrow> (kernel \<times> outcome) option" where
  "simdFloatingPointException = exception [(lit ''0x13'' @ [10], []), (lit ''OScelot can't handle floats right now'' @ [10], [])]"

section \<open>Wrappers and delivery\<close>

text \<open>What the processor state adds to the kernel state at an interrupt: stack pointers, the
  key's scancode, CR2 and the stack word for a page fault, the registers of a system call
  and the number of interrupts until a blocking call can go on.\<close>

record event =
  e_esp :: i32
  e_ebp :: i32
  e_scancode :: u8
  e_cr2 :: u32
  e_top :: u32
  e_eax :: i32
  e_ebx :: u32
  e_ecx :: u32
  e_edx :: u32
  e_wait :: nat

definition int_wrapper :: "(kernel \<Rightarrow> (kernel \<times> outcome) option) \<Rightarrow> kernel \<Rightarrow> (kernel \<times> outcome) option" where
  "int_wrapper handler k =
     (case handler (with_pic cli k) of
        Some (k, Ret r) \<Rightarrow> Some (with_pic sti k, Ret r)
      | r \<Rightarrow> r)"

fun call_wrapper :: "layout \<Rightarrow> event \<Rightarrow> wrapper \<Rightarrow> kernel \<Rightarrow> (kernel \<times> outcome) option" where
  "call_wrapper ly e divideByZero_wrapper = int_wrapper (divideByZero ly)"
| "call_wrapper ly e debug_wrapper = int_wrapper (debug_handler ly)"
| "call_wrapper ly e nonMaskableInterrupts_wrapper = int_wrapper (nonMaskableInterrupts ly)"
| "call_wrapper ly e breakpoint_wrapper = int_wrapper (breakpoint ly)"
| "call_wrapper ly e overflow_wrapper = int_wrapper (overflow ly)"
| "call_wrapper ly e bounds_wrapper = int_wrapper (bounds ly)"
| "call_wrapper ly e invalidOpCode_wrapper = int_wrapper (invalidOpCode ly)"
| "call_wrapper ly e coprocessorNotAvailable_wrapper = int_wrapper (coprocessorNotAvailable ly)"
| "call_wrapper ly e doubleFault_wrapper = int_wrapper (doubleFault ly)"
| "call_wrapper ly e coprocessorSegmentOverrun_wrapper = int_wrapper (coprocessorSegmentOverrun ly)"
| "call_wrapper ly e invalidTaskStateSegment_wrapper = int_wrapper (invalidTaskStateSegment ly)"
| "call_wrapper ly e segmentNotPresent_wrapper = int_wrapper (segmentNotPresent ly)"
| "call_wrapper ly e stackFault_wrapper = int_wrapper (stackFault ly)"
| "call_wrapper ly e generalProtectionFault_wrapper = int_wrapper (generalProtectionFault ly)"
| "call_wrapper ly e pageFault_wrapper = int_wrapper (pageFault (e_cr2 e) (e_top e) ly)"
| "call_wrapper ly e reserved_wrapper = int_wrapper (reserved ly)"
| "call_wrapper ly e mathFault_wrapper = int_wrapper (mathFault ly)"
| "call_wrapper ly e alignmentCheck_wrapper = int_wrapper (alignmentCheck ly)"
| "call_wrapper ly e machineCheck_wrapper = int_wrapper (machineCheck ly)"
| "call_wrapper ly e simdFloatingPointException_wrapper = int_wrapper (simdFloatingPointException ly)"
| "call_wrapper ly e rtcHandler_wrapper = int_wrapper (\<lambda>k. Some (k_rtcHandler k, Ret 0))"
| "call_wrapper ly e keyboardHandler_wrapper = int_wrapper (keyboardHandler ly (e_esp e) (e_ebp e) (e_scancode e))"
| "call_wrapper ly e pitHandler_wrapper = int_wrapper (pitHandler ly (e_esp e) (e_ebp e))"
| "call_wrapper ly e syscall_gate = syscall_wrapper ly (e_wait e) (e_esp e) (e_ebp e) (e_eax e) (e_ebx e) (e_ecx e) (e_edx e)"

text \<open>The processor's part: no result when the gate is not present or leads to no wrapper.\<close>

definition deliver :: "(wrapper \<Rightarrow> u32) \<Rightarrow> (nat \<Rightarrow> idt_desc_t) \<Rightarrow> layout \<Rightarrow> event \<Rightarrow> nat \<Rightarrow> kernel \<Rightarrow> (kernel \<times> outcome) option" where
  "deliver addr idt ly e n k =
     (let v = idt_val (idt n)
      in if \<not> gate_valid v then None
         else case List.find (\<lambda>w. addr w = gate_offset v) (syscall_gate # map snd kernel_gates) of
                None \<Rightarrow> None
              | Some w \<Rightarrow> call_wrapper ly e w (if gate_type v = 0xE then with_pic cli k else k))"

section \<open>Every message can be printed\<close>

text \<open>A format and arguments that \<open>printf\<close> gets through on any screen.\<close>

definition printable :: "cstring \<times> printf_arg list \<Rightarrow> bool" where
  "printable f \<longleftrightarrow> (\<forall>c m. \<exists>c' m'. printf_loop (fst f) (snd f) c m = Some (c', m'))"

text \<open>The arguments fit the conversions of the format (the flag is set inside a conversion).\<close>

fun args_match :: "bool \<Rightarrow> u8 list \<Rightarrow> printf_arg list \<Rightarrow> bool" where
  "args_match inside [] ars = (\<not> inside)"
| "args_match False (ch # fmt) ars = args_match (ch = 37) fmt ars"
| "args_match True (ch # fmt) ars =
     (if ch = 35 then args_match True fmt ars
      else if ch \<in> {120, 117, 100, 99} then (case ars of Word_arg _ # ars \<Rightarrow> args_match False fmt ars | _ \<Rightarrow> False)
      else if ch = 115 then (case ars of Str_arg _ # ars \<Rightarrow> args_match False fmt ars | _ \<Rightarrow> False)
      else args_match False fmt ars)"

lemma conversion_match:
  "args_match True fmt ars \<Longrightarrow> \<exists>s fmt' ars'. conversion fmt ars alt = Some (s, fmt', ars') \<and> args_match False fmt' ars'"
proof (induction fmt ars alt rule: conversion.induct)
  case (2 ch fmt ars alt)
  then show ?case
    using conv_numeral[of 10] conv_numeral[of 16]
    by (auto simp: byte_of_def split: list.splits printf_arg.splits if_splits)
qed simp

lemma args_match_printable: "args_match False fmt ars \<Longrightarrow> printable (fmt, ars)"
proof -
  have "\<exists>c' m'. printf_loop fmt ars c m = Some (c', m')" if "args_match False fmt ars" for c m
    using that
  proof (induction fmt ars c m rule: printf_loop.induct)
    case (2 ch buf ars c m)
    show ?case
    proof (cases "ch = 37")
      case True
      then obtain s buf' ars' where cv: "conversion buf ars False = Some (s, buf', ars')" "args_match False buf' ars'"
        using conversion_match[of buf ars False] 2(3) by auto
      then show ?thesis using 2(1)[OF _ cv(1) refl refl refl, of "fst (puts s c m)" "snd (puts s c m)"] True
        by (simp add: byte_of_def split_beta)
    next
      case False
      then show ?thesis using 2(2)[OF _ refl, of "fst (putc ch c m)" "snd (putc ch c m)"] 2(3) by (simp add: byte_of_def split_beta)
    qed
  qed simp
  then show "args_match False fmt ars \<Longrightarrow> printable (fmt, ars)" by (simp add: printable_def)
qed

lemma k_printf_total:
  "printable (fmt, ars) \<Longrightarrow> \<exists>k'. k_printf fmt ars k = Some k' \<and> keeps k k' \<and> processes k' = processes k"
proof -
  assume "printable (fmt, ars)"
  then obtain c m where "printf_loop fmt ars (k_con k) (kview k) = Some (c, m)" unfolding printable_def by fastforce
  then have "k_printf fmt ars k = Some (with_con (set_cursor 0 c, m) k)" by (simp add: k_printf_def printf_def)
  moreover have "keeps k (with_con (set_cursor 0 c, m) k)" by (rule keeps_same) simp_all
  ultimately show ?thesis by simp
qed

lemma k_printfs_total:
  "\<forall>f \<in> set msgs. printable f \<Longrightarrow> \<exists>k'. k_printfs msgs k = Some k' \<and> keeps k k' \<and> processes k' = processes k"
proof (induction msgs k rule: k_printfs.induct)
  case (2 fmt ars xs k)
  obtain k1 where "k_printf fmt ars k = Some k1" "keeps k k1" "processes k1 = processes k"
    using k_printf_total[of fmt ars k] 2(2) by auto
  then show ?case using 2 keeps_trans by force
qed auto

lemmas plain_handlers = divideByZero_def debug_handler_def nonMaskableInterrupts_def breakpoint_def overflow_def bounds_def invalidOpCode_def coprocessorNotAvailable_def doubleFault_def coprocessorSegmentOverrun_def invalidTaskStateSegment_def segmentNotPresent_def stackFault_def generalProtectionFault_def reserved_def mathFault_def alignmentCheck_def machineCheck_def simdFloatingPointException_def

text \<open>Handlers that print and end the process.\<close>

definition ends_process :: "(layout \<Rightarrow> kernel \<Rightarrow> (kernel \<times> outcome) option) \<Rightarrow> bool" where
  "ends_process h \<longleftrightarrow> (\<exists>msgs. (\<forall>f \<in> set msgs. printable f) \<and> h = exception msgs)"

lemma ends_exception: "list_all (\<lambda>(fmt, ars). args_match False fmt ars) msgs \<Longrightarrow> ends_process (exception msgs)"
  unfolding ends_process_def by (rule exI[of _ msgs]) (auto simp: list_all_iff intro: args_match_printable)

lemma ends_handlers:
  "ends_process divideByZero" "ends_process debug_handler" "ends_process nonMaskableInterrupts" "ends_process breakpoint" "ends_process overflow" "ends_process bounds" "ends_process invalidOpCode" "ends_process coprocessorNotAvailable" "ends_process doubleFault" "ends_process coprocessorSegmentOverrun" "ends_process invalidTaskStateSegment" "ends_process segmentNotPresent" "ends_process stackFault" "ends_process generalProtectionFault" "ends_process reserved" "ends_process mathFault" "ends_process alignmentCheck" "ends_process machineCheck" "ends_process simdFloatingPointException"
  unfolding plain_handlers by (rule ends_exception; simp add: lit_def byte_of_def)+

lemma ends_pageFault: "ends_process (pageFault cr2 err)"
  unfolding pageFault_def page_fault_messages_def Let_def by (rule ends_exception) (simp add: lit_def byte_of_def)

section \<open>An exception ends the running process\<close>

lemma exception_spec:
  assumes "proc_inv k st t" and "ends_process h"
  shows "\<exists>k' out. h ly k = Some (k', out) \<and>
    (\<forall>p q xs. st t = p # q # xs \<longrightarrow> out = Resume_execute (ebp_execute (processes k q)) (esp_execute (processes k q)) 256 \<and>
       CPID k' = q \<and> proc_inv k' (st(t := q # xs)) t) \<and>
    (\<forall>p. st t = [p] \<longrightarrow> (\<exists>q. a_free (st(t := [])) = Some q \<and> CPID k' = q \<and> proc_inv k' (st(t := [q])) t))"
proof -
  obtain msgs where m: "\<forall>f \<in> set msgs. printable f" and h: "h = exception msgs" using assms(2) by (auto simp: ends_process_def)
  obtain k1 where k1: "k_printfs msgs k = Some k1" "keeps k k1" "processes k1 = processes k" using k_printfs_total[OF m] by blast
  have inv: "proc_inv k1 st t" using proc_inv_keeps[OF k1(2) assms(1)] .
  have e: "h ly k = halt_process ly 256 k1" by (simp add: h exception_def k1(1) exception_halt_def)
  have "st t \<noteq> []" using assms(1) by (simp add: proc_inv_def)
  then consider p where "st t = [p]" | p q xs where "st t = p # q # xs" by (metis neq_Nil_conv)
  then show ?thesis
  proof cases
    case 1
    then show ?thesis using halt_last[OF inv 1, of ly 256] e by auto
  next
    case 2
    then show ?thesis using halt_spec[OF inv 2, of ly 256] e k1(3) by auto
  qed
qed

lemma exception_wrapper:
  assumes "n < 20"
  shows "\<exists>w h. map_of kernel_gates n = Some w \<and> call_wrapper ly e w = int_wrapper (h ly) \<and> ends_process h"
proof -
  have "n \<in> {0, 1, 2, 3, 4, 5, 6, 7, 8, 9, 10, 11, 12, 13, 14, 15, 16, 17, 18, 19}"
    unfolding insert_iff empty_iff using assms by presburger
  then show ?thesis
    by (elim insertE emptyE) (simp_all add: kernel_gates_def, (use ends_handlers ends_pageFault in blast)+)
qed

lemma deliver_gate:
  assumes "inj addr" and "map_of kernel_gates n = Some w"
  shows "deliver addr (idt_init addr junk t) ly e n k = call_wrapper ly e w (with_pic cli k)"
proof -
  have n: "n \<noteq> 128" "w \<in> set (map snd kernel_gates)" "w \<noteq> syscall_gate"
    using assms(2) by (auto simp: kernel_gates_def split: if_splits)
  have "List.find (\<lambda>x. addr x = addr w) (syscall_gate # map snd kernel_gates) = Some w"
    using n(2,3) assms(1) by (auto simp: find_Some_iff2 inj_eq kernel_gates_def)
  then show ?thesis by (simp add: deliver_def idt_init_entry n(1) assms(2) kernel_gate del: find.simps)
qed

lemma wrapper_ends:
  assumes "proc_inv k st t" and "ends_process h"
  shows "\<exists>k' out. int_wrapper (h ly) (with_pic cli k) = Some (k', out) \<and>
    (\<forall>p q xs. st t = p # q # xs \<longrightarrow> out = Resume_execute (ebp_execute (processes k q)) (esp_execute (processes k q)) 256 \<and>
       CPID k' = q \<and> proc_inv k' (st(t := q # xs)) t) \<and>
    (\<forall>p. st t = [p] \<longrightarrow> (\<exists>q. a_free (st(t := [])) = Some q \<and> CPID k' = q \<and> proc_inv k' (st(t := [q])) t))"
proof -
  let ?k = "with_pic cli (with_pic cli k)"
  have "proc_inv ?k st t" by (rule proc_inv_keeps[OF _ assms(1)]) (rule keeps_same, simp_all)
  from exception_spec[OF this assms(2), of ly] obtain k' out where h: "h ly ?k = Some (k', out)"
    and r: "\<And>p q xs. st t = p # q # xs \<Longrightarrow> out = Resume_execute (ebp_execute (processes k q)) (esp_execute (processes k q)) 256 \<and>
       CPID k' = q \<and> proc_inv k' (st(t := q # xs)) t"
    and l: "\<And>p. st t = [p] \<Longrightarrow> \<exists>q. a_free (st(t := [])) = Some q \<and> CPID k' = q \<and> proc_inv k' (st(t := [q])) t"
    by auto
  have sti: "proc_inv (with_pic sti k') st' t'" if "proc_inv k' st' t'" for st' t'
    by (rule proc_inv_keeps[OF _ that]) (rule keeps_same, simp_all)
  have e: "int_wrapper (h ly) (with_pic cli k) = Some (case out of Ret _ \<Rightarrow> with_pic sti k' | _ \<Rightarrow> k', out)"
    by (simp add: int_wrapper_def h split: outcome.splits)
  have o: "out = Resume_execute (ebp_execute (processes k q)) (esp_execute (processes k q)) 256 \<and>
      CPID (case out of Ret _ \<Rightarrow> with_pic sti k' | _ \<Rightarrow> k') = q \<and>
      proc_inv (case out of Ret _ \<Rightarrow> with_pic sti k' | _ \<Rightarrow> k') (st(t := q # xs)) t" if "st t = p # q # xs" for p q xs
    using r[OF that] by simp
  have "\<exists>q. a_free (st(t := [])) = Some q \<and> CPID (case out of Ret _ \<Rightarrow> with_pic sti k' | _ \<Rightarrow> k') = q \<and>
      proc_inv (case out of Ret _ \<Rightarrow> with_pic sti k' | _ \<Rightarrow> k') (st(t := [q])) t" if "st t = [p]" for p
    using l[OF that] sti by (cases out) auto
  with e o show ?thesis by blast
qed


section \<open>A concrete table\<close>

definition demo_wrappers :: "wrapper list" where
  "demo_wrappers = syscall_gate # map snd kernel_gates"

definition demo_addr :: "wrapper \<Rightarrow> u32" where
  "demo_addr w = of_nat (length (takeWhile (\<lambda>x. x \<noteq> w) demo_wrappers))"

lemma demo_addr_inj: "inj demo_addr"
proof (rule inj_on_inverseI)
  fix w :: wrapper
  show "demo_wrappers ! unat (demo_addr w) = w" by (cases w) (simp_all add: demo_addr_def demo_wrappers_def kernel_gates_def)
qed

definition demo_gate :: idt_desc_t where
  "demo_gate = \<lparr> offset_15_00 = 0, seg_selector = 0, reserved4 = 0, reserved3 = False, reserved2 = False, reserved1 = False,
     gate_size = False, reserved0 = False, gate_dpl = 0, gate_present = False, offset_31_16 = 0 \<rparr>"

definition demo_event :: event where
  "demo_event = \<lparr> e_esp = 7, e_ebp = 8, e_scancode = 0, e_cr2 = 0x1234, e_top = 6, e_eax = 0, e_ebx = 0, e_ecx = 0, e_edx = 0, e_wait = 0 \<rparr>"


end
