(* ===== verification/Boot.thy ===== *)
theory Boot
  imports Loading Handlers
begin

unbundle bit_operations_syntax

text \<open>
  \<open>entry\<close> of kernel.c: the messages about the boot loader's data, the segment descriptors,
  the initialisation of every component, and the first shell.  Until \<open>paging_init\<close> the
  processor uses physical addresses.  The boot loader's structures are read from memory at
  the offsets of multiboot.h each time the source reads them.
\<close>

section \<open>State and linker symbols\<close>

abbreviation KERNEL_LDT :: u16 where "KERNEL_LDT \<equiv> 0x38"
abbreviation KERNEL_TSS :: u16 where "KERNEL_TSS \<equiv> 0x30"
abbreviation TSS_SIZE :: u32 where "TSS_SIZE \<equiv> 104"
abbreviation MULTIBOOT_BOOTLOADER_MAGIC :: u32 where "MULTIBOOT_BOOTLOADER_MAGIC \<equiv> 0x2BADB002"

record machine =
  m_k :: kernel
  m_idt :: "nat \<Rightarrow> idt_desc_t"
  ldt_desc_ptr :: seg_desc_t
  tss_desc_ptr :: seg_desc_t
  ldt_segment_selector :: u16
  ldtr :: u16
  tr :: u16

text \<open>Addresses and sizes of x86_desc.S, the wrappers' addresses, the contents of the
  uninitialised local descriptors, and the value read from the clock's register B.\<close>

record link =
  lk_ly :: layout
  lk_addr :: "wrapper \<Rightarrow> u32"
  lk_ldt :: u32
  lk_ldt_size :: u32
  lk_tss :: u32
  lk_tss_size :: u32
  lk_gate :: idt_desc_t
  lk_seg :: seg_desc_t
  lk_regB :: u8

datatype boot_outcome = Returned | Running u32 | Spinning

definition with_k :: "kernel \<Rightarrow> machine \<Rightarrow> machine" where
  "with_k k m = m\<lparr> m_k := k \<rparr>"

section \<open>The boot loader's data\<close>

definition CHECK_FLAG :: "u32 \<Rightarrow> nat \<Rightarrow> bool" where
  "CHECK_FLAG fl b \<longleftrightarrow> fl AND push_bit b 1 \<noteq> 0"

definition mbi_flags :: "mem \<Rightarrow> u32 \<Rightarrow> u32" where "mbi_flags m mbi = rd32 m mbi"
definition mem_lower :: "mem \<Rightarrow> u32 \<Rightarrow> u32" where "mem_lower m mbi = rd32 m (mbi + 4)"
definition mem_upper :: "mem \<Rightarrow> u32 \<Rightarrow> u32" where "mem_upper m mbi = rd32 m (mbi + 8)"
definition boot_device :: "mem \<Rightarrow> u32 \<Rightarrow> u32" where "boot_device m mbi = rd32 m (mbi + 12)"
definition cmdline :: "mem \<Rightarrow> u32 \<Rightarrow> u32" where "cmdline m mbi = rd32 m (mbi + 16)"
definition mods_count :: "mem \<Rightarrow> u32 \<Rightarrow> u32" where "mods_count m mbi = rd32 m (mbi + 20)"
definition mods_addr :: "mem \<Rightarrow> u32 \<Rightarrow> u32" where "mods_addr m mbi = rd32 m (mbi + 24)"
definition elf_sec :: "mem \<Rightarrow> u32 \<Rightarrow> nat \<Rightarrow> u32" where "elf_sec m mbi i = rd32 m (mbi + 28 + 4 * of_nat i)"
definition mmap_length :: "mem \<Rightarrow> u32 \<Rightarrow> u32" where "mmap_length m mbi = rd32 m (mbi + 44)"
definition mmap_addr :: "mem \<Rightarrow> u32 \<Rightarrow> u32" where "mmap_addr m mbi = rd32 m (mbi + 48)"
definition mod_start :: "mem \<Rightarrow> u32 \<Rightarrow> u32" where "mod_start m p = rd32 m p"
definition mod_end :: "mem \<Rightarrow> u32 \<Rightarrow> u32" where "mod_end m p = rd32 m (p + 4)"

text \<open>The string that \<open>%s\<close> prints.\<close>

definition str_at :: "mem \<Rightarrow> u32 \<Rightarrow> cstring option" where
  "str_at m p = map_option (\<lambda>n. map (arr m p) [0..<unat n]) (strlen m p)"

definition nl :: "string \<Rightarrow> cstring" where
  "nl s = lit s @ [10]"

text \<open>The inner and outer loops over the modules; the bytes are signed.\<close>

fun print_bytes :: "nat \<Rightarrow> nat \<Rightarrow> u32 \<Rightarrow> kernel \<Rightarrow> kernel option" where
  "print_bytes 0 i p k = Some k"
| "print_bytes (Suc n) i p k =
     (case k_printf (lit ''0x%x '') [Word_arg (scast (kview k (mod_start (kview k) p + of_nat i)))] k of
        None \<Rightarrow> None | Some k \<Rightarrow> print_bytes n (i + 1) p k)"

definition print_module :: "u32 \<Rightarrow> u32 \<Rightarrow> kernel \<Rightarrow> kernel option" where
  "print_module mod_count p k =
     (case k_printf (nl ''Module %d loaded at address: 0x%#x'') [Word_arg mod_count, Word_arg (mod_start (kview k) p)] k of
        None \<Rightarrow> None | Some k \<Rightarrow>
      case k_printf (nl ''Module %d ends at address: 0x%#x'') [Word_arg mod_count, Word_arg (mod_end (kview k) p)] k of
        None \<Rightarrow> None | Some k \<Rightarrow>
      case k_printf (nl ''First few bytes of module:'') [] k of None \<Rightarrow> None | Some k \<Rightarrow>
      case print_bytes 16 0 p k of None \<Rightarrow> None | Some k \<Rightarrow> k_printf [10] [] k)"

partial_function (option) print_modules :: "u32 \<Rightarrow> u32 \<Rightarrow> u32 \<Rightarrow> kernel \<Rightarrow> kernel option" where
  "print_modules mbi mod_count p k =
     (if mod_count < mods_count (kview k) mbi
      then case print_module mod_count p k of None \<Rightarrow> None | Some k \<Rightarrow> print_modules mbi (mod_count + 1) (p + 16) k
      else Some k)"

partial_function (option) print_mmap :: "u32 \<Rightarrow> u32 \<Rightarrow> kernel \<Rightarrow> kernel option" where
  "print_mmap mbi p k =
     (if p < mmap_addr (kview k) mbi + mmap_length (kview k) mbi
      then case k_printf (nl '' size = 0x%x,     base_addr = 0x%#x%#x'' @ nl ''     type = 0x%x,  length    = 0x%#x%#x'')
                  [Word_arg (rd32 (kview k) p), Word_arg (rd32 (kview k) (p + 8)), Word_arg (rd32 (kview k) (p + 4)),
                   Word_arg (rd32 (kview k) (p + 20)), Word_arg (rd32 (kview k) (p + 16)), Word_arg (rd32 (kview k) (p + 12))] k of
             None \<Rightarrow> None
           | Some k \<Rightarrow> print_mmap mbi (p + rd32 (kview k) p + 4) k
      else Some k)"

definition print_if :: "nat \<Rightarrow> u32 \<Rightarrow> (kernel \<Rightarrow> kernel option) \<Rightarrow> kernel \<Rightarrow> kernel option" where
  "print_if b mbi f k = (if CHECK_FLAG (mbi_flags (kview k) mbi) b then f k else Some k)"

text \<open>The messages up to the check of bits 4 and 5, and those after it.\<close>

definition print_info :: "u32 \<Rightarrow> kernel \<Rightarrow> kernel option" where
  "print_info mbi k =
     (case k_printf (nl ''flags = 0x%#x'') [Word_arg (mbi_flags (kview k) mbi)] k of None \<Rightarrow> None | Some k \<Rightarrow>
      case print_if 0 mbi (\<lambda>k. k_printf (nl ''mem_lower = %uKB, mem_upper = %uKB'')
              [Word_arg (mem_lower (kview k) mbi), Word_arg (mem_upper (kview k) mbi)] k) k of None \<Rightarrow> None | Some k \<Rightarrow>
      case print_if 1 mbi (\<lambda>k. k_printf (nl ''boot_device = 0x%#x'') [Word_arg (boot_device (kview k) mbi)] k) k of
        None \<Rightarrow> None | Some k \<Rightarrow>
      case print_if 2 mbi (\<lambda>k. case str_at (kview k) (cmdline (kview k) mbi) of None \<Rightarrow> None
              | Some s \<Rightarrow> k_printf (nl ''cmdline = %s'') [Str_arg s] k) k of None \<Rightarrow> None | Some k \<Rightarrow>
      print_if 3 mbi (\<lambda>k. print_modules mbi 0 (mods_addr (kview k) mbi) k) k)"

definition print_more :: "u32 \<Rightarrow> kernel \<Rightarrow> kernel option" where
  "print_more mbi k =
     (case print_if 5 mbi (\<lambda>k. k_printf (lit ''elf_sec: num = %u, size = 0x%#x,'' @ nl '' addr = 0x%#x, shndx = 0x%#x'')
              (map (\<lambda>i. Word_arg (elf_sec (kview k) mbi i)) [0, 1, 2, 3]) k) k of None \<Rightarrow> None | Some k \<Rightarrow>
      print_if 6 mbi (\<lambda>k. case k_printf (nl ''mmap_addr = 0x%#x, mmap_length = 0x%x'')
              [Word_arg (mmap_addr (kview k) mbi), Word_arg (mmap_length (kview k) mbi)] k of None \<Rightarrow> None
            | Some k \<Rightarrow> print_mmap mbi (mmap_addr (kview k) mbi) k) k)"

section \<open>Descriptors and devices\<close>

definition boot_descriptors :: "link \<Rightarrow> machine \<Rightarrow> machine" where
  "boot_descriptors lk m =
     (let the_ldt_desc = (lk_seg lk)\<lparr> seg_granularity := False, seg_opsize := True, seg_reserved := False, seg_avail := False,
            seg_present := True, seg_dpl := 0, seg_sys := False, seg_type := 2 \<rparr>;
          m = m\<lparr> ldt_desc_ptr := SET_LDT_PARAMS the_ldt_desc (lk_ldt lk) (lk_ldt_size lk), ldtr := KERNEL_LDT \<rparr>;
          the_tss_desc = (lk_seg lk)\<lparr> seg_granularity := False, seg_opsize := False, seg_reserved := False, seg_avail := False,
            seg_lim_19_16 := ucast (TSS_SIZE AND 0x000F0000), seg_present := True, seg_dpl := 0, seg_sys := False, seg_type := 9,
            seg_lim_15_00 := ucast (TSS_SIZE AND 0x0000FFFF) \<rparr>;
          m = m\<lparr> tss_desc_ptr := SET_TSS_PARAMS the_tss_desc (lk_tss lk) (lk_tss_size lk) \<rparr>;
          m = m\<lparr> ldt_segment_selector := KERNEL_LDT \<rparr>;
          m = with_k ((m_k m)\<lparr> tss_ss0 := KERNEL_DS, tss_esp0 := 0x800000 \<rparr>) m
      in m\<lparr> tr := KERNEL_TSS \<rparr>)"

text \<open>Print a message when an initialisation reports failure.\<close>

definition check_init :: "i32 \<Rightarrow> cstring \<Rightarrow> kernel \<Rightarrow> kernel option" where
  "check_init r msg k = (if r \<noteq> 0 then k_printf msg [] k else Some k)"

definition boot_devices :: "link \<Rightarrow> u32 \<Rightarrow> kernel \<Rightarrow> kernel option" where
  "boot_devices lk mbi k =
     (let k = with_pic i8259_init k;
          (rt, p) = rtc_init (lk_regB lk) (k_rtc k) (k_pic k);
          k = k\<lparr> k_rtc := rt, k_pic := p \<rparr>;
          k = with_pic (enable_irq KEYBOARD_IRQ_NUM) k;
          (m, c, r) = paging_init (l_syms (lk_ly lk)) (k_mem k) (k_mmu k);
          k = k\<lparr> k_mem := m, k_mmu := c \<rparr>
      in case check_init r (nl ''ERROR: Paging failed to initialize.'') k of None \<Rightarrow> None | Some k \<Rightarrow>
         let filesys_img = mods_addr (kview k) mbi;
             (fs, vm, r) = fs_init (k_fs k) (kview k) (mod_start (kview k) filesys_img) (mod_end (kview k) filesys_img);
             k = with_mem vm (k\<lparr> k_fs := fs \<rparr>)
         in case check_init r (nl ''ERROR: File system failed to initialize.'') k of None \<Rightarrow> None | Some k \<Rightarrow>
            let k = syscalls_init k;
                k = with_pic pit_init k
            in case k_printf (nl ''Enabling Interrupts'') [] k of None \<Rightarrow> None | Some k \<Rightarrow>
               let k = with_pic sti k;
                   k = with_mem (clear (k_con k) (kview k)) k
               in Some (k\<lparr> k_con := set_pos 0 0 (k_con k) \<rparr>))"

text \<open>The first shell, and what follows if it does not start.\<close>

definition first_shell :: "layout \<Rightarrow> kernel \<Rightarrow> (kernel \<times> boot_outcome) option" where
  "first_shell ly k =
     (case execute_base_shell ly 0 k of
        (k, Enter_user eip) \<Rightarrow> Some (k, Running eip)
      | (k, Ret r) \<Rightarrow> map_option (\<lambda>k. (k, Spinning)) (check_init r (nl ''ERROR: shell failed to run.'') k)
      | (k, _) \<Rightarrow> Some (k, Spinning))"

text \<open>From the segment descriptors to the first shell.\<close>

definition kernel_start :: "link \<Rightarrow> u32 \<Rightarrow> machine \<Rightarrow> (machine \<times> boot_outcome) option" where
  "kernel_start lk mbi m =
     (let m = boot_descriptors lk m;
          m = m\<lparr> m_idt := idt_init (lk_addr lk) (lk_gate lk) (m_idt m) \<rparr>
      in case boot_devices lk mbi (m_k m) of None \<Rightarrow> None | Some k \<Rightarrow>
         map_option (\<lambda>(k, out). (with_k k m, out)) (first_shell (lk_ly lk) k))"

definition entry :: "link \<Rightarrow> u32 \<Rightarrow> u32 \<Rightarrow> machine \<Rightarrow> (machine \<times> boot_outcome) option" where
  "entry lk magic addr m =
     (let k = with_mem (clear (k_con (m_k m)) (kview (m_k m))) (m_k m)
      in if magic \<noteq> MULTIBOOT_BOOTLOADER_MAGIC
         then map_option (\<lambda>k. (with_k k m, Returned)) (k_printf (nl ''Invalid magic number: 0x%#x'') [Word_arg magic] k)
         else case print_info addr k of None \<Rightarrow> None | Some k \<Rightarrow>
              if CHECK_FLAG (mbi_flags (kview k) addr) 4 \<and> CHECK_FLAG (mbi_flags (kview k) addr) 5
              then map_option (\<lambda>k. (with_k k m, Returned)) (k_printf (nl ''Both bits 4 and 5 are set.'') [] k)
              else case print_more addr k of None \<Rightarrow> None | Some k \<Rightarrow> kernel_start lk addr (with_k k m))"

section \<open>Messages before paging\<close>

lemma physical: "\<not> bit (cr0 c) 31 \<Longrightarrow> vview m c = m" "\<not> bit (cr0 c) 31 \<Longrightarrow> kstore m c vm = vm"
  by (simp_all add: vview_def kstore_def translate_def fun_eq_iff)

text \<open>Output: only the console's state and its 4000 bytes of video memory change.\<close>

definition quiet :: "kernel \<Rightarrow> kernel \<Rightarrow> bool" where
  "quiet k k' \<longleftrightarrow> (\<exists>c m. k' = k\<lparr> k_con := c, k_mem := m \<rparr> \<and> con_ok c \<and> video_mem c = video_mem (k_con k) \<and>
     page_frame (k_con k) (k_mem k) m)"

text \<open>Kernel states before paging, with a proper console.\<close>

definition early :: "kernel \<Rightarrow> bool" where
  "early k \<longleftrightarrow> con_ok (k_con k) \<and> \<not> bit (cr0 (k_mmu k)) 31"

lemma quiet_refl: "early k \<Longrightarrow> quiet k k"
  unfolding quiet_def by (intro exI[of _ "k_con k"] exI[of _ "k_mem k"]) (simp add: early_def)

lemma quietI:
  "con_ok c \<Longrightarrow> video_mem c = video_mem (k_con k) \<Longrightarrow> page_frame (k_con k) (k_mem k) m \<Longrightarrow> quiet k (k\<lparr> k_con := c, k_mem := m \<rparr>)"
  unfolding quiet_def by blast

lemma quiet_trans: "quiet k k' \<Longrightarrow> quiet k' k'' \<Longrightarrow> quiet k k''"
proof -
  assume "quiet k k'" "quiet k' k''"
  then obtain c m c' m' where "k'' = k\<lparr> k_con := c', k_mem := m' \<rparr>" "con_ok c'" "video_mem c' = video_mem (k_con k)"
      "page_frame (k_con k) (k_mem k) m" "page_frame (k_con k) m m'"
    by (auto simp: quiet_def page_frame_def)
  then show ?thesis using page_frame_trans by (metis quietI)
qed

lemma quiet_early: "quiet k k' \<Longrightarrow> early k \<Longrightarrow> early k'"
  by (auto simp: quiet_def early_def)

lemma early_view: "early k \<Longrightarrow> kview k = k_mem k"
  by (simp add: early_def physical)

lemma printf_loop_ok:
  "printf_loop fmt ars c m = Some (c', m') \<Longrightarrow> con_ok c \<Longrightarrow> con_ok c' \<and> video_mem c' = video_mem c \<and> page_frame c m m'"
proof (induction fmt ars c m rule: printf_loop.induct)
  case (2 ch buf ars c m)
  show ?case
  proof (cases "ch = 37")
    case True
    then obtain s buf' ars' where cv: "conversion buf ars False = Some (s, buf', ars')"
      using 2(3) by (auto simp: byte_of_def split: option.splits)
    obtain c1 m1 where p: "puts s c m = (c1, m1)" by fastforce
    note ok = puts_ok[OF 2(4) p]
    have "printf_loop buf' ars' c1 m1 = Some (c', m')" using 2(3) True cv p by (simp add: byte_of_def)
    then have "con_ok c' \<and> video_mem c' = video_mem c1 \<and> page_frame c1 m1 m'"
      using 2(1)[OF _ cv refl refl p[symmetric]] True ok by (simp add: byte_of_def)
    then show ?thesis using ok page_frame_trans[of c m m1 c1 m'] by simp
  next
    case False
    obtain c1 m1 where p: "putc ch c m = (c1, m1)" by fastforce
    have ok: "page_frame c m m1" "con_ok c1" "video_mem c1 = video_mem c" using putc_ok[OF 2(4), of ch m] p by (auto simp: putc_spec_def)
    have "printf_loop buf ars c1 m1 = Some (c', m')" using 2(3) False p by (simp add: byte_of_def)
    then have "con_ok c' \<and> video_mem c' = video_mem c1 \<and> page_frame c1 m1 m'"
      using 2(2)[OF _ p[symmetric]] False ok by (simp add: byte_of_def)
    then show ?thesis using ok page_frame_trans[of c m m1 c1 m'] by simp
  qed
qed simp

lemma k_printf_quiet:
  assumes "early k" and "args_match False fmt ars"
  shows "\<exists>k'. k_printf fmt ars k = Some k' \<and> quiet k k'"
proof -
  have e: "con_ok (k_con k)" "\<not> bit (cr0 (k_mmu k)) 31" using assms(1) by (auto simp: early_def)
  obtain c m where p: "printf_loop fmt ars (k_con k) (k_mem k) = Some (c, m)"
    using args_match_printable[OF assms(2)] unfolding printable_def by fastforce
  have "k_printf fmt ars k = Some (k\<lparr> k_con := set_cursor 0 c, k_mem := m \<rparr>)"
    using p e(2) by (simp add: k_printf_def printf_def with_con_def with_mem_def physical)
  moreover have "quiet k (k\<lparr> k_con := set_cursor 0 c, k_mem := m \<rparr>)"
    using printf_loop_ok[OF p e(1)] by (intro quietI) (simp_all add: con_ok_cursor)
  ultimately show ?thesis by blast
qed

text \<open>A step that only prints; such steps compose.\<close>

definition prints :: "(kernel \<Rightarrow> kernel option) \<Rightarrow> kernel \<Rightarrow> bool" where
  "prints f k \<longleftrightarrow> (\<exists>k'. f k = Some k' \<and> quiet k k')"

lemma prints_printf: "early k \<Longrightarrow> args_match False fmt (ars k) \<Longrightarrow> prints (\<lambda>k. k_printf fmt (ars k) k) k"
  unfolding prints_def by (rule k_printf_quiet)

lemma prints_bind:
  assumes "early k" and "prints f k" and "\<And>k'. quiet k k' \<Longrightarrow> early k' \<Longrightarrow> prints g k'"
  shows "prints (\<lambda>k. case f k of None \<Rightarrow> None | Some k \<Rightarrow> g k) k"
proof -
  obtain k1 where k1: "f k = Some k1" "quiet k k1" using assms(2) by (auto simp: prints_def)
  then have "prints g k1" using assms(1,3) quiet_early by blast
  then show ?thesis using k1 quiet_trans by (fastforce simp: prints_def)
qed

lemma prints_if: "early k \<Longrightarrow> (CHECK_FLAG (mbi_flags (kview k) mbi) b \<Longrightarrow> prints f k) \<Longrightarrow> prints (print_if b mbi f) k"
  by (simp add: prints_def print_if_def quiet_refl)

subsection \<open>The loops\<close>

text \<open>Memory that printing cannot touch.\<close>

definition off_screen :: "console \<Rightarrow> u32 \<Rightarrow> nat \<Rightarrow> bool" where
  "off_screen c p n \<longleftrightarrow> (\<forall>i < n. 4000 \<le> unat (p + of_nat i - video_mem c))"

lemma quiet_rd32:
  assumes "quiet k k'" and "off_screen (k_con k) p n" and "j + 4 \<le> n"
  shows "rd32 (k_mem k') (p + of_nat j) = rd32 (k_mem k) (p + of_nat j)"
proof (rule rd32_cong)
  fix i :: nat assume "i < 4"
  then have "4000 \<le> unat (p + of_nat (j + i) - video_mem (k_con k))"
    using assms(2,3) unfolding off_screen_def by (metis add_less_cancel_left less_le_trans)
  then show "arr (k_mem k') (p + of_nat j) i = arr (k_mem k) (p + of_nat j) i"
    using assms(1) by (auto simp: quiet_def page_frame_def arr_def add.assoc)
qed

lemma quiet_screen: "quiet k k' \<Longrightarrow> off_screen (k_con k') p n = off_screen (k_con k) p n"
  by (auto simp: quiet_def off_screen_def)

lemmas mbi_defs = mbi_flags_def mem_lower_def mem_upper_def boot_device_def cmdline_def mods_count_def mods_addr_def
  elf_sec_def mmap_length_def mmap_addr_def

text \<open>The fields of the boot loader's structure do not change while it is printed.\<close>

lemma quiet_mbi:
  assumes "quiet k k'" and "off_screen (k_con k) mbi 52"
  shows "mbi_flags (k_mem k') mbi = mbi_flags (k_mem k) mbi" "cmdline (k_mem k') mbi = cmdline (k_mem k) mbi"
    "mods_count (k_mem k') mbi = mods_count (k_mem k) mbi" "mmap_length (k_mem k') mbi = mmap_length (k_mem k) mbi"
    "mmap_addr (k_mem k') mbi = mmap_addr (k_mem k) mbi"
  using quiet_rd32[OF assms, of 0] quiet_rd32[OF assms, of 16] quiet_rd32[OF assms, of 20] quiet_rd32[OF assms, of 44]
    quiet_rd32[OF assms, of 48]
  by (simp_all add: mbi_defs)

lemma prints_bytes: "early k \<Longrightarrow> prints (print_bytes n i p) k"
proof (induction n arbitrary: i k)
  case 0
  then show ?case by (simp add: prints_def quiet_refl)
next
  case (Suc n)
  obtain k1 where k1: "k_printf (lit ''0x%x '') [Word_arg (scast (kview k (mod_start (kview k) p + of_nat i)))] k = Some k1" "quiet k k1"
    using k_printf_quiet[OF Suc.prems] by (force simp: lit_def byte_of_def)
  have "prints (print_bytes n (i + 1) p) k1" using Suc.IH quiet_early[OF k1(2) Suc.prems] .
  then show ?case using k1 quiet_trans unfolding prints_def by fastforce
qed

lemma prints_module: "early k \<Longrightarrow> prints (print_module mod_count p) k"
  unfolding print_module_def
  by (intro prints_bind prints_printf prints_bytes) (simp_all add: nl_def lit_def byte_of_def)

lemma prints_modules:
  assumes "early k" and "off_screen (k_con k) mbi 52"
  shows "prints (print_modules mbi n p) k"
  using assms
proof (induction "unat (mods_count (k_mem k) mbi) - unat n" arbitrary: n p k)
  case 0
  then show ?case
    by (subst (asm) early_view[symmetric], simp) (simp add: prints_def print_modules.simps[of mbi n p k] word_less_nat_alt quiet_refl)
next
  case (Suc d)
  have lt: "n < mods_count (k_mem k) mbi" using Suc.hyps(2) by (simp add: word_less_nat_alt)
  obtain k1 where k1: "print_module n p k = Some k1" "quiet k k1" using prints_module[OF Suc.prems(1)] by (auto simp: prints_def)
  have e: "early k1" using quiet_early[OF k1(2) Suc.prems(1)] .
  have "unat (n + 1) = Suc (unat n)" using lt by (rule unat_Suc_less)
  then have "d = unat (mods_count (k_mem k1) mbi) - unat (n + 1)"
    using Suc.hyps(2) quiet_mbi(3)[OF k1(2) Suc.prems(2)] by simp
  then have "prints (print_modules mbi (n + 1) (p + 16)) k1"
    using Suc.hyps(1) e Suc.prems(2) quiet_screen[OF k1(2)] by blast
  then obtain k2 where "print_modules mbi (n + 1) (p + 16) k1 = Some k2" "quiet k1 k2" by (auto simp: prints_def)
  then show ?case
    using lt k1 quiet_trans by (auto simp: prints_def print_modules.simps[of mbi n p k] early_view[OF Suc.prems(1)])
qed

text \<open>The walk over the memory map: from an entry to the next.\<close>

definition mmap_next :: "mem \<Rightarrow> u32 \<Rightarrow> u32" where
  "mmap_next m p = p + rd32 m p + 4"

lemma quiet_next: "quiet k k' \<Longrightarrow> off_screen (k_con k) p 4 \<Longrightarrow> mmap_next (k_mem k') p = mmap_next (k_mem k) p"
  using quiet_rd32[of k k' p 4 0] by (simp add: mmap_next_def)

lemma quiet_walk:
  assumes "quiet k k'" and "\<forall>i < n. off_screen (k_con k) ((mmap_next (k_mem k) ^^ i) p) 4"
  shows "i \<le> n \<Longrightarrow> (mmap_next (k_mem k') ^^ i) p = (mmap_next (k_mem k) ^^ i) p"
  using assms(2) by (induction i) (simp_all add: quiet_next[OF assms(1)])

lemma prints_mmap:
  assumes "early k" and "off_screen (k_con k) mbi 52"
    and "\<forall>i < n. off_screen (k_con k) ((mmap_next (k_mem k) ^^ i) p) 4"
    and "\<not> (mmap_next (k_mem k) ^^ n) p < mmap_addr (k_mem k) mbi + mmap_length (k_mem k) mbi"
  shows "prints (print_mmap mbi p) k"
  using assms
proof (induction n arbitrary: p k)
  case 0
  then show ?case by (simp add: prints_def print_mmap.simps[of mbi p k] early_view quiet_refl)
next
  case (Suc n)
  note q = quiet_mbi[OF _ Suc.prems(2)] and offs = Suc.prems(3)
  show ?case
  proof (cases "p < mmap_addr (k_mem k) mbi + mmap_length (k_mem k) mbi")
    case False
    then show ?thesis using Suc.prems(1) by (simp add: prints_def print_mmap.simps[of mbi p k] early_view quiet_refl)
  next
    case True
    let ?f = "\<lambda>k. k_printf (nl '' size = 0x%x,     base_addr = 0x%#x%#x'' @ nl ''     type = 0x%x,  length    = 0x%#x%#x'')
        [Word_arg (rd32 (kview k) p), Word_arg (rd32 (kview k) (p + 8)), Word_arg (rd32 (kview k) (p + 4)),
         Word_arg (rd32 (kview k) (p + 20)), Word_arg (rd32 (kview k) (p + 16)), Word_arg (rd32 (kview k) (p + 12))] k"
    have "prints ?f k" by (rule prints_printf[OF Suc.prems(1)]) (simp add: nl_def lit_def byte_of_def)
    then obtain k1 where k1: "?f k = Some k1" "quiet k k1" by (auto simp: prints_def)
    note e = quiet_early[OF k1(2) Suc.prems(1)] and sc = quiet_screen[OF k1(2)]
    have nx: "mmap_next (k_mem k1) p = mmap_next (k_mem k) p"
      using quiet_next[OF k1(2), of p] offs by (auto dest: spec[of _ 0])
    have walk: "(mmap_next (k_mem k1) ^^ i) (mmap_next (k_mem k) p) = (mmap_next (k_mem k) ^^ Suc i) p" if "i \<le> n" for i
      using quiet_walk[OF k1(2) offs, of "Suc i"] that nx by (simp add: funpow_swap1)
    have "prints (print_mmap mbi (mmap_next (k_mem k) p)) k1"
    proof (rule Suc.IH[OF e])
      show "off_screen (k_con k1) mbi 52" using Suc.prems(2) sc by simp
      show "\<forall>i < n. off_screen (k_con k1) ((mmap_next (k_mem k1) ^^ i) (mmap_next (k_mem k) p)) 4"
        using Suc.prems(3) walk sc by (metis Suc_mono less_imp_le)
      show "\<not> (mmap_next (k_mem k1) ^^ n) (mmap_next (k_mem k) p) < mmap_addr (k_mem k1) mbi + mmap_length (k_mem k1) mbi"
        using walk[of n] Suc.prems(4) q[OF k1(2)] by simp
    qed
    then obtain k2 where k2: "print_mmap mbi (mmap_next (k_mem k) p) k1 = Some k2" "quiet k1 k2" by (auto simp: prints_def)
    have "print_mmap mbi p k = Some k2"
      using True k1(1) k2(1) nx early_view[OF e] early_view[OF Suc.prems(1)]
      by (simp add: print_mmap.simps[of mbi p k] mmap_next_def)
    then show ?thesis using quiet_trans[OF k1(2) k2(2)] by (auto simp: prints_def)
  qed
qed

subsection \<open>All messages\<close>

text \<open>What the messages need from the boot loader: its structure, the command line's NUL and
  the memory map's size fields are not in the video memory, and the walk over the map ends.\<close>

definition mbi_ok :: "kernel \<Rightarrow> u32 \<Rightarrow> bool" where
  "mbi_ok k mbi \<longleftrightarrow> off_screen (k_con k) mbi 52 \<and>
     (\<exists>a. off_screen (k_con k) a 1 \<and> k_mem k a = 0) \<and>
     (\<exists>n. (\<forall>i < n. off_screen (k_con k) ((mmap_next (k_mem k) ^^ i) (mmap_addr (k_mem k) mbi)) 4) \<and>
        \<not> (mmap_next (k_mem k) ^^ n) (mmap_addr (k_mem k) mbi) < mmap_addr (k_mem k) mbi + mmap_length (k_mem k) mbi)"

lemma str_at_total: "m a = 0 \<Longrightarrow> \<exists>s. str_at m p = Some s"
  by (rule first_NUL[of m a p]) (auto simp: str_at_def strlen_def strlen_loop_finds)

lemma mbi_ok_quiet:
  assumes "quiet k k'" and "mbi_ok k mbi"
  shows "mbi_ok k' mbi"
proof -
  have o: "off_screen (k_con k) mbi 52" using assms(2) by (simp add: mbi_ok_def)
  obtain n where n: "\<forall>i < n. off_screen (k_con k) ((mmap_next (k_mem k) ^^ i) (mmap_addr (k_mem k) mbi)) 4"
      "\<not> (mmap_next (k_mem k) ^^ n) (mmap_addr (k_mem k) mbi) < mmap_addr (k_mem k) mbi + mmap_length (k_mem k) mbi"
    using assms(2) by (auto simp: mbi_ok_def)
  obtain a where "off_screen (k_con k) a 1" "k_mem k a = 0" using assms(2) by (auto simp: mbi_ok_def)
  then have "off_screen (k_con k') a 1 \<and> k_mem k' a = 0" using assms(1) by (auto simp: quiet_def off_screen_def page_frame_def)
  moreover have "\<forall>i < n. off_screen (k_con k') ((mmap_next (k_mem k') ^^ i) (mmap_addr (k_mem k') mbi)) 4"
    "\<not> (mmap_next (k_mem k') ^^ n) (mmap_addr (k_mem k') mbi) < mmap_addr (k_mem k') mbi + mmap_length (k_mem k') mbi"
    using n quiet_walk[OF assms(1) n(1)] quiet_mbi[OF assms(1) o] quiet_screen[OF assms(1)] by simp_all
  ultimately show ?thesis using o quiet_screen[OF assms(1)] unfolding mbi_ok_def by blast
qed

lemma prints_cmdline:
  assumes "early k" and "mbi_ok k mbi"
  shows "prints (\<lambda>k. case str_at (kview k) (cmdline (kview k) mbi) of None \<Rightarrow> None
    | Some s \<Rightarrow> k_printf (nl ''cmdline = %s'') [Str_arg s] k) k"
proof -
  obtain a where "k_mem k a = 0" using assms(2) by (auto simp: mbi_ok_def)
  then obtain s where "str_at (k_mem k) (cmdline (k_mem k) mbi) = Some s" using str_at_total by blast
  then show ?thesis using k_printf_quiet[OF assms(1), of "nl ''cmdline = %s''" "[Str_arg s]"]
    by (simp add: prints_def early_view[OF assms(1)] nl_def lit_def byte_of_def)
qed

definition booting :: "u32 \<Rightarrow> kernel \<Rightarrow> bool" where
  "booting mbi k \<longleftrightarrow> early k \<and> mbi_ok k mbi"

lemma booting_quiet: "quiet k k' \<Longrightarrow> booting mbi k \<Longrightarrow> booting mbi k'"
  using quiet_early mbi_ok_quiet by (auto simp: booting_def)

lemma booting_bind:
  "booting mbi k \<Longrightarrow> prints f k \<Longrightarrow> (\<And>k. booting mbi k \<Longrightarrow> prints g k) \<Longrightarrow> prints (\<lambda>k. case f k of None \<Rightarrow> None | Some k \<Rightarrow> g k) k"
  using booting_quiet by (intro prints_bind) (auto simp: booting_def)

lemma booting_prints:
  "booting mbi k \<Longrightarrow> args_match False fmt (ars k) \<Longrightarrow> prints (\<lambda>k. k_printf fmt (ars k) k) k"
  "booting mbi k \<Longrightarrow> prints f k \<Longrightarrow> prints (print_if b mbi f) k"
  "booting mbi k \<Longrightarrow> prints (\<lambda>k. case str_at (kview k) (cmdline (kview k) mbi) of None \<Rightarrow> None
    | Some s \<Rightarrow> k_printf (nl ''cmdline = %s'') [Str_arg s] k) k"
  "booting mbi k \<Longrightarrow> prints (\<lambda>k. print_modules mbi 0 (mods_addr (kview k) mbi) k) k"
  "booting mbi k \<Longrightarrow> prints (\<lambda>k. print_mmap mbi (mmap_addr (kview k) mbi) k) k"
  using prints_printf prints_if prints_cmdline prints_modules[of k mbi 0 "mods_addr (kview k) mbi"]
    prints_mmap[of k mbi _ "mmap_addr (k_mem k) mbi"]
  by (auto simp: booting_def mbi_ok_def early_view prints_def)

lemma prints_all:
  assumes "booting mbi k"
  shows "prints (print_info mbi) k" "prints (print_more mbi) k"
  unfolding print_info_def print_more_def
  by (rule assms booting_bind[where mbi = mbi] booting_prints | assumption | simp add: nl_def lit_def byte_of_def)+

section \<open>The boot sequence\<close>

lemma k_printf_con: "printable (fmt, ars) \<Longrightarrow> \<exists>cm. k_printf fmt ars k = Some (with_con cm k)"
  unfolding printable_def k_printf_def printf_def by (fastforce split: option.splits)

lemma with_con_pic [simp]: "k_pic (with_con cm k) = k_pic k"
  by (simp add: with_con_def)

lemma syscalls_init_pic [simp]: "k_pic (syscalls_init k) = k_pic k"
  by (simp add: syscalls_init_def Let_def upd_pcb_def)

lemma unmasked_same [simp]:
  "unmasked (sti p) j = unmasked p j" "unmasked (cli p) j = unmasked p j" "unmasked (pic_outb d port p) j = unmasked p j"
  "unmasked (set_count c p) j = unmasked p j"
  by (simp_all add: unmasked_def sti_def cli_def pic_outb_def set_count_def Let_def)

text \<open>The device initialisation goes through; the process table is that of
  \<open>syscalls_init\<close>, and exactly the four lines in use are unmasked.\<close>

lemma boot_devices_spec:
  assumes "pcbs_zeroed k"
  shows "\<exists>k' k1. boot_devices lk mbi k = Some k' \<and> pcbs_zeroed k1 \<and> keeps (syscalls_init k1) k' \<and>
    (\<forall>j. valid_irq j \<longrightarrow> (unmasked (k_pic k') j \<longleftrightarrow> j \<in> {0, 1, 2, 8})) \<and> paging_on (k_mmu k')"
proof -
  define ka where "ka = with_pic i8259_init k"
  obtain rt p where rt: "rtc_init (lk_regB lk) (k_rtc ka) (k_pic ka) = (rt, p)" by fastforce
  define kb where "kb = with_pic (enable_irq KEYBOARD_IRQ_NUM) (ka\<lparr> k_rtc := rt, k_pic := p \<rparr>)"
  obtain m c r where pg: "paging_init (l_syms (lk_ly lk)) (k_mem kb) (k_mmu kb) = (m, c, r)" by (metis prod_cases3)
  have r: "r = 0" "paging_on c" using pg by (auto simp: paging_init_def Let_def loadPageDir_def enable4MB_def enablePaging_def
      paging_on_def bit_simps)
  define kc where "kc = kb\<lparr> k_mem := m, k_mmu := c \<rparr>"
  obtain fs vm r' where fi: "fs_init (k_fs kc) (kview kc) (mod_start (kview kc) (mods_addr (kview kc) mbi))
      (mod_end (kview kc) (mods_addr (kview kc) mbi)) = (fs, vm, r')" by (metis prod_cases3)
  have r': "r' = 0" using fi by (auto simp: fs_init_def Let_def)
  define kd where "kd = with_mem vm (kc\<lparr> k_fs := fs \<rparr>)"
  define ke where "ke = with_pic pit_init (syscalls_init kd)"
  obtain cm where pr: "k_printf (nl ''Enabling Interrupts'') [] ke = Some (with_con cm ke)"
    using k_printf_con[OF args_match_printable, of "nl ''Enabling Interrupts''" "[]" ke] by (auto simp: nl_def lit_def byte_of_def)
  define kf where "kf = with_pic sti (with_con cm ke)"
  let ?k = "(with_mem (clear (k_con kf) (kview kf)) kf)\<lparr> k_con := set_pos 0 0 (k_con kf) \<rparr>"
  have "boot_devices lk mbi k = Some ?k"
    unfolding boot_devices_def Let_def ka_def[symmetric] rt prod.case kb_def[symmetric] pg kc_def[symmetric]
    by (simp add: check_init_def r r' fi kd_def[symmetric] ke_def[symmetric] pr kf_def[symmetric])
  moreover have "pcbs_zeroed kd" using assms by (simp add: pcbs_zeroed_def kd_def kc_def kb_def ka_def)
  moreover have "keeps (syscalls_init kd) ?k" by (rule keeps_same) (simp_all add: kf_def ke_def)
  moreover have "k_pic ?k = sti (pit_init (enable_irq KEYBOARD_IRQ_NUM p))"
    by (simp add: kf_def with_pic_def ke_def kd_def kc_def kb_def)
  moreover have "valid_irq j \<Longrightarrow> unmasked (sti (pit_init (enable_irq KEYBOARD_IRQ_NUM p))) j \<longleftrightarrow> j \<in> {0, 1, 2, 8}" for j
    using rt unfolding ka_def
    by (auto simp: rtc_init_def Let_def pit_init_def with_pic_def unmasked_enable init_unmasked pic_consts valid_irq_def)
  moreover have "k_mmu ?k = c" by (simp add: kf_def ke_def kd_def kc_def with_con_def syscalls_init_def Let_def upd_pcb_def)
  ultimately show ?thesis using r(2) by metis
qed

lemma setup_shell_pic [simp]: "k_pic (setup_shell t pid k) = k_pic k"
  by (simp add: setup_shell_def Let_def upd_pcb_def)

lemma execute_base_shell_pic: "unmasked (k_pic (fst (execute_base_shell ly t k))) j = unmasked (k_pic k) j"
  by (auto simp: execute_base_shell_def load_program_def Let_def with_pic_def split: prod.splits option.splits)

lemma execute_base_shell_cases: "snd (execute_base_shell ly t k) = Ret r \<or> (\<exists>eip. snd (execute_base_shell ly t k) = Enter_user eip) \<or>
    (\<exists>r. snd (execute_base_shell ly t k) = Ret r)"
  by (auto simp: execute_base_shell_def load_program_def Let_def split: prod.splits option.splits)

lemma first_shell_spec:
  assumes "proc_inv (fst (execute_base_shell ly 0 k)) st t"
  shows "\<exists>k' out. first_shell ly k = Some (k', out) \<and> out \<noteq> Returned \<and> proc_inv k' st t \<and>
    (\<forall>j. unmasked (k_pic k') j = unmasked (k_pic k) j)"
proof -
  obtain k1 out where e: "execute_base_shell ly 0 k = (k1, out)" by fastforce
  have k1: "proc_inv k1 st t" "unmasked (k_pic k1) j = unmasked (k_pic k) j" for j
    using assms e execute_base_shell_pic[of ly 0 k j] by simp_all
  obtain cm where cm: "k_printf (nl ''ERROR: shell failed to run.'') [] k1 = Some (with_con cm k1)"
    using k_printf_con[OF args_match_printable, of "nl ''ERROR: shell failed to run.''" "[]" k1] by (auto simp: nl_def lit_def byte_of_def)
  have "proc_inv (with_con cm k1) st t" by (rule proc_inv_keeps[OF _ k1(1)]) (rule keeps_same, simp_all)
  then show ?thesis using k1 cm by (cases out) (auto simp: first_shell_def e check_init_def)
qed

lemma clear_quiet: "early k \<Longrightarrow> quiet k (with_mem (clear (k_con k) (kview k)) k)"
proof -
  assume e: "early k"
  have "page_frame (k_con k) (k_mem k) (clear (k_con k) (k_mem k))"
    by (rule page_frameI) (simp add: clear_def blank_cells_arr)
  then have "quiet k (k\<lparr> k_con := k_con k, k_mem := clear (k_con k) (k_mem k) \<rparr>)" using e by (intro quietI) (auto simp: early_def)
  then show ?thesis using e by (simp add: with_mem_def early_def physical)
qed

text \<open>What the kernel has set up when the first shell is started.\<close>

definition booted :: "link \<Rightarrow> machine \<Rightarrow> bool" where
  "booted lk m \<longleftrightarrow> proc_inv (m_k m) ((\<lambda>_. [])(0 := [1])) 0 \<and>
     (\<forall>j. valid_irq j \<longrightarrow> (unmasked (k_pic (m_k m)) j \<longleftrightarrow> j \<in> {0, 1, 2, 8})) \<and>
     tr m = KERNEL_TSS \<and> ldtr m = KERNEL_LDT \<and> seg_base (seg_val (tss_desc_ptr m)) = lk_tss lk \<and>
     seg_limit (seg_val (tss_desc_ptr m)) = take_bit 20 (lk_tss_size lk) \<and> seg_kind (seg_val (tss_desc_ptr m)) = 0x89"

lemma kernel_start_spec:
  assumes "pcbs_zeroed (m_k m)"
  shows "\<exists>m' out. kernel_start lk mbi m = Some (m', out) \<and> out \<noteq> Returned \<and> booted lk m' \<and>
    m_idt m' = idt_init (lk_addr lk) (lk_gate lk) (m_idt m)"
proof -
  define md where "md = boot_descriptors lk m"
  have md: "pcbs_zeroed (m_k md)" "m_idt md = m_idt m" "tr md = KERNEL_TSS" "ldtr md = KERNEL_LDT"
    using assms by (simp_all add: md_def boot_descriptors_def Let_def with_k_def pcbs_zeroed_def)
  have tss: "seg_base (seg_val (tss_desc_ptr md)) = lk_tss lk" "seg_limit (seg_val (tss_desc_ptr md)) = take_bit 20 (lk_tss_size lk)"
    "seg_kind (seg_val (tss_desc_ptr md)) = 0x89"
    unfolding md_def boot_descriptors_def Let_def with_k_def by (simp_all add: segment_params[OF disjI1[OF refl]] seg_kind_system)
  obtain k' k1 where k': "boot_devices lk mbi (m_k md) = Some k'" "pcbs_zeroed k1" "keeps (syscalls_init k1) k'"
      "\<forall>j. valid_irq j \<longrightarrow> (unmasked (k_pic k') j \<longleftrightarrow> j \<in> {0, 1, 2, 8})"
    using boot_devices_spec[OF md(1)] by blast
  obtain k2 out where s: "first_shell (lk_ly lk) k' = Some (k2, out)" "out \<noteq> Returned" "proc_inv k2 ((\<lambda>_. [])(0 := [1])) 0"
      "\<forall>j. unmasked (k_pic k2) j = unmasked (k_pic k') j"
    using first_shell_spec[OF boot_table[OF k'(2,3)]] by blast
  let ?m = "with_k k2 (md\<lparr> m_idt := idt_init (lk_addr lk) (lk_gate lk) (m_idt md) \<rparr>)"
  have "kernel_start lk mbi m = Some (?m, out)" using k'(1) s(1) by (simp add: kernel_start_def md_def[symmetric] Let_def)
  moreover have "booted lk ?m" using s(3,4) k'(4) md tss by (simp add: booted_def with_k_def)
  ultimately show ?thesis using s(2) md(2) by (simp add: with_k_def)
qed


subsection \<open>A concrete machine\<close>

text \<open>The boot loader's structure is at 0x9000, all zeros: no flags, an empty memory map.\<close>

definition demo_seg :: seg_desc_t where
  "demo_seg = \<lparr> seg_lim_15_00 = 0, base_15_00 = 0, base_23_16 = 0, seg_type = 0, seg_sys = False, seg_dpl = 0, seg_present = False,
     seg_lim_19_16 = 0, seg_avail = False, seg_reserved = False, seg_opsize = False, seg_granularity = False, base_31_24 = 0 \<rparr>"

definition demo_machine :: machine where
  "demo_machine = \<lparr> m_k = demo_boot\<lparr> k_mmu := \<lparr> cr3 = 0, cr4 = 0, cr0 = 0 \<rparr>, k_mem := \<lambda>_. 0 \<rparr>, m_idt = \<lambda>_. demo_gate,
     ldt_desc_ptr = demo_seg, tss_desc_ptr = demo_seg, ldt_segment_selector = 0, ldtr = 0, tr = 0 \<rparr>"

definition demo_link :: link where
  "demo_link = \<lparr> lk_ly = demo_ly, lk_addr = demo_addr, lk_ldt = 0x402000, lk_ldt_size = 31, lk_tss = 0x402100, lk_tss_size = 103,
     lk_gate = demo_gate, lk_seg = demo_seg, lk_regB = 2 \<rparr>"

lemma demo_early: "early (m_k demo_machine)" "pcbs_zeroed (m_k demo_machine)"
  using demo_con_ok by (simp_all add: early_def demo_machine_def pcbs_zeroed_def demo_boot_def demo_k_def demo_pcb_def)

lemma demo_mbi: "mbi_ok (m_k demo_machine) 0x9000"
proof -
  have m: "k_mem (m_k demo_machine) = (\<lambda>_. 0)" "video_mem (k_con (m_k demo_machine)) = 0xB8000"
    by (simp_all add: demo_machine_def demo_boot_def demo_k_def demo_con_def)
  have r: "rd32 (\<lambda>_. 0) p = 0" for p by (simp add: rd32_def le32_def)
  have "off_screen (k_con (m_k demo_machine)) 0x9000 52"
    by (auto simp: off_screen_def m unat_sub_if_size word_size unat_word_ariths unat_of_nat_32)
  then show ?thesis unfolding mbi_ok_def m mmap_addr_def mmap_length_def r
    by (auto simp: off_screen_def m intro!: exI[of _ 0])
qed


end
