(* ===== verification/Isolation.thy ===== *)
theory Isolation
  imports Kview
begin

text \<open>
  Memory protection over whole runs: the operations of paging.c, stores of user code through
  the directory in force, and stores of the kernel outside the page tables, in any order from
  \<open>paging_init\<close> on.  Every state keeps the invariant \<open>user_dir\<close> of the paging theory for
  all processes that have a directory, so user code of different processes never shares
  memory but the screen.
\<close>

section \<open>Steps\<close>

text \<open>Memory, control registers and the processes that have been given a directory.\<close>

type_synonym pstate = "mem \<times> mmu \<times> u32 set"

inductive pstep :: "symbols \<Rightarrow> pstate \<Rightarrow> pstate \<Rightarrow> bool" for sy where
  create: "0 < P \<Longrightarrow> P < 7 \<Longrightarrow> new_page_directory sy m c P = (m', c') \<Longrightarrow> pstep sy (m, c, D) (m', c', insert P D)"
| video: "P \<in> D \<Longrightarrow> video_page v \<Longrightarrow> new_page_directory_entry sy m c P USER_PAGE_BOTTOM v 0 3 = (m', c', r) \<Longrightarrow>
    pstep sy (m, c, D) (m', c', D)"
| switch: "P \<in> D \<Longrightarrow> pstep sy (m, c, D) (m, swap_pages sy c P, D)"
| user: "P \<in> D \<Longrightarrow> cr3 c = tbl_addr (pageDir sy) P \<Longrightarrow> translate m c True va = Some pa \<Longrightarrow> pstep sy (m, c, D) (m(pa := b), c, D)"
| kernel: "(\<And>a. pt_addr sy a \<Longrightarrow> m' a = m a) \<Longrightarrow> pstep sy (m, c, D) (m', c, D)"

text \<open>The tables that \<open>vidmap\<close> fills hold zeros when the kernel is loaded.\<close>

definition no_window :: "symbols \<Rightarrow> mem \<Rightarrow> u32 \<Rightarrow> bool" where
  "no_window sy m P \<longleftrightarrow> (\<forall>i < 1024. i \<noteq> 0 \<longrightarrow> \<not> bit (tbl_get m (video_page_tables sy) P i) 0)"

section \<open>The invariant\<close>

definition paging_inv :: "symbols \<Rightarrow> pstate \<Rightarrow> bool" where
  "paging_inv sy s \<longleftrightarrow> (case s of (m, c, D) \<Rightarrow>
     paging_on c \<and> (\<forall>P \<in> D. 0 < P \<and> P < 7 \<and> user_dir sy m P) \<and> (\<forall>P < 7. no_window sy m P))"

lemma no_window_user: "user_dir sy m P \<Longrightarrow> no_window sy m P"
  by (simp add: user_dir_def no_window_def)

lemma no_window_cong:
  "(\<And>i. i < 1024 \<Longrightarrow> tbl_get m' (video_page_tables sy) P i = tbl_get m (video_page_tables sy) P i) \<Longrightarrow> no_window sy m' P = no_window sy m P"
  by (simp add: no_window_def)

lemma paging_init_inv:
  assumes "syms_ok sy" and "\<forall>P < 7. no_window sy m P" and "paging_init sy m c = (m', c', r)"
  shows "paging_inv sy (m', c', {})"
proof -
  have m': "m' = fst (paging_init sy m c)" by (simp add: assms(3))
  have "tbl_get m' (video_page_tables sy) P i = tbl_get m (video_page_tables sy) P i" if "P < 7" "i < 1024" for P i
  proof -
    note b = syms_bounds[OF assms(1), of 0] syms_bounds[OF assms(1) that(1)] syms_distinct[OF assms(1), of 0 0]
      syms_distinct[OF assms(1) _ that(1), of 0] syms_distinct[OF assms(1) that(1), of 0] syms_neq[OF assms(1)]
    show ?thesis unfolding m' paging_init_def Let_def using that(2) b by (simp add: tbl_simps)
  qed
  then have "\<forall>P < 7. no_window sy m' P" using assms(2) no_window_cong by blast
  moreover have "paging_on c'"
    using assms(3) by (auto simp: paging_init_def Let_def loadPageDir_def enable4MB_def enablePaging_def paging_on_def bit_simps)
  ultimately show ?thesis by (simp add: paging_inv_def)
qed

text \<open>One lemma for each operation that changes memory.\<close>

lemma create_inv:
  assumes "syms_ok sy" and "paging_inv sy (m, c, D)" and "0 < P" and "P < 7" and "new_page_directory sy m c P = (m', c')"
  shows "paging_inv sy (m', c', insert P D)"
proof -
  have inv: "\<forall>P \<in> D. 0 < P \<and> P < 7 \<and> user_dir sy m P" "\<forall>P < 7. no_window sy m P" using assms(2) by (auto simp: paging_inv_def)
  have "user_dir sy m' P \<and> (\<forall>Q < 7. Q \<noteq> P \<and> user_dir sy m Q \<longrightarrow> user_dir sy m' Q)"
    using new_page_directory_invariant[OF assms(1,4,5)] inv(2) assms(4) by (auto simp: no_window_def)
  moreover have "no_window sy m' Q" if "Q < 7" for Q
    using no_window_cong[of m' sy Q m] new_page_directory_tables(3)[OF assms(1,4) that assms(5)] inv(2) that by blast
  ultimately show ?thesis using assms(3,4) inv(1) new_page_directory_regs(2)[OF assms(5)] by (auto simp: paging_inv_def)
qed

lemma video_inv:
  assumes "syms_ok sy" and "paging_inv sy (m, c, D)" and "P \<in> D" and "video_page v"
    and "new_page_directory_entry sy m c P USER_PAGE_BOTTOM v 0 3 = (m', c', r)"
  shows "paging_inv sy (m', c', D)"
proof -
  have inv: "paging_on c" "\<forall>P \<in> D. 0 < P \<and> P < 7 \<and> user_dir sy m P" "\<forall>P < 7. no_window sy m P"
    using assms(2) by (auto simp: paging_inv_def)
  have P: "P < 7" using inv(2) assms(3) by blast
  note t = vidmap_tables[OF assms(1) P _ _ assms(5)]
  note vidmap_keeps_dirs[OF assms(1) P assms(4,5)]
  moreover have "no_window sy m' Q" if "Q < 7" for Q using t(3)[OF that] inv(3) that by (simp add: no_window_def)
  moreover have "paging_on c'" using t(4)[OF P, of 0] inv(1) by (simp add: paging_on_def)
  ultimately show ?thesis using inv(2) by (simp add: paging_inv_def)
qed

text \<open>A change of memory that keeps every table entry.\<close>

lemma same_tables_inv:
  assumes "paging_inv sy (m, c, D)"
    and "\<And>t Q i. t \<in> {pageDir sy, first_4MB sy, video_page_tables sy} \<Longrightarrow> Q < 7 \<Longrightarrow> i < 1024 \<Longrightarrow> tbl_get m' t Q i = tbl_get m t Q i"
  shows "paging_inv sy (m', c, D)"
proof -
  have "user_dir sy m' Q" if "Q < 7" "user_dir sy m Q" for Q by (rule user_dir_cong[OF that(2)]) (simp_all add: assms(2) that(1))
  moreover have "no_window sy m' Q = no_window sy m Q" if "Q < 7" for Q using that assms(2) by (intro no_window_cong) simp
  ultimately show ?thesis using assms(1) by (simp add: paging_inv_def)
qed

lemma user_inv:
  assumes "syms_ok sy" and "paging_inv sy (m, c, D)" and "P \<in> D" and "cr3 c = tbl_addr (pageDir sy) P" and "translate m c True va = Some pa"
  shows "paging_inv sy (m(pa := b), c, D)"
proof (rule same_tables_inv[OF assms(2)])
  have P: "0 < P" "P < 7" "user_dir sy m P" "paging_on c" using assms(2,3) by (auto simp: paging_inv_def)
  then have "unat P \<noteq> 0" by (simp add: word_less_nat_alt)
  then have pa: "\<not> (0x400000 \<le> unat pa \<and> unat pa < 0x800000)" using user_phys_range[OF P(3,4) assms(4) P(2) assms(5)] by auto
  fix t i :: nat and Q :: u32 assume h: "t \<in> {pageDir sy, first_4MB sy, video_page_tables sy}" "Q < 7" "i < 1024"
  have "1024 \<le> t \<and> t + 7 \<le> 2048" using assms(1) h(1) unfolding syms_ok_def by blast
  then show "tbl_get (m(pa := b)) t Q i = tbl_get m t Q i" using tbl_get_upd[OF pa] h(2,3) by blast
qed

lemma pstep_inv:
  assumes "syms_ok sy" and "pstep sy s s'" and "paging_inv sy s"
  shows "paging_inv sy s'"
  using assms(2,3)
proof (cases rule: pstep.cases)
  case (create P m c m' c' D)
  then show ?thesis using create_inv[OF assms(1)] assms(3) by blast
next
  case (video P D v m c m' c' r)
  then show ?thesis using video_inv[OF assms(1)] assms(3) by blast
next
  case (switch P D m c)
  then show ?thesis using assms(3) by (simp add: paging_inv_def swap_pages_def loadPageDir_def paging_on_def)
next
  case (user P D c m va pa b)
  then show ?thesis using user_inv[OF assms(1)] assms(3) by blast
next
  case (kernel m' m c D)
  have "tbl_get m' t Q i = tbl_get m t Q i" if "t \<in> {pageDir sy, first_4MB sy, video_page_tables sy}" "Q < 7" "i < 1024" for t Q i
    by (rule tbl_get_cong[of sy]) (use kernel(3) assms(1) that in auto)
  then show ?thesis unfolding kernel(2) using assms(3) kernel(1) by (intro same_tables_inv[of sy m c D m']) auto
qed

lemma reachable_inv:
  assumes "syms_ok sy" and "\<forall>P < 7. no_window sy m0 P" and "paging_init sy m0 c0 = (m1, c1, r)"
    and "(pstep sy)\<^sup>*\<^sup>* (m1, c1, {}) s"
  shows "paging_inv sy s"
  using assms(4) by (induction rule: rtranclp_induct) (auto intro: paging_init_inv[OF assms(1-3)] pstep_inv[OF assms(1)])


section \<open>A concrete run\<close>

definition demo_paging :: "mem \<times> mmu \<times> i32" where
  "demo_paging = paging_init demo_syms (\<lambda>_. 0) demo_mmu"

lemma demo_run:
  "\<exists>m c. (pstep demo_syms)\<^sup>*\<^sup>* (fst demo_paging, fst (snd demo_paging), {}) (m, c, {2, 1}) \<and>
     translate m (swap_pages demo_syms c 1) True 0x08048000 = Some 0x00848000"
proof -
  define m1 c1 where "m1 = fst demo_paging" "c1 = fst (snd demo_paging)"
  obtain m2 c2 where 2: "new_page_directory demo_syms m1 c1 1 = (m2, c2)" by fastforce
  obtain m3 c3 where 3: "new_page_directory demo_syms m2 c2 2 = (m3, c3)" by fastforce
  have s: "pstep demo_syms (m1, c1, {}) (m2, c2, {1})" "pstep demo_syms (m2, c2, {1}) (m3, c3, {2, 1})"
    using pstep.create[OF _ _ 2, of "{}"] pstep.create[OF _ _ 3, of "{1}"] by simp_all
  have i1: "paging_inv demo_syms (m1, c1, {})" unfolding m1_c1_def
    by (rule paging_init_inv[OF demo_syms_ok, of "\<lambda>_. 0" demo_mmu _ _ "snd (snd demo_paging)"])
      (simp_all add: no_window_def zero_tables demo_paging_def)
  then have "user_dir demo_syms m3 1" "paging_on c3"
    using pstep_inv[OF demo_syms_ok s(2) pstep_inv[OF demo_syms_ok s(1) i1]] by (simp_all add: paging_inv_def)
  then have "translate m3 (swap_pages demo_syms c3 1) True 0x08048000 = Some 0x00848000"
    using process_translation[of demo_syms m3 1 "swap_pages demo_syms c3 1" "0x08048000" True]
    by (simp add: user_dir_def process_map_def drop_bit_eq_div swap_pages_def loadPageDir_def paging_on_def)
  then show ?thesis using s unfolding m1_c1_def by (meson converse_rtranclp_into_rtranclp r_into_rtranclp)
qed


end
