(* ===== verification/Userlib.thy ===== *)
theory Userlib
  imports CMem "HOL-Library.Monad_Syntax"
begin

text \<open>
  The library the user programs are linked with: \<^verbatim>\<open>syscalls/ece391support.c\<close>, and the
  interface of the system call wrappers of \<^verbatim>\<open>ece391syscall.S\<close> as a record
  \<open>sys\<close> over the type of the system's states.

  A user program's array is the list of its bytes; a pointer into an array is the rest of
  the list from there on, or the list and an index where the function also stores.  A read or
  a store outside the array is undefined behaviour in C and has no result here, so that a
  theorem that gives a result also says that the access is in bounds.  The contents of an
  uninitialised array are an argument.

  A wrapper gets the array its pointer argument points to and returns the contents after the
  call where the kernel may store in it.  A system call that never returns (a read that
  waits for input that does not come) has no result.
\<close>

section \<open>The system call interface (ece391syscall.h)\<close>

record 'w sys =
  s_execute :: "u8 list \<Rightarrow> 'w \<Rightarrow> (i32 \<times> 'w) option"
  s_read :: "i32 \<Rightarrow> u8 list \<Rightarrow> i32 \<Rightarrow> 'w \<Rightarrow> (i32 \<times> u8 list \<times> 'w) option"
  s_write :: "i32 \<Rightarrow> u8 list \<Rightarrow> i32 \<Rightarrow> 'w \<Rightarrow> (i32 \<times> 'w) option"
  s_open :: "u8 list \<Rightarrow> 'w \<Rightarrow> (i32 \<times> 'w) option"
  s_close :: "i32 \<Rightarrow> 'w \<Rightarrow> (i32 \<times> 'w) option"
  s_getargs :: "u8 list \<Rightarrow> i32 \<Rightarrow> 'w \<Rightarrow> (i32 \<times> u8 list \<times> 'w) option"
  s_vidmap :: "u32 \<Rightarrow> 'w \<Rightarrow> (i32 \<times> 'w) option"
  s_set_handler :: "i32 \<Rightarrow> u32 \<Rightarrow> 'w \<Rightarrow> (i32 \<times> 'w) option"
  s_call :: "i32 \<Rightarrow> 'w \<Rightarrow> (i32 \<times> 'w) option"

text \<open>A string literal as an array.\<close>

definition str :: "string \<Rightarrow> u8 list" where
  "str s = lit s @ [0]"

text \<open>\<open>a[i]\<close> and \<open>a[i] = b\<close>.\<close>

definition aget :: "u8 list \<Rightarrow> nat \<Rightarrow> u8 option" where
  "aget a i = (if i < length a then Some (a ! i) else None)"

definition aset :: "u8 list \<Rightarrow> nat \<Rightarrow> u8 \<Rightarrow> u8 list option" where
  "aset a i b = (if i < length a then Some (a[i := b]) else None)"

lemma aget_less [simp]: "i < length a \<Longrightarrow> aget a i = Some (a ! i)"
  by (simp add: aget_def)

lemma aset_less [simp]: "i < length a \<Longrightarrow> aset a i b = Some (a[i := b])"
  by (simp add: aset_def)

lemma aget_iff: "aget a i = Some b \<longleftrightarrow> i < length a \<and> a ! i = b"
  by (auto simp: aget_def)

lemma aset_iff: "aset a i b = Some a' \<longleftrightarrow> i < length a \<and> a' = a[i := b]"
  by (auto simp: aset_def)

section \<open>The routines (ece391support.c)\<close>

fun ece391_strlen :: "u8 list \<Rightarrow> u32 option" where
  "ece391_strlen [] = None"
| "ece391_strlen (c # s) = (if c \<noteq> 0 then do { n \<leftarrow> ece391_strlen s; Some (n + 1) } else Some 0)"

text \<open>\<open>dst\<close> and \<open>src\<close> are indices into one array: the caller copies within its buffer.\<close>

function ece391_strcpy :: "u8 list \<Rightarrow> nat \<Rightarrow> nat \<Rightarrow> u8 list option" where
  "ece391_strcpy a dst src =
     do { b \<leftarrow> aget a src;
          a \<leftarrow> aset a dst b;
          if b \<noteq> 0 then ece391_strcpy a (dst + 1) (src + 1) else Some a }"
  by pat_completeness auto
termination
  by (relation "measure (\<lambda>(a, dst, src). length a - src)") (auto simp: aget_iff aset_iff)

definition ece391_fdputs :: "'w sys \<Rightarrow> i32 \<Rightarrow> u8 list \<Rightarrow> 'w \<Rightarrow> 'w option" where
  "ece391_fdputs S fd s w = do { n \<leftarrow> ece391_strlen s; (_, w) \<leftarrow> s_write S fd s n w; Some w }"

fun ece391_strcmp :: "u8 list \<Rightarrow> u8 list \<Rightarrow> i32 option" where
  "ece391_strcmp (a # s1) (b # s2) =
     (if a = b then if a = 0 then Some 0 else ece391_strcmp s1 s2 else Some (ucast a - ucast b))"
| "ece391_strcmp _ _ = None"

fun ece391_strncmp_loop :: "u8 list \<Rightarrow> u8 list \<Rightarrow> u32 \<Rightarrow> i32 option" where
  "ece391_strncmp_loop (a # s1) (b # s2) n =
     (if a = b then if a = 0 \<or> n - 1 = 0 then Some 0 else ece391_strncmp_loop s1 s2 (n - 1)
      else Some (ucast a - ucast b))"
| "ece391_strncmp_loop _ _ _ = None"

definition ece391_strncmp :: "u8 list \<Rightarrow> u8 list \<Rightarrow> u32 \<Rightarrow> i32 option" where
  "ece391_strncmp s1 s2 n = (if n = 0 then Some 0 else ece391_strncmp_loop s1 s2 n)"

text \<open>The swapping loop of \<open>ece391_strrev\<close>, from \<open>beg\<close> and \<open>end\<close> on.\<close>

function ece391_strrev_loop :: "u8 list \<Rightarrow> int \<Rightarrow> int \<Rightarrow> u8 list option" where
  "ece391_strrev_loop s beg en =
     (if beg < en
      then do { tmp \<leftarrow> aget s (nat en);
                b \<leftarrow> aget s (nat beg);
                s \<leftarrow> aset s (nat en) b;
                s \<leftarrow> aset s (nat beg) tmp;
                ece391_strrev_loop s (beg + 1) (en - 1) }
      else Some s)"
  by pat_completeness auto
termination
  by (relation "measure (\<lambda>(s, beg, en). nat (en - beg))") auto

definition ece391_strrev :: "u8 list \<Rightarrow> u8 list option" where
  "ece391_strrev s =
     do { n \<leftarrow> ece391_strlen s;
          let en = sint (n - 1);
          if en \<le> 0 then Some s else ece391_strrev_loop s 0 en }"

text \<open>The digit loop of \<open>ece391_itoa\<close>; \<open>newbuf\<close> is an index into \<open>buf\<close>.  A radix of 0
  is a division fault.\<close>

function ece391_itoa_loop :: "u32 \<Rightarrow> u8 list \<Rightarrow> nat \<Rightarrow> i32 \<Rightarrow> (u8 list \<times> nat) option" where
  "ece391_itoa_loop newval buf newbuf radix =
     (if newval > 0
      then if radix = 0 then None
           else do { c \<leftarrow> aget lookup (unat (newval mod radix));
                     buf \<leftarrow> aset buf newbuf c;
                     ece391_itoa_loop (newval div radix) buf (newbuf + 1) radix }
      else Some (buf, newbuf))"
  by pat_completeness auto
termination
  by (relation "measure (\<lambda>(v, buf, p, r). length buf - p)") (auto simp: aset_iff)

definition ece391_itoa :: "u32 \<Rightarrow> u8 list \<Rightarrow> i32 \<Rightarrow> u8 list option" where
  "ece391_itoa v buf radix =
     (if v = 0 then do { buf \<leftarrow> aset buf 0 (byte_of (CHR ''0'')); aset buf 1 0 }
      else do { (buf, newbuf) \<leftarrow> ece391_itoa_loop v buf 0 radix;
                buf \<leftarrow> aset buf newbuf 0;
                ece391_strrev buf })"

declare ece391_strcpy.simps [simp del] ece391_strrev_loop.simps [simp del] ece391_itoa_loop.simps [simp del]

section \<open>What they compute\<close>

lemma strlen_string: "wf_cstring s \<Longrightarrow> ece391_strlen (s @ 0 # xs) = Some (of_nat (length s))"
  by (induction s) (auto simp: wf_cstring_def)

lemma byte_of_0: "byte_of c = 0 \<longleftrightarrow> c = CHR 0x00"
proof
  assume "byte_of c = 0"
  then have "unat (of_nat (of_char c) :: u8) = 0" by (simp add: byte_of_def of_nat_of_char)
  then have "of_char c = (of_char (CHR 0x00) :: nat)" by (simp add: unat_of_nat of_char_mod_256)
  then show "c = CHR 0x00" by (simp only: of_char_eq_iff)
qed (simp add: byte_of_def)

lemma lit_wf [simp]: "wf_cstring (lit s) \<longleftrightarrow> CHR 0x00 \<notin> set s"
  by (auto simp: wf_cstring_def lit_def byte_of_0 eq_commute[of 0])

lemma strlen_bound:
  "ece391_strlen a = Some n \<Longrightarrow> length a < 2 ^ 32 \<Longrightarrow> unat n < length a \<and> a ! unat n = 0 \<and> wf_cstring (take (unat n) a)"
proof (induction a arbitrary: n)
  case (Cons c a)
  show ?case
  proof (cases "c = 0")
    case False
    then obtain k where k: "ece391_strlen a = Some k" "n = k + 1" using Cons.prems(1) by (auto split: bind_splits)
    then have "unat k < length a" using Cons.IH Cons.prems(2) by auto
    then have "unat n = Suc (unat k)" using Cons.prems(2) by (simp add: k(2) unat_word_ariths)
    then show ?thesis using Cons.IH[OF k(1)] Cons.prems(2) False by (auto simp: wf_cstring_def)
  qed (use Cons.prems in \<open>simp add: wf_cstring_def\<close>)
qed simp

text \<open>The array holds a C string.\<close>

definition holds :: "u8 list \<Rightarrow> cstring \<Rightarrow> bool" where
  "holds a s \<longleftrightarrow> wf_cstring s \<and> (\<exists>xs. a = s @ 0 # xs)"

lemma holds_str: "CHR 0x00 \<notin> set s \<Longrightarrow> holds (str s) (lit s)"
  by (simp add: holds_def str_def)

lemma holds_strlen: "holds a s \<Longrightarrow> ece391_strlen a = Some (of_nat (length s))"
  by (auto simp: holds_def strlen_string)

lemma holds_Cons: "holds (c # a) s \<longleftrightarrow> (if c = 0 then s = [] else \<exists>t. s = c # t \<and> holds a t)"
  by (cases s) (auto simp: holds_def wf_cstring_def)

lemma not_holds_Nil [simp]: "\<not> holds [] s"
  by (simp add: holds_def)

text \<open>Byte counts as return values.\<close>

lemma count_word:
  assumes "n \<le> 4096"
  shows "unat (of_nat n :: i32) = n" and "(of_nat n :: i32) = 0 \<longleftrightarrow> n = 0" and "(of_nat n :: i32) \<noteq> -1"
proof -
  show u: "unat (of_nat n :: i32) = n" using assms by (intro unat_of_nat_32) simp
  show "(of_nat n :: i32) = 0 \<longleftrightarrow> n = 0" by (subst unat_eq_0[symmetric]) (simp add: u)
  show "(of_nat n :: i32) \<noteq> -1"
  proof
    assume "(of_nat n :: i32) = -1"
    then show False using u assms by (simp add: unat_neg1_32)
  qed
qed

subsection \<open>Comparison\<close>

text \<open>Reference: the order of C strings, by unsigned bytes.\<close>

definition byte_less :: "(u8 \<times> u8) set" where
  "byte_less = {(a, b). a < b}"

lemma byte_diff: "sint (ucast a - ucast b :: i32) = uint a - uint b" for a b :: u8
proof -
  have "- (2 ^ 31) \<le> x - y \<and> x - y < 2 ^ 31" if "0 \<le> x" "x < 256" "0 \<le> y" "y < 256" for x y :: int
    using that by simp
  from this[of "uint a" "uint b"] have "- (2 ^ 31) \<le> uint a - uint b \<and> uint a - uint b < 2 ^ 31"
    using unsigned_less[of a] unsigned_less[of b] by simp
  then have "sint (of_int (uint a - uint b) :: i32) = uint a - uint b"
    unfolding signed_of_int by (simp add: signed_take_bit_int_eq_self)
  then show ?thesis by simp
qed

lemma byte_diff_0: "a \<noteq> b \<Longrightarrow> (ucast a - ucast b :: i32) \<noteq> 0" for a b :: u8
  using byte_diff[of a b] by (metis eq_iff_diff_eq_0 signed_0 word_uint_eq_iff)

lemma strcmp_lex:
  "holds a s \<Longrightarrow> holds b t \<Longrightarrow> \<exists>r. ece391_strcmp a b = Some r \<and> (r = 0 \<longleftrightarrow> s = t) \<and> (sint r < 0 \<longleftrightarrow> (s, t) \<in> lexord byte_less)"
proof (induction a b arbitrary: s t rule: ece391_strcmp.induct)
  case (1 c a d b)
  show ?case
  proof (cases "c = d")
    case True
    then show ?thesis using 1 by (auto simp: holds_Cons byte_less_def split: if_splits)
  next
    case False
    have "sint (ucast c - ucast d :: i32) < 0 \<longleftrightarrow> c < d" by (simp add: byte_diff word_less_def)
    then show ?thesis using False "1.prems" byte_diff_0[OF False]
      by (auto simp: holds_Cons byte_less_def word_gt_0 split: if_splits)
  qed
qed simp_all

lemma strncmp_loop_prefix:
  "holds a s \<Longrightarrow> holds b t \<Longrightarrow> n \<noteq> 0 \<Longrightarrow>
    \<exists>r. ece391_strncmp_loop a b n = Some r \<and> (r = 0 \<longleftrightarrow> take (unat n) s = take (unat n) t)"
proof (induction a b n arbitrary: s t rule: ece391_strncmp_loop.induct)
  case (1 c a d b n)
  obtain k where k: "unat n = Suc k" "unat (n - 1) = k" using unat_dec[OF "1.prems"(3)] by (metis Suc_pred')
  have z: "n - 1 = 0 \<longleftrightarrow> k = 0" using k(2) by (auto simp: unat_eq_0)
  show ?case
  proof (cases "c = d")
    case True
    then show ?thesis using "1.IH" "1.prems" z by (auto simp: holds_Cons k split: if_splits)
  next
    case False
    then show ?thesis using "1.prems" byte_diff_0[OF False] by (auto simp: holds_Cons k split: if_splits)
  qed
qed simp_all

lemma strncmp_prefix:
  "holds a s \<Longrightarrow> holds b t \<Longrightarrow> \<exists>r. ece391_strncmp a b n = Some r \<and> (r = 0 \<longleftrightarrow> take (unat n) s = take (unat n) t)"
  using strncmp_loop_prefix[of a s b t n] by (auto simp: ece391_strncmp_def)

subsection \<open>Copying down within an array\<close>

lemma strcpy_down:
  "wf_cstring s \<Longrightarrow> holds (drop src a) s \<Longrightarrow> dst < src \<Longrightarrow>
    ece391_strcpy a dst src = Some (take dst a @ s @ 0 # drop (dst + length s + 1) a)"
proof (induction s arbitrary: a dst src)
  case Nil
  then have "src < length a" "a ! src = 0" 
    by (auto simp: holds_def) (metis drop_eq_Nil2 linorder_not_le list.distinct(1), metis hd_drop_conv_nth drop_eq_Nil2 linorder_not_le list.distinct(1) list.sel(1))
  then show ?case using Nil.prems(3)
    by (subst ece391_strcpy.simps) (simp add: aget_def aset_def upd_conv_take_nth_drop)
next
  case (Cons c s)
  have len: "src < length a" using Cons.prems(2) by (cases "src < length a") auto
  have d: "drop src a = a ! src # drop (src + 1) a" using len by (simp add: Cons_nth_drop_Suc)
  have c: "a ! src = c" "c \<noteq> 0" "holds (drop (src + 1) a) s" "wf_cstring s"
    using Cons.prems(1,2) by (auto simp: d holds_Cons wf_cstring_def split: if_splits)
  have "holds (drop (src + 1) (a[dst := c])) s" using c(3) Cons.prems(3) by (simp add: drop_update_cancel)
  then have "ece391_strcpy (a[dst := c]) (dst + 1) (src + 1) =
      Some (take (dst + 1) (a[dst := c]) @ s @ 0 # drop (dst + 1 + length s + 1) (a[dst := c]))"
    using Cons.IH[OF c(4), of "src + 1" "a[dst := c]" "dst + 1"] Cons.prems(3) by simp
  then show ?case using len c Cons.prems(3)
    by (subst ece391_strcpy.simps) (simp add: aget_def aset_def take_Suc_conv_app_nth)
qed

subsection \<open>Reversal and numerals\<close>

lemma strrev_loop_rev:
  "beg = int (length pre) \<Longrightarrow> en = int (length pre + length mid) - 1 \<Longrightarrow>
    ece391_strrev_loop (pre @ mid @ post) beg en = Some (pre @ rev mid @ post)"
proof (induction "length mid" arbitrary: pre mid post beg en rule: less_induct)
  case less
  show ?case
  proof (cases "beg < en")
    case False
    then have "length mid \<le> 1" using less.prems by simp
    then have "rev mid = mid" by (cases mid) auto
    then show ?thesis using False by (subst ece391_strrev_loop.simps) simp
  next
    case True
    then obtain a ms where "mid = a # ms" "ms \<noteq> []" using less.prems by (cases mid; cases "tl mid") auto
    then obtain b ns where mid: "mid = a # ns @ [b]" by (metis rev_exhaust)
    have n: "nat beg = length pre" "nat en = length pre + Suc (length ns)" using less.prems by (simp_all add: mid)
    have "ece391_strrev_loop (pre @ mid @ post) beg en =
        ece391_strrev_loop ((pre @ [b]) @ ns @ (a # post)) (beg + 1) (en - 1)"
      using True by (subst ece391_strrev_loop.simps) (simp add: n mid aget_def aset_def nth_append list_update_append)
    also have "\<dots> = Some ((pre @ [b]) @ rev ns @ (a # post))"
      by (rule less.hyps) (simp_all add: mid less.prems)
    finally show ?thesis by (simp add: mid)
  qed
qed

lemma strrev_rev:
  assumes "wf_cstring s" and "length s < 2 ^ 31"
  shows "ece391_strrev (s @ 0 # xs) = Some (rev s @ 0 # xs)"
proof -
  have e: "sint (of_nat (length s) - 1 :: u32) = int (length s) - 1" using assms(2) by (intro sint_dec) simp
  show ?thesis
  proof (cases "length s \<le> 1")
    case True
    then have "rev s = s" by (cases s) auto
    then show ?thesis using True by (simp add: ece391_strrev_def strlen_string[OF assms(1)] e)
  next
    case False
    then show ?thesis using strrev_loop_rev[of 0 "[]" "int (length s) - 1" s "0 # xs"]
      by (simp add: ece391_strrev_def strlen_string[OF assms(1)] e)
  qed
qed

lemma itoa_loop_list:
  assumes "2 \<le> unat r" and "unat r \<le> 36"
  shows "length pre + length (digs (unat r) (unat v)) \<le> length (pre @ rest) \<Longrightarrow>
    ece391_itoa_loop v (pre @ rest) (length pre) r =
    (let ds = rev (map ((!) lookup) (digs (unat r) (unat v)))
     in Some (pre @ ds @ drop (length ds) rest, length pre + length ds))"
proof (induction "unat v" arbitrary: v pre rest rule: less_induct)
  case less
  have r0: "r \<noteq> 0" using assms(1) by auto
  show ?case
  proof (cases "v = 0")
    case False
    then have v: "unat v \<noteq> 0" by (simp add: unat_eq_0)
    let ?c = "lookup ! unat (v mod r)"
    have "unat v mod unat r < unat r" using assms(1) by (intro mod_less_divisor) simp
    then have i: "unat (v mod r) < 37" using assms(2) by (simp add: unat_mod)
    have lt: "unat (v div r) < unat v" using assms(1) v by (simp add: unat_div)
    have u: "digs (unat r) (unat v) = digs (unat r) (unat (v div r)) @ [unat (v mod r)]"
      using v assms(1) by (subst digs.simps) (simp add: unat_div unat_mod)
    obtain x rest' where rest: "rest = x # rest'" using less.prems by (cases rest) (auto simp: u)
    have "ece391_itoa_loop v (pre @ rest) (length pre) r = ece391_itoa_loop (v div r) ((pre @ [?c]) @ rest') (length (pre @ [?c])) r"
      using False r0 i by (subst ece391_itoa_loop.simps) (simp add: aget_def aset_def word_gt_0 rest list_update_append)
    then show ?thesis using less.hyps[OF lt, of "pre @ [?c]" rest'] less.prems by (simp add: rest u Let_def)
  qed (simp add: ece391_itoa_loop.simps digs.simps)
qed

lemma itoa_list:
  assumes "2 \<le> unat r" and "unat r \<le> 36" and "length (numeral_str (unat r) (unat v)) < length buf"
  defines "s \<equiv> numeral_str (unat r) (unat v)"
  shows "ece391_itoa v buf r = Some (s @ 0 # drop (length s + 1) buf)"
proof (cases "v = 0")
  case True
  have z: "lookup ! 0 = byte_of (CHR ''0'')" by (simp add: lookup_def lit_def)
  obtain x y zs where b: "buf = x # y # zs" using assms(3) True by (cases buf; cases "tl buf") (auto simp: numeral_str_def)
  show ?thesis using True by (simp add: s_def numeral_str_def ece391_itoa_def aset_def z b)
next
  case False
  have l: "length s \<le> 32" using numeral_str_length assms(1) by (simp add: s_def)
  have ds: "s = map ((!) lookup) (digs (unat r) (unat v))"
    using False by (simp add: s_def numeral_str_def unat_eq_0)
  have "ece391_itoa_loop v buf 0 r = Some (rev s @ drop (length s) buf, length s)"
    using itoa_loop_list[OF assms(1,2), of "[]" v buf] assms(3) by (simp add: s_def[symmetric]) (simp add: ds rev_map Let_def)
  moreover have "(rev s @ drop (length s) buf)[length s := 0] = rev s @ 0 # drop (length s + 1) buf"
    using assms(3) by (simp add: s_def[symmetric] list_update_append upd_conv_take_nth_drop)
  moreover have "wf_cstring s" using numeral_str_ok(1)[OF assms(1,2)] by (simp add: s_def)
  ultimately show ?thesis using False l assms(3) strrev_rev[of "rev s" "drop (length s + 1) buf"]
    by (simp add: ece391_itoa_def aset_def s_def[symmetric] wf_cstring_def)
qed

section \<open>The comparison\<close>

text \<open>\<open>ece391_strcmp\<close> on two NUL-terminated strings reads nothing behind the NULs and
  agrees with the lexicographic order of the strings as unsigned bytes: it returns 0 exactly for
  equal strings, and a negative number exactly when the first comes before the second.\<close>

theorem strcmp_lexicographic:
  assumes "holds a s" and "holds b t"
  shows "\<exists>r. ece391_strcmp a b = Some r \<and> (r = 0 \<longleftrightarrow> s = t) \<and> (sint r < 0 \<longleftrightarrow> (s, t) \<in> lexord byte_less)"
  by (rule strcmp_lex[OF assms])

theorem strcmp_lexicographic_witness:
  "\<exists>r. ece391_strcmp (str ''ls'') (str ''lsx'') = Some r \<and> r \<noteq> 0 \<and> sint r < 0"
proof -
  have h: "holds (str ''ls'') [108, 115]" "holds (str ''lsx'') [108, 115, 120]"
    by (simp_all add: str_def lit_def byte_of_def holds_Cons)
  show ?thesis using strcmp_lexicographic[OF h] by auto
qed

end
