(* ===== verification/Programs.thy ===== *)
theory Programs
  imports Userlib
begin

text \<open>
  The small user programs of \<^verbatim>\<open>syscalls/\<close>: cat, ls, hello, testprint, counter, pingpong,
  sigtest and shell, each \<open>main\<close> a function of the system call interface, of the contents of
  its uninitialised arrays and of the system's state.  The result is what \<open>main\<close> returns; a
  loop that never ends has none.

  The locale \<open>writer\<close> is the contract of descriptor 1: a write puts exactly the bytes passed
  on the output.  \<open>reader\<close> adds a descriptor whose reads deliver a stream of bytes,
  \<open>lister\<close> one whose reads deliver a list of names, \<open>keyboard_reader\<close> a
  standard input that delivers lines.  What the programs print is proved from these.
\<close>

section \<open>cat (ece391cat.c)\<close>

partial_function (option) cat_loop :: "'w sys \<Rightarrow> i32 \<Rightarrow> u8 list \<Rightarrow> 'w \<Rightarrow> (i32 \<times> 'w) option" where
  "cat_loop S fd buf w =
     do { (cnt, buf, w) \<leftarrow> s_read S fd buf 1024 w;
          if cnt = 0 then Some (0, w)
          else if cnt = -1 then do { w \<leftarrow> ece391_fdputs S 1 (str ''file read failed\<newline>'') w; Some (3, w) }
          else do { (r, w) \<leftarrow> s_write S 1 buf cnt w;
                    if r = -1 then Some (3, w) else cat_loop S fd buf w } }"

definition cat_main :: "'w sys \<Rightarrow> u8 list \<Rightarrow> 'w \<Rightarrow> (i32 \<times> 'w) option" where
  "cat_main S buf w =
     do { (r, buf, w) \<leftarrow> s_getargs S buf 1024 w;
          if r \<noteq> 0 then do { w \<leftarrow> ece391_fdputs S 1 (str ''could not read arguments\<newline>'') w; Some (3, w) }
          else do { (fd, w) \<leftarrow> s_open S buf w;
                    if fd = -1 then do { w \<leftarrow> ece391_fdputs S 1 (str ''file not found\<newline>'') w; Some (2, w) }
                    else cat_loop S fd buf w } }"

section \<open>ls (ece391ls.c)\<close>

partial_function (option) ls_loop :: "'w sys \<Rightarrow> i32 \<Rightarrow> u8 list \<Rightarrow> 'w \<Rightarrow> (i32 \<times> 'w) option" where
  "ls_loop S fd buf w =
     do { (cnt, buf, w) \<leftarrow> s_read S fd buf 32 w;
          if cnt = 0 then Some (0, w)
          else if cnt = -1 then do { w \<leftarrow> ece391_fdputs S 1 (str ''directory entry read failed\<newline>'') w; Some (3, w) }
          else do { buf \<leftarrow> aset buf (unat cnt) 10;
                    (r, w) \<leftarrow> s_write S 1 buf (cnt + 1) w;
                    if r = -1 then Some (3, w) else ls_loop S fd buf w } }"

definition ls_main :: "'w sys \<Rightarrow> u8 list \<Rightarrow> 'w \<Rightarrow> (i32 \<times> 'w) option" where
  "ls_main S buf w =
     do { (fd, w) \<leftarrow> s_open S (str ''.'') w;
          if fd = -1 then do { w \<leftarrow> ece391_fdputs S 1 (str ''directory open failed\<newline>'') w; Some (2, w) }
          else ls_loop S fd buf w }"

section \<open>hello, testprint, counter\<close>

definition hello_main :: "'w sys \<Rightarrow> u8 list \<Rightarrow> 'w \<Rightarrow> (i32 \<times> 'w) option" where
  "hello_main S buf w =
     do { w \<leftarrow> ece391_fdputs S 1 (str ''Hi, what's your name? '') w;
          (cnt, buf, w) \<leftarrow> s_read S 0 buf 1023 w;
          if cnt = -1 then do { w \<leftarrow> ece391_fdputs S 1 (str ''Can't read name from keyboard.\<newline>'') w; Some (3, w) }
          else do { buf \<leftarrow> aset buf (unat cnt) 0;
                    w \<leftarrow> ece391_fdputs S 1 (str ''Hello, '') w;
                    w \<leftarrow> ece391_fdputs S 1 buf w;
                    Some (0, w) } }"

definition testprint_main :: "'w sys \<Rightarrow> 'w \<Rightarrow> (i32 \<times> 'w) option" where
  "testprint_main S w =
     do { w \<leftarrow> ece391_fdputs S 1 (str ''Hello, if this ran, the program was correct. Yay!\<newline>'') w; Some (0, w) }"

text \<open>\<open>for (i = 0; i < max; i++)\<close>.\<close>

function counter_loop :: "'w sys \<Rightarrow> u32 \<Rightarrow> u32 \<Rightarrow> u8 list \<Rightarrow> 'w \<Rightarrow> (i32 \<times> 'w) option" where
  "counter_loop S i mx buf w =
     (if i < mx
      then do { buf \<leftarrow> ece391_itoa (i + 1) buf 10;
                w \<leftarrow> ece391_fdputs S 1 buf w;
                w \<leftarrow> ece391_fdputs S 1 (str [CHR 0x0A]) w;
                counter_loop S (i + 1) mx buf w }
      else Some (0, w))"
  by pat_completeness auto
termination
  by (relation "measure (\<lambda>(S, i, mx, buf, w). unat mx - unat i)")
     (simp_all add: unat_Suc_less, simp add: word_less_nat_alt diff_less_mono2)

declare counter_loop.simps [simp del]

definition counter_max :: "u8 \<Rightarrow> u32" where
  "counter_max c = (if c = byte_of (CHR ''0'') then 100 else if c = byte_of (CHR ''1'') then 10000
     else if c = byte_of (CHR ''2'') then 100000 else 0)"

definition counter_main :: "'w sys \<Rightarrow> u8 list \<Rightarrow> 'w \<Rightarrow> (i32 \<times> 'w) option" where
  "counter_main S buf w =
     do { w \<leftarrow> ece391_fdputs S 1 (str ''Enter the Test Number: (0): 100, (1): 10000, (2): 100000\<newline>'') w;
          (cnt, buf, w) \<leftarrow> s_read S 0 buf 1023 w;
          if cnt = -1 then do { w \<leftarrow> ece391_fdputs S 1 (str ''Can't read the number from keyboard.\<newline>'') w; Some (3, w) }
          else do { buf \<leftarrow> aset buf (unat cnt) 0;
                    n \<leftarrow> ece391_strlen buf;
                    c \<leftarrow> aget buf 0;
                    if n > 2 \<or> n = 2 \<and> (c < byte_of (CHR ''0'') \<or> c > byte_of (CHR ''2''))
                    then do { w \<leftarrow> ece391_fdputs S 1 (str ''Wrong Choice!\<newline>'') w; Some (0, w) }
                    else counter_loop S 0 (counter_max c) buf w } }"

section \<open>pingpong (ece391pingpong.c)\<close>

abbreviation (input) BUFMAX :: nat where "BUFMAX \<equiv> 81"
abbreviation (input) STARTLOOP :: nat where "STARTLOOP \<equiv> 2"
abbreviation (input) LOOPMAX :: nat where "LOOPMAX \<equiv> 78"

text \<open>\<open>for (; i < n; i++) buf[i] = ' '\<close>.\<close>

function blank :: "u8 list \<Rightarrow> nat \<Rightarrow> nat \<Rightarrow> u8 list option" where
  "blank buf i n = (if i < n then do { buf \<leftarrow> aset buf i 32; blank buf (i + 1) n } else Some buf)"
  by pat_completeness auto
termination
  by (relation "measure (\<lambda>(buf, i, n). n - i)") auto

declare blank.simps [simp del]

text \<open>The body shared by both loops over \<open>j\<close>; \<open>g\<close> is the variable \<open>garbage\<close>.\<close>

definition pingpong_draw :: "'w sys \<Rightarrow> i32 \<Rightarrow> u8 \<Rightarrow> nat \<Rightarrow> u8 list \<times> u8 list \<times> 'w \<Rightarrow> (u8 list \<times> u8 list \<times> 'w) option" where
  "pingpong_draw S rtc_fd curchar j = (\<lambda>(buf, g, w).
     do { buf \<leftarrow> blank buf STARTLOOP LOOPMAX;
          buf \<leftarrow> aset buf j curchar;
          w \<leftarrow> ece391_fdputs S 1 buf w;
          (_, g, w) \<leftarrow> s_read S rtc_fd g 4 w;
          Some (buf, g, w) })"

function pingpong_out :: "'w sys \<Rightarrow> i32 \<Rightarrow> u8 \<Rightarrow> int \<Rightarrow> u8 list \<times> u8 list \<times> 'w \<Rightarrow> (u8 list \<times> u8 list \<times> 'w) option" where
  "pingpong_out S rtc_fd curchar j st =
     (if j < int LOOPMAX then do { st \<leftarrow> pingpong_draw S rtc_fd curchar (nat j) st; pingpong_out S rtc_fd curchar (j + 1) st }
      else Some st)"
  by pat_completeness auto
termination
  by (relation "measure (\<lambda>(S, fd, c, j, st). nat (78 - j))") auto

function pingpong_back :: "'w sys \<Rightarrow> i32 \<Rightarrow> u8 \<Rightarrow> int \<Rightarrow> u8 list \<times> u8 list \<times> 'w \<Rightarrow> (u8 list \<times> u8 list \<times> 'w) option" where
  "pingpong_back S rtc_fd curchar j st =
     (if j \<ge> int STARTLOOP then do { st \<leftarrow> pingpong_draw S rtc_fd curchar (nat j) st; pingpong_back S rtc_fd curchar (j - 1) st }
      else Some st)"
  by pat_completeness auto
termination
  by (relation "measure (\<lambda>(S, fd, c, j, st). nat j)") auto

declare pingpong_out.simps [simp del] pingpong_back.simps [simp del]

definition next_char :: "u8 \<Rightarrow> u8" where
  "next_char curchar = (if curchar = byte_of (CHR ''Z'') then byte_of (CHR ''A'') else curchar + 1)"

text \<open>One turn of \<open>while(1)\<close>, and the endless loop.\<close>

definition pingpong_turn :: "'w sys \<Rightarrow> i32 \<Rightarrow> u8 \<Rightarrow> u8 list \<times> u8 list \<times> 'w \<Rightarrow> (u8 \<times> u8 list \<times> u8 list \<times> 'w) option" where
  "pingpong_turn S rtc_fd curchar st =
     do { st \<leftarrow> pingpong_out S rtc_fd curchar (int STARTLOOP) st;
          st \<leftarrow> pingpong_back S rtc_fd curchar (int LOOPMAX - 1) st;
          Some (next_char curchar, st) }"

partial_function (option) pingpong_loop :: "'w sys \<Rightarrow> i32 \<Rightarrow> u8 \<Rightarrow> u8 list \<times> u8 list \<times> 'w \<Rightarrow> (i32 \<times> 'w) option" where
  "pingpong_loop S rtc_fd curchar st =
     do { (curchar, st) \<leftarrow> pingpong_turn S rtc_fd curchar st; pingpong_loop S rtc_fd curchar st }"

text \<open>The statements before the loop: the line with its walls, the clock opened and set to 32 Hz.\<close>

definition pingpong_setup :: "'w sys \<Rightarrow> u8 list \<Rightarrow> 'w \<Rightarrow> (i32 \<times> u8 list \<times> 'w) option" where
  "pingpong_setup S buf w =
     do { buf \<leftarrow> blank buf 0 BUFMAX;
          buf \<leftarrow> aset buf (BUFMAX - 1) 0;
          buf \<leftarrow> aset buf (BUFMAX - 2) 10;
          buf \<leftarrow> aset buf (BUFMAX - 3) (byte_of (CHR ''|''));
          buf \<leftarrow> aset buf 1 (byte_of (CHR ''|''));
          (rtc_fd, w) \<leftarrow> s_open S (str ''rtc'') w;
          (_, w) \<leftarrow> s_write S rtc_fd [32, 0, 0, 0] 4 w;
          Some (rtc_fd, buf, w) }"

definition pingpong_main :: "'w sys \<Rightarrow> u8 list \<Rightarrow> u8 list \<Rightarrow> 'w \<Rightarrow> (i32 \<times> 'w) option" where
  "pingpong_main S buf g w =
     do { (rtc_fd, buf, w) \<leftarrow> pingpong_setup S buf w;
          pingpong_loop S rtc_fd (byte_of (CHR ''A'')) (buf, g, w) }"

section \<open>sigtest (ece391sigtest.c)\<close>

text \<open>A program ends by returning from \<open>main\<close> or at a store to an address it may not write.\<close>

datatype ending = Returned i32 | Faulted u32

text \<open>\<open>charbuf_at\<close> is \<open>&charbuf\<close>; \<open>badbuf\<close> is the value of that volatile pointer when the
  store executes: 0 unless a signal handler has set it.  The store \<open>*badbuf = 1\<close> gives the new
  \<open>charbuf\<close>.\<close>

definition store_badbuf :: "u32 \<Rightarrow> u32 \<Rightarrow> u8 option" where
  "store_badbuf charbuf_at badbuf = (if badbuf = charbuf_at then Some 1 else None)"

definition sigtest_main :: "'w sys \<Rightarrow> u32 \<Rightarrow> u32 \<Rightarrow> u32 \<Rightarrow> u32 \<Rightarrow> u8 list \<Rightarrow> 'w \<Rightarrow> (ending \<times> 'w) option" where
  "sigtest_main S charbuf_at badbuf segfault_at alarm_at buf w =
     do { (r, buf, w) \<leftarrow> s_getargs S buf 1024 w;
          if r \<noteq> 0 then do { w \<leftarrow> ece391_fdputs S 1 (str ''could not read argument\<newline>'') w; Some (Returned 3, w) }
          else do {
            c \<leftarrow> aget buf 0;
            w \<leftarrow> (if c = byte_of (CHR ''1'')
                  then do { w \<leftarrow> ece391_fdputs S 1 (str ''Installing signal handlers\<newline>'') w;
                            (_, w) \<leftarrow> s_set_handler S 1 segfault_at w;
                            (_, w) \<leftarrow> s_set_handler S 3 alarm_at w;
                            Some w }
                  else Some w);
            w \<leftarrow> ece391_fdputs S 1 (str ''Hi, what's your name? '') w;
            (cnt, buf, w) \<leftarrow> s_read S 0 buf 1023 w;
            if cnt = -1 then do { w \<leftarrow> ece391_fdputs S 1 (str ''Can't read name from keyboard.\<newline>'') w; Some (Returned 3, w) }
            else case store_badbuf charbuf_at badbuf of None \<Rightarrow> Some (Faulted badbuf, w)
              | Some charbuf \<Rightarrow>
                  do { buf \<leftarrow> aset buf (unat cnt) 0;
                       w \<leftarrow> ece391_fdputs S 1 (str ''Hello, '') w;
                       w \<leftarrow> ece391_fdputs S 1 buf w;
                       w \<leftarrow> ece391_fdputs S 1 (if charbuf = 1 then str ''success\<newline>'' else str ''failure\<newline>'') w;
                       Some (Returned 0, w) } } }"

text \<open>\<open>switch (signum)\<close> of both handlers.\<close>

definition signum_text :: "i32 \<Rightarrow> u8 list" where
  "signum_text signum = (if signum = 0 then str ''0\<newline>'' else if signum = 1 then str ''1\<newline>''
     else if signum = 2 then str ''2\<newline>'' else if signum = 3 then str ''3\<newline>'' else str ''invalid\<newline>'')"

text \<open>The handler returns the new \<open>badbuf\<close> and the value it stores in the saved \<open>eax\<close> of the
  interrupted context.\<close>

definition segfault_sighandler :: "'w sys \<Rightarrow> u32 \<Rightarrow> i32 \<Rightarrow> u8 list \<Rightarrow> 'w \<Rightarrow> (u32 \<times> u32 \<times> 'w) option" where
  "segfault_sighandler S charbuf_at signum buf w =
     do { w \<leftarrow> ece391_fdputs S 1 (str ''Segfault signal handler called, signum: '') w;
          w \<leftarrow> ece391_fdputs S 1 (signum_text signum) w;
          w \<leftarrow> ece391_fdputs S 1 (str ''Press enter to continue...\<newline>'') w;
          (_, _, w) \<leftarrow> s_read S 0 buf 1 w;
          w \<leftarrow> ece391_fdputs S 1 (str ''Signal handler returning\<newline>'') w;
          Some (charbuf_at, charbuf_at, w) }"

definition alarm_sighandler :: "'w sys \<Rightarrow> i32 \<Rightarrow> 'w \<Rightarrow> 'w option" where
  "alarm_sighandler S signum w =
     do { w \<leftarrow> ece391_fdputs S 1 (str ''Alarm signal handler called, signum: '') w;
          ece391_fdputs S 1 (signum_text signum) w }"

section \<open>shell (ece391shell.c)\<close>

text \<open>The message for what \<open>execute\<close> returned.\<close>

definition shell_report :: "'w sys \<Rightarrow> i32 \<Rightarrow> 'w \<Rightarrow> 'w option" where
  "shell_report S rval w =
     (if rval = -1 then ece391_fdputs S 1 (str ''no such command\<newline>'') w
      else if rval = 256 then ece391_fdputs S 1 (str ''program terminated by exception\<newline>'') w
      else if rval \<noteq> 0 then ece391_fdputs S 1 (str ''program terminated abnormally\<newline>'') w
      else Some w)"

text \<open>One turn of the loop: what \<open>main\<close> returns, if the shell ends here, and the buffer.\<close>

definition shell_turn :: "'w sys \<Rightarrow> u8 list \<Rightarrow> 'w \<Rightarrow> (i32 option \<times> u8 list \<times> 'w) option" where
  "shell_turn S buf w =
     do { w \<leftarrow> ece391_fdputs S 1 (str ''391OS> '') w;
          (cnt, buf, w) \<leftarrow> s_read S 0 buf 1023 w;
          if cnt = -1 then do { w \<leftarrow> ece391_fdputs S 1 (str ''read from keyboard failed\<newline>'') w; Some (Some 3, buf, w) }
          else do {
            nl \<leftarrow> (if sint cnt > 0 then do { c \<leftarrow> aget buf (unat (cnt - 1)); Some (c = 10) } else Some False);
            let cnt = (if nl then cnt - 1 else cnt);
            buf \<leftarrow> aset buf (unat cnt) 0;
            e \<leftarrow> ece391_strcmp buf (str ''exit'');
            if e = 0 then Some (Some 0, buf, w)
            else do { c \<leftarrow> aget buf 0;
                      if c = 0 then Some (None, buf, w)
                      else do { (rval, w) \<leftarrow> s_execute S buf w;
                                w \<leftarrow> shell_report S rval w;
                                Some (None, buf, w) } } } }"

partial_function (option) shell_loop :: "'w sys \<Rightarrow> u8 list \<Rightarrow> 'w \<Rightarrow> (i32 \<times> 'w) option" where
  "shell_loop S buf w =
     do { (r, buf, w) \<leftarrow> shell_turn S buf w;
          case r of Some r \<Rightarrow> Some (r, w) | None \<Rightarrow> shell_loop S buf w }"

definition shell_main :: "'w sys \<Rightarrow> u8 list \<Rightarrow> 'w \<Rightarrow> (i32 \<times> 'w) option" where
  "shell_main S buf w = do { w \<leftarrow> ece391_fdputs S 1 (str ''Starting 391 Shell\<newline>'') w; shell_loop S buf w }"

section \<open>The contract of descriptor 1\<close>

text \<open>\<open>out\<close> is what has been output, \<open>emit\<close> appends bytes to it, and \<open>inp\<close> is the input
  still to be read, which output does not change.  Arrays have at most 1025 bytes, the
  largest the programs have.\<close>

locale writer =
  fixes S :: "'w sys" and ok :: "'w \<Rightarrow> bool" and out :: "'w \<Rightarrow> 'o" and emit :: "u8 list \<Rightarrow> 'o \<Rightarrow> 'o" and inp :: "'w \<Rightarrow> 'i"
  assumes emit_append: "emit (xs @ ys) z = emit ys (emit xs z)"
    and emit_Nil: "emit [] z = z"
    and write_emits: "ok w \<Longrightarrow> length buf \<le> 1025 \<Longrightarrow> n \<le> length buf \<Longrightarrow>
      \<exists>w'. s_write S 1 buf (of_nat n) w = Some (of_nat n, w') \<and> ok w' \<and> inp w' = inp w \<and> out w' = emit (take n buf) (out w)"
begin

lemma fdputs_emits:
  assumes "ok w" and "holds a s" and "length a \<le> 1025"
  shows "\<exists>w'. ece391_fdputs S 1 a w = Some w' \<and> ok w' \<and> inp w' = inp w \<and> out w' = emit s (out w)"
proof -
  have "length s \<le> length a" "take (length s) a = s" using assms(2) by (auto simp: holds_def)
  then show ?thesis using write_emits[OF assms(1,3), of "length s"] holds_strlen[OF assms(2)]
    by (auto simp: ece391_fdputs_def)
qed

lemma puts_literal:
  assumes "ok w" and "CHR 0x00 \<notin> set s" and "length s \<le> 1024"
  shows "\<exists>w'. ece391_fdputs S 1 (str s) w = Some w' \<and> ok w' \<and> inp w' = inp w \<and> out w' = emit (lit s) (out w)"
  using fdputs_emits[OF assms(1) holds_str[OF assms(2)]] assms(3) by (simp add: str_def lit_def)

lemma counter_loop_prints:
  "ok w \<Longrightarrow> i \<le> mx \<Longrightarrow> length buf = 1024 \<Longrightarrow>
    \<exists>w'. counter_loop S i mx buf w = Some (0, w') \<and> ok w' \<and>
      out w' = emit (concat (map (\<lambda>j. numeral_str 10 j @ [10]) [Suc (unat i)..<Suc (unat mx)])) (out w)"
proof (induction "unat mx - unat i" arbitrary: i buf w)
  case 0
  then have "i = mx" by (simp add: word_le_nat_alt word_unat_eq_iff)
  then show ?case using 0 by (subst counter_loop.simps) (simp add: emit_Nil)
next
  case (Suc k)
  then have less: "i < mx" by (simp add: word_less_nat_alt)
  have u: "unat (i + 1) = Suc (unat i)" using less by (rule unat_Suc_less)
  let ?s = "numeral_str 10 (Suc (unat i))"
  have len: "length ?s \<le> 32" using numeral_str_length[of 10 "i + 1"] by (simp add: u)
  obtain b where b: "ece391_itoa (i + 1) buf 10 = Some b" "holds b ?s" "length b = 1024"
    using itoa_list[of 10 "i + 1" buf] numeral_str_ok(1)[of 10 "Suc (unat i)"] len Suc.prems(3) by (auto simp: u holds_def)
  obtain w1 where w1: "ece391_fdputs S 1 b w = Some w1" "ok w1" "out w1 = emit ?s (out w)"
    using fdputs_emits[OF Suc.prems(1) b(2)] b(3) by auto
  obtain w2 where w2: "ece391_fdputs S 1 (str [CHR 0x0A]) w1 = Some w2" "ok w2" "out w2 = emit [10] (out w1)"
    using puts_literal[OF w1(2), of "[CHR 0x0A]"] by (auto simp: lit_def byte_of_def)
  obtain w' where w': "counter_loop S (i + 1) mx b w2 = Some (0, w')" "ok w'"
    "out w' = emit (concat (map (\<lambda>j. numeral_str 10 j @ [10]) [Suc (unat (i + 1))..<Suc (unat mx)])) (out w2)"
    using Suc.hyps(1)[of "i + 1", OF _ w2(2) word_less_Suc_le[OF less] b(3)] Suc.hyps(2) unfolding u by fastforce
  have "[Suc (unat i)..<Suc (unat mx)] = Suc (unat i) # [Suc (unat (i + 1))..<Suc (unat mx)]"
    using less by (simp add: u upt_conv_Cons word_less_nat_alt)
  then have "out w' = emit (concat (map (\<lambda>j. numeral_str 10 j @ [10]) [Suc (unat i)..<Suc (unat mx)])) (out w)"
    by (simp add: w'(3) w2(3) w1(3) del: upt_Suc flip: emit_append)
  then show ?case using less b(1) w1(1) w2(1) w'(1,2) by (subst counter_loop.simps) simp
qed

end

section \<open>Reading a stream: cat\<close>

locale reader = writer S ok out emit inp
  for S :: "'w sys" and ok :: "'w \<Rightarrow> bool" and out :: "'w \<Rightarrow> 'o" and emit and inp :: "'w \<Rightarrow> u8 list" +
  fixes fd :: i32
  assumes read_delivers: "ok w \<Longrightarrow> length buf \<le> 1025 \<Longrightarrow> n \<le> length buf \<Longrightarrow>
      \<exists>w'. s_read S fd buf (of_nat n) w =
          Some (of_nat (length (take n (inp w))), take n (inp w) @ drop (length (take n (inp w))) buf, w') \<and>
        ok w' \<and> out w' = out w \<and> inp w' = drop n (inp w)"
begin

lemma cat_loop_copies:
  "ok w \<Longrightarrow> length buf = 1024 \<Longrightarrow>
    \<exists>w'. cat_loop S fd buf w = Some (0, w') \<and> ok w' \<and> inp w' = [] \<and> out w' = emit (inp w) (out w)"
proof (induction "length (inp w)" arbitrary: w buf rule: less_induct)
  case less
  define d b where "d = take 1024 (inp w)" and "b = d @ drop (length d) buf"
  have d: "d @ drop 1024 (inp w) = inp w" "length d \<le> 1024" "d = [] \<longleftrightarrow> inp w = []" by (auto simp: d_def)
  have b: "length b = 1024" "take (length d) b = d" using less.prems(2) d(2) by (auto simp: b_def)
  note cnt = count_word[of "length d"]
  obtain w1 where w1: "s_read S fd buf 1024 w = Some (of_nat (length d), b, w1)"
    "ok w1" "out w1 = out w" "inp w1 = drop 1024 (inp w)"
    using read_delivers[of w buf 1024, folded d_def, folded b_def] less.prems by auto
  show ?case
  proof (cases "inp w = []")
    case True
    then show ?thesis using w1 d by (subst cat_loop.simps) (simp add: emit_Nil)
  next
    case False
    obtain w2 where w2: "s_write S 1 b (of_nat (length d)) w1 = Some (of_nat (length d), w2)"
      "ok w2" "inp w2 = inp w1" "out w2 = emit d (out w1)"
      using write_emits[OF w1(2), of b "length d"] b d(2) by auto
    obtain w' where w': "cat_loop S fd b w2 = Some (0, w')" "ok w'" "inp w' = []" "out w' = emit (inp w2) (out w2)"
      using less.hyps[of w2 b] w2(2,3) w1(4) False b(1) by auto
    have "out w' = emit (inp w) (out w)" by (simp add: w'(4) w2(3,4) w1(3,4) d(1) flip: emit_append)
    then show ?thesis using False d cnt w1(1) w2(1) w'(1-3) by (subst cat_loop.simps) simp
  qed
qed

end

section \<open>Reading a directory: ls\<close>

locale lister = writer S ok out emit inp
  for S :: "'w sys" and ok :: "'w \<Rightarrow> bool" and out :: "'w \<Rightarrow> 'o" and emit and inp :: "'w \<Rightarrow> u8 list list" +
  fixes fd :: i32
  assumes read_end: "ok w \<Longrightarrow> inp w = [] \<Longrightarrow> length buf = 33 \<Longrightarrow>
      \<exists>buf' w'. s_read S fd buf 32 w = Some (0, buf', w') \<and> ok w' \<and> out w' = out w \<and> inp w' = []"
    and read_entry: "ok w \<Longrightarrow> inp w = d # ds \<Longrightarrow> length buf = 33 \<Longrightarrow>
      \<exists>w'. s_read S fd buf 32 w = Some (of_nat (length d), d @ drop (length d) buf, w') \<and> ok w' \<and> out w' = out w \<and> inp w' = ds"
    and entry_length: "ok w \<Longrightarrow> d \<in> set (inp w) \<Longrightarrow> 0 < length d \<and> length d \<le> 32"
begin

lemma ls_loop_lists:
  "ok w \<Longrightarrow> length buf = 33 \<Longrightarrow>
    \<exists>w'. ls_loop S fd buf w = Some (0, w') \<and> ok w' \<and> inp w' = [] \<and> out w' = emit (concat (map (\<lambda>d. d @ [10]) (inp w))) (out w)"
proof (induction "inp w" arbitrary: w buf)
  case Nil
  obtain buf' w' where "s_read S fd buf 32 w = Some (0, buf', w')" "ok w'" "out w' = out w" "inp w' = []"
    using read_end[OF Nil(2) Nil(1)[symmetric] Nil(3)] by blast
  then show ?case using Nil by (subst ls_loop.simps) (simp add: emit_Nil flip: Nil(1))
next
  case (Cons d ds)
  have d: "0 < length d" "length d \<le> 32" using entry_length[OF Cons.prems(1), of d] Cons.hyps(2) by (metis list.set_intros(1))+
  note cnt = count_word[of "length d"] count_word[of "Suc (length d)"]
  define b where "b = (d @ drop (length d) buf)[length d := 10]"
  have b: "length b = 33" "take (Suc (length d)) b = d @ [10]"
    using Cons.prems(2) d(2) by (auto simp: b_def list_update_append take_Suc_conv_app_nth)
  obtain w1 where w1: "s_read S fd buf 32 w = Some (of_nat (length d), d @ drop (length d) buf, w1)" "ok w1" "out w1 = out w" "inp w1 = ds"
    using read_entry[OF Cons.prems(1) Cons.hyps(2)[symmetric] Cons.prems(2)] by blast
  obtain w2 where w2: "s_write S 1 b (of_nat (Suc (length d))) w1 = Some (of_nat (Suc (length d)), w2)" "ok w2" "inp w2 = ds"
    "out w2 = emit (d @ [10]) (out w1)"
    using write_emits[OF w1(2), of b "Suc (length d)"] b d(2) by (auto simp: w1(4))
  obtain w' where w': "ls_loop S fd b w2 = Some (0, w')" "ok w'" "inp w' = []" "out w' = emit (concat (map (\<lambda>d. d @ [10]) ds)) (out w2)"
    using Cons.hyps(1)[of w2 b] w2(2,3) b(1) by auto
  have "out w' = emit (concat (map (\<lambda>d. d @ [10]) (inp w))) (out w)"
    by (simp add: w'(4) w2(4) w1(3) flip: Cons.hyps(2) emit_append)
  moreover have "aset (d @ drop (length d) buf) (length d) 10 = Some b" using Cons.prems(2) d(2) by (simp add: b_def)
  moreover have "(of_nat (length d) + 1 :: i32) = of_nat (Suc (length d))" by simp
  ultimately show ?case using d cnt w1(1) w2(1) w'(1-3) by (subst ls_loop.simps) (simp add: add.commute)
qed

end

section \<open>Reading lines from the keyboard: hello, counter, shell\<close>

locale keyboard_reader = writer S ok out emit inp
  for S :: "'w sys" and ok :: "'w \<Rightarrow> bool" and out :: "'w \<Rightarrow> 'o" and emit and inp :: "'w \<Rightarrow> cstring list" +
  assumes read_line: "ok w \<Longrightarrow> inp w = l # ls \<Longrightarrow> length buf = 1024 \<Longrightarrow>
      \<exists>w'. s_read S 0 buf 1023 w = Some (of_nat (length l), l @ drop (length l) buf, w') \<and> ok w' \<and> out w' = out w \<and> inp w' = ls"
    and line_ok: "ok w \<Longrightarrow> l \<in> set (inp w) \<Longrightarrow> wf_cstring l \<and> length l \<le> 1023"
begin

text \<open>The array after \<open>buf[cnt] = 0\<close>.\<close>

lemma line_array:
  assumes "wf_cstring l" and "length l \<le> 1023" and "length buf = 1024"
  shows "aset (l @ drop (length l) buf) (length l) 0 = Some (l @ 0 # drop (Suc (length l)) buf)"
    and "holds (l @ 0 # drop (Suc (length l)) buf) l" and "length (l @ 0 # drop (Suc (length l)) buf) = 1024"
  using assms by (auto simp: aset_def holds_def list_update_append upd_conv_take_nth_drop)

lemma hello_greets:
  assumes "ok w" and "inp w = l # ls" and "length buf = 1024"
  shows "\<exists>w'. hello_main S buf w = Some (0, w') \<and> ok w' \<and> inp w' = ls \<and>
    out w' = emit (lit ''Hi, what's your name? Hello, '' @ l) (out w)"
proof -
  obtain w1 where w1: "ece391_fdputs S 1 (str ''Hi, what's your name? '') w = Some w1" "ok w1" "inp w1 = l # ls"
    "out w1 = emit (lit ''Hi, what's your name? '') (out w)"
    using puts_literal[OF assms(1), of "''Hi, what's your name? ''"] assms(2) by auto
  have l: "wf_cstring l" "length l \<le> 1023" using line_ok[OF w1(2), of l] w1(3) by auto
  obtain w2 where w2: "s_read S 0 buf 1023 w1 = Some (of_nat (length l), l @ drop (length l) buf, w2)" "ok w2" "out w2 = out w1" "inp w2 = ls"
    using read_line[OF w1(2,3) assms(3)] by blast
  note arr = line_array[OF l assms(3)]
  obtain w3 where w3: "ece391_fdputs S 1 (str ''Hello, '') w2 = Some w3" "ok w3" "inp w3 = ls" "out w3 = emit (lit ''Hello, '') (out w2)"
    using puts_literal[OF w2(2), of "''Hello, ''"] w2(4) by auto
  obtain w4 where w4: "ece391_fdputs S 1 (l @ 0 # drop (Suc (length l)) buf) w3 = Some w4" "ok w4" "inp w4 = ls" "out w4 = emit l (out w3)"
    using fdputs_emits[OF w3(2) arr(2)] arr(3) w3(3) by auto
  have "lit ''Hi, what's your name? '' @ lit ''Hello, '' = lit ''Hi, what's your name? Hello, ''" by (simp add: lit_def)
  then have "out w4 = emit (lit ''Hi, what's your name? Hello, '' @ l) (out w)"
    by (simp add: w4(4) w3(4) w2(3) w1(4) flip: emit_append append_assoc)
  then show ?thesis using w1(1) w2(1) w3(1) w4 arr(1) count_word[of "length l"] l(2) by (simp add: hello_main_def)
qed

text \<open>The answer \<open>l\<close> selects how far \<open>counter\<close> counts.\<close>

lemma counter_counts:
  assumes "ok w" and "inp w = [c, 10] # ls" and "length buf = 1024" and "c \<in> {48, 49, 50}"
  shows "\<exists>w'. counter_main S buf w = Some (0, w') \<and> ok w' \<and>
    out w' = emit (lit ''Enter the Test Number: (0): 100, (1): 10000, (2): 100000\<newline>'' @
      concat (map (\<lambda>j. numeral_str 10 j @ [10]) [1..<Suc (unat (counter_max c))])) (out w)"
proof -
  let ?q = "''Enter the Test Number: (0): 100, (1): 10000, (2): 100000\<newline>''"
  obtain w1 where w1: "ece391_fdputs S 1 (str ?q) w = Some w1" "ok w1" "inp w1 = [c, 10] # ls" "out w1 = emit (lit ?q) (out w)"
    using puts_literal[OF assms(1), of ?q] assms(2) by auto
  obtain w2 where w2: "s_read S 0 buf 1023 w1 = Some (2, [c, 10] @ drop 2 buf, w2)" "ok w2" "out w2 = out w1"
    using read_line[OF w1(2,3) assms(3)] by (auto simp: numeral_2_eq_2)
  have l: "wf_cstring [c, 10]" using assms(4) by (auto simp: wf_cstring_def)
  define b where "b = [c, 10, 0] @ drop 3 buf"
  have b: "aset ([c, 10] @ drop 2 buf) 2 0 = Some b" "ece391_strlen b = Some 2" "aget b 0 = Some c" "length b = 1024"
    using line_array[OF l _ assms(3)] holds_strlen[of b "[c, 10]"] assms(3) by (auto simp: b_def numeral_eq_Suc)
  obtain w3 where w3: "counter_loop S 0 (counter_max c) b w2 = Some (0, w3)" "ok w3"
    "out w3 = emit (concat (map (\<lambda>j. numeral_str 10 j @ [10]) [1..<Suc (unat (counter_max c))])) (out w2)"
    using counter_loop_prints[OF w2(2), of 0 "counter_max c" b] b(4) by auto
  have "\<not> (c < 48 \<or> c > 50)" using assms(4) by auto
  then show ?thesis using w1(1) w2(1) b(1-3) w3(1,2)
    by (simp add: counter_main_def byte_of_def w3(3) w2(3) w1(4) emit_append del: upt_Suc)
qed

text \<open>One turn of the shell on the typed line \<open>cmd\<close>: the prompt is printed, \<open>exit\<close> ends the
  shell, an empty line does nothing, and any other line is passed to \<open>execute\<close> as it was
  typed, without its newline, and the result reported.\<close>

lemma shell_turn_line:
  assumes "ok w" and "inp w = (cmd @ [10]) # ls" and "length buf = 1024"
  shows "\<exists>w1. ok w1 \<and> inp w1 = ls \<and> out w1 = emit (lit ''391OS> '') (out w) \<and>
    (let b = cmd @ 0 # drop (Suc (length cmd)) ((cmd @ [10]) @ drop (Suc (length cmd)) buf)
     in holds b cmd \<and> length b = 1024 \<and> shell_turn S buf w =
       (if cmd = lit ''exit'' then Some (Some 0, b, w1)
        else if cmd = [] then Some (None, b, w1)
        else do { (rval, w2) \<leftarrow> s_execute S b w1; w3 \<leftarrow> shell_report S rval w2; Some (None, b, w3) }))"
proof -
  obtain w1 where w1: "ece391_fdputs S 1 (str ''391OS> '') w = Some w1" "ok w1" "inp w1 = (cmd @ [10]) # ls"
    "out w1 = emit (lit ''391OS> '') (out w)"
    using puts_literal[OF assms(1), of "''391OS> ''"] assms(2) by auto
  have l: "wf_cstring (cmd @ [10])" "length (cmd @ [10]) \<le> 1023" using line_ok[OF w1(2), of "cmd @ [10]"] w1(3) by auto
  define a where "a = (cmd @ [10]) @ drop (length (cmd @ [10])) buf"
  define b where "b = cmd @ 0 # drop (Suc (length cmd)) a"
  define cnt where "cnt = (of_nat (length (cmd @ [10])) :: i32)"
  obtain w2 where w2: "s_read S 0 buf 1023 w1 = Some (cnt, a, w2)" "ok w2" "out w2 = out w1" "inp w2 = ls"
    using read_line[OF w1(2,3) assms(3), folded a_def cnt_def] by blast
  have n: "length a = 1024" "length cmd < 1024" using l(2) assms(3) by (auto simp: a_def)
  have b: "holds b cmd" "length b = 1024" "aset a (length cmd) 0 = Some b"
    using l n by (auto simp: holds_def b_def wf_cstring_def a_def list_update_append)
  have cnt: "cnt \<noteq> -1" "0 < sint cnt" "unat (cnt - 1) = length cmd"
    using count_word[of "length (cmd @ [10])"] count_word[of "length cmd"] sint_dec[of "Suc (length (cmd @ [10]))"] l(2) by (auto simp: cnt_def)
  have nl: "aget a (length cmd) = Some 10" using n by (simp add: a_def nth_append)
  obtain e where e: "ece391_strcmp b (str ''exit'') = Some e" "e = 0 \<longleftrightarrow> cmd = lit ''exit''"
    using strcmp_lex[OF b(1) holds_str[of "''exit''"]] by auto
  have first: "aget b 0 = Some (b ! 0)" "b ! 0 = 0 \<longleftrightarrow> cmd = []"
    using b(2) l(1) by (simp, cases cmd) (auto simp: b_def wf_cstring_def)
  have "shell_turn S buf w =
       (if cmd = lit ''exit'' then Some (Some 0, b, w2)
        else if cmd = [] then Some (None, b, w2)
        else do { (rval, w2) \<leftarrow> s_execute S b w2; w3 \<leftarrow> shell_report S rval w2; Some (None, b, w3) })"
    by (simp add: shell_turn_def w1(1) w2(1) cnt nl b(3) e first)
  then show ?thesis using w2 b w1(4) by (intro exI[of _ w2]) (simp add: b_def a_def)
qed

end

section \<open>Waiting for the clock: pingpong\<close>

text \<open>Reference: the line with the ball \<open>c\<close> in column \<open>j\<close>.\<close>

definition court :: "u8 \<Rightarrow> nat \<Rightarrow> cstring" where
  "court c j = [32, 124] @ (replicate 76 32)[j - 2 := c] @ [124, 10]"

definition walled :: "u8 list \<Rightarrow> bool" where
  "walled buf \<longleftrightarrow> length buf = 81 \<and> take 2 buf = [32, 124] \<and> drop 78 buf = [124, 10, 0]"

lemma blank_fills: "i \<le> n \<Longrightarrow> n \<le> length buf \<Longrightarrow> blank buf i n = Some (take i buf @ replicate (n - i) 32 @ drop n buf)"
proof (induction buf i n rule: blank.induct)
  case (1 buf i n)
  show ?case
  proof (cases "i < n")
    case True
    then have "blank buf i n = Some (take (i + 1) (buf[i := 32]) @ replicate (n - (i + 1)) 32 @ drop n (buf[i := 32]))"
      using 1 by (subst blank.simps) simp
    then show ?thesis using True "1.prems" by (simp add: take_Suc_conv_app_nth flip: replicate_Suc)
  next
    case False
    then have "i = n" using "1.prems" by simp
    then show ?thesis by (subst blank.simps) simp
  qed
qed

lemma court_array:
  assumes "walled buf" and "2 \<le> j" and "j < 78"
  shows "blank buf 2 78 = Some ([32, 124] @ replicate 76 32 @ [124, 10, 0])"
    and "([32, 124] @ replicate 76 32 @ [124, 10, 0])[j := c] = court c j @ [0]" and "walled (court c j @ [0])"
proof -
  show "blank buf 2 78 = Some ([32, 124] @ replicate 76 32 @ [124, 10, 0])"
    using assms(1) by (subst blank_fills) (simp_all add: walled_def)
  show eq: "([32, 124] @ replicate 76 32 @ [124, 10, 0])[j := c] = court c j @ [0]"
    using assms(2,3) by (cases j; cases "j - 1") (auto simp: court_def list_update_append)
  show "walled (court c j @ [0])" by (simp add: walled_def court_def)
qed

lemma court_wf: "c \<noteq> 0 \<Longrightarrow> wf_cstring (court c j)"
  using set_update_subset_insert[of "replicate 76 32" "j - 2" c] by (auto simp: wf_cstring_def court_def)

text \<open>Between two frames: the walls are in place and \<open>z\<close> has been output.\<close>

definition at_court :: "('w \<Rightarrow> bool) \<Rightarrow> ('w \<Rightarrow> 'o) \<Rightarrow> 'o \<Rightarrow> u8 list \<times> u8 list \<times> 'w \<Rightarrow> bool" where
  "at_court ok out z st \<longleftrightarrow> walled (fst st) \<and> length (fst (snd st)) = 4 \<and> ok (snd (snd st)) \<and> out (snd (snd st)) = z"

definition bounce :: "u8 \<Rightarrow> cstring" where
  "bounce c = concat (map (court c) ([2..<78] @ rev [2..<78]))"

text \<open>The first \<open>n\<close> turns.\<close>

primrec pingpong_turns :: "'w sys \<Rightarrow> i32 \<Rightarrow> nat \<Rightarrow> u8 \<times> u8 list \<times> u8 list \<times> 'w \<Rightarrow> (u8 \<times> u8 list \<times> u8 list \<times> 'w) option" where
  "pingpong_turns S fd 0 st = Some st"
| "pingpong_turns S fd (Suc n) st = do { st \<leftarrow> pingpong_turn S fd (fst st) (snd st); pingpong_turns S fd n st }"

lemma next_char_range: "65 \<le> c \<and> c \<le> 90 \<Longrightarrow> 65 \<le> next_char c \<and> next_char c \<le> 90 \<and> c \<noteq> 0"
proof (cases "c = 90")
  case False
  assume c: "65 \<le> c \<and> c \<le> 90"
  then have u: "65 \<le> unat c" "unat c < 90" using False by (auto simp: word_le_nat_alt word_unat_eq_iff)
  then have "unat (c + 1) = Suc (unat c)" by (simp add: unat_word_ariths)
  then show ?thesis using u c False by (auto simp: next_char_def byte_of_def word_le_nat_alt)
qed (simp add: next_char_def byte_of_def)

locale ticker = writer S ok out emit inp
  for S :: "'w sys" and ok :: "'w \<Rightarrow> bool" and out :: "'w \<Rightarrow> 'o" and emit and inp :: "'w \<Rightarrow> 'i" +
  fixes rtc_fd :: i32
  assumes tick: "ok w \<Longrightarrow> length g = 4 \<Longrightarrow> \<exists>r g' w'. s_read S rtc_fd g 4 w = Some (r, g', w') \<and> length g' = 4 \<and> ok w' \<and> out w' = out w"
begin

lemma draw_prints:
  assumes "at_court ok out z st" and "2 \<le> j" and "j < 78" and "c \<noteq> 0"
  shows "\<exists>st'. pingpong_draw S rtc_fd c j st = Some st' \<and> at_court ok out (emit (court c j) z) st'"
proof -
  obtain buf g w where st: "st = (buf, g, w)" by (cases st) auto
  have a: "walled buf" "length g = 4" "ok w" "out w = z" using assms(1) by (auto simp: at_court_def st)
  note arr = court_array[OF a(1) assms(2,3)]
  have h: "holds (court c j @ [0]) (court c j)" using court_wf[OF assms(4)] by (simp add: holds_def)
  obtain w1 where w1: "ece391_fdputs S 1 (court c j @ [0]) w = Some w1" "ok w1" "out w1 = emit (court c j) z"
    using fdputs_emits[OF a(3) h] a(4) by (auto simp: court_def)
  obtain r g' w' where w': "s_read S rtc_fd g 4 w1 = Some (r, g', w')" "length g' = 4" "ok w'" "out w' = out w1"
    using tick[OF w1(2) a(2)] by blast
  have "pingpong_draw S rtc_fd c j st = Some (court c j @ [0], g', w')"
    using assms(3) arr(1,2) w1(1) w'(1) by (simp add: pingpong_draw_def st)
  then show ?thesis using arr(3) w' w1(3) by (simp add: at_court_def)
qed

lemma out_prints:
  "at_court ok out z st \<Longrightarrow> 2 \<le> j \<Longrightarrow> j \<le> 78 \<Longrightarrow> c \<noteq> 0 \<Longrightarrow>
    \<exists>st'. pingpong_out S rtc_fd c (int j) st = Some st' \<and> at_court ok out (emit (concat (map (court c) [j..<78])) z) st'"
proof (induction "78 - j" arbitrary: j z st)
  case 0
  then show ?case by (subst pingpong_out.simps) (simp add: emit_Nil)
next
  case (Suc k)
  then have j: "j < 78" and k: "k = 78 - (j + 1)" by simp_all
  obtain st1 where st1: "pingpong_draw S rtc_fd c j st = Some st1" "at_court ok out (emit (court c j) z) st1"
    using draw_prints[OF Suc.prems(1,2) j Suc.prems(4)] by blast
  obtain st' where st': "pingpong_out S rtc_fd c (int (j + 1)) st1 = Some st'"
    "at_court ok out (emit (concat (map (court c) [j + 1..<78])) (emit (court c j) z)) st'"
    using Suc.hyps(1)[of "j + 1", OF k st1(2) _ _ Suc.prems(4)] Suc.prems(2) j by auto
  have "[j..<78] = j # [j + 1..<78]" using j by (simp add: upt_conv_Cons)
  then show ?case using j st1(1) st' by (subst pingpong_out.simps) (simp add: emit_append add.commute)
qed

lemma back_prints:
  "at_court ok out z st \<Longrightarrow> j \<le> 78 \<Longrightarrow> 2 \<le> j \<Longrightarrow> c \<noteq> 0 \<Longrightarrow>
    \<exists>st'. pingpong_back S rtc_fd c (int j - 1) st = Some st' \<and> at_court ok out (emit (concat (map (court c) (rev [2..<j]))) z) st'"
proof (induction j arbitrary: z st)
  case (Suc j)
  show ?case
  proof (cases "2 \<le> j")
    case True
    obtain st1 where st1: "pingpong_draw S rtc_fd c j st = Some st1" "at_court ok out (emit (court c j) z) st1"
      using draw_prints[OF Suc.prems(1) True _ Suc.prems(4)] Suc.prems(2) by auto
    obtain st' where st': "pingpong_back S rtc_fd c (int j - 1) st1 = Some st'"
      "at_court ok out (emit (concat (map (court c) (rev [2..<j]))) (emit (court c j) z)) st'"
      using Suc.IH[OF st1(2)] Suc.prems(2,4) True by auto
    then show ?thesis using True st1(1) by (subst pingpong_back.simps) (simp add: emit_append)
  next
    case False
    then have "j = 1" using Suc.prems(3) by simp
    then show ?thesis using Suc.prems(1) by (subst pingpong_back.simps) (simp add: emit_Nil)
  qed
qed simp

text \<open>A turn draws the ball in columns 2 to 77 and back again.\<close>

lemma turn_prints:
  assumes "at_court ok out z st" and "c \<noteq> 0"
  shows "\<exists>st'. pingpong_turn S rtc_fd c st = Some (next_char c, st') \<and>
    at_court ok out (emit (bounce c) z) st'"
proof -
  obtain st1 where st1: "pingpong_out S rtc_fd c 2 st = Some st1" "at_court ok out (emit (concat (map (court c) [2..<78])) z) st1"
    using out_prints[OF assms(1), of 2 c] assms(2) by auto
  obtain st2 where "pingpong_back S rtc_fd c 77 st1 = Some st2"
    "at_court ok out (emit (concat (map (court c) (rev [2..<78]))) (emit (concat (map (court c) [2..<78])) z)) st2"
    using back_prints[OF st1(2), of 78 c] assms(2) by auto
  then show ?thesis using st1(1) by (simp add: pingpong_turn_def bounce_def emit_append)
qed

lemma turns_print:
  "at_court ok out z st \<Longrightarrow> 65 \<le> c \<and> c \<le> 90 \<Longrightarrow>
    \<exists>st'. pingpong_turns S rtc_fd n (c, st) = Some ((next_char ^^ n) c, st') \<and>
      at_court ok out (emit (concat (map (\<lambda>m. bounce ((next_char ^^ m) c)) [0..<n])) z) st'"
proof (induction n arbitrary: z st c)
  case (Suc n)
  obtain st1 where st1: "pingpong_turn S rtc_fd c st = Some (next_char c, st1)" "at_court ok out (emit (bounce c) z) st1"
    using turn_prints[OF Suc.prems(1)] next_char_range[OF Suc.prems(2)] by blast
  obtain st' where st': "pingpong_turns S rtc_fd n (next_char c, st1) = Some ((next_char ^^ n) (next_char c), st')"
    "at_court ok out (emit (concat (map (\<lambda>m. bounce ((next_char ^^ m) (next_char c))) [0..<n])) (emit (bounce c) z)) st'"
    using Suc.IH[OF st1(2)] next_char_range[OF Suc.prems(2)] by blast
  have "map (\<lambda>m. bounce ((next_char ^^ m) c)) [0..<Suc n] = bounce c # map (\<lambda>m. bounce ((next_char ^^ m) (next_char c))) [0..<n]"
    by (simp add: upt_conv_Cons map_Suc_upt[symmetric] funpow_swap1 del: upt_Suc)
  then show ?case using st1(1) st' by (simp add: emit_append funpow_swap1 del: upt_Suc)
qed (simp add: emit_Nil)

end

lemma pingpong_loop_endless: "pingpong_loop S fd c st = None"
proof -
  have "False" if "pingpong_loop S fd c st = Some r" for r
    by (rule pingpong_loop.raw_induct[OF _ that, where P = "\<lambda>_ _ _ _ _. False"]) (auto split: bind_splits)
  then show ?thesis by (cases "pingpong_loop S fd c st") auto
qed

end
