(* ===== verification/Userspace.thy ===== *)
theory Userspace
  imports Programs Loading
begin

text \<open>
  User programs on this kernel: the system call interface of the programs implemented by
  \<open>syscall_wrapper\<close>, as the wrappers of \<^verbatim>\<open>ece391syscall.S\<close> do (\<open>DO_CALL\<close>: number and three
  arguments in registers, \<open>int $0x80\<close>).  The array a program passes lies at the user address
  \<open>ubuf\<close>: it is put there before the call and read back after it.  What a program started by
  \<open>execute\<close> does until it ends is an argument (\<open>child\<close>).

  The contracts of the programs (\<open>writer\<close>, \<open>reader\<close>, \<open>lister\<close>, \<open>keyboard_reader\<close>) are
  interpreted on it: output is the abstract screen of the console theory, a stream is the rest
  of an open file, a list of names the rest of the directory, a line what was typed.  The
  theorems say what the programs print when they run on the kernel.
\<close>

section \<open>The wrappers\<close>

definition user_store :: "u32 \<Rightarrow> u8 list \<Rightarrow> kernel \<Rightarrow> kernel" where
  "user_store ubuf bs k = with_mem (wr (kview k) ubuf bs) k"

definition user_load :: "u32 \<Rightarrow> nat \<Rightarrow> kernel \<Rightarrow> u8 list" where
  "user_load ubuf n k = map (arr (kview k) ubuf) [0..<n]"

text \<open>A call that returns to its caller.\<close>

definition returned :: "(kernel \<times> outcome) option \<Rightarrow> (i32 \<times> kernel) option" where
  "returned r = (case r of Some (k, Ret v) \<Rightarrow> Some (v, k) | _ \<Rightarrow> None)"

text \<open>\<open>execute\<close> also returns when the program it entered has ended.\<close>

definition executed :: "(kernel \<Rightarrow> (kernel \<times> outcome) option) \<Rightarrow> (kernel \<times> outcome) option \<Rightarrow> (i32 \<times> kernel) option" where
  "executed child r = (case r of Some (k, Ret v) \<Rightarrow> Some (v, k)
     | Some (k, Enter_user _) \<Rightarrow> (case child k of Some (k, Resume_execute _ _ v) \<Rightarrow> Some (v, k) | _ \<Rightarrow> None)
     | _ \<Rightarrow> None)"

definition ksys ::
  "layout \<Rightarrow> nat \<Rightarrow> i32 \<Rightarrow> i32 \<Rightarrow> u32 \<Rightarrow> (kernel \<Rightarrow> (kernel \<times> outcome) option) \<Rightarrow> kernel sys" where
  "ksys ly n esp ebp ubuf child =
     \<lparr> s_execute = (\<lambda>cmd k. executed child (syscall_wrapper ly n esp ebp 2 ubuf 0 0 (user_store ubuf cmd k))),
       s_read = (\<lambda>fd buf nbytes k.
         do { (r, k) \<leftarrow> returned (syscall_wrapper ly n esp ebp 3 fd ubuf nbytes (user_store ubuf buf k));
              Some (r, user_load ubuf (length buf) k, k) }),
       s_write = (\<lambda>fd buf nbytes k. returned (syscall_wrapper ly n esp ebp 4 fd ubuf nbytes (user_store ubuf buf k))),
       s_open = (\<lambda>name k. returned (syscall_wrapper ly n esp ebp 5 ubuf 0 0 (user_store ubuf name k))),
       s_close = (\<lambda>fd k. returned (syscall_wrapper ly n esp ebp 6 fd 0 0 k)),
       s_getargs = (\<lambda>buf nbytes k.
         do { (r, k) \<leftarrow> returned (syscall_wrapper ly n esp ebp 7 ubuf nbytes 0 (user_store ubuf buf k));
              Some (r, user_load ubuf (length buf) k, k) }),
       s_vidmap = (\<lambda>p k. returned (syscall_wrapper ly n esp ebp 8 p 0 0 k)),
       s_set_handler = (\<lambda>signum h k. returned (syscall_wrapper ly n esp ebp 9 signum h 0 k)),
       s_call = (\<lambda>num k. returned (syscall_wrapper ly n esp ebp num 0 0 0 k)) \<rparr>"

text \<open>The calls as operations of the kernel.\<close>

lemma ksys_calls:
  "s_read (ksys ly n esp ebp ubuf child) fd buf nbytes k =
     map_option (\<lambda>(k, r). (r, user_load ubuf (length buf) k, k)) (sys_read n fd ubuf nbytes (user_store ubuf buf k))"
  "s_write (ksys ly n esp ebp ubuf child) fd buf nbytes k =
     (let (k, r) = sys_write fd ubuf nbytes (user_store ubuf buf k) in Some (r, k))"
  "s_open (ksys ly n esp ebp ubuf child) nm k = (let (k, r) = sys_open ubuf (user_store ubuf nm k) in Some (r, k))"
  "s_close (ksys ly n esp ebp ubuf child) fd k = (let (k, r) = sys_close fd k in Some (r, k))"
  "s_getargs (ksys ly n esp ebp ubuf child) buf nbytes k =
     (let (k, r) = getargs ubuf nbytes (user_store ubuf buf k) in Some (r, user_load ubuf (length buf) k, k))"
  "s_vidmap (ksys ly n esp ebp ubuf child) p k = (let (k, r) = vidmap ly p k in Some (r, k))"
  "s_set_handler (ksys ly n esp ebp ubuf child) signum h k = Some (-1, k)"
  "s_execute (ksys ly n esp ebp ubuf child) cmd k = executed child (execute ly n esp ebp ubuf (user_store ubuf cmd k))"
  "sint num \<le> 0 \<or> 10 < sint num \<Longrightarrow> s_call (ksys ly n esp ebp ubuf child) num k = Some (-1, k)"
  by (auto simp: ksys_def syscall_wrapper_def returned_def ret_val_def set_handler_def case_prod_beta split: option.splits)

section \<open>A process that can run\<close>

text \<open>Process \<open>CPID\<close> runs in its address space with its standard descriptors, the console is
  in order and the program's arrays are in its program page.\<close>

definition ready :: "layout \<Rightarrow> u32 \<Rightarrow> kernel \<Rightarrow> bool" where
  "ready ly ubuf k \<longleftrightarrow> in_space ly k \<and> std_ok (cur k) \<and> con_ok (k_con k) \<and> user_buf ubuf 1025"

definition on_screen :: "u32 \<Rightarrow> bool" where
  "on_screen a \<longleftrightarrow> 0xB8000 \<le> a \<and> a < 0xBC000"

text \<open>What a program's output and its own stores leave alone: everything but the console and
  the memory of the screens and of the process itself.\<close>

definition calm :: "layout \<Rightarrow> kernel \<Rightarrow> kernel \<Rightarrow> bool" where
  "calm ly k k' \<longleftrightarrow> in_space ly k' \<and> processes k' = processes k \<and> CPID k' = CPID k \<and> k_fs k' = k_fs k \<and> k_kbd k' = k_kbd k \<and>
     k_rtc k' = k_rtc k \<and> k_pic k' = k_pic k \<and> (\<forall>a. kernel_page a \<and> \<not> on_screen a \<longrightarrow> kview k' a = kview k a) \<and>
     (\<forall>pa. \<not> own_frame (of_nat (CPID k)) pa \<and> \<not> on_screen pa \<longrightarrow> k_mem k' pa = k_mem k pa)"

lemma calm_refl: "in_space ly k \<Longrightarrow> calm ly k k"
  by (simp add: calm_def)

lemma calm_trans: "calm ly k k' \<Longrightarrow> calm ly k' k'' \<Longrightarrow> calm ly k k''"
  by (simp add: calm_def)

definition shown :: "kernel \<Rightarrow> u8 \<times> screen" where
  "shown k = (cur_attribute (k_con k), abs_screen (k_con k) (kview k))"

definition emit_screen :: "u8 list \<Rightarrow> u8 \<times> screen \<Rightarrow> u8 \<times> screen" where
  "emit_screen xs z = (fst z, fold (a_putc (fst z)) xs (snd z))"

lemma abs_screen_cong:
  assumes "\<And>a. unat (a - video_mem c) < 4000 \<Longrightarrow> m' a = m a"
  shows "abs_screen c m' = abs_screen c m"
proof -
  have "arr m' (video_mem c) j = arr m (video_mem c) j" if "j < 4000" for j
    using assms[of "video_mem c + of_nat j"] that by (simp add: arr_def unat_of_nat_32)
  then have "page_cells m' (video_mem c) = page_cells m (video_mem c)" by (auto simp: page_cells_def fun_eq_iff)
  then show ?thesis by (simp add: abs_screen_def)
qed

lemma screen_addr:
  assumes "con_ok c" and "unat (a - video_mem c) < 4000"
  shows "on_screen a" and "kernel_page a" and "syms_ok sy \<Longrightarrow> \<not> pt_addr sy a" and "\<not> user_page a"
proof -
  have v: "video_mem c \<in> video_pages" using assms(1) by (simp add: con_ok_def)
  define j where "j = unat (a - video_mem c)"
  have a: "a = video_mem c + of_nat j" and j: "j < 4000" using assms(2) by (simp_all add: j_def)
  have u: "0xB8000 \<le> unat a \<and> unat a < 0xBC000"
    using v j by (auto simp: a video_pages_def unat_word_ariths unat_of_nat_32)
  then show "on_screen a" "kernel_page a" "\<not> user_page a"
    by (auto simp: on_screen_def kernel_page_def user_page_def word_le_nat_alt word_less_nat_alt)
  show "syms_ok sy \<Longrightarrow> \<not> pt_addr sy a" using u by (auto simp: syms_ok_def pt_addr_def)
qed

subsection \<open>The array a program passes\<close>

lemma user_buf_mono: "user_buf buf n \<Longrightarrow> m \<le> n \<Longrightarrow> user_buf buf m"
  by (simp add: user_buf_def)

lemma user_store_write:
  assumes "ready ly ubuf k" and "length bs \<le> 1025"
  shows "user_write ly (wr (kview k) ubuf bs) k (user_store ubuf bs k)"
  using assms by (intro user_writeI[of ly k "length bs" ubuf])
    (auto simp: ready_def user_store_def wr_def blit_frame intro: user_buf_mono)

lemma wr_kernel:
  assumes "user_buf ubuf (length bs)" and "length bs < 2 ^ 32" and "\<not> user_page a"
  shows "wr m ubuf bs a = m a"
proof (cases "unat (a - ubuf) < length bs")
  case True
  then have "user_page (ubuf + of_nat (unat (a - ubuf)))" using assms(1) unfolding user_buf_def by blast
  then show ?thesis using assms(3) by simp
qed (simp add: wr_def blit_def)

lemma user_store_ready:
  assumes "ready ly ubuf k" and "length bs \<le> 1025"
  shows "ready ly ubuf (user_store ubuf bs k)" and "calm ly k (user_store ubuf bs k)"
    and "shown (user_store ubuf bs k) = shown k" and "k_con (user_store ubuf bs k) = k_con k"
    and "i < length bs \<Longrightarrow> kview (user_store ubuf bs k) (ubuf + of_nat i) = bs ! i"
    and "kernel_page a \<Longrightarrow> kview (user_store ubuf bs k) a = kview k a"
proof -
  let ?k = "user_store ubuf bs k"
  note w = user_store_write[OF assms]
  have b: "user_buf ubuf (length bs)" using assms by (auto simp: ready_def intro: user_buf_mono)
  have sel: "processes ?k = processes k" "CPID ?k = CPID k" "k_con ?k = k_con k" "k_fs ?k = k_fs k" "k_kbd ?k = k_kbd k"
    "k_rtc ?k = k_rtc k" "k_pic ?k = k_pic k" by (simp_all add: user_store_def)
  show kern: "kview ?k a = kview k a" if "kernel_page a" for a
    using w that wr_kernel[OF b, of a] user_not_kernel[of a] assms(2) by (auto simp: user_write_def)
  show "ready ly ubuf ?k" using w assms(1) by (simp add: ready_def user_write_def sel)
  show "calm ly k ?k" using w kern by (simp add: calm_def user_write_def sel)
  show "shown ?k = shown k"
    using abs_screen_cong[of "k_con k" "kview ?k" "kview k"] screen_addr(2)[of "k_con k"] kern assms(1)
    by (simp add: shown_def sel ready_def)
  show "k_con ?k = k_con k" by (rule sel)
  show "kview ?k (ubuf + of_nat i) = bs ! i" if "i < length bs"
    using w b that assms(2) by (simp add: user_write_def user_buf_def wr_def blit_def unat_of_nat_32)
qed

lemma user_load_eq: "(\<And>i. i < length bs \<Longrightarrow> kview k (ubuf + of_nat i) = bs ! i) \<Longrightarrow> user_load ubuf (length bs) k = bs"
  by (auto simp: user_load_def arr_def intro: nth_equalityI)

subsection \<open>Output\<close>

lemma with_con_calm:
  assumes "ready ly ubuf k" and "con_ok c" and "page_frame (k_con k) (kview k) m"
  shows "calm ly k (with_con (c, m) k)" and "ready ly ubuf (with_con (c, m) k)"
    and "kernel_page a \<or> user_page a \<Longrightarrow> kview (with_con (c, m) k) a = m a"
proof -
  let ?k = "with_con (c, m) k" and ?P = "of_nat (CPID k) :: u32"
  have con: "con_ok (k_con k)" and i: "in_space ly k" using assms(1) by (simp_all add: ready_def)
  have sp: "space (l_syms ly) (k_mem k) (k_mmu k) ?P" and P: "?P \<noteq> 0"
    using i unat_of_nat_32[of "CPID k"] by (auto simp: in_space_def)
  then have sy: "syms_ok (l_syms ly)" by (simp add: space_def)
  have pt: "m a = kview k a" if "pt_addr (l_syms ly) a" for a
    using assms(3) screen_addr(3)[OF con _ sy, of a] that unfolding page_frame_def by (metis not_le)
  have off: "m a = kview k a" if "\<not> on_screen a" for a
    using assms(3) screen_addr(1)[OF con, of a] that unfolding page_frame_def by (metis not_le)
  note ks = kstore_spec[OF sp pt]
  have sel: "k_mem ?k = kstore (k_mem k) (k_mmu k) m" "k_mmu ?k = k_mmu k" "CPID ?k = CPID k" "processes ?k = processes k"
    "k_fs ?k = k_fs k" "k_kbd ?k = k_kbd k" "k_rtc ?k = k_rtc k" "k_pic ?k = k_pic k" "k_con ?k = c"
    by (simp_all add: with_con_def)
  show kv: "kview ?k a = m a" if "kernel_page a \<or> user_page a" for a
    using ks(3)[of a] that P unfolding sel by blast
  have in': "in_space ly ?k" using ks(2) i by (simp add: in_space_def sel)
  then show "ready ly ubuf ?k" using assms(1,2) by (simp add: ready_def sel)
  have phys: "k_mem ?k pa = k_mem k pa" if "\<not> own_frame ?P pa" "\<not> on_screen pa" for pa
    unfolding sel kstore_eq[OF sp] using that off[of pa] vview_kernel[OF sp, of pa] by simp
  show "calm ly k ?k" using in' phys kv off by (simp add: calm_def sel(3-8))
qed

lemma write_screen:
  assumes "ready ly ubuf k" and "length buf \<le> 1025" and "n \<le> length buf"
  shows "\<exists>k'. s_write (ksys ly t esp ebp ubuf child) 1 buf (of_nat n) k = Some (of_nat n, k') \<and> ready ly ubuf k' \<and> calm ly k k' \<and>
    shown k' = emit_screen (take n buf) (shown k)"
proof -
  define k1 where "k1 = user_store ubuf buf k"
  note st = user_store_ready[OF assms(1,2), folded k1_def]
  have con: "con_ok (k_con k1)" and ub: "user_buf ubuf 1025" and std: "std_ok (cur k1)" using st(1) by (simp_all add: ready_def)
  have s: "sint (of_nat n :: i32) = int n" using sint_dec[of "Suc n"] assms(2,3) by simp
  have away: "\<forall>j. 0 \<le> j \<and> j < sint (of_nat n :: i32) \<longrightarrow> 4000 \<le> unat (ubuf + of_int j - video_mem (k_con k1))"
  proof (intro allI impI)
    fix j assume j: "0 \<le> j \<and> j < sint (of_nat n :: i32)"
    then have "nat j < 1025" using assms(2,3) unfolding s by linarith
    then have "user_page (ubuf + of_nat (nat j))" using ub unfolding user_buf_def by blast
    then show "4000 \<le> unat (ubuf + of_int j - video_mem (k_con k1))"
      using screen_addr(4)[OF con, of "ubuf + of_int j"] j by (simp add: of_nat_nat) (meson not_le)
  qed
  have bytes: "map (\<lambda>j. kview k1 (ubuf + of_int j)) [0..int n - 1] = take n buf"
  proof (rule nth_equalityI)
    fix i assume "i < length (map (\<lambda>j. kview k1 (ubuf + of_int j)) [0..int n - 1])"
    then show "map (\<lambda>j. kview k1 (ubuf + of_int j)) [0..int n - 1] ! i = take n buf ! i"
      using st(5)[of i] assms(3) by simp
  qed (use assms(3) in simp)
  obtain c m where p: "puts (take n buf) (k_con k1) (kview k1) = (c, m)" by (cases "puts (take n buf) (k_con k1) (kview k1)")
  note po = puts_ok[OF con p]
  have "ubuf \<noteq> 0" using ub by (auto simp: user_buf_def user_page_def dest: spec[of _ 0])
  then have "terminal_write ubuf (of_nat n) (k_con k1) (kview k1) = (c, m, of_nat n)"
    using terminal_write_prints[OF con away] by (simp add: s bytes p)
  then have "sys_write 1 ubuf (of_nat n) k1 = (with_con (c, m) k1, of_nat n)"
    using std by (simp add: sys_write_def jt_write_def std_ok_def)
  then have w: "s_write (ksys ly t esp ebp ubuf child) 1 buf (of_nat n) k = Some (of_nat n, with_con (c, m) k1)"
    by (simp add: ksys_calls k1_def)
  note wc = with_con_calm[OF st(1), of c m]
  have scr: "abs_screen c (kview (with_con (c, m) k1)) = abs_screen c m"
    using screen_addr(2)[of c] wc(3) po by (intro abs_screen_cong) auto
  have at: "cur_attribute c = cur_attribute (k_con k1)"
    using po by (simp add: cur_attribute_def get_screen_xy_idx_def)
  have "shown (with_con (c, m) k1) = emit_screen (take n buf) (shown k1)"
    using po by (simp add: shown_def emit_screen_def scr at)
  then show ?thesis using w wc po calm_trans[OF st(2)] st(3) by auto
qed

interpretation screen: writer "ksys ly t esp ebp ubuf child" "ready ly ubuf" shown emit_screen "\<lambda>_. ()"
  for ly t esp ebp ubuf child
  by unfold_locales (simp add: emit_screen_def, simp add: emit_screen_def, use write_screen in blast)

subsection \<open>The file system and the programs' arrays\<close>

text \<open>The file system is in the kernel's pages and not on a screen.\<close>

definition fs_placed :: "kernel \<Rightarrow> bool" where
  "fs_placed k \<longleftrightarrow> wf_fs (k_fs k) (kview k) \<and> (\<forall>a. fs_addr (k_fs k) (kview k) a \<longrightarrow> kernel_page a \<and> \<not> on_screen a)"

lemma calm_fs:
  assumes "fs_placed k" and "calm ly k k'"
  shows "fs_agree (k_fs k) (kview k) (kview k')" and "fs_placed k'"
proof -
  show a: "fs_agree (k_fs k) (kview k) (kview k')" using assms by (simp add: fs_placed_def calm_def fs_agree_def)
  show "fs_placed k'" using assms fs_addr_agree[OF a] wf_fs_agree[OF a] by (simp add: fs_placed_def calm_def)
qed

lemma placed_buf_ok: "fs_placed k \<Longrightarrow> user_buf ubuf n \<Longrightarrow> buf_ok (k_fs k) (kview k) ubuf n"
  using user_not_kernel by (auto simp: buf_ok_def fs_placed_def user_buf_def)

text \<open>A call that stores in the program's array and changes the process's descriptors.\<close>

lemma user_write_ready:
  assumes "ready ly ubuf k" and "user_write ly vm k k'" and "\<forall>a. \<not> user_page a \<longrightarrow> vm a = kview k a"
    and "k_con k' = k_con k" and "std_ok (cur k')"
  shows "ready ly ubuf k'" and "shown k' = shown k" and "kernel_page a \<Longrightarrow> kview k' a = kview k a"
    and "m \<le> 1025 \<Longrightarrow> user_load ubuf m k' = map (arr vm ubuf) [0..<m]"
proof -
  show kern: "kview k' a = kview k a" if "kernel_page a" for a
    using assms(2,3) that user_not_kernel[of a] by (auto simp: user_write_def)
  show "ready ly ubuf k'" using assms by (simp add: ready_def user_write_def)
  show "shown k' = shown k"
    using abs_screen_cong[of "k_con k" "kview k'" "kview k"] screen_addr(2)[of "k_con k"] kern assms(1)
    by (simp add: shown_def assms(4) ready_def)
  show "user_load ubuf m k' = map (arr vm ubuf) [0..<m]" if "m \<le> 1025"
    using assms(1,2) that by (auto simp: user_load_def user_write_def ready_def user_buf_def arr_def)
qed

lemma blit_user: "user_buf ubuf n \<Longrightarrow> \<not> user_page a \<Longrightarrow> blit m ubuf f n a = m a"
  using wr_kernel[of ubuf "map f [0..<n]" a m] unat_less_32[of "a - ubuf"]
  by (cases "n < 2 ^ 32") (auto simp: wr_def blit_def user_buf_def dest: spec[of _ "unat (a - ubuf)"])

section \<open>Reading an open file\<close>

definition streaming :: "layout \<Rightarrow> u32 \<Rightarrow> nat \<Rightarrow> u32 \<Rightarrow> kernel \<Rightarrow> bool" where
  "streaming ly ubuf i inode k \<longleftrightarrow> ready ly ubuf k \<and> fs_placed k \<and> file_ok (k_fs k) (kview k) inode \<and>
     data_valid (k_fs k) (kview k) inode \<and> 2 \<le> i \<and> i < MAX_FD \<and> used_fd (cur k) i \<and>
     jumptable (fd_array (cur k) i) = Fs_jumptable \<and> filetype (fd_array (cur k) i) = 2 \<and> f_inode (fd_array (cur k) i) = inode"

definition unread :: "nat \<Rightarrow> u32 \<Rightarrow> kernel \<Rightarrow> u8 list" where
  "unread i inode k = drop (unat (position (fd_array (cur k) i))) (file_bytes (k_fs k) (kview k) inode)"

lemma calm_stream:
  assumes "streaming ly ubuf i inode k" and "calm ly k k'" and "ready ly ubuf k'"
  shows "streaming ly ubuf i inode k'" and "unread i inode k' = unread i inode k"
proof -
  have fs: "wf_fs (k_fs k) (kview k)" "file_ok (k_fs k) (kview k) inode" "data_valid (k_fs k) (kview k) inode"
    using assms(1) by (auto simp: streaming_def fs_placed_def)
  have pl: "fs_placed k" using assms(1) by (simp add: streaming_def)
  note a = calm_fs[OF pl assms(2)]
  have sel: "k_fs k' = k_fs k" "cur k' = cur k" using assms(2) by (simp_all add: calm_def)
  show "streaming ly ubuf i inode k'"
    using assms(1,3) a(2) agree_file_ok[OF a(1) fs(1,2)] agree_data_valid[OF a(1) fs(1,2)] unfolding streaming_def sel by simp
  show "unread i inode k' = unread i inode k" unfolding unread_def sel using agree_file_bytes[OF a(1) fs] by simp
qed

lemma write_stream:
  assumes "streaming ly ubuf i inode k" and "length buf \<le> 1025" and "n \<le> length buf"
  shows "\<exists>k'. s_write (ksys ly t esp ebp ubuf child) 1 buf (of_nat n) k = Some (of_nat n, k') \<and> streaming ly ubuf i inode k' \<and>
    unread i inode k' = unread i inode k \<and> shown k' = emit_screen (take n buf) (shown k)"
proof -
  have "ready ly ubuf k" using assms(1) by (simp add: streaming_def)
  then show ?thesis using write_screen[OF _ assms(2,3)] calm_stream[OF assms(1)] by blast
qed

text \<open>A call that stores in the program's array only: no other memory changes.\<close>

definition calm_array :: "layout \<Rightarrow> u32 \<Rightarrow> kernel \<Rightarrow> kernel \<Rightarrow> bool" where
  "calm_array ly ubuf k k' \<longleftrightarrow> ready ly ubuf k' \<and> CPID k' = CPID k \<and> k_fs k' = k_fs k \<and>
     (\<forall>pa. \<not> own_frame (of_nat (CPID k)) pa \<longrightarrow> k_mem k' pa = k_mem k pa) \<and>
     (\<forall>a. user_page a \<and> 1025 \<le> unat (a - ubuf) \<longrightarrow> kview k' a = kview k a)"

lemma calm_array_trans: "calm_array ly ubuf k k' \<Longrightarrow> calm_array ly ubuf k' k'' \<Longrightarrow> calm_array ly ubuf k k''"
  by (simp add: calm_array_def)

lemma user_write_array:
  assumes "user_write ly vm k k'" and "\<And>a. 1025 \<le> unat (a - ubuf) \<Longrightarrow> vm a = kview k a" and "ready ly ubuf k'"
    and "CPID k' = CPID k" and "k_fs k' = k_fs k"
  shows "calm_array ly ubuf k k'"
  using assms by (simp add: calm_array_def user_write_def)

lemma user_store_calm:
  assumes "ready ly ubuf k" and "length bs \<le> 1025"
  shows "calm_array ly ubuf k (user_store ubuf bs k)"
  using user_write_array[OF user_store_write[OF assms] _ user_store_ready(1)[OF assms]] assms(2)
  by (auto simp: user_store_def wr_def blit_frame)

lemma read_stream_frame:
  assumes "streaming ly ubuf i inode k" and "length buf \<le> 1025" and "n \<le> length buf"
  defines "d \<equiv> take n (unread i inode k)"
  shows "\<exists>k'. s_read (ksys ly t esp ebp ubuf child) (of_nat i) buf (of_nat n) k = Some (of_nat (length d), d @ drop (length d) buf, k') \<and>
    streaming ly ubuf i inode k' \<and> shown k' = shown k \<and> unread i inode k' = drop n (unread i inode k) \<and> calm_array ly ubuf k k' \<and>
    k_rtc k' = k_rtc k \<and> (\<exists>p. processes k' = (processes k)(CPID k := upd_fd i (\<lambda>f. f\<lparr> position := p \<rparr>) (cur k)))"
proof -
  have r: "ready ly ubuf k" using assms(1) by (simp add: streaming_def)
  define k1 where "k1 = user_store ubuf buf k"
  note st = user_store_ready[OF r assms(2), folded k1_def]
  note cs = calm_stream[OF assms(1) st(2,1)]
  let ?f = "fd_array (cur k1) i"
  have s: "in_space ly k1" "i < MAX_FD" "used_fd (cur k1) i" "jumptable ?f = Fs_jumptable" "filetype ?f = 2" "wf_fs (k_fs k1) (kview k1)"
    "f_inode ?f = inode" "file_ok (k_fs k1) (kview k1) inode" "data_valid (k_fs k1) (kview k1) inode" "fs_placed k1"
    using cs(1) by (auto simp: streaming_def ready_def fs_placed_def)
  have ub: "user_buf ubuf 1025" using r by (simp add: ready_def)
  have un: "unat (of_nat n :: i32) = n" using assms(2,3) by (intro unat_of_nat_32) simp
  have b: "ubuf \<noteq> 0" "user_buf ubuf n" "buf_ok (k_fs k1) (kview k1) ubuf n"
    using ub placed_buf_ok[OF s(10), of ubuf n] user_buf_mono[OF ub, of n] assms(2,3)
    by (auto simp: user_buf_def user_page_def dest: spec[of _ 0])
  define off where "off = unat (position ?f)"
  define len where "len = min n (file_len (k_fs k1) (kview k1) inode - off)"
  have d: "d = map (\<lambda>j. file_byte (k_fs k1) (kview k1) inode (off + j)) [0..<len]" and dl: "length d = len"
    unfolding d_def cs(2)[symmetric] by (auto simp: unread_def file_bytes_def off_def len_def intro!: nth_equalityI)
  obtain k' where k': "sys_read t (of_nat i) ubuf (of_nat n) k1 = Some (k', of_nat len)"
    "user_write ly (blit (kview k1) ubuf (\<lambda>j. file_byte (k_fs k1) (kview k1) inode (off + j)) len) k1 k'"
    "processes k' = (processes k1)(CPID k1 := upd_fd i (\<lambda>f. f\<lparr> position := position f + of_nat len \<rparr>) (cur k1))"
    and sel: "CPID k' = CPID k1" "k_fs k' = k_fs k1" "k_con k' = k_con k1" "k_kbd k' = k_kbd k1" "k_rtc k' = k_rtc k1" "k_pic k' = k_pic k1"
    using read_file_spec[OF s(1-6), of ubuf "of_nat n" t] s(7-9) b by (auto simp: un off_def len_def)
  have std: "std_ok (cur k')" using st(1) by (auto simp: ready_def std_ok_def k'(3) sel)
  have ul: "user_buf ubuf len" using user_buf_mono[OF b(2)] by (simp add: len_def)
  have vm: "\<forall>a. \<not> user_page a \<longrightarrow> blit (kview k1) ubuf (\<lambda>j. file_byte (k_fs k1) (kview k1) inode (off + j)) len a = kview k1 a"
    using blit_user[OF ul] by blast
  note rw = user_write_ready[OF st(1) k'(2) vm sel(3) std]
  have load: "user_load ubuf (length buf) k' = d @ drop (length d) buf"
  proof -
    have "len \<le> length buf" using assms(3) by (simp add: len_def)
    moreover have "arr (kview k1) ubuf i = buf ! i" if "i < length buf" for i using st(5)[OF that] by (simp add: arr_def)
    ultimately show ?thesis
      using assms(2) unfolding rw(4)[OF assms(2)] d dl by (auto simp: arr_blit nth_append intro!: nth_equalityI)
  qed
  have "fs_agree (k_fs k1) (kview k1) (kview k')" using s(10) rw(3) by (simp add: fs_agree_def fs_placed_def)
  note ag = this agree_file_ok[OF this s(6,8)] agree_data_valid[OF this s(6,8)] agree_file_bytes[OF this s(6,8,9)]
    fs_addr_agree[OF this] wf_fs_agree[OF this]
  have strm: "streaming ly ubuf i inode k'"
    using cs(1) rw(1) ag unfolding streaming_def fs_placed_def sel k'(3) by simp
  have "unat (position ?f + of_nat len) = off + len"
  proof -
    have "file_len (k_fs k1) (kview k1) inode \<le> 1023 * 4096" "file_len (k_fs k1) (kview k1) inode < 2 ^ 32"
      using s(8) by (simp_all add: file_ok_def)
    then show ?thesis using unat_less_32[of "position ?f"] by (cases "len = 0") (auto simp: off_def len_def unat_word_ariths unat_of_nat_32)
  qed
  then have "unread i inode k' = drop len (unread i inode k1)"
    unfolding unread_def sel k'(3) ag(4) by (simp add: off_def add.commute)
  then have "unread i inode k' = drop len (unread i inode k)" by (simp only: cs(2))
  also have "\<dots> = drop n (unread i inode k)"
    using dl unfolding d_def by (cases "n \<le> length (unread i inode k)") (simp_all add: dl)
  finally have "unread i inode k' = drop n (unread i inode k)" .
  moreover have "calm_array ly ubuf k k'"
    using calm_array_trans[OF user_store_calm[OF r assms(2), folded k1_def] user_write_array[OF k'(2) _ rw(1) sel(1,2)]] assms(2,3)
    by (auto simp: blit_frame len_def)
  moreover have "processes k' = (processes k)(CPID k := upd_fd i (\<lambda>f. f\<lparr> position := position ?f + of_nat len \<rparr>) (cur k))" "k_rtc k' = k_rtc k"
    using st(2) k'(3) sel(5) by (simp_all add: calm_def upd_fd_def)
  ultimately show ?thesis using k'(1) strm rw(2) st(3) load by (auto simp: ksys_calls k1_def[symmetric] dl)
qed

lemma read_stream:
  assumes "streaming ly ubuf i inode k" and "length buf \<le> 1025" and "n \<le> length buf"
  defines "d \<equiv> take n (unread i inode k)"
  shows "\<exists>k'. s_read (ksys ly t esp ebp ubuf child) (of_nat i) buf (of_nat n) k = Some (of_nat (length d), d @ drop (length d) buf, k') \<and>
    streaming ly ubuf i inode k' \<and> shown k' = shown k \<and> unread i inode k' = drop n (unread i inode k)"
  using read_stream_frame[OF assms(1-3), of t esp ebp child] unfolding d_def by blast

interpretation strm: reader "ksys ly t esp ebp ubuf child" "streaming ly ubuf i inode" shown emit_screen "unread i inode" "of_nat i"
  for ly t esp ebp ubuf child i inode
  by unfold_locales (simp add: emit_screen_def, simp add: emit_screen_def, use write_stream in blast, use read_stream in blast)

section \<open>getargs and open\<close>

definition has_args :: "cstring \<Rightarrow> kernel \<Rightarrow> bool" where
  "has_args s k \<longleftrightarrow> wf_cstring s \<and> length s < 128 \<and> length s \<le> length (args (cur k)) \<and> take (length s) (args (cur k)) = s \<and>
     args_size (cur k) = of_nat (length s)"

lemma user_write_calm:
  assumes "ready ly ubuf k" and "user_write ly vm k k'" and "\<forall>a. \<not> user_page a \<longrightarrow> vm a = kview k a"
    and "processes k' = processes k" and "CPID k' = CPID k" and "k_fs k' = k_fs k" and "k_kbd k' = k_kbd k" and "k_rtc k' = k_rtc k"
    and "k_pic k' = k_pic k"
  shows "calm ly k k'"
  using assms user_not_kernel by (auto simp: calm_def user_write_def)

lemma getargs_ready:
  assumes "ready ly ubuf k" and "has_args s k" and "length buf = 1024"
  shows "\<exists>k'. s_getargs (ksys ly t esp ebp ubuf child) buf 1024 k = Some (0, s @ replicate (1024 - length s) 0, k') \<and>
    ready ly ubuf k' \<and> calm ly k k' \<and> shown k' = shown k"
proof -
  define k1 where "k1 = user_store ubuf buf k"
  have st: "ready ly ubuf k1" "calm ly k k1" "shown k1 = shown k"
    unfolding k1_def by (rule user_store_ready[OF assms(1)], use assms(3) in simp)+
  have a: "wf_cstring s" "length s < 128" "take (length s) (args (cur k1)) = s" "length s \<le> length (args (cur k1))" "args_size (cur k1) = of_nat (length s)"
    using assms(2) st(2) by (auto simp: has_args_def calm_def)
  have ub: "user_buf ubuf 1025" "in_space ly k1" using st(1) by (auto simp: ready_def)
  have u0: "ubuf \<noteq> 0" using ub(1) by (auto simp: user_buf_def user_page_def dest: spec[of _ 0])
  define bs where "bs = s @ replicate (1024 - length s) 0"
  have bl: "length bs = 1024" using a(2) by (simp add: bs_def)
  define k2 where "k2 = with_mem (wr (kview k1) ubuf bs) k1"
  have u: "user_buf ubuf 1024" using user_buf_mono[OF ub(1)] by simp
  have g: "getargs ubuf 1024 k1 = (k2, 0)" and w: "user_write ly (wr (kview k1) ubuf bs) k1 k2"
    using getargs_spec[OF ub(2) u0 a(2-5), of 1024] a(2) u by (simp_all add: bs_def k2_def)
  have vm: "\<forall>a. \<not> user_page a \<longrightarrow> wr (kview k1) ubuf bs a = kview k1 a"
    using wr_kernel[of ubuf bs] u bl by simp
  have sel: "k_con k2 = k_con k1" "std_ok (cur k2)" using st(1) by (simp_all add: k2_def ready_def)
  note rw = user_write_ready[OF st(1) w vm sel]
  have "calm ly k1 k2" by (rule user_write_calm[OF st(1) w vm]) (simp_all add: k2_def)
  moreover have "user_load ubuf 1024 k2 = bs"
    using rw(4)[of 1024] bl by (auto simp: arr_wr intro!: nth_equalityI)
  ultimately show ?thesis using g rw(1,2) st(2,3) calm_trans by (auto simp: ksys_calls assms(3) k1_def[symmetric] bs_def)
qed

definition opened :: "nat \<Rightarrow> dentry_t \<Rightarrow> kernel \<Rightarrow> kernel" where
  "opened i d k = upd_pcb (CPID k) (upd_fd i (\<lambda>_. new_file d)) k"

lemma open_ready:
  assumes "ready ly ubuf k" and "fs_placed k" and "holds nm s" and "length nm \<le> 1025"
  shows "\<exists>k1. ready ly ubuf k1 \<and> calm ly k k1 \<and> shown k1 = shown k \<and> calm_array ly ubuf k k1 \<and>
    s_open (ksys ly t esp ebp ubuf child) nm k =
     (case find_dentry (k_fs k) (kview k) (take 33 s) of None \<Rightarrow> Some (-1, k1)
      | Some ix \<Rightarrow> (case lowest_free (cur k) of None \<Rightarrow> Some (-1, k1)
          | Some i \<Rightarrow> Some (of_nat i, opened i (dentries (k_fs k) (kview k) ix) k1)))"
proof -
  define k1 where "k1 = user_store ubuf nm k"
  note st = user_store_ready[OF assms(1,4), folded k1_def]
  note ag = calm_fs(1)[OF assms(2) st(2)]
  have sel: "k_fs k1 = k_fs k" "processes k1 = processes k" "CPID k1 = CPID k" using st(2) by (simp_all add: calm_def)
  have u0: "ubuf \<noteq> 0" using assms(1) by (auto simp: ready_def user_buf_def user_page_def dest: spec[of _ 0])
  have "arr (kview k1) ubuf i = cs s i" if "i \<le> length s" for i
    using st(5)[of i] assms(3) that by (auto simp: holds_def arr_def cs_def nth_append)
  then have "cstr_at (kview k1) ubuf s" using assms(3) by (simp add: cstr_at_def holds_def)
  then have key: "name_key (arr (kview k1) ubuf) = take 33 s" by (rule name_key_cstr)
  have d: "dentries (k_fs k) (kview k1) ix = dentries (k_fs k) (kview k) ix"
    if "find_dentry (k_fs k) (kview k) (take 33 s) = Some ix" for ix
    using agree_dentries[OF ag, of ix] that by (simp add: find_dentry_Some)
  show ?thesis using st(1-3) user_store_calm[OF assms(1,4), folded k1_def] u0 find_dentry_agree[OF ag] d
    by (intro exI[of _ k1]) (auto simp: ksys_calls k1_def[symmetric] open_spec key sel opened_def split: option.splits)
qed

lemma opened_ready:
  assumes "ready ly ubuf k" and "lowest_free (cur k) = Some i"
  shows "ready ly ubuf (opened i d k)" and "shown (opened i d k) = shown k" and "fd_array (cur (opened i d k)) i = new_file d"
    and "2 \<le> i" and "i < MAX_FD"
proof -
  show i: "2 \<le> i" "i < MAX_FD" using assms lowest_free_ge2 lowest_free_Some by (auto simp: ready_def)
  show "fd_array (cur (opened i d k)) i = new_file d" by (simp add: opened_def)
  show "shown (opened i d k) = shown k" by (simp add: opened_def shown_def)
  have "std_ok (cur (opened i d k))" using assms(1) i by (auto simp: ready_def std_ok_def opened_def new_file_def)
  then show "ready ly ubuf (opened i d k)" using assms(1) by (simp add: ready_def opened_def in_space_def)
qed

lemma opened_stream:
  assumes "ready ly ubuf k" and "fs_placed k" and "lowest_free (cur k) = Some i" and "d_type d = 2"
    and "file_ok (k_fs k) (kview k) (d_inode d)" and "data_valid (k_fs k) (kview k) (d_inode d)"
  shows "streaming ly ubuf i (d_inode d) (opened i d k)"
    and "unread i (d_inode d) (opened i d k) = file_bytes (k_fs k) (kview k) (d_inode d)"
proof -
  note o = opened_ready[OF assms(1,3)]
  have sel: "k_fs (opened i d k) = k_fs k" "kview (opened i d k) = kview k" by (simp_all add: opened_def)
  show "streaming ly ubuf i (d_inode d) (opened i d k)"
    using o assms(2,4-6) unfolding streaming_def fs_placed_def sel by (simp add: new_file_def)
  show "unread i (d_inode d) (opened i d k) = file_bytes (k_fs k) (kview k) (d_inode d)"
    unfolding unread_def sel o(3) by (simp add: new_file_def)
qed

lemma open_file:
  assumes "ready ly ubuf k" and "fs_placed k" and "holds nm name" and "length nm \<le> 1025"
    and "find_dentry (k_fs k) (kview k) (take 33 name) = Some ix" and "lowest_free (cur k) = Some i"
    and "d = dentries (k_fs k) (kview k) ix" and "d_type d = 2"
    and "file_ok (k_fs k) (kview k) (d_inode d)" and "data_valid (k_fs k) (kview k) (d_inode d)"
  shows "\<exists>k'. s_open (ksys ly t esp ebp ubuf child) nm k = Some (of_nat i, k') \<and> streaming ly ubuf i (d_inode d) k' \<and>
    unread i (d_inode d) k' = file_bytes (k_fs k) (kview k) (d_inode d) \<and> shown k' = shown k \<and> (of_nat i :: i32) \<noteq> -1"
proof -
  obtain k2 where k2: "ready ly ubuf k2" "calm ly k k2" "shown k2 = shown k" "s_open (ksys ly t esp ebp ubuf child) nm k = Some (of_nat i, opened i d k2)"
    using open_ready[OF assms(1-4), where t = t and esp = esp and ebp = ebp and child = child] assms(5-7) by auto
  note a2 = calm_fs[OF assms(2) k2(2)]
  have s2: "k_fs k2 = k_fs k" "cur k2 = cur k" using k2(2) by (simp_all add: calm_def)
  have wf: "wf_fs (k_fs k) (kview k)" using assms(2) by (simp add: fs_placed_def)
  have f: "file_ok (k_fs k2) (kview k2) (d_inode d)" "data_valid (k_fs k2) (kview k2) (d_inode d)"
    "file_bytes (k_fs k2) (kview k2) (d_inode d) = file_bytes (k_fs k) (kview k) (d_inode d)"
    using agree_file_ok[OF a2(1) wf assms(9)] agree_data_valid[OF a2(1) wf assms(9)] agree_file_bytes[OF a2(1) wf assms(9,10)] assms(10)
    by (simp_all add: s2)
  have lf: "lowest_free (cur k2) = Some i" using assms(6) by (simp add: s2)
  note o = opened_stream[OF k2(1) a2(2) lf assms(8) f(1,2)]
  have i: "(of_nat i :: i32) \<noteq> -1" using count_word(3)[of i] opened_ready(5)[OF k2(1) lf] by simp
  then show ?thesis using k2(3,4) o f(3) opened_ready(2)[OF k2(1) lf, of d] by auto
qed

section \<open>cat\<close>

text \<open>The name in the argument string, as \<open>cat\<close> passes it to \<open>open\<close>.\<close>

lemma args_array: "wf_cstring s \<Longrightarrow> length s < 1024 \<Longrightarrow> holds (s @ replicate (1024 - length s) 0) s"
  by (cases "1024 - length s") (auto simp: holds_def)

lemma cat_copies:
  assumes "ready ly ubuf k" and "fs_placed k" and "has_args name k" and "length buf = 1024"
    and "find_dentry (k_fs k) (kview k) (take 33 name) = Some ix" and "lowest_free (cur k) = Some i"
    and "d = dentries (k_fs k) (kview k) ix" and "d_type d = 2"
    and "file_ok (k_fs k) (kview k) (d_inode d)" and "data_valid (k_fs k) (kview k) (d_inode d)"
  shows "\<exists>k'. cat_main (ksys ly t esp ebp ubuf child) buf k = Some (0, k') \<and>
    shown k' = emit_screen (file_bytes (k_fs k) (kview k) (d_inode d)) (shown k)"
proof -
  let ?S = "ksys ly t esp ebp ubuf child"
  define b where "b = name @ replicate (1024 - length name) 0"
  have b: "holds b name" "length b = 1024" using args_array[of name] assms(3) by (auto simp: b_def has_args_def)
  obtain k1 where k1: "s_getargs ?S buf 1024 k = Some (0, b, k1)" "ready ly ubuf k1" "calm ly k k1" "shown k1 = shown k"
    using getargs_ready[OF assms(1,3,4)] unfolding b_def by blast
  note a1 = calm_fs[OF assms(2) k1(3)]
  have s1: "k_fs k1 = k_fs k" "cur k1 = cur k" using k1(3) by (simp_all add: calm_def)
  have wf: "wf_fs (k_fs k) (kview k)" using assms(2) by (simp add: fs_placed_def)
  have f: "find_dentry (k_fs k1) (kview k1) (take 33 name) = Some ix" "d = dentries (k_fs k1) (kview k1) ix" "lowest_free (cur k1) = Some i"
    "file_ok (k_fs k1) (kview k1) (d_inode d)" "data_valid (k_fs k1) (kview k1) (d_inode d)"
    "file_bytes (k_fs k1) (kview k1) (d_inode d) = file_bytes (k_fs k) (kview k) (d_inode d)"
    using agree_file_ok[OF a1(1) wf assms(9)] agree_data_valid[OF a1(1) wf assms(9)] agree_file_bytes[OF a1(1) wf assms(9,10)]
      find_dentry_agree[OF a1(1)] agree_dentries[OF a1(1), of ix] assms(5-7,10) by (simp_all add: s1 find_dentry_Some)
  obtain k2 where k2: "s_open ?S b k1 = Some (of_nat i, k2)" "streaming ly ubuf i (d_inode d) k2" "unread i (d_inode d) k2 = file_bytes (k_fs k1) (kview k1) (d_inode d)"
    "shown k2 = shown k1" "(of_nat i :: i32) \<noteq> -1"
    using open_file[OF k1(2) a1(2) b(1) _ f(1,3,2) assms(8) f(4,5), of t esp ebp child] b(2) by auto
  have "\<exists>k'. cat_loop ?S (of_nat i) b k2 = Some (0, k') \<and> shown k' = emit_screen (file_bytes (k_fs k) (kview k) (d_inode d)) (shown k)"
    using strm.cat_loop_copies[OF k2(2) b(2), of t esp ebp child] by (auto simp: k2(3,4) f(6) k1(4))
  then show ?thesis using k1(1) k2(1,5) by (simp add: cat_main_def)
qed

lemma cat_not_found:
  assumes "ready ly ubuf k" and "fs_placed k" and "has_args name k" and "length buf = 1024"
    and "find_dentry (k_fs k) (kview k) (take 33 name) = None"
  shows "\<exists>k'. cat_main (ksys ly t esp ebp ubuf child) buf k = Some (2, k') \<and>
    shown k' = emit_screen (lit ''file not found\<newline>'') (shown k)"
proof -
  let ?S = "ksys ly t esp ebp ubuf child"
  define b where "b = name @ replicate (1024 - length name) 0"
  have b: "holds b name" "length b = 1024" using args_array[of name] assms(3) by (auto simp: b_def has_args_def)
  obtain k1 where k1: "s_getargs ?S buf 1024 k = Some (0, b, k1)" "ready ly ubuf k1" "calm ly k k1" "shown k1 = shown k"
    using getargs_ready[OF assms(1,3,4)] unfolding b_def by blast
  note a1 = calm_fs[OF assms(2) k1(3)]
  have s1: "k_fs k1 = k_fs k" using k1(3) by (simp add: calm_def)
  obtain k2 where k2: "ready ly ubuf k2" "shown k2 = shown k1" "s_open ?S b k1 = Some (-1, k2)"
    using open_ready[OF k1(2) a1(2) b(1), where t = t and esp = esp and ebp = ebp and child = child] b(2) assms(5) find_dentry_agree[OF a1(1)] by (auto simp: s1)
  show ?thesis using screen.puts_literal[OF k2(1), of "''file not found\<newline>''" t esp ebp child] k1(1,4) k2(2,3)
    by (auto simp: cat_main_def)
qed

section \<open>Reading the directory: ls\<close>

definition dir_fd :: "nat \<Rightarrow> kernel \<Rightarrow> bool" where
  "dir_fd i k \<longleftrightarrow> i < MAX_FD \<and> used_fd (cur k) i \<and> jumptable (fd_array (cur k) i) = Fs_jumptable \<and> filetype (fd_array (cur k) i) = 1"

definition listing :: "layout \<Rightarrow> u32 \<Rightarrow> nat \<Rightarrow> kernel \<Rightarrow> bool" where
  "listing ly ubuf i k \<longleftrightarrow> ready ly ubuf k \<and> fs_placed k \<and> dir_fd i k \<and> n_dentries (k_fs k) (kview k) \<le> MAX_DENTRIES \<and>
     (\<forall>j < n_dentries (k_fs k) (kview k). length (dentry_name (dentries (k_fs k) (kview k) j)) < 32)"

definition unlisted :: "kernel \<Rightarrow> u8 list list" where
  "unlisted k = map (\<lambda>j. dentry_name (dentries (k_fs k) (kview k) (of_nat j)) @ [0])
     [unat (dirs_read (k_fs k))..<unat (n_dentries (k_fs k) (kview k))]"

lemma calm_list:
  assumes "listing ly ubuf i k" and "calm ly k k'" and "ready ly ubuf k'"
  shows "listing ly ubuf i k'" and "unlisted k' = unlisted k"
proof -
  note a = calm_fs[of k ly k', OF _ assms(2)]
  have sel: "k_fs k' = k_fs k" "processes k' = processes k" "CPID k' = CPID k" using assms(2) by (simp_all add: calm_def)
  have n: "n_dentries (k_fs k) (kview k') = n_dentries (k_fs k) (kview k)"
    using agree_header[OF a(1)] assms(1) by (simp add: listing_def)
  have d: "dentries (k_fs k) (kview k') j = dentries (k_fs k) (kview k) j" if "j < n_dentries (k_fs k) (kview k)" for j
    using agree_dentries[OF a(1), of j] assms(1) that by (auto simp: listing_def)
  show "listing ly ubuf i k'" using assms(1,3) a(2) d unfolding listing_def dir_fd_def sel n by simp
  have "dentries (k_fs k) (kview k') (of_nat j) = dentries (k_fs k) (kview k) (of_nat j)"
    if "j < unat (n_dentries (k_fs k) (kview k))" for j
    using that unat_less_32[of "n_dentries (k_fs k) (kview k)"] by (intro d) (simp add: word_less_nat_alt unat_of_nat_32)
  then show "unlisted k' = unlisted k" unfolding unlisted_def sel n by simp
qed

lemma write_list:
  assumes "listing ly ubuf i k" and "length buf \<le> 1025" and "n \<le> length buf"
  shows "\<exists>k'. s_write (ksys ly t esp ebp ubuf child) 1 buf (of_nat n) k = Some (of_nat n, k') \<and> listing ly ubuf i k' \<and>
    unlisted k' = unlisted k \<and> shown k' = emit_screen (take n buf) (shown k)"
proof -
  have "ready ly ubuf k" using assms(1) by (simp add: listing_def)
  then show ?thesis using write_screen[OF _ assms(2,3)] calm_list[OF assms(1)] by blast
qed

lemma load_wr:
  "length d \<le> m \<Longrightarrow> m < 2 ^ 32 \<Longrightarrow> map (arr (wr vm u d) u) [0..<m] = d @ drop (length d) (map (arr vm u) [0..<m])"
  by (rule nth_equalityI) (auto simp: arr_wr nth_append)

text \<open>A directory read that stores \<open>d\<close> and sets \<open>dirs_read\<close>.\<close>

lemma dir_read_ready:
  assumes "ready ly ubuf k" and "dir_fd i k" and "length buf = 33"
    and "k1 = user_store ubuf buf k" and "length d \<le> 33"
    and "dir_read (k_fs k1) (kview k1) (fd_array (cur k1) i) ubuf 32 = ((k_fs k1)\<lparr> dirs_read := x \<rparr>, wr (kview k1) ubuf d, r)"
  shows "\<exists>k'. s_read (ksys ly t esp ebp ubuf child) (of_nat i) buf 32 k = Some (r, d @ drop (length d) buf, k') \<and>
    ready ly ubuf k' \<and> shown k' = shown k \<and> cur k' = cur k1 \<and> k_fs k' = (k_fs k1)\<lparr> dirs_read := x \<rparr> \<and>
    (\<forall>a. kernel_page a \<longrightarrow> kview k' a = kview k1 a)"
proof -
  have st: "ready ly ubuf k1" "shown k1 = shown k" "\<And>j. j < 33 \<Longrightarrow> kview k1 (ubuf + of_nat j) = buf ! j" "calm ly k k1"
    using user_store_ready[OF assms(1), of buf] assms(3) by (simp_all add: assms(4))
  have ub: "user_buf ubuf 1025" "in_space ly k1" using st(1) by (auto simp: ready_def)
  have u0: "ubuf \<noteq> 0" using ub(1) by (auto simp: user_buf_def user_page_def dest: spec[of _ 0])
  have f: "i < 8" "used_fd (cur k1) i" "jumptable (fd_array (cur k1) i) = Fs_jumptable" "filetype (fd_array (cur k1) i) = 1"
    using assms(2) st(4) by (auto simp: dir_fd_def calm_def)
  define k2 where "k2 = upd_pcb (CPID k1) (upd_fd i (\<lambda>_. fd_array (cur k1) i)) (with_mem (wr (kview k1) ubuf d) (k1\<lparr> k_fs := (k_fs k1)\<lparr> dirs_read := x \<rparr> \<rparr>))"
  have rd: "sys_read t (of_nat i) ubuf 32 k1 = Some (k2, r)"
    using f u0 by (simp add: sys_read_def sint_fd jt_read_def fs_read_def assms(6) k2_def)
  have ud: "user_buf ubuf (length d)" using user_buf_mono[OF ub(1)] assms(5) by simp
  have w: "user_write ly (wr (kview k1) ubuf d) k1 k2"
    by (rule user_writeI[OF ub(2), of "length d" ubuf]) (use ud in \<open>simp_all add: k2_def wr_def blit_frame\<close>)
  have vm: "\<forall>a. \<not> user_page a \<longrightarrow> wr (kview k1) ubuf d a = kview k1 a" using wr_kernel[OF ud] assms(5) by simp
  have sel: "k_con k2 = k_con k1" "cur k2 = cur k1" "k_fs k2 = (k_fs k1)\<lparr> dirs_read := x \<rparr>"
    by (simp_all add: k2_def upd_fd_def)
  have std: "std_ok (cur k2)" using st(1) by (simp add: sel ready_def)
  note rw = user_write_ready[OF st(1) w vm sel(1) std]
  have "user_load ubuf 33 k2 = d @ drop (length d) buf"
  proof -
    have "map (arr (kview k1) ubuf) [0..<33] = buf" using assms(3) st(3) by (auto simp: arr_def intro!: nth_equalityI)
    then show ?thesis using rw(4)[of 33] load_wr[of d 33 "kview k1" ubuf] assms(5) by simp
  qed
  then show ?thesis using rd rw(1-3) sel(2,3) st(2) by (simp add: ksys_calls assms(3) flip: assms(4))
qed

lemma listing_after:
  assumes "listing ly ubuf i k" and "ready ly ubuf k'" and "cur k' = cur k" and "k_fs k' = (k_fs k)\<lparr> dirs_read := x \<rparr>"
    and "\<forall>a. kernel_page a \<longrightarrow> kview k' a = kview k a"
  shows "listing ly ubuf i k'"
    and "unlisted k' = map (\<lambda>j. dentry_name (dentries (k_fs k) (kview k) (of_nat j)) @ [0]) [unat x..<unat (n_dentries (k_fs k) (kview k))]"
proof -
  have pl: "fs_placed k" using assms(1) by (simp add: listing_def)
  have a: "fs_agree (k_fs k) (kview k) (kview k')" using pl assms(5) by (simp add: fs_agree_def fs_placed_def)
  note ag = agree_header[OF a] wf_fs_agree[OF a] fs_addr_agree[OF a]
  have wf: "wf_fs ((k_fs k)\<lparr> dirs_read := x \<rparr>) m \<longleftrightarrow> wf_fs (k_fs k) m" for m by (simp add: wf_fs_def)
  have d: "dentries (k_fs k) (kview k') j = dentries (k_fs k) (kview k) j" if "j < n_dentries (k_fs k) (kview k)" for j
    using agree_dentries[OF a, of j] assms(1) that by (auto simp: listing_def)
  show "listing ly ubuf i k'"
    using assms(1,2) pl d unfolding listing_def dir_fd_def assms(3,4) fs_placed_def dirs_read_upd_fields ag wf by simp
  have "dentries (k_fs k) (kview k') (of_nat j) = dentries (k_fs k) (kview k) (of_nat j)"
    if "j < unat (n_dentries (k_fs k) (kview k))" for j
    using that unat_less_32[of "n_dentries (k_fs k) (kview k)"] by (intro d) (simp add: word_less_nat_alt unat_of_nat_32)
  then show "unlisted k' = map (\<lambda>j. dentry_name (dentries (k_fs k) (kview k) (of_nat j)) @ [0]) [unat x..<unat (n_dentries (k_fs k) (kview k))]"
    unfolding unlisted_def assms(4) dirs_read_upd_fields ag by simp
qed

lemma read_list:
  assumes "listing ly ubuf i k" and "length buf = 33"
  shows "unlisted k = [] \<Longrightarrow> \<exists>buf' k'. s_read (ksys ly t esp ebp ubuf child) (of_nat i) buf 32 k = Some (0, buf', k') \<and>
      listing ly ubuf i k' \<and> shown k' = shown k \<and> unlisted k' = []"
    and "unlisted k = d # ds \<Longrightarrow> \<exists>k'. s_read (ksys ly t esp ebp ubuf child) (of_nat i) buf 32 k = Some (of_nat (length d), d @ drop (length d) buf, k') \<and>
      listing ly ubuf i k' \<and> shown k' = shown k \<and> unlisted k' = ds"
proof -
  have r: "ready ly ubuf k" and df: "dir_fd i k" using assms(1) by (simp_all add: listing_def)
  define k1 where "k1 = user_store ubuf buf k"
  have st: "ready ly ubuf k1" "calm ly k k1" using user_store_ready[OF r, of buf] assms(2) by (simp_all add: k1_def)
  note l = calm_list[OF assms(1) st(2,1)]
  let ?n = "n_dentries (k_fs k1) (kview k1)" and ?x = "dirs_read (k_fs k1)" and ?f = "fd_array (cur k1) i"
  note dr = dir_read_ready[OF r df assms(2) k1_def, where t = t and esp = esp and ebp = ebp and child = child]
  show "\<exists>buf' k'. s_read (ksys ly t esp ebp ubuf child) (of_nat i) buf 32 k = Some (0, buf', k') \<and>
      listing ly ubuf i k' \<and> shown k' = shown k \<and> unlisted k' = []" if "unlisted k = []"
  proof -
    have "unlisted k1 = []" using that l(2) by simp
    then have e: "unat ?n \<le> unat ?x" by (auto simp: unlisted_def)
    then have "dir_read (k_fs k1) (kview k1) ?f ubuf 32 = ((k_fs k1)\<lparr> dirs_read := ?x \<rparr>, wr (kview k1) ubuf [], 0)"
      by (simp add: dir_read_def wr_def word_le_nat_alt)
    from dr[OF _ this] obtain k' where k': "s_read (ksys ly t esp ebp ubuf child) (of_nat i) buf 32 k = Some (0, buf, k')"
      "ready ly ubuf k'" "shown k' = shown k" "cur k' = cur k1" "k_fs k' = (k_fs k1)\<lparr> dirs_read := ?x \<rparr>" "\<forall>a. kernel_page a \<longrightarrow> kview k' a = kview k1 a"
      by auto
    from listing_after[OF l(1) k'(2,4-6)] e k'(1,3) show ?thesis by auto
  qed
  show "\<exists>k'. s_read (ksys ly t esp ebp ubuf child) (of_nat i) buf 32 k = Some (of_nat (length d), d @ drop (length d) buf, k') \<and>
      listing ly ubuf i k' \<and> shown k' = shown k \<and> unlisted k' = ds" if "unlisted k = d # ds"
  proof -
    have un: "unlisted k1 = d # ds" using that l(2) by simp
    then have e: "unat ?x < unat ?n" by (cases "unat ?x < unat ?n") (simp_all add: unlisted_def)
    then have x: "?x < ?n" "unat (?x + 1) = Suc (unat ?x)" using unat_Suc_less[of ?x ?n] by (simp_all add: word_less_nat_alt)
    have d: "d = dentry_name (dentries (k_fs k1) (kview k1) ?x) @ [0]"
      and ds: "ds = map (\<lambda>j. dentry_name (dentries (k_fs k1) (kview k1) (of_nat j)) @ [0]) [unat (?x + 1)..<unat ?n]"
      using un e unfolding unlisted_def x(2) by (simp_all add: upt_conv_Cons)
    have len: "length d \<le> 33" "?x < MAX_DENTRIES" using l(1) x(1) by (auto simp: listing_def d)
    have b: "buf_ok (k_fs k1) (kview k1) ubuf 32"
      using l(1) user_buf_mono[of ubuf 1025 32] by (intro placed_buf_ok) (auto simp: listing_def ready_def)
    have "dir_read (k_fs k1) (kview k1) ?f ubuf 32 = ((k_fs k1)\<lparr> dirs_read := ?x + 1 \<rparr>, wr (kview k1) ubuf d, of_nat (length d))"
      using dir_read_entry[OF x(1) len(2) _ b, of ?f 32] l(1) x(1) by (simp add: d listing_def Let_def)
    from dr[OF len(1) this] obtain k' where
      k': "s_read (ksys ly t esp ebp ubuf child) (of_nat i) buf 32 k = Some (of_nat (length d), d @ drop (length d) buf, k')"
      "ready ly ubuf k'" "shown k' = shown k" "cur k' = cur k1" "k_fs k' = (k_fs k1)\<lparr> dirs_read := ?x + 1 \<rparr>" "\<forall>a. kernel_page a \<longrightarrow> kview k' a = kview k1 a"
      by auto
    from listing_after[OF l(1) k'(2,4-6)] k'(1,3) ds show ?thesis by auto
  qed
qed

lemma unlisted_length:
  assumes "listing ly ubuf i k" and "d \<in> set (unlisted k)"
  shows "0 < length d \<and> length d \<le> 32"
proof -
  obtain j where j: "j < unat (n_dentries (k_fs k) (kview k))" "d = dentry_name (dentries (k_fs k) (kview k) (of_nat j)) @ [0]"
    using assms(2) by (auto simp: unlisted_def)
  then have "(of_nat j :: u32) < n_dentries (k_fs k) (kview k)"
    using unat_less_32[of "n_dentries (k_fs k) (kview k)"] by (simp add: word_less_nat_alt unat_of_nat_32)
  then show ?thesis using assms(1) by (auto simp: listing_def j(2))
qed

interpretation dir: lister "ksys ly t esp ebp ubuf child" "listing ly ubuf i" shown emit_screen unlisted "of_nat i"
  for ly t esp ebp ubuf child i
  by unfold_locales (simp add: emit_screen_def, simp add: emit_screen_def, use write_list in blast, use read_list(1) in blast,
      use read_list(2) in blast, use unlisted_length in blast)

lemma opened_list:
  assumes "ready ly ubuf k" and "fs_placed k" and "lowest_free (cur k) = Some i" and "d_type d = 1"
    and "n_dentries (k_fs k) (kview k) \<le> MAX_DENTRIES"
    and "\<forall>j < n_dentries (k_fs k) (kview k). length (dentry_name (dentries (k_fs k) (kview k) j)) < 32"
  shows "listing ly ubuf i (opened i d k)" and "unlisted (opened i d k) = unlisted k"
proof -
  note o = opened_ready[OF assms(1,3)]
  have sel: "k_fs (opened i d k) = k_fs k" "kview (opened i d k) = kview k" by (simp_all add: opened_def)
  show "listing ly ubuf i (opened i d k)"
    using o assms(2,4-6) unfolding listing_def dir_fd_def fs_placed_def sel by (simp add: new_file_def)
  show "unlisted (opened i d k) = unlisted k" unfolding unlisted_def sel ..
qed

text \<open>A directory \<open>.\<close> whose names all fit.\<close>

definition root_dir :: "kernel \<Rightarrow> u32 \<Rightarrow> bool" where
  "root_dir k ix \<longleftrightarrow> find_dentry (k_fs k) (kview k) (lit ''.'') = Some ix \<and> d_type (dentries (k_fs k) (kview k) ix) = 1 \<and>
     n_dentries (k_fs k) (kview k) \<le> MAX_DENTRIES \<and>
     (\<forall>j < n_dentries (k_fs k) (kview k). length (dentry_name (dentries (k_fs k) (kview k) j)) < 32)"

lemma ls_lists:
  assumes "ready ly ubuf k" and "fs_placed k" and "root_dir k ix" and "lowest_free (cur k) = Some i" and "length buf = 33"
  shows "\<exists>k'. ls_main (ksys ly t esp ebp ubuf child) buf k = Some (0, k') \<and>
    shown k' = emit_screen (concat (map (\<lambda>d. d @ [10]) (unlisted k))) (shown k)"
proof -
  let ?S = "ksys ly t esp ebp ubuf child" and ?d = "dentries (k_fs k) (kview k) ix"
  have dot: "take 33 (lit ''.'') = lit ''.''" "holds (str ''.'') (lit ''.'')" "length (str ''.'') \<le> 1025"
    using holds_str[of "''.''"] by (simp_all add: lit_def str_def)
  obtain k1 where k1: "ready ly ubuf k1" "calm ly k k1" "shown k1 = shown k" "s_open ?S (str ''.'') k = Some (of_nat i, opened i ?d k1)"
    using open_ready[OF assms(1,2) dot(2,3), where t = t and esp = esp and ebp = ebp and child = child] assms(3,4)
    by (auto simp: root_dir_def dot(1))
  note a = calm_fs[OF assms(2) k1(2)]
  have sel: "k_fs k1 = k_fs k" "cur k1 = cur k" using k1(2) by (simp_all add: calm_def)
  have n: "n_dentries (k_fs k1) (kview k1) = n_dentries (k_fs k) (kview k)" using agree_header[OF a(1)] by (simp add: sel)
  have dn: "dentries (k_fs k1) (kview k1) j = dentries (k_fs k) (kview k) j" if "j < n_dentries (k_fs k) (kview k)" for j
    using agree_dentries[OF a(1), of j] assms(3) that by (auto simp: root_dir_def sel)
  have lf: "lowest_free (cur k1) = Some i" using assms(4) by (simp add: sel)
  have "listing ly ubuf i (opened i ?d k1)" and u: "unlisted (opened i ?d k1) = unlisted k1"
    using opened_list[OF k1(1) a(2) lf, of ?d] assms(3) dn by (auto simp: root_dir_def n)
  then obtain k' where "ls_loop ?S (of_nat i) buf (opened i ?d k1) = Some (0, k')"
    "shown k' = emit_screen (concat (map (\<lambda>d. d @ [10]) (unlisted k1))) (shown k1)"
    using dir.ls_loop_lists[OF _ assms(5)] opened_ready(2)[OF k1(1) lf, of ?d] by (metis u)
  moreover have "unlisted k1 = unlisted k"
    unfolding unlisted_def n using dn unat_less_32[of "n_dentries (k_fs k) (kview k)"]
    by (auto simp: sel word_less_nat_alt unat_of_nat_32)
  moreover have "(of_nat i :: i32) \<noteq> -1" using count_word(3)[of i] opened_ready(5)[OF k1(1) lf] by simp
  ultimately show ?thesis using k1(3,4) by (simp add: ls_main_def)
qed

section \<open>Lines from the keyboard\<close>

definition typing :: "layout \<Rightarrow> u32 \<Rightarrow> kernel \<Rightarrow> bool" where
  "typing ly ubuf k \<longleftrightarrow> ready ly ubuf k \<and> term_ok (terms (k_kbd k) (terminal (cur k))) \<and> wf_cstring (line (terms (k_kbd k) (terminal (cur k))))"

definition typed :: "kernel \<Rightarrow> cstring list" where
  "typed k = (let tm = terms (k_kbd k) (terminal (cur k)) in if line_complete tm then [line tm @ [10]] else [])"

lemma write_typing:
  assumes "typing ly ubuf k" and "length buf \<le> 1025" and "n \<le> length buf"
  shows "\<exists>k'. s_write (ksys ly t esp ebp ubuf child) 1 buf (of_nat n) k = Some (of_nat n, k') \<and> typing ly ubuf k' \<and>
    typed k' = typed k \<and> shown k' = emit_screen (take n buf) (shown k)"
proof -
  have "ready ly ubuf k" using assms(1) by (simp add: typing_def)
  then show ?thesis using write_screen[OF _ assms(2,3), of ly ubuf k t esp ebp child] assms(1)
    by (auto simp: typing_def typed_def calm_def)
qed

lemma read_typed:
  assumes "typing ly ubuf k" and "typed k = l # ls" and "length buf \<le> 1025" and "n \<le> length buf" and "length l \<le> n"
  shows "\<exists>k'. s_read (ksys ly t esp ebp ubuf child) 0 buf (of_nat n) k = Some (of_nat (length l), l @ drop (length l) buf, k') \<and>
    typing ly ubuf k' \<and> shown k' = shown k \<and> typed k' = ls \<and> cur k' = cur k \<and> k_fs k' = k_fs k \<and>
    (\<forall>a. kernel_page a \<longrightarrow> kview k' a = kview k a)"
proof -
  have r: "ready ly ubuf k" using assms(1) by (simp add: typing_def)
  define k1 where "k1 = user_store ubuf buf k"
  note st = user_store_ready[OF r, of buf, folded k1_def]
  let ?t = "terminal (cur k)"
  let ?tm = "terms (k_kbd k) ?t"
  have tm: "term_ok ?tm" "line_complete ?tm" "l = line ?tm @ [10]" "ls = []"
    using assms(1,2) by (auto simp: typing_def typed_def Let_def split: if_splits)
  have len: "length l \<le> 1025" using assms(3-5) by simp
  have n: "sint (of_nat n :: i32) = int n" using sint_dec[of "Suc n"] assms(3,4) by simp
  have c: "ready ly ubuf k1" "calm ly k k1" "shown k1 = shown k" using st(1-3) assms(3) by auto
  have sel: "k_kbd k1 = k_kbd k" "cur k1 = cur k" "CPID k1 = CPID k" "processes k1 = processes k" using c(2) by (auto simp: calm_def)
  have ub: "user_buf ubuf 1025" "in_space ly k1" "std_ok (cur k1)" using c(1) by (auto simp: ready_def)
  define kb where "kb = set_term ?t (?tm\<lparr> buf_pos := 0, kbd_is_read := False \<rparr>) (k_kbd k)"
  define k2 where "k2 = with_mem (wr (kview k1) ubuf l) (k1\<lparr> k_kbd := kb \<rparr>)"
  have "terminal_read ?t ubuf (of_nat n) (k_kbd k) (kview k1) = Some (kb, wr (kview k1) ubuf l, of_nat (length l))"
    using terminal_read_complete[OF tm(1,2), of "of_nat n" ubuf "kview k1"] assms(5) by (simp add: n kb_def tm(3))
  then have rd: "sys_read t 0 ubuf (of_nat n) k1 = Some (k2, of_nat (length l))"
    using ub(3) by (simp add: sys_read_def jt_read_def std_ok_def sel k2_def)
  have ul: "user_buf ubuf (length l)" using user_buf_mono[OF ub(1)] len by simp
  have w: "user_write ly (wr (kview k1) ubuf l) k1 k2"
    by (rule user_writeI[OF ub(2), of "length l" ubuf]) (use ul in \<open>simp_all add: k2_def wr_def blit_frame\<close>)
  have vm: "\<forall>a. \<not> user_page a \<longrightarrow> wr (kview k1) ubuf l a = kview k1 a" using wr_kernel[OF ul] len by simp
  have s2: "k_con k2 = k_con k1" "std_ok (cur k2)" "cur k2 = cur k" "k_kbd k2 = kb" "k_fs k2 = k_fs k" using ub(3) c(2) by (simp_all add: k2_def sel calm_def)
  note rw = user_write_ready[OF c(1) w vm s2(1,2)]
  have "map (arr (kview k1) ubuf) [0..<length buf] = buf" using assms(3) st(5) by (auto simp: arr_def intro!: nth_equalityI)
  then have load: "user_load ubuf (length buf) k2 = l @ drop (length l) buf"
    using rw(4)[OF assms(3)] load_wr[of l "length buf" "kview k1" ubuf] assms(3-5) by simp
  have "typing ly ubuf k2" "typed k2 = []"
    using rw(1) tm(1) by (auto simp: typing_def typed_def s2 kb_def term_ok_def line_def line_complete_def wf_cstring_def)
  moreover have "kview k2 a = kview k a" if "kernel_page a" for a using rw(3)[OF that] st(6)[OF _ that] assms(3) by simp
  ultimately show ?thesis using rd load rw(2) c(3) tm(4) s2(3,5) by (simp add: ksys_calls k1_def[symmetric])
qed

lemma typed_ok:
  assumes "typing ly ubuf k" and "l \<in> set (typed k)"
  shows "wf_cstring l" and "length l \<le> 128"
  using assms line_length[of "terms (k_kbd k) (terminal (cur k))"]
  by (auto simp: typing_def typed_def Let_def wf_cstring_def term_ok_def split: if_splits)

lemma read_typed_line:
  assumes "typing ly ubuf k" and "typed k = l # ls" and "length buf = 1024"
  shows "\<exists>k'. s_read (ksys ly t esp ebp ubuf child) 0 buf 1023 k = Some (of_nat (length l), l @ drop (length l) buf, k') \<and>
    typing ly ubuf k' \<and> shown k' = shown k \<and> typed k' = ls"
  using read_typed[OF assms(1,2), of buf 1023 t esp ebp child] typed_ok(2)[OF assms(1), of l] assms(2,3) by auto

interpretation kbd: keyboard_reader "ksys ly t esp ebp ubuf child" "typing ly ubuf" shown emit_screen typed
  for ly t esp ebp ubuf child
proof unfold_locales
  show "wf_cstring l \<and> length l \<le> 1023" if "typing ly ubuf k" and "l \<in> set (typed k)" for k l
    using typed_ok[OF that] by simp
qed (use write_typing read_typed_line in \<open>blast | simp add: emit_screen_def\<close>)+

section \<open>Waiting for the clock\<close>

definition ticking :: "layout \<Rightarrow> u32 \<Rightarrow> nat \<Rightarrow> kernel \<Rightarrow> bool" where
  "ticking ly ubuf i k \<longleftrightarrow> ready ly ubuf k \<and> i < MAX_FD \<and> used_fd (cur k) i \<and> jumptable (fd_array (cur k) i) = Rtc_jumptable \<and>
     active_freq (k_rtc k) (CPID k) = 32"

lemma write_ticking:
  assumes "ticking ly ubuf i k" and "length buf \<le> 1025" and "n \<le> length buf"
  shows "\<exists>k'. s_write (ksys ly t esp ebp ubuf child) 1 buf (of_nat n) k = Some (of_nat n, k') \<and> ticking ly ubuf i k' \<and>
    shown k' = emit_screen (take n buf) (shown k)"
proof -
  have "ready ly ubuf k" using assms(1) by (simp add: ticking_def)
  then show ?thesis using write_screen[OF _ assms(2,3), of ly ubuf k t esp ebp child] assms(1)
    by (auto simp: ticking_def calm_def)
qed

text \<open>At 32 Hz a read returns after at most 32 clock interrupts.\<close>

lemma read_ticking:
  assumes "ticking ly ubuf i k" and "length g = 4"
  shows "\<exists>r g' k'. s_read (ksys ly 32 esp ebp ubuf child) (of_nat i) g 4 k = Some (r, g', k') \<and> length g' = 4 \<and>
    ticking ly ubuf i k' \<and> shown k' = shown k"
proof -
  have r: "ready ly ubuf k" using assms(1) by (simp add: ticking_def)
  define k1 where "k1 = user_store ubuf g k"
  have st: "ready ly ubuf k1" "calm ly k k1" "shown k1 = shown k" using user_store_ready[OF r, of g] assms(2) by (simp_all add: k1_def)
  have sel: "processes k1 = processes k" "CPID k1 = CPID k" "k_rtc k1 = k_rtc k" using st(2) by (simp_all add: calm_def)
  have f: "active_freq (k_rtc k1) (CPID k1) = 32" "CPID k1 < 7" using assms(1) r by (simp_all add: ticking_def sel ready_def in_space_def)
  obtain r' p' where rp: "rtc_read (CPID k1) 32 (k_rtc k1, k_pic k1) 4 = Some ((r', p'), 4)" "active_freq r' = active_freq (k_rtc k1)"
    using rtc_read_due[of "CPID k1" "k_rtc k1" "k_pic k1" 4] f by (auto simp: valid_rate_def)
  define k2 where "k2 = k1\<lparr> k_rtc := r', k_pic := p' \<rparr>"
  have "sys_read 32 (of_nat i) ubuf 4 k1 = Some (k2, 4)"
    using assms(1) rp(1) by (simp add: ticking_def sys_read_def sint_fd jt_read_def sel k2_def)
  moreover have "ticking ly ubuf i k2" "shown k2 = shown k"
    using assms(1) st f(1) rp(2) by (simp_all add: ticking_def ready_def k2_def in_space_def shown_def sel)
  ultimately show ?thesis by (simp add: ksys_calls k1_def[symmetric] user_load_def assms(2))
qed

interpretation clk: ticker "ksys ly 32 esp ebp ubuf child" "ticking ly ubuf i" shown emit_screen "\<lambda>_. ()" "of_nat i"
  for ly esp ebp ubuf child i
  by unfold_locales (simp add: emit_screen_def, simp add: emit_screen_def, use write_ticking in blast, use read_ticking in blast)

lemma setup_court:
  assumes "length buf = 81"
  shows "\<exists>b. walled b \<and> pingpong_setup S buf w =
    do { (rtc_fd, w) \<leftarrow> s_open S (str ''rtc'') w; (_, w) \<leftarrow> s_write S rtc_fd [32, 0, 0, 0] 4 w; Some (rtc_fd, b, w) }"
proof -
  have b: "blank buf 0 81 = Some (replicate 81 32)" using assms by (subst blank_fills) simp_all
  let ?b = "((((replicate 81 32)[80 := 0])[79 := 10])[78 := 124])[1 := 124 :: u8]"
  have "walled ?b" by (simp add: walled_def numeral_eq_Suc)
  moreover have "pingpong_setup S buf w = do { (rtc_fd, w) \<leftarrow> s_open S (str ''rtc'') w; (_, w) \<leftarrow> s_write S rtc_fd [32, 0, 0, 0] 4 w; Some (rtc_fd, ?b, w) }"
    by (simp add: pingpong_setup_def b byte_of_def)
  ultimately show ?thesis by blast
qed

text \<open>Setting the rate: \<open>write(rtc_fd, &ret_val, 4)\<close> with 32.\<close>

lemma set_rate:
  assumes "ready ly ubuf k" and "i < MAX_FD" and "used_fd (cur k) i" and "jumptable (fd_array (cur k) i) = Rtc_jumptable"
  shows "\<exists>k'. s_write (ksys ly t esp ebp ubuf child) (of_nat i) [32, 0, 0, 0] 4 k = Some (4, k') \<and> ticking ly ubuf i k' \<and> shown k' = shown k"
proof -
  define k1 where "k1 = user_store ubuf [32, 0, 0, 0] k"
  note st = user_store_ready[OF assms(1), of "[32, 0, 0, 0]", folded k1_def]
  have sel: "processes k1 = processes k" "CPID k1 = CPID k" using st(2) by (simp_all add: calm_def)
  have u0: "ubuf \<noteq> 0" using assms(1) by (auto simp: ready_def user_buf_def user_page_def dest: spec[of _ 0])
  have "rd32 (kview k1) ubuf = 32" using st(5)[of 0] st(5)[of 1] st(5)[of 2] st(5)[of 3] by (simp add: rd32_def le32_def)
  then have "sys_write (of_nat i) ubuf 4 k1 = (k1\<lparr> k_rtc := (k_rtc k1)\<lparr> active_freq := (active_freq (k_rtc k1))(CPID k := 32) \<rparr> \<rparr>, 4)"
    using assms(2-4) u0 by (simp add: sys_write_def sint_fd jt_write_def rtc_write_def sel)
  then show ?thesis using st(1,3) assms(2-4)
    by (simp add: ksys_calls k1_def[symmetric] ticking_def ready_def in_space_def sel shown_def)
qed

lemma pingpong_runs:
  assumes "ready ly ubuf k" and "fs_placed k" and "find_dentry (k_fs k) (kview k) (lit ''rtc'') = Some ix"
    and "d_type (dentries (k_fs k) (kview k) ix) = 0" and "lowest_free (cur k) = Some i" and "length buf = 81" and "length g = 4"
  shows "\<exists>b k1 st'. pingpong_setup (ksys ly 32 esp ebp ubuf child) buf k = Some (of_nat i, b, k1) \<and>
    pingpong_turns (ksys ly 32 esp ebp ubuf child) (of_nat i) n (65, b, g, k1) = Some ((next_char ^^ n) 65, st') \<and>
    shown (snd (snd st')) = emit_screen (concat (map (\<lambda>m. bounce ((next_char ^^ m) 65)) [0..<n])) (shown k)"
proof -
  let ?S = "ksys ly 32 esp ebp ubuf child" and ?d = "dentries (k_fs k) (kview k) ix"
  have nm: "take 33 (lit ''rtc'') = lit ''rtc''" "holds (str ''rtc'') (lit ''rtc'')" "length (str ''rtc'') \<le> 1025"
    using holds_str[of "''rtc''"] by (simp_all add: lit_def str_def)
  obtain k1 where k1: "ready ly ubuf k1" "calm ly k k1" "shown k1 = shown k" "s_open ?S (str ''rtc'') k = Some (of_nat i, opened i ?d k1)"
    using open_ready[OF assms(1,2) nm(2,3), where t = 32 and esp = esp and ebp = ebp and child = child] assms(3,5) by (auto simp: nm(1))
  have lf: "lowest_free (cur k1) = Some i" using assms(5) k1(2) by (simp add: calm_def)
  note o = opened_ready[OF k1(1) lf]
  have f: "used_fd (cur (opened i ?d k1)) i" "jumptable (fd_array (cur (opened i ?d k1)) i) = Rtc_jumptable"
    using assms(4) unfolding o(3) by (simp_all add: new_file_def)
  obtain k2 where k2: "s_write ?S (of_nat i) [32, 0, 0, 0] 4 (opened i ?d k1) = Some (4, k2)" "ticking ly ubuf i k2" "shown k2 = shown k"
    using set_rate[OF o(1,5) f, where t = 32 and esp = esp and ebp = ebp and child = child] o(2) k1(3) by auto
  obtain b where b: "walled b" "pingpong_setup ?S buf k = Some (of_nat i, b, k2)" using setup_court[OF assms(6), of ?S k] k1(4) k2(1) by auto
  have c: "65 \<le> (65 :: u8) \<and> (65 :: u8) \<le> 90" by simp
  have at: "at_court (ticking ly ubuf i) shown (shown k) (b, g, k2)" using b(1) assms(7) k2(2,3) by (simp add: at_court_def)
  obtain st' where "pingpong_turns ?S (of_nat i) n (65, b, g, k2) = Some ((next_char ^^ n) 65, st')"
    "at_court (ticking ly ubuf i) shown (emit_screen (concat (map (\<lambda>m. bounce ((next_char ^^ m) 65)) [0..<n])) (shown k)) st'"
    using clk.turns_print[OF at c, where n = n and esp = esp and ebp = ebp and child = child] by blast
  then show ?thesis using b(2) unfolding at_court_def by blast
qed

end
