(* ===== verification/Syserr.thy ===== *)
theory Syserr
  imports Userspace
begin

text \<open>
  The self-test of the system calls' error cases, \<^verbatim>\<open>syscalls/ece391syserr.c\<close>: its eight
  tests and \<open>main\<close>.  The locale \<open>refusals\<close> states what the tests expect of the system
  calls; it is interpreted on the kernel, so that the program's verdict is a theorem: every test
  passes.
\<close>

section \<open>The program (ece391syserr.c)\<close>

abbreviation (input) NEG_FD :: i32 where "NEG_FD \<equiv> -1073741823"
abbreviation (input) BIG_FD :: i32 where "BIG_FD \<equiv> 1073741823"
abbreviation (input) BIG_NUM :: i32 where "BIG_NUM \<equiv> 1073741823"
abbreviation (input) NEG_NUM :: i32 where "NEG_NUM \<equiv> -1073741823"

definition call_sys :: "'w sys \<Rightarrow> i32 \<Rightarrow> 'w \<Rightarrow> (i32 \<times> 'w) option" where
  "call_sys S num w = s_call S num w"

text \<open>\<open>if (-1 != r) { fail = 2; ece391_fdputs (1, msg); }\<close>.\<close>

definition expect_failure :: "'w sys \<Rightarrow> i32 \<Rightarrow> string \<Rightarrow> i32 \<Rightarrow> 'w \<Rightarrow> (i32 \<times> 'w) option" where
  "expect_failure S r msg failed w =
     (if r \<noteq> -1 then do { w \<leftarrow> ece391_fdputs S 1 (str msg) w; Some (2, w) } else Some (failed, w))"

text \<open>The end of a test: its name and \<open>: PASS\<close> or \<open>: FAIL\<close>.\<close>

definition verdict :: "'w sys \<Rightarrow> string \<Rightarrow> i32 \<Rightarrow> 'w \<Rightarrow> (i32 \<times> 'w) option" where
  "verdict S test failed w =
     (if failed \<noteq> 0 then do { w \<leftarrow> ece391_fdputs S 1 (str (test @ '': FAIL\<newline>'')) w; Some (failed, w) }
      else do { w \<leftarrow> ece391_fdputs S 1 (str (test @ '': PASS\<newline>'')) w; Some (failed, w) })"

text \<open>The three calls on a bad descriptor, of \<open>err_neg_fd\<close> and \<open>err_big_fd\<close>.\<close>

definition err_fd :: "'w sys \<Rightarrow> string \<Rightarrow> i32 \<Rightarrow> u8 list \<Rightarrow> 'w \<Rightarrow> (i32 \<times> 'w) option" where
  "err_fd S test fd buf w =
     do { (r, buf, w) \<leftarrow> s_read S fd buf 31 w;
          (failed, w) \<leftarrow> expect_failure S r ''read fail\<newline>'' 0 w;
          (r, w) \<leftarrow> s_write S fd buf 31 w;
          (failed, w) \<leftarrow> expect_failure S r ''write fail\<newline>'' failed w;
          (r, w) \<leftarrow> s_close S fd w;
          (failed, w) \<leftarrow> expect_failure S r ''close fail\<newline>'' failed w;
          verdict S test failed w }"

definition err_neg_fd :: "'w sys \<Rightarrow> u8 list \<Rightarrow> 'w \<Rightarrow> (i32 \<times> 'w) option" where
  "err_neg_fd S = err_fd S ''err_neg_fd'' NEG_FD"

definition err_big_fd :: "'w sys \<Rightarrow> u8 list \<Rightarrow> 'w \<Rightarrow> (i32 \<times> 'w) option" where
  "err_big_fd S = err_fd S ''err_big_fd'' BIG_FD"

text \<open>\<open>n\<close> calls of \<open>open\<close>, counting those that fail; closing descriptors \<open>i\<close> to 7.\<close>

primrec open_lots :: "'w sys \<Rightarrow> nat \<Rightarrow> i32 \<Rightarrow> 'w \<Rightarrow> (i32 \<times> 'w) option" where
  "open_lots S 0 cnt w = Some (cnt, w)"
| "open_lots S (Suc n) cnt w =
     do { (r, w) \<leftarrow> s_open S (str ''.'') w; open_lots S n (if r = -1 then cnt + 1 else cnt) w }"

primrec close_lots :: "'w sys \<Rightarrow> nat \<Rightarrow> nat \<Rightarrow> 'w \<Rightarrow> 'w option" where
  "close_lots S i 0 w = Some w"
| "close_lots S i (Suc n) w = do { (_, w) \<leftarrow> s_close S (of_nat i) w; close_lots S (i + 1) n w }"

definition err_open_lots :: "'w sys \<Rightarrow> 'w \<Rightarrow> (i32 \<times> 'w) option" where
  "err_open_lots S w =
     do { (cnt, w) \<leftarrow> open_lots S 7 0 w;
          w \<leftarrow> close_lots S 2 6 w;
          if cnt = 1 then do { w \<leftarrow> ece391_fdputs S 1 (str ''err_open_lots: PASS\<newline>'') w; Some (0, w) }
          else do { w \<leftarrow> ece391_fdputs S 1 (str ''err_open_lots: FAIL\<newline>'') w; Some (2, w) } }"

definition err_open :: "'w sys \<Rightarrow> 'w \<Rightarrow> (i32 \<times> 'w) option" where
  "err_open S w =
     do { (r, w) \<leftarrow> s_open S (str ''helloo'') w;
          (failed, w) \<leftarrow> expect_failure S r (CHR 0x27 # ''helloo'' @ CHR 0x27 # '' fail\<newline>'') 0 w;
          (r, w) \<leftarrow> s_open S (str ''shel'') w;
          (failed, w) \<leftarrow> expect_failure S r (CHR 0x27 # ''shel'' @ CHR 0x27 # '' fail\<newline>'') failed w;
          (r, w) \<leftarrow> s_open S (str '''') w;
          (failed, w) \<leftarrow> expect_failure S r ''empty string fail\<newline>'' failed w;
          verdict S ''err_open'' failed w }"

text \<open>The three loops of \<open>err_unopened\<close>, over \<open>n\<close> descriptors from \<open>i\<close> on.\<close>

primrec close_unopened :: "'w sys \<Rightarrow> nat \<Rightarrow> nat \<Rightarrow> i32 \<Rightarrow> 'w \<Rightarrow> (i32 \<times> 'w) option" where
  "close_unopened S i 0 failed w = Some (failed, w)"
| "close_unopened S i (Suc n) failed w =
     do { (r, w) \<leftarrow> s_close S (of_nat i) w;
          (failed, w) \<leftarrow> expect_failure S r ''close unopened or invalid fd fail\<newline>'' failed w;
          close_unopened S (i + 1) n failed w }"

primrec read_unopened :: "'w sys \<Rightarrow> nat \<Rightarrow> nat \<Rightarrow> i32 \<Rightarrow> u8 list \<Rightarrow> 'w \<Rightarrow> (i32 \<times> u8 list \<times> 'w) option" where
  "read_unopened S i 0 failed buf w = Some (failed, buf, w)"
| "read_unopened S i (Suc n) failed buf w =
     do { (r, buf, w) \<leftarrow> s_read S (of_nat i) buf 31 w;
          (failed, w) \<leftarrow> expect_failure S r ''read from unopened fd fail\<newline>'' failed w;
          read_unopened S (i + 1) n failed buf w }"

primrec write_unopened :: "'w sys \<Rightarrow> nat \<Rightarrow> nat \<Rightarrow> i32 \<Rightarrow> u8 list \<Rightarrow> 'w \<Rightarrow> (i32 \<times> 'w) option" where
  "write_unopened S i 0 failed buf w = Some (failed, w)"
| "write_unopened S i (Suc n) failed buf w =
     do { (r, w) \<leftarrow> s_write S (of_nat i) buf 31 w;
          (failed, w) \<leftarrow> expect_failure S r ''write to unopened fd fail\<newline>'' failed w;
          write_unopened S (i + 1) n failed buf w }"

definition err_unopened :: "'w sys \<Rightarrow> u8 list \<Rightarrow> 'w \<Rightarrow> (i32 \<times> 'w) option" where
  "err_unopened S buf w =
     do { (failed, w) \<leftarrow> close_unopened S 0 8 0 w;
          (failed, buf, w) \<leftarrow> read_unopened S 2 6 failed buf w;
          (failed, w) \<leftarrow> write_unopened S 2 6 failed buf w;
          verdict S ''err_unopened'' failed w }"

definition err_vidmap :: "'w sys \<Rightarrow> 'w \<Rightarrow> (i32 \<times> 'w) option" where
  "err_vidmap S w =
     do { (r, w) \<leftarrow> s_vidmap S 0 w;
          (failed, w) \<leftarrow> expect_failure S r ''Null pointer fail\<newline>'' 0 w;
          (r, w) \<leftarrow> s_vidmap S 0x400000 w;
          (failed, w) \<leftarrow> expect_failure S r ''Kernel pointer fail fail\<newline>'' failed w;
          verdict S ''err_vidmap'' failed w }"

definition err_stdin_out :: "'w sys \<Rightarrow> u8 list \<Rightarrow> 'w \<Rightarrow> (i32 \<times> 'w) option" where
  "err_stdin_out S buf w =
     do { (r, w) \<leftarrow> s_write S 0 buf 31 w;
          (failed, w) \<leftarrow> expect_failure S r ''write to stdin fail\<newline>'' 0 w;
          (r, buf, w) \<leftarrow> s_read S 1 buf 31 w;
          (failed, w) \<leftarrow> expect_failure S r ''read from stdout fail\<newline>'' failed w;
          verdict S ''err_stdin_out'' failed w }"

definition err_syscall_num :: "'w sys \<Rightarrow> 'w \<Rightarrow> (i32 \<times> 'w) option" where
  "err_syscall_num S w =
     do { (r, w) \<leftarrow> call_sys S BIG_NUM w;
          (failed, w) \<leftarrow> expect_failure S r ''syscall 0 fail\<newline>'' 0 w;
          (r, w) \<leftarrow> call_sys S NEG_NUM w;
          (failed, w) \<leftarrow> expect_failure S r ''big num syscall fail\<newline>'' failed w;
          (r, w) \<leftarrow> call_sys S 0 w;
          (failed, w) \<leftarrow> expect_failure S r ''neg num syscall fail\<newline>'' failed w;
          verdict S ''err_syscall_num'' failed w }"

text \<open>Each test has its own array of 32 bytes; \<open>b\<close> is what it holds when the test starts.\<close>

definition err_all :: "'w sys \<Rightarrow> u8 list \<Rightarrow> 'w \<Rightarrow> (i32 \<times> 'w) option" where
  "err_all S b w =
     do { (f1, w) \<leftarrow> err_neg_fd S b w;
          (f2, w) \<leftarrow> err_big_fd S b w;
          (f3, w) \<leftarrow> err_open_lots S w;
          (f4, w) \<leftarrow> err_open S w;
          (f5, w) \<leftarrow> err_unopened S b w;
          (f6, w) \<leftarrow> err_vidmap S w;
          (f7, w) \<leftarrow> err_stdin_out S b w;
          (f8, w) \<leftarrow> err_syscall_num S w;
          let failed = f1 + f2 + f3 + f4 + f5 + f6 + f7 + f8;
          if failed \<noteq> 0 then do { w \<leftarrow> ece391_fdputs S 1 (str ''\<newline>Overall Tests: FAIL\<newline>'') w; Some (failed, w) }
          else do { w \<leftarrow> ece391_fdputs S 1 (str ''\<newline>Overall Tests: PASS\<newline>'') w; Some (failed, w) } }"

definition syserr_main :: "'w sys \<Rightarrow> u8 list \<Rightarrow> u8 list \<Rightarrow> 'w \<Rightarrow> (i32 \<times> 'w) option" where
  "syserr_main S b buf w =
     do { w \<leftarrow> ece391_fdputs S 1 (str ''Choose from tests 1-8. 0 to run all: '') w;
          (cnt, buf, w) \<leftarrow> s_read S 0 buf 127 w;
          if cnt = -1 then do { w \<leftarrow> ece391_fdputs S 1 (str ''Can't read test #\<newline>'') w; Some (2, w) }
          else do {
            c \<leftarrow> aget buf 0;
            let select = uint c - 48;
            if select = 0 then err_all S b w
            else if select = 1 then err_neg_fd S b w
            else if select = 2 then err_big_fd S b w
            else if select = 3 then err_open_lots S w
            else if select = 4 then err_open S w
            else if select = 5 then err_unopened S b w
            else if select = 6 then err_vidmap S w
            else if select = 7 then err_stdin_out S b w
            else if select = 8 then err_syscall_num S w
            else do { w \<leftarrow> ece391_fdputs S 1 (str ''Invalid test number. Choose from tests 1-8 or 0'') w; Some (0, w) } } }"

section \<open>What the tests expect\<close>

text \<open>The system is in order, \<open>s\<close> are the open descriptors from 2 on and \<open>ls\<close> the lines typed,
  and \<open>z\<close> has been output.\<close>

definition stands :: "('w \<Rightarrow> bool) \<Rightarrow> ('w \<Rightarrow> nat set \<times> cstring list) \<Rightarrow> ('w \<Rightarrow> 'o) \<Rightarrow> nat set \<times> cstring list \<Rightarrow> 'o \<Rightarrow> 'w \<Rightarrow> bool" where
  "stands ok inp out q z w \<longleftrightarrow> ok w \<and> inp w = q \<and> out w = z"

definition out_of_range :: "i32 \<Rightarrow> bool" where
  "out_of_range fd \<longleftrightarrow> sint fd < 0 \<or> 8 \<le> sint fd"

text \<open>What a run of all tests prints when all pass.\<close>

definition all_passed :: cstring where
  "all_passed = lit ''err_neg_fd: PASS\<newline>'' @ lit ''err_big_fd: PASS\<newline>'' @ lit ''err_open_lots: PASS\<newline>'' @ lit ''err_open: PASS\<newline>'' @
     lit ''err_unopened: PASS\<newline>'' @ lit ''err_vidmap: PASS\<newline>'' @ lit ''err_stdin_out: PASS\<newline>'' @ lit ''err_syscall_num: PASS\<newline>'' @
     lit ''\<newline>Overall Tests: PASS\<newline>''"

locale refusals = writer S ok out emit inp
  for S :: "'w sys" and ok :: "'w \<Rightarrow> bool" and out :: "'w \<Rightarrow> 'o" and emit and inp :: "'w \<Rightarrow> nat set \<times> cstring list" +
  assumes read_refused: "stands ok inp out (s, ls) z w \<Longrightarrow> out_of_range fd \<or> fd = 1 \<or> (\<exists>i. 2 \<le> i \<and> i < 8 \<and> i \<notin> s \<and> fd = of_nat i) \<Longrightarrow>
      length buf = 32 \<Longrightarrow> \<exists>buf' w'. s_read S fd buf 31 w = Some (-1, buf', w') \<and> length buf' = 32 \<and> stands ok inp out (s, ls) z w'"
    and write_refused: "stands ok inp out (s, ls) z w \<Longrightarrow> out_of_range fd \<or> fd = 0 \<or> (\<exists>i. 2 \<le> i \<and> i < 8 \<and> i \<notin> s \<and> fd = of_nat i) \<Longrightarrow>
      length buf = 32 \<Longrightarrow> \<exists>w'. s_write S fd buf 31 w = Some (-1, w') \<and> stands ok inp out (s, ls) z w'"
    and close_refused: "stands ok inp out (s, ls) z w \<Longrightarrow> out_of_range fd \<or> (\<exists>i < 8. i \<notin> s \<and> fd = of_nat i) \<Longrightarrow>
      \<exists>w'. s_close S fd w = Some (-1, w') \<and> stands ok inp out (s, ls) z w'"
    and close_open: "stands ok inp out (s, ls) z w \<Longrightarrow> i \<in> s \<Longrightarrow>
      \<exists>r w'. s_close S (of_nat i) w = Some (r, w') \<and> stands ok inp out (s - {i}, ls) z w'"
    and open_free: "stands ok inp out ({2..<2 + n}, ls) z w \<Longrightarrow> n < 6 \<Longrightarrow>
      \<exists>r w'. s_open S (str ''.'') w = Some (r, w') \<and> r \<noteq> -1 \<and> stands ok inp out ({2..<3 + n}, ls) z w'"
    and open_full: "stands ok inp out ({2..<8}, ls) z w \<Longrightarrow>
      \<exists>w'. s_open S (str ''.'') w = Some (-1, w') \<and> stands ok inp out ({2..<8}, ls) z w'"
    and open_missing: "stands ok inp out q z w \<Longrightarrow> nm \<in> {''helloo'', ''shel'', ''''} \<Longrightarrow>
      \<exists>w'. s_open S (str nm) w = Some (-1, w') \<and> stands ok inp out q z w'"
    and vidmap_refused: "stands ok inp out q z w \<Longrightarrow> p \<in> {0, 0x400000} \<Longrightarrow> \<exists>w'. s_vidmap S p w = Some (-1, w') \<and> stands ok inp out q z w'"
    and number_refused: "stands ok inp out q z w \<Longrightarrow> sint num \<le> 0 \<or> 10 < sint num \<Longrightarrow>
      \<exists>w'. s_call S num w = Some (-1, w') \<and> stands ok inp out q z w'"
    and read_choice: "stands ok inp out (s, [c, 10] # ls) z w \<Longrightarrow> length buf = 128 \<Longrightarrow>
      \<exists>w'. s_read S 0 buf 127 w = Some (2, [c, 10] @ drop 2 buf, w') \<and> stands ok inp out (s, ls) z w'"
begin

lemma no_failure [simp]: "expect_failure S (-1) msg failed w = Some (failed, w)"
  by (simp add: expect_failure_def)

lemma puts_stands:
  assumes "stands ok inp out q z w" and "CHR 0x00 \<notin> set s" and "length s \<le> 1024"
  shows "\<exists>w'. ece391_fdputs S 1 (str s) w = Some w' \<and> stands ok inp out q (emit (lit s) z) w'"
  using puts_literal[of w s] assms by (auto simp: stands_def)

lemma verdict_pass:
  assumes "stands ok inp out q z w" and "CHR 0x00 \<notin> set test" and "length test \<le> 1000"
  shows "\<exists>w'. verdict S test 0 w = Some (0, w') \<and> stands ok inp out q (emit (lit (test @ '': PASS\<newline>'')) z) w'"
  using puts_stands[OF assms(1), of "test @ '': PASS\<newline>''"] assms(2,3) by (auto simp: verdict_def)

lemma err_fd_passes:
  assumes "stands ok inp out (s, ls) z w" and "out_of_range fd" and "length b = 32" and "CHR 0x00 \<notin> set test" and "length test \<le> 1000"
  shows "\<exists>w'. err_fd S test fd b w = Some (0, w') \<and> stands ok inp out (s, ls) (emit (lit (test @ '': PASS\<newline>'')) z) w'"
proof -
  obtain b' w1 where 1: "s_read S fd b 31 w = Some (-1, b', w1)" "length b' = 32" "stands ok inp out (s, ls) z w1"
    using read_refused[OF assms(1), of fd b] assms(2,3) by blast
  obtain w2 where 2: "s_write S fd b' 31 w1 = Some (-1, w2)" "stands ok inp out (s, ls) z w2"
    using write_refused[OF 1(3), of fd b'] 1(2) assms(2) by blast
  obtain w3 where 3: "s_close S fd w2 = Some (-1, w3)" "stands ok inp out (s, ls) z w3"
    using close_refused[OF 2(2), of fd] assms(2) by blast
  show ?thesis using verdict_pass[OF 3(2) assms(4,5)] 1(1) 2(1) 3(1) by (auto simp: err_fd_def)
qed

lemma open_lots_until_full:
  "n + m = 6 \<Longrightarrow> stands ok inp out ({2..<2 + n}, ls) z w \<Longrightarrow>
    \<exists>w'. open_lots S (Suc m) c w = Some (c + 1, w') \<and> stands ok inp out ({2..<8}, ls) z w'"
proof (induction m arbitrary: n w)
  case 0
  then show ?case using open_full[of ls z w] by auto
next
  case (Suc m)
  obtain r w1 where 1: "s_open S (str ''.'') w = Some (r, w1)" "r \<noteq> -1" "stands ok inp out ({2..<3 + n}, ls) z w1"
    using open_free[OF Suc.prems(2)] Suc.prems(1) by auto
  obtain w' where "open_lots S (Suc m) c w1 = Some (c + 1, w')" "stands ok inp out ({2..<8}, ls) z w'"
    using Suc.IH[of "Suc n" w1] Suc.prems(1) 1(3) by (auto simp: numeral_3_eq_3)
  then show ?case using 1(1,2) by auto
qed

lemma close_lots_frees:
  "i + n = 8 \<Longrightarrow> stands ok inp out ({i..<8}, ls) z w \<Longrightarrow> \<exists>w'. close_lots S i n w = Some w' \<and> stands ok inp out ({}, ls) z w'"
proof (induction n arbitrary: i w)
  case (Suc n)
  then obtain r w1 where 1: "s_close S (of_nat i) w = Some (r, w1)" "stands ok inp out ({i..<8} - {i}, ls) z w1"
    using close_open[OF Suc.prems(2), of i] by auto
  moreover have "{i..<8} - {i} = {i + 1..<8}" by auto
  ultimately show ?case using Suc.IH[of "i + 1" w1] Suc.prems(1) by auto
qed auto

lemma err_open_lots_passes:
  assumes "stands ok inp out ({}, ls) z w"
  shows "\<exists>w'. err_open_lots S w = Some (0, w') \<and> stands ok inp out ({}, ls) (emit (lit ''err_open_lots: PASS\<newline>'') z) w'"
proof -
  obtain w1 where 1: "open_lots S 7 0 w = Some (1, w1)" "stands ok inp out ({2..<8}, ls) z w1"
    using open_lots_until_full[of 0 6 ls z w 0] assms by auto
  obtain w2 where 2: "close_lots S 2 6 w1 = Some w2" "stands ok inp out ({}, ls) z w2"
    using close_lots_frees[OF _ 1(2)] by auto
  show ?thesis using puts_stands[OF 2(2), of "''err_open_lots: PASS\<newline>''"] 1(1) 2(1) by (auto simp: err_open_lots_def)
qed

lemma err_open_passes:
  assumes "stands ok inp out q z w"
  shows "\<exists>w'. err_open S w = Some (0, w') \<and> stands ok inp out q (emit (lit ''err_open: PASS\<newline>'') z) w'"
proof -
  obtain w1 where 1: "s_open S (str ''helloo'') w = Some (-1, w1)" "stands ok inp out q z w1"
    using open_missing[OF assms, of "''helloo''"] by blast
  obtain w2 where 2: "s_open S (str ''shel'') w1 = Some (-1, w2)" "stands ok inp out q z w2"
    using open_missing[OF 1(2), of "''shel''"] by blast
  obtain w3 where 3: "s_open S (str '''') w2 = Some (-1, w3)" "stands ok inp out q z w3"
    using open_missing[OF 2(2), of "''''"] by blast
  show ?thesis using verdict_pass[OF 3(2), of "''err_open''"] 1(1) 2(1) 3(1) by (auto simp: err_open_def)
qed

lemma close_unopened_passes:
  "i + n = 8 \<Longrightarrow> stands ok inp out ({}, ls) z w \<Longrightarrow> \<exists>w'. close_unopened S i n 0 w = Some (0, w') \<and> stands ok inp out ({}, ls) z w'"
proof (induction n arbitrary: i w)
  case (Suc n)
  have "\<exists>j < 8. j \<notin> ({} :: nat set) \<and> (of_nat i :: i32) = of_nat j" using Suc.prems(1) by (intro exI[of _ i]) simp
  then obtain w1 where 1: "s_close S (of_nat i) w = Some (-1, w1)" "stands ok inp out ({}, ls) z w1"
    using close_refused[OF Suc.prems(2), of "of_nat i"] by blast
  then show ?case using Suc.IH[of "i + 1" w1] Suc.prems(1) by auto
qed auto

lemma read_unopened_passes:
  "2 \<le> i \<Longrightarrow> i + n = 8 \<Longrightarrow> stands ok inp out ({}, ls) z w \<Longrightarrow> length b = 32 \<Longrightarrow>
    \<exists>b' w'. read_unopened S i n 0 b w = Some (0, b', w') \<and> length b' = 32 \<and> stands ok inp out ({}, ls) z w'"
proof (induction n arbitrary: i w b)
  case (Suc n)
  have "\<exists>j. 2 \<le> j \<and> j < 8 \<and> j \<notin> ({} :: nat set) \<and> (of_nat i :: i32) = of_nat j" using Suc.prems(1,2) by (intro exI[of _ i]) simp
  then obtain b1 w1 where 1: "s_read S (of_nat i) b 31 w = Some (-1, b1, w1)" "length b1 = 32" "stands ok inp out ({}, ls) z w1"
    using read_refused[OF Suc.prems(3), of "of_nat i" b] Suc.prems(4) by blast
  then show ?case using Suc.IH[of "i + 1" w1 b1] Suc.prems(1,2) by auto
qed auto

lemma write_unopened_passes:
  "2 \<le> i \<Longrightarrow> i + n = 8 \<Longrightarrow> stands ok inp out ({}, ls) z w \<Longrightarrow> length b = 32 \<Longrightarrow>
    \<exists>w'. write_unopened S i n 0 b w = Some (0, w') \<and> stands ok inp out ({}, ls) z w'"
proof (induction n arbitrary: i w)
  case (Suc n)
  have "\<exists>j. 2 \<le> j \<and> j < 8 \<and> j \<notin> ({} :: nat set) \<and> (of_nat i :: i32) = of_nat j" using Suc.prems(1,2) by (intro exI[of _ i]) simp
  then obtain w1 where 1: "s_write S (of_nat i) b 31 w = Some (-1, w1)" "stands ok inp out ({}, ls) z w1"
    using write_refused[OF Suc.prems(3), of "of_nat i" b] Suc.prems(4) by blast
  then show ?case using Suc.IH[of "i + 1" w1] Suc.prems(1,2,4) by auto
qed auto

lemma err_unopened_passes:
  assumes "stands ok inp out ({}, ls) z w" and "length b = 32"
  shows "\<exists>w'. err_unopened S b w = Some (0, w') \<and> stands ok inp out ({}, ls) (emit (lit ''err_unopened: PASS\<newline>'') z) w'"
proof -
  obtain w1 where 1: "close_unopened S 0 8 0 w = Some (0, w1)" "stands ok inp out ({}, ls) z w1"
    using close_unopened_passes[OF _ assms(1), of 0 8] by auto
  obtain b2 w2 where 2: "read_unopened S 2 6 0 b w1 = Some (0, b2, w2)" "length b2 = 32" "stands ok inp out ({}, ls) z w2"
    using read_unopened_passes[OF _ _ 1(2) assms(2), of 2 6] by auto
  obtain w3 where 3: "write_unopened S 2 6 0 b2 w2 = Some (0, w3)" "stands ok inp out ({}, ls) z w3"
    using write_unopened_passes[OF _ _ 2(3,2), of 2 6] by auto
  show ?thesis using verdict_pass[OF 3(2), of "''err_unopened''"] 1(1) 2(1) 3(1) by (auto simp: err_unopened_def)
qed

lemma err_vidmap_passes:
  assumes "stands ok inp out q z w"
  shows "\<exists>w'. err_vidmap S w = Some (0, w') \<and> stands ok inp out q (emit (lit ''err_vidmap: PASS\<newline>'') z) w'"
proof -
  obtain w1 where 1: "s_vidmap S 0 w = Some (-1, w1)" "stands ok inp out q z w1"
    using vidmap_refused[OF assms, of 0] by blast
  obtain w2 where 2: "s_vidmap S 0x400000 w1 = Some (-1, w2)" "stands ok inp out q z w2"
    using vidmap_refused[OF 1(2), of "0x400000"] by blast
  show ?thesis using verdict_pass[OF 2(2), of "''err_vidmap''"] 1(1) 2(1) by (auto simp: err_vidmap_def)
qed

lemma err_stdin_out_passes:
  assumes "stands ok inp out (s, ls) z w" and "length b = 32"
  shows "\<exists>w'. err_stdin_out S b w = Some (0, w') \<and> stands ok inp out (s, ls) (emit (lit ''err_stdin_out: PASS\<newline>'') z) w'"
proof -
  obtain w1 where 1: "s_write S 0 b 31 w = Some (-1, w1)" "stands ok inp out (s, ls) z w1"
    using write_refused[OF assms(1), of 0 b] assms(2) by blast
  obtain b2 w2 where 2: "s_read S 1 b 31 w1 = Some (-1, b2, w2)" "stands ok inp out (s, ls) z w2"
    using read_refused[OF 1(2), of 1 b] assms(2) by blast
  show ?thesis using verdict_pass[OF 2(2), of "''err_stdin_out''"] 1(1) 2(1) by (auto simp: err_stdin_out_def)
qed

lemma err_syscall_num_passes:
  assumes "stands ok inp out q z w"
  shows "\<exists>w'. err_syscall_num S w = Some (0, w') \<and> stands ok inp out q (emit (lit ''err_syscall_num: PASS\<newline>'') z) w'"
proof -
  obtain w1 where 1: "s_call S BIG_NUM w = Some (-1, w1)" "stands ok inp out q z w1"
    using number_refused[OF assms, of BIG_NUM] by auto
  obtain w2 where 2: "s_call S NEG_NUM w1 = Some (-1, w2)" "stands ok inp out q z w2"
    using number_refused[OF 1(2), of NEG_NUM] by auto
  obtain w3 where 3: "s_call S 0 w2 = Some (-1, w3)" "stands ok inp out q z w3"
    using number_refused[OF 2(2), of 0] by auto
  show ?thesis using verdict_pass[OF 3(2), of "''err_syscall_num''"] 1(1) 2(1) 3(1)
    by (auto simp: err_syscall_num_def call_sys_def)
qed

lemma err_all_passes:
  assumes "stands ok inp out ({}, ls) z w" and "length b = 32"
  shows "\<exists>w'. err_all S b w = Some (0, w') \<and> stands ok inp out ({}, ls) (emit all_passed z) w'"
proof -
  obtain w1 where 1: "err_neg_fd S b w = Some (0, w1)" "stands ok inp out ({}, ls) (emit (lit (''err_neg_fd'' @ '': PASS\<newline>'')) z) w1"
    using err_fd_passes[OF assms(1) _ assms(2), of NEG_FD "''err_neg_fd''"] by (auto simp: err_neg_fd_def out_of_range_def)
  obtain w2 where 2: "err_big_fd S b w1 = Some (0, w2)"
    "stands ok inp out ({}, ls) (emit (lit (''err_big_fd'' @ '': PASS\<newline>'')) (emit (lit (''err_neg_fd'' @ '': PASS\<newline>'')) z)) w2"
    using err_fd_passes[OF 1(2) _ assms(2), of BIG_FD "''err_big_fd''"] by (auto simp: err_big_fd_def out_of_range_def)
  from err_open_lots_passes[OF 2(2)] obtain w3 z3 where 3: "err_open_lots S w2 = Some (0, w3)" "stands ok inp out ({}, ls) z3 w3"
    "z3 = emit (lit ''err_open_lots: PASS\<newline>'') (emit (lit (''err_big_fd'' @ '': PASS\<newline>'')) (emit (lit (''err_neg_fd'' @ '': PASS\<newline>'')) z))" by blast
  obtain w4 where 4: "err_open S w3 = Some (0, w4)" "stands ok inp out ({}, ls) (emit (lit ''err_open: PASS\<newline>'') z3) w4"
    using err_open_passes[OF 3(2)] by blast
  obtain w5 where 5: "err_unopened S b w4 = Some (0, w5)"
    "stands ok inp out ({}, ls) (emit (lit ''err_unopened: PASS\<newline>'') (emit (lit ''err_open: PASS\<newline>'') z3)) w5"
    using err_unopened_passes[OF 4(2) assms(2)] by blast
  from err_vidmap_passes[OF 5(2)] obtain w6 z6 where 6: "err_vidmap S w5 = Some (0, w6)" "stands ok inp out ({}, ls) z6 w6"
    "z6 = emit (lit ''err_vidmap: PASS\<newline>'') (emit (lit ''err_unopened: PASS\<newline>'') (emit (lit ''err_open: PASS\<newline>'') z3))" by blast
  obtain w7 where 7: "err_stdin_out S b w6 = Some (0, w7)" "stands ok inp out ({}, ls) (emit (lit ''err_stdin_out: PASS\<newline>'') z6) w7"
    using err_stdin_out_passes[OF 6(2) assms(2)] by blast
  obtain w8 where 8: "err_syscall_num S w7 = Some (0, w8)"
    "stands ok inp out ({}, ls) (emit (lit ''err_syscall_num: PASS\<newline>'') (emit (lit ''err_stdin_out: PASS\<newline>'') z6)) w8"
    using err_syscall_num_passes[OF 7(2)] by blast
  obtain w9 where 9: "ece391_fdputs S 1 (str ''\<newline>Overall Tests: PASS\<newline>'') w8 = Some w9" "stands ok inp out ({}, ls) (emit all_passed z) w9"
    using puts_stands[OF 8(2), of "''\<newline>Overall Tests: PASS\<newline>''"]
    by (auto simp: 6(3) 3(3) all_passed_def simp flip: emit_append)
  then show ?thesis using 1(1) 2(1) 3(1) 4(1) 5(1) 6(1) 7(1) 8(1) by (simp add: err_all_def)
qed

text \<open>The answer 0 runs all tests.\<close>

lemma main_passes:
  assumes "stands ok inp out ({}, [48, 10] # ls) z w" and "length b = 32" and "length buf = 128"
  shows "\<exists>w'. syserr_main S b buf w = Some (0, w') \<and>
    stands ok inp out ({}, ls) (emit (lit ''Choose from tests 1-8. 0 to run all: '' @ all_passed) z) w'"
proof -
  let ?q = "''Choose from tests 1-8. 0 to run all: ''"
  obtain w1 where 1: "ece391_fdputs S 1 (str ?q) w = Some w1" "stands ok inp out ({}, [48, 10] # ls) (emit (lit ?q) z) w1"
    using puts_stands[OF assms(1), of ?q] by auto
  obtain w2 where 2: "s_read S 0 buf 127 w1 = Some (2, [48, 10] @ drop 2 buf, w2)" "stands ok inp out ({}, ls) (emit (lit ?q) z) w2"
    using read_choice[OF 1(2) assms(3)] by blast
  show ?thesis using err_all_passes[OF 2(2) assms(2)] 1(1) 2(1) by (auto simp: syserr_main_def emit_append)
qed

end

section \<open>The tests on the kernel\<close>

text \<open>The directory as the tests expect it: \<open>.\<close> is there, the misspelt names are not.\<close>

definition err_dir :: "filesys \<Rightarrow> mem \<Rightarrow> bool" where
  "err_dir fs m \<longleftrightarrow> (\<exists>ix. find_dentry fs m (lit ''.'') = Some ix) \<and>
     (\<forall>nm \<in> {''helloo'', ''shel'', ''''}. find_dentry fs m (lit nm) = None)"

definition testing :: "layout \<Rightarrow> u32 \<Rightarrow> kernel \<Rightarrow> bool" where
  "testing ly ubuf k \<longleftrightarrow> typing ly ubuf k \<and> fs_placed k \<and> err_dir (k_fs k) (kview k)"

definition fds_lines :: "kernel \<Rightarrow> nat set \<times> cstring list" where
  "fds_lines k = ({i. 2 \<le> i \<and> i < MAX_FD \<and> used_fd (cur k) i}, typed k)"

abbreviation tested :: "layout \<Rightarrow> u32 \<Rightarrow> nat set \<times> cstring list \<Rightarrow> u8 \<times> screen \<Rightarrow> kernel \<Rightarrow> bool" where
  "tested ly ubuf \<equiv> stands (testing ly ubuf) fds_lines shown"

lemma tested_calm:
  assumes "tested ly ubuf q z k" and "calm ly k k'" and "ready ly ubuf k'" and "shown k' = z'"
  shows "tested ly ubuf q z' k'"
proof -
  have k: "testing ly ubuf k" "fds_lines k = q" "shown k = z" using assms(1) by (auto simp: stands_def)
  have pl: "fs_placed k" using k(1) by (simp add: testing_def)
  note a = calm_fs[OF pl assms(2)]
  have sel: "processes k' = processes k" "CPID k' = CPID k" "k_kbd k' = k_kbd k" "k_fs k' = k_fs k" using assms(2) by (auto simp: calm_def)
  have "err_dir (k_fs k) (kview k')" using k(1) find_dentry_agree[OF a(1)] by (simp add: testing_def err_dir_def)
  then have "testing ly ubuf k'" using k(1) a(2) assms(3) by (simp add: testing_def typing_def sel)
  moreover have "fds_lines k' = q" using k(2) by (simp add: fds_lines_def typed_def sel)
  ultimately show ?thesis using assms(4) by (simp add: stands_def)
qed

lemma tested_ready: "tested ly ubuf q z k \<Longrightarrow> ready ly ubuf k \<and> shown k = z \<and> fs_placed k"
  by (simp add: stands_def testing_def typing_def)

lemma tested_store:
  assumes "tested ly ubuf q z k" and "length bs \<le> 1025"
  shows "tested ly ubuf q z (user_store ubuf bs k)"
  using assms tested_ready[OF assms(1)] user_store_ready[of ly ubuf k bs] by (intro tested_calm[OF assms(1)]) auto

lemma tested_write:
  assumes "testing ly ubuf k" and "length buf \<le> 1025" and "n \<le> length buf"
  shows "\<exists>k'. s_write (ksys ly t esp ebp ubuf child) 1 buf (of_nat n) k = Some (of_nat n, k') \<and> testing ly ubuf k' \<and>
    fds_lines k' = fds_lines k \<and> shown k' = emit_screen (take n buf) (shown k)"
proof -
  have k: "tested ly ubuf (fds_lines k) (shown k) k" using assms(1) by (simp add: stands_def)
  obtain k' where "s_write (ksys ly t esp ebp ubuf child) 1 buf (of_nat n) k = Some (of_nat n, k')" "ready ly ubuf k'" "calm ly k k'"
    "shown k' = emit_screen (take n buf) (shown k)"
    using write_screen[OF _ assms(2,3)] tested_ready[OF k] by blast
  then show ?thesis using tested_calm[OF k] by (auto simp: stands_def)
qed

text \<open>A descriptor that is out of range or free.\<close>

lemma fd_refused:
  assumes "tested ly ubuf (s, ls) z k" and "out_of_range fd \<or> (\<exists>i. 2 \<le> i \<and> i < 8 \<and> i \<notin> s \<and> fd = of_nat i)"
  shows "sint fd < 0 \<or> int MAX_FD \<le> sint fd \<or> \<not> used_fd (cur k) (nat (sint fd))"
  using assms(2)
proof
  assume "\<exists>i. 2 \<le> i \<and> i < 8 \<and> i \<notin> s \<and> fd = of_nat i"
  then obtain i where "2 \<le> i" "i < 8" "i \<notin> s" "fd = of_nat i" by blast
  then show ?thesis using assms(1) by (auto simp: stands_def fds_lines_def sint_fd)
qed (auto simp: out_of_range_def)

lemma std_of: "tested ly ubuf q z k \<Longrightarrow> std_ok (cur k)"
  using tested_ready[of ly ubuf q z k] by (simp add: ready_def)

lemma read_refusal:
  assumes "tested ly ubuf (s, ls) z k" and "out_of_range fd \<or> fd = 1 \<or> (\<exists>i. 2 \<le> i \<and> i < 8 \<and> i \<notin> s \<and> fd = of_nat i)" and "length buf = 32"
  shows "\<exists>buf' k'. s_read (ksys ly t esp ebp ubuf child) fd buf 31 k = Some (-1, buf', k') \<and> length buf' = 32 \<and> tested ly ubuf (s, ls) z k'"
proof -
  define k1 where "k1 = user_store ubuf buf k"
  have k1: "tested ly ubuf (s, ls) z k1" using tested_store[OF assms(1), of buf] assms(3) by (simp add: k1_def)
  have "sys_read t fd ubuf 31 k1 = Some (k1, -1)"
    using fd_refused[OF k1, of fd] assms(2) std_of[OF k1] by (auto simp: sys_read_def jt_read_def std_ok_def no_read_def)
  then show ?thesis using k1 assms(3) by (simp add: ksys_calls k1_def[symmetric] user_load_def)
qed

lemma write_refusal:
  assumes "tested ly ubuf (s, ls) z k" and "out_of_range fd \<or> fd = 0 \<or> (\<exists>i. 2 \<le> i \<and> i < 8 \<and> i \<notin> s \<and> fd = of_nat i)" and "length buf = 32"
  shows "\<exists>k'. s_write (ksys ly t esp ebp ubuf child) fd buf 31 k = Some (-1, k') \<and> tested ly ubuf (s, ls) z k'"
proof -
  define k1 where "k1 = user_store ubuf buf k"
  have k1: "tested ly ubuf (s, ls) z k1" using tested_store[OF assms(1), of buf] assms(3) by (simp add: k1_def)
  have "sys_write fd ubuf 31 k1 = (k1, -1)"
    using fd_refused[OF k1, of fd] assms(2) std_of[OF k1] by (auto simp: sys_write_def jt_write_def std_ok_def no_write_def)
  then show ?thesis using k1 by (simp add: ksys_calls k1_def[symmetric])
qed

lemma close_refusal:
  assumes "tested ly ubuf (s, ls) z k" and "out_of_range fd \<or> (\<exists>i < 8. i \<notin> s \<and> fd = of_nat i)"
  shows "\<exists>k'. s_close (ksys ly t esp ebp ubuf child) fd k = Some (-1, k') \<and> tested ly ubuf (s, ls) z k'"
proof -
  have "sint fd < 2 \<or> 8 \<le> sint fd \<or> \<not> used_fd (cur k) (nat (sint fd))"
    using assms(2)
  proof
    assume "\<exists>i < 8. i \<notin> s \<and> fd = of_nat i"
    then obtain i where "i < 8" "i \<notin> s" "fd = of_nat i" by blast
    then show ?thesis using assms(1) by (cases "2 \<le> i") (auto simp: stands_def fds_lines_def sint_fd)
  qed (auto simp: out_of_range_def)
  then show ?thesis using assms(1) close_fail by (simp add: ksys_calls)
qed

text \<open>Opening and closing change one descriptor of the process and perhaps the directory position.\<close>

lemma find_dentry_dirs: "find_dentry (fs\<lparr> dirs_read := x \<rparr>) m key = find_dentry fs m key"
  by (simp add: find_dentry_def)

lemma tested_fd:
  assumes "tested ly ubuf (s, ls) z k" and "2 \<le> i" and "i < 8"
    and "processes k' = (processes k)(CPID k := upd_fd i (\<lambda>_. f) (cur k))" and "jumptable f \<in> {Fs_jumptable, Rtc_jumptable}"
    and "CPID k' = CPID k" and "k_mem k' = k_mem k" and "k_mmu k' = k_mmu k" and "k_con k' = k_con k" and "k_kbd k' = k_kbd k"
    and "k_fs k' = (k_fs k)\<lparr> dirs_read := x \<rparr>"
  shows "tested ly ubuf (if in_use (flags f) then insert i s else s - {i}, ls) z k'"
proof -
  have k: "testing ly ubuf k" "fds_lines k = (s, ls)" "shown k = z" using assms(1) by (auto simp: stands_def)
  have cur': "cur k' = upd_fd i (\<lambda>_. f) (cur k)" by (simp add: assms(4,6))
  have "std_ok (cur k')" using std_of[OF assms(1)] assms(2,3,5) unfolding cur' by (auto simp: std_ok_def)
  then have r: "ready ly ubuf k'" using k(1) by (simp add: testing_def typing_def ready_def in_space_def assms(6-9))
  have "wf_fs ((k_fs k)\<lparr> dirs_read := x \<rparr>) m = wf_fs (k_fs k) m" for m by (simp add: wf_fs_def)
  then have "testing ly ubuf k'" using k(1) r unfolding testing_def typing_def fs_placed_def err_dir_def cur'
    by (simp add: assms(7,8,10,11) find_dentry_dirs)
  moreover have "fds_lines k' = (if in_use (flags f) then insert i s else s - {i}, ls)"
    using k(2) assms(2,3) unfolding fds_lines_def typed_def cur' by (auto simp: assms(10))
  ultimately show ?thesis using k(3) by (simp add: stands_def shown_def assms(7-9))
qed

lemma close_opened:
  assumes "tested ly ubuf (s, ls) z k" and "i \<in> s"
  shows "\<exists>r k'. s_close (ksys ly t esp ebp ubuf child) (of_nat i) k = Some (r, k') \<and> tested ly ubuf (s - {i}, ls) z k'"
proof -
  have i: "2 \<le> i" "i < 8" "used_fd (cur k) i" using assms by (auto simp: stands_def fds_lines_def)
  let ?f = "set_in_use False (fd_array (cur k) i)"
  obtain k' r where c: "sys_close (of_nat i) k = (k', r)" by (cases "sys_close (of_nat i) k")
  have jt: "jumptable (fd_array (cur k) i) \<in> {Fs_jumptable, Rtc_jumptable}" using std_of[OF assms(1)] i by (simp add: std_ok_def)
  have p: "processes k' = (processes k)(CPID k := upd_fd i (\<lambda>_. ?f) (cur k))" "CPID k' = CPID k" "k_mem k' = k_mem k" "k_mmu k' = k_mmu k"
    "k_con k' = k_con k" "k_kbd k' = k_kbd k"
    using c jt close_spec[OF i(1), of k] i(2,3) by (auto simp: Let_def set_in_use_def upd_fd_def split: if_splits)
  have "k_fs k' = k_fs k \<or> k_fs k' = (k_fs k)\<lparr> dirs_read := 0 \<rparr>"
    using c jt close_spec[OF i(1), of k] i(2,3) by (auto simp: Let_def set_in_use_def split: if_splits)
  moreover have "(k_fs k)\<lparr> dirs_read := dirs_read (k_fs k) \<rparr> = k_fs k" by simp
  ultimately obtain x where "k_fs k' = (k_fs k)\<lparr> dirs_read := x \<rparr>" by metis
  then have "tested ly ubuf (s - {i}, ls) z k'"
    using tested_fd[OF assms(1) i(1,2) p(1) _ p(2-6)] jt by (simp add: set_in_use_def)
  then show ?thesis by (simp add: ksys_calls c)
qed

lemma free_after:
  assumes "tested ly ubuf ({2..<2 + n}, ls) z k"
  shows "n < 6 \<Longrightarrow> lowest_free (cur k) = Some (2 + n)" and "n = 6 \<Longrightarrow> lowest_free (cur k) = None"
proof -
  have s: "{i. 2 \<le> i \<and> i < 8 \<and> used_fd (cur k) i} = {2..<2 + n}" using assms by (simp add: stands_def fds_lines_def)
  have u: "used_fd (cur k) i \<longleftrightarrow> i < 2 + n" if "i < 8" for i
  proof (cases "2 \<le> i")
    case True
    then show ?thesis using s that by (auto simp: set_eq_iff)
  next
    case False
    then have "i = 0 \<or> i = 1" by auto
    then show ?thesis using std_of[OF assms] by (auto simp: std_ok_def)
  qed
  show "lowest_free (cur k) = Some (2 + n)" if "n < 6" using u that by (simp add: lowest_free_Some)
  show "lowest_free (cur k) = None" if "n = 6" using u that by (simp add: lowest_free_def find_None_iff)
qed

lemma open_dot:
  assumes "tested ly ubuf ({2..<2 + n}, ls) z k"
  shows "n < 6 \<Longrightarrow> \<exists>r k'. s_open (ksys ly t esp ebp ubuf child) (str ''.'') k = Some (r, k') \<and> r \<noteq> -1 \<and> tested ly ubuf ({2..<3 + n}, ls) z k'"
    and "n = 6 \<Longrightarrow> \<exists>k'. s_open (ksys ly t esp ebp ubuf child) (str ''.'') k = Some (-1, k') \<and> tested ly ubuf ({2..<2 + n}, ls) z k'"
proof -
  have r: "ready ly ubuf k" "fs_placed k" "shown k = z" using tested_ready[OF assms] by auto
  obtain ix where ix: "find_dentry (k_fs k) (kview k) (lit ''.'') = Some ix" using assms by (auto simp: stands_def testing_def err_dir_def)
  let ?d = "dentries (k_fs k) (kview k) ix"
  have dot: "take 33 (lit ''.'') = lit ''.''" "holds (str ''.'') (lit ''.'')" "length (str ''.'') \<le> 1025"
    using holds_str[of "''.''"] by (simp_all add: lit_def str_def)
  obtain k1 where k1: "ready ly ubuf k1" "calm ly k k1" "shown k1 = shown k"
    "s_open (ksys ly t esp ebp ubuf child) (str ''.'') k = (case lowest_free (cur k) of None \<Rightarrow> Some (-1, k1)
      | Some i \<Rightarrow> Some (of_nat i, opened i ?d k1))"
    using open_ready[OF r(1,2) dot(2,3), where t = t and esp = esp and ebp = ebp and child = child] ix by (auto simp: dot(1))
  have t1: "tested ly ubuf ({2..<2 + n}, ls) z k1" using tested_calm[OF assms k1(2,1)] k1(3) r(3) by simp
  show "\<exists>r k'. s_open (ksys ly t esp ebp ubuf child) (str ''.'') k = Some (r, k') \<and> r \<noteq> -1 \<and> tested ly ubuf ({2..<3 + n}, ls) z k'" if n: "n < 6"
  proof -
    have "tested ly ubuf (if in_use (flags (new_file ?d)) then insert (2 + n) {2..<2 + n} else {2..<2 + n} - {2 + n}, ls) z (opened (2 + n) ?d k1)"
      using n by (intro tested_fd[OF t1, where f = "new_file ?d" and x = "dirs_read (k_fs k1)"]) (simp_all add: opened_def new_file_def)
    moreover have "insert (2 + n) {2..<2 + n} = {2..<3 + n}" by auto
    ultimately have "tested ly ubuf ({2..<3 + n}, ls) z (opened (2 + n) ?d k1)" by (simp add: new_file_def)
    then show ?thesis using k1(4) free_after(1)[OF assms n] count_word(3)[of "2 + n"] n by simp
  qed
  show "\<exists>k'. s_open (ksys ly t esp ebp ubuf child) (str ''.'') k = Some (-1, k') \<and> tested ly ubuf ({2..<2 + n}, ls) z k'" if n: "n = 6"
    using k1(4) free_after(2)[OF assms n] t1 by simp
qed

lemma open_misspelt:
  assumes "tested ly ubuf q z k" and "nm \<in> {''helloo'', ''shel'', ''''}"
  shows "\<exists>k'. s_open (ksys ly t esp ebp ubuf child) (str nm) k = Some (-1, k') \<and> tested ly ubuf q z k'"
proof -
  have r: "ready ly ubuf k" "fs_placed k" "shown k = z" using tested_ready[OF assms(1)] by auto
  have none: "find_dentry (k_fs k) (kview k) (lit nm) = None" using assms by (auto simp: stands_def testing_def err_dir_def)
  have nm: "holds (str nm) (lit nm)" "take 33 (lit nm) = lit nm" "length (str nm) \<le> 1025"
    using assms(2) holds_str[of nm] by (auto simp: lit_def str_def)
  obtain k1 where "ready ly ubuf k1" "calm ly k k1" "shown k1 = shown k" "s_open (ksys ly t esp ebp ubuf child) (str nm) k = Some (-1, k1)"
    using open_ready[OF r(1,2) nm(1,3), where t = t and esp = esp and ebp = ebp and child = child] none by (auto simp: nm(2))
  then show ?thesis using tested_calm[OF assms(1)] r(3) by auto
qed

lemma read_answer:
  assumes "tested ly ubuf (s, [c, 10] # ls) z k" and "length buf = 128"
  shows "\<exists>k'. s_read (ksys ly t esp ebp ubuf child) 0 buf 127 k = Some (2, [c, 10] @ drop 2 buf, k') \<and> tested ly ubuf (s, ls) z k'"
proof -
  have k: "testing ly ubuf k" "{i. 2 \<le> i \<and> i < MAX_FD \<and> used_fd (cur k) i} = s" "typed k = [c, 10] # ls" "shown k = z"
    using assms(1) by (auto simp: stands_def fds_lines_def)
  have ty: "typing ly ubuf k" and pl: "fs_placed k" and ed: "err_dir (k_fs k) (kview k)" using k(1) by (simp_all add: testing_def)
  obtain k' where k': "s_read (ksys ly t esp ebp ubuf child) 0 buf 127 k = Some (2, [c, 10] @ drop 2 buf, k')" "typing ly ubuf k'"
    "shown k' = shown k" "typed k' = ls" "cur k' = cur k" "k_fs k' = k_fs k" "\<forall>a. kernel_page a \<longrightarrow> kview k' a = kview k a"
    using read_typed[OF ty k(3), of buf 127 t esp ebp child] assms(2) by (auto simp: numeral_2_eq_2)
  have a: "fs_agree (k_fs k) (kview k) (kview k')" using pl k'(7) by (simp add: fs_agree_def fs_placed_def)
  have "fs_placed k'" using pl fs_addr_agree[OF a] wf_fs_agree[OF a] by (simp add: fs_placed_def k'(6))
  moreover have "err_dir (k_fs k') (kview k')" using ed find_dentry_agree[OF a] by (simp add: err_dir_def k'(6))
  ultimately show ?thesis using k'(1-5) k(2,4) by (simp add: stands_def testing_def fds_lines_def)
qed

lemma open_dot_full:
  "tested ly ubuf ({2..<8}, ls) z k \<Longrightarrow>
    \<exists>k'. s_open (ksys ly t esp ebp ubuf child) (str ''.'') k = Some (-1, k') \<and> tested ly ubuf ({2..<8}, ls) z k'"
  using open_dot(2)[of ly ubuf 6 ls z k t esp ebp child] by simp

lemma vidmap_refusal:
  "p \<in> {0, 0x400000} \<Longrightarrow> s_vidmap (ksys ly t esp ebp ubuf child) p k = Some (-1, k)"
  by (auto simp: vidmap_def ksys_calls)

interpretation ktest: refusals "ksys ly t esp ebp ubuf child" "testing ly ubuf" shown emit_screen fds_lines
  for ly t esp ebp ubuf child
  by unfold_locales (simp add: emit_screen_def, simp add: emit_screen_def, use tested_write in blast, use read_refusal in blast,
      use write_refusal in blast, use close_refusal in blast, use close_opened in blast, use open_dot(1) in blast,
      use open_dot_full in blast, use open_misspelt in blast, use vidmap_refusal in blast, use ksys_calls(9) in blast,
      use read_answer in blast)

end
