(* ===== verification/Runs.thy ===== *)
theory Runs
  imports Syserr
begin

text \<open>
  User programs running on the kernel, end to end: what cat, ls, the shell, counter, pingpong
  and syserr print and return, from the kernel state they are started in.  Each theorem puts
  together the program's translation, the system call gate, the file system, paging and the
  console.  A concrete kernel state at the end runs them all.
\<close>

section \<open>A concrete kernel state\<close>

text \<open>An image with the entries \<open>.\<close>, \<open>a\<close> (the file of the earlier image) and \<open>rtc\<close>; process 1
  runs with the argument \<open>a\<close>, descriptors 0 and 1 only, and the line \<open>0\<close> typed.\<close>

definition demo_img :: mem where
  "demo_img = demo_mem(0x1000 := 3, 0x1040 := 46, 0x1060 := 1, 0x1080 := 97, 0x10A0 := 2,
     0x10C0 := 114, 0x10C1 := 116, 0x10C2 := 99)"

text \<open>An image in memory beside the page directory of process 1.\<close>

definition demo_at :: "mem \<Rightarrow> mem" where
  "demo_at img a = (if pt_addr demo_syms a then fst demo_1 a else img a)"

lemma demo_at_space: "space demo_syms (demo_at img) (snd demo_1) 1"
proof -
  have "user_dir demo_syms (demo_at img) 1"
    by (rule user_dir_pt_cong[OF _ demo_syms_ok _ demo_dirs(1)]) (simp_all add: demo_at_def)
  then show ?thesis using demo_syms_ok demo_regs by (simp add: space_def)
qed

lemma demo_at_fs:
  assumes "n_inodes demo_fs img = 1" and "n_datablocks demo_fs img = 1"
  shows "fs_addr demo_fs img a \<Longrightarrow> kernel_page a \<and> \<not> pt_addr demo_syms a \<and> \<not> on_screen a"
    and "fs_agree demo_fs img (vview (demo_at img) (snd demo_1))"
proof -
  show r: "kernel_page a \<and> \<not> pt_addr demo_syms a \<and> \<not> on_screen a" if "fs_addr demo_fs img a" for a
  proof -
    have "unat (a - 0x1000) < 4096 \<or> unat (a - 0x401000) < 8192"
      using that by (simp add: fs_addr_def assms) (simp add: demo_fs_def)
    then show ?thesis
      by (auto simp: kernel_page_def pt_addr_def on_screen_def demo_syms_def word_le_nat_alt word_less_nat_alt unat_sub_if_size word_size split: if_splits)
  qed
  then show "fs_agree demo_fs img (vview (demo_at img) (snd demo_1))"
    using vview_kernel[OF demo_at_space] by (simp add: fs_agree_def demo_at_def)
qed

lemma demo_at_state:
  assumes "CPID k = 1" and "k_fs k = demo_fs" and "k_mem k = demo_at img" and "k_mmu k = snd demo_1" and "k_con k = demo_con" and "std_ok (cur k)"
    and "n_inodes demo_fs img = 1" and "n_datablocks demo_fs img = 1" and "wf_fs demo_fs img"
  shows "ready demo_ly 0x08100000 k" and "fs_agree demo_fs img (kview k)" and "fs_placed k"
    and "fs_addr demo_fs (kview k) a \<Longrightarrow> \<not> pt_addr demo_syms a"
proof -
  have "user_buf 0x08100000 1025"
    by (auto simp: user_buf_def user_page_def word_le_nat_alt word_less_nat_alt unat_word_ariths unat_of_nat_32)
  then show "ready demo_ly 0x08100000 k"
    using assms(1,3-6) demo_at_space demo_con_ok by (simp add: ready_def in_space_def demo_ly_def)
  show ag: "fs_agree demo_fs img (kview k)" using demo_at_fs(2)[OF assms(7,8)] by (simp add: assms(3,4))
  show "fs_placed k" using demo_at_fs(1)[OF assms(7,8)] fs_addr_agree[OF ag] wf_fs_agree[OF ag] assms(2,9) by (simp add: fs_placed_def)
  show "\<not> pt_addr demo_syms a" if "fs_addr demo_fs (kview k) a" using demo_at_fs(1)[OF assms(7,8)] that fs_addr_agree[OF ag] by blast
qed

definition demo_umem :: mem where
  "demo_umem = demo_at demo_img"

definition demo_upcb :: pcb_t where
  "demo_upcb = demo_pcb\<lparr> fd_array := (fd_array demo_pcb)(2 := fd_array demo_pcb 3), args := 97 # replicate 127 0, args_size := 1 \<rparr>"

definition demo_ukbd :: keyboard where
  "demo_ukbd = demo_kbd\<lparr> terms := (\<lambda>_. \<lparr> kbd_is_read = True, kbuf = [48, 10] @ replicate 126 0, buf_pos = 1, t_pos = (0, 0) \<rparr>) \<rparr>"

definition demo_u :: kernel where
  "demo_u = demo_k\<lparr> processes := (\<lambda>i. demo_upcb\<lparr> running := i < 2, PID := i \<rparr>), k_mem := demo_umem, k_kbd := demo_ukbd \<rparr>"

lemma demo_u_sel:
  "CPID demo_u = 1" "k_fs demo_u = demo_fs" "k_mem demo_u = demo_umem" "k_mmu demo_u = snd demo_1" "k_con demo_u = demo_con"
  "k_kbd demo_u = demo_ukbd" "processes demo_u 1 = demo_upcb" "processes demo_u (Suc 0) = demo_upcb"
  by (simp_all add: demo_u_def demo_k_def demo_upcb_def demo_pcb_def)

lemma demo_img_header:
  "n_dentries demo_fs demo_img = 3" "n_inodes demo_fs demo_img = 1" "n_datablocks demo_fs demo_img = 1"
  "inode_length demo_fs demo_img 0 = 3" "datablocks demo_fs demo_img 0 0 = 0"
  by (simp_all add: n_dentries_def n_inodes_def n_datablocks_def inode_length_def datablocks_def
      demo_fs_def demo_img_def demo_mem_def rd32_def le32_def)

lemma demo_img_ok:
  "wf_fs demo_fs demo_img" "file_ok demo_fs demo_img 0" "data_valid demo_fs demo_img 0" "file_bytes demo_fs demo_img 0 = [72, 105, 10]"
proof -
  have l: "file_len demo_fs demo_img 0 = 3" by (simp add: file_len_def demo_img_header)
  show "wf_fs demo_fs demo_img" by (simp add: wf_fs_def demo_img_header) (simp add: demo_fs_def)
  show "file_ok demo_fs demo_img 0" by (simp add: file_ok_def l demo_img_header)
  have "file_block demo_fs demo_img 0 j = 0" if "j * 4096 < 3" for j
    using that by (cases j) (simp_all add: file_block_def demo_img_header)
  then show "data_valid demo_fs demo_img 0" by (simp add: data_valid_def blocks_ok_def l demo_img_header)
  show "file_bytes demo_fs demo_img 0 = [72, 105, 10]"
    by (simp add: file_bytes_def l file_byte_def file_block_def demo_img_header upt_rec arr_def) (simp add: demo_fs_def demo_img_def demo_mem_def)
qed

lemma demo_u_ok: "ready demo_ly 0x08100000 demo_u" "fs_agree demo_fs demo_img (kview demo_u)" "fs_placed demo_u"
proof -
  have "std_ok demo_upcb" by (auto simp: std_ok_def demo_upcb_def demo_pcb_def demo_file_def)
  then have s: "std_ok (cur demo_u)" by (simp add: demo_u_sel)
  note d = demo_at_state[OF demo_u_sel(1,2) demo_u_sel(3)[unfolded demo_umem_def] demo_u_sel(4,5) s demo_img_header(2,3) demo_img_ok(1)]
  show "ready demo_ly 0x08100000 demo_u" "fs_agree demo_fs demo_img (kview demo_u)" "fs_placed demo_u" by (rule d)+
qed

lemmas demo_u_ready = demo_u_ok(1) and demo_u_agree = demo_u_ok(2) and demo_u_placed = demo_u_ok(3)

lemma demo_img_chars:
  "arr demo_img (dentry_addr demo_fs 0) 0 = 46" "arr demo_img (dentry_addr demo_fs 0) (Suc 0) = 0"
  "arr demo_img (dentry_addr demo_fs 1) 0 = 97" "arr demo_img (dentry_addr demo_fs 1) (Suc 0) = 0"
  "arr demo_img (dentry_addr demo_fs 2) 0 = 114" "arr demo_img (dentry_addr demo_fs 2) (Suc 0) = 116"
  "arr demo_img (dentry_addr demo_fs 2) (Suc (Suc 0)) = 99" "arr demo_img (dentry_addr demo_fs 2) (Suc (Suc (Suc 0))) = 0"
  by (simp_all add: arr_def dentry_addr_def demo_fs_def demo_img_def demo_mem_def)

lemma demo_img_key:
  "before_NUL (Suc (Suc (Suc (Suc n)))) (arr demo_img (dentry_addr demo_fs 0)) = [46]"
  "before_NUL (Suc (Suc (Suc (Suc n)))) (arr demo_img (dentry_addr demo_fs 1)) = [97]"
  "before_NUL (Suc (Suc (Suc (Suc n)))) (arr demo_img (dentry_addr demo_fs 2)) = [114, 116, 99]"
  by (rule before_NUL_eqI; auto simp: demo_img_chars less_Suc_eq simp del: One_nat_def)+

lemma demo_img_names:
  "name_key (arr demo_img (dentry_addr demo_fs 0)) = [46]" "name_key (arr demo_img (dentry_addr demo_fs 1)) = [97]"
  "name_key (arr demo_img (dentry_addr demo_fs 2)) = [114, 116, 99]"
  "dentry_name (dentries demo_fs demo_img 0) = [46]" "dentry_name (dentries demo_fs demo_img 1) = [97]"
  "dentry_name (dentries demo_fs demo_img 2) = [114, 116, 99]"
  using demo_img_key[of 29] demo_img_key[of 28] by (simp_all add: name_key_def dentry_name_key)

lemma demo_img_types:
  "d_type (dentries demo_fs demo_img 0) = 1" "d_type (dentries demo_fs demo_img 1) = 2" "d_type (dentries demo_fs demo_img 2) = 0"
  "d_inode (dentries demo_fs demo_img 1) = 0"
  by (simp_all add: dentries_def dentry_addr_def demo_fs_def demo_img_def demo_mem_def rd32_def le32_def)

lemma less_3_word: "i < (3 :: u32) \<longleftrightarrow> i = 0 \<or> i = 1 \<or> i = 2"
  by (auto simp: word_less_nat_alt word_unat_eq_iff)

lemma demo_u_find:
  "find_dentry demo_fs (kview demo_u) (lit ''.'') = Some 0" "find_dentry demo_fs (kview demo_u) [97] = Some 1"
  "find_dentry demo_fs (kview demo_u) (lit ''rtc'') = Some 2"
  "find_dentry demo_fs (kview demo_u) [48] = None" "err_dir demo_fs (kview demo_u)"
proof -
  note f = find_dentry_agree[OF demo_u_agree] find_dentry_Some find_dentry_None demo_img_header less_3_word demo_img_names
  have l1: "i < (1 :: u32) \<longleftrightarrow> i = 0" "i < (2 :: u32) \<longleftrightarrow> i = 0 \<or> i = 1" for i :: u32
    by (auto simp: word_less_nat_alt word_unat_eq_iff)
  show "find_dentry demo_fs (kview demo_u) (lit ''.'') = Some 0" by (simp add: f lit_def byte_of_def)
  then show "err_dir demo_fs (kview demo_u)" unfolding err_dir_def by (auto simp: f lit_def byte_of_def)
  show "find_dentry demo_fs (kview demo_u) [97] = Some 1" by (simp add: f l1)
  show "find_dentry demo_fs (kview demo_u) (lit ''rtc'') = Some 2" by (auto simp: f l1 lit_def byte_of_def)
  show "find_dentry demo_fs (kview demo_u) [48] = None" by (auto simp: f)
qed

lemma demo_u_dentries:
  "dentries demo_fs (kview demo_u) 0 = dentries demo_fs demo_img 0" "dentries demo_fs (kview demo_u) 1 = dentries demo_fs demo_img 1"
  "dentries demo_fs (kview demo_u) 2 = dentries demo_fs demo_img 2" "n_dentries demo_fs (kview demo_u) = 3"
  using agree_dentries[OF demo_u_agree] agree_header[OF demo_u_agree] by (simp_all add: demo_img_header)

lemma demo_u_free: "lowest_free demo_upcb = Some 2"
  by (simp add: lowest_free_Some demo_upcb_def demo_pcb_def demo_file_def less_Suc_eq numeral_2_eq_2)

lemma demo_u_typing: "typing demo_ly 0x08100000 demo_u" "typed demo_u = [[48, 10]]"
  using demo_u_ready
  by (simp_all add: typing_def typed_def demo_u_sel demo_ukbd_def term_ok_def line_def wf_cstring_def line_complete_def)

section \<open>What the programs do\<close>

text \<open>C8: \<open>cat\<close> with the name of a regular file as its argument prints exactly the bytes of
  that file on the terminal's screen and returns 0, whatever its array held before: the name
  goes through \<open>getargs\<close>, \<open>open\<close> and the directory search, the contents through reads of 1024
  bytes into the process's memory and writes to the screen, until the end of the file.\<close>

theorem cat_prints_file:
  assumes "ready ly ubuf k" and "fs_placed k" and "has_args name k" and "length buf = 1024"
    and "find_dentry (k_fs k) (kview k) (take 33 name) = Some ix" and "lowest_free (cur k) = Some i"
    and "d = dentries (k_fs k) (kview k) ix" and "d_type d = 2"
    and "file_ok (k_fs k) (kview k) (d_inode d)" and "data_valid (k_fs k) (kview k) (d_inode d)"
  shows "\<exists>k'. cat_main (ksys ly t esp ebp ubuf child) buf k = Some (0, k') \<and>
    shown k' = emit_screen (file_bytes (k_fs k) (kview k) (d_inode d)) (shown k)"
  by (rule cat_copies[OF assms])

theorem cat_prints_file_witness:
  "\<exists>k'. cat_main (ksys demo_ly 0 0 0 0x08100000 (\<lambda>_. None)) (replicate 1024 0) demo_u = Some (0, k') \<and>
    shown k' = emit_screen [72, 105, 10] (shown demo_u)"
proof -
  have a: "has_args [97] demo_u" by (simp add: has_args_def demo_u_sel wf_cstring_def) (simp add: demo_upcb_def)
  have f: "file_ok demo_fs (kview demo_u) 0" "data_valid demo_fs (kview demo_u) 0" "file_bytes demo_fs (kview demo_u) 0 = [72, 105, 10]"
    using agree_file_ok[OF demo_u_agree demo_img_ok(1,2)] agree_data_valid[OF demo_u_agree demo_img_ok(1,2)]
      agree_file_bytes[OF demo_u_agree demo_img_ok(1-3)] demo_img_ok(3,4) by simp_all
  show ?thesis
    using cat_prints_file[OF demo_u_ready demo_u_placed a, of "replicate 1024 0" 1 2 "dentries demo_fs demo_img 1" 0 0 0 "\<lambda>_. None"]
      demo_u_find(2) demo_u_dentries(2) demo_u_free demo_img_types(2,4) f by (simp add: demo_u_sel)
qed

text \<open>\<open>cat\<close> with a name no directory entry has prints \<open>file not found\<close> and returns 2.\<close>

theorem cat_missing_file:
  assumes "ready ly ubuf k" and "fs_placed k" and "has_args name k" and "length buf = 1024"
    and "find_dentry (k_fs k) (kview k) (take 33 name) = None"
  shows "\<exists>k'. cat_main (ksys ly t esp ebp ubuf child) buf k = Some (2, k') \<and>
    shown k' = emit_screen (lit ''file not found\<newline>'') (shown k)"
  by (rule cat_not_found[OF assms])

text \<open>C10: \<open>ls\<close> prints the name of every directory entry that has not been read yet, in order,
  each followed by its NUL and a newline, and returns 0.\<close>

theorem ls_lists_directory:
  assumes "ready ly ubuf k" and "fs_placed k" and "root_dir k ix" and "lowest_free (cur k) = Some i" and "length buf = 33"
  shows "\<exists>k'. ls_main (ksys ly t esp ebp ubuf child) buf k = Some (0, k') \<and>
    shown k' = emit_screen (concat (map (\<lambda>d. d @ [10]) (unlisted k))) (shown k)"
  by (rule ls_lists[OF assms])

theorem ls_lists_directory_witness:
  "\<exists>k'. ls_main (ksys demo_ly 0 0 0 0x08100000 (\<lambda>_. None)) (replicate 33 7) demo_u = Some (0, k') \<and>
    shown k' = emit_screen [46, 0, 10, 97, 0, 10, 114, 116, 99, 0, 10] (shown demo_u)"
proof -
  note d = demo_u_find(1)[unfolded demo_u_sel] demo_u_dentries[unfolded demo_u_sel]
  have r: "root_dir demo_u 0"
    by (auto simp: root_dir_def demo_u_sel d demo_img_types less_3_word demo_img_names)
  have "unlisted demo_u = [[46, 0], [97, 0], [114, 116, 99, 0]]"
    by (simp add: unlisted_def demo_u_sel d demo_header upt_rec demo_img_names)
  then show ?thesis
    using ls_lists_directory[OF demo_u_ready demo_u_placed r, of 2 "replicate 33 7" 0 0 0 "\<lambda>_. None"] demo_u_free by (simp add: demo_u_sel)
qed



text \<open>C7: the self-test \<open>syserr\<close>, answered with 0, passes all eight tests on this kernel and
  returns 0: calls on negative, too large and unopened descriptors, the seventh \<open>open\<close>,
  misspelt names, bad pointers to \<open>vidmap\<close>, writing to the keyboard, reading from the
  screen and unknown call numbers all return -1.\<close>

theorem syserr_passes:
  assumes "typing ly ubuf k" and "fs_placed k" and "err_dir (k_fs k) (kview k)" and "\<forall>i. 2 \<le> i \<and> i < MAX_FD \<longrightarrow> \<not> used_fd (cur k) i"
    and "typed k = [48, 10] # ls" and "length b = 32" and "length buf = 128"
  shows "\<exists>k'. syserr_main (ksys ly t esp ebp ubuf child) b buf k = Some (0, k') \<and>
    shown k' = emit_screen (lit ''Choose from tests 1-8. 0 to run all: '' @ all_passed) (shown k)"
proof -
  have "stands (testing ly ubuf) fds_lines shown ({}, [48, 10] # ls) (shown k) k"
    using assms(1-5) by (auto simp: stands_def testing_def fds_lines_def)
  from ktest.main_passes[OF this assms(6,7), of t esp ebp child] show ?thesis by (auto simp: stands_def)
qed

theorem syserr_passes_witness:
  "\<exists>k'. syserr_main (ksys demo_ly 0 0 0 0x08100000 (\<lambda>_. None)) (replicate 32 0) (replicate 128 0) demo_u = Some (0, k')"
proof -
  have "\<forall>i. 2 \<le> i \<and> i < MAX_FD \<longrightarrow> \<not> used_fd (cur demo_u) i" by (auto simp: demo_u_sel demo_upcb_def demo_pcb_def demo_file_def)
  then show ?thesis
    using syserr_passes[OF demo_u_typing(1) demo_u_placed _ _ demo_u_typing(2), of "replicate 32 0" "replicate 128 0" 0 0 0 "\<lambda>_. None"]
      demo_u_find(5) by (auto simp: demo_u_sel)
qed

text \<open>C14: \<open>counter\<close>, answered with 0, 1 or 2, prints the decimal numerals from 1 to 100, 10000
  or 100000, each on its own line, and returns 0.\<close>

theorem counter_prints_numbers:
  assumes "typing ly ubuf k" and "typed k = [c, 10] # ls" and "length buf = 1024" and "c \<in> {48, 49, 50}"
  shows "\<exists>k'. counter_main (ksys ly t esp ebp ubuf child) buf k = Some (0, k') \<and>
    shown k' = emit_screen (lit ''Enter the Test Number: (0): 100, (1): 10000, (2): 100000\<newline>'' @
      concat (map (\<lambda>j. numeral_str 10 j @ [10]) [1..<Suc (if c = 48 then 100 else if c = 49 then 10000 else 100000)])) (shown k)"
proof -
  have n: "unat (counter_max c) = (if c = 48 then 100 else if c = 49 then 10000 else 100000)"
    using assms(4) by (auto simp: counter_max_def byte_of_def)
  show ?thesis using kbd.counter_counts[OF assms, of t esp ebp child] unfolding n by blast
qed

theorem counter_prints_numbers_witness:
  "\<exists>k'. counter_main (ksys demo_ly 0 0 0 0x08100000 (\<lambda>_. None)) (replicate 1024 0) demo_u = Some (0, k')"
  using counter_prints_numbers[OF demo_u_typing, of "replicate 1024 0" 0 0 0 "\<lambda>_. None"] by (auto simp del: upt_Suc)

text \<open>C11: \<open>pingpong\<close> never returns, and for every \<open>n\<close> its first \<open>n\<close> turns complete, each
  within 32 clock interrupts per line: turn \<open>m\<close> shows the letter number \<open>m\<close> (A to Z, then A
  again) moving from column 2 to column 77 and back between the walls.\<close>

theorem pingpong_bounces:
  assumes "ready ly ubuf k" and "fs_placed k" and "find_dentry (k_fs k) (kview k) (lit ''rtc'') = Some ix"
    and "d_type (dentries (k_fs k) (kview k) ix) = 0" and "lowest_free (cur k) = Some i" and "length buf = 81" and "length g = 4"
  shows "pingpong_main (ksys ly 32 esp ebp ubuf child) buf g k = None \<and>
    (\<exists>b k1 st'. pingpong_setup (ksys ly 32 esp ebp ubuf child) buf k = Some (of_nat i, b, k1) \<and>
      pingpong_turns (ksys ly 32 esp ebp ubuf child) (of_nat i) n (65, b, g, k1) = Some ((next_char ^^ n) 65, st') \<and>
      shown (snd (snd st')) = emit_screen (concat (map (\<lambda>m. bounce ((next_char ^^ m) 65)) [0..<n])) (shown k))"
proof -
  obtain b k1 st' where p: "pingpong_setup (ksys ly 32 esp ebp ubuf child) buf k = Some (of_nat i, b, k1) \<and>
      pingpong_turns (ksys ly 32 esp ebp ubuf child) (of_nat i) n (65, b, g, k1) = Some ((next_char ^^ n) 65, st') \<and>
      shown (snd (snd st')) = emit_screen (concat (map (\<lambda>m. bounce ((next_char ^^ m) 65)) [0..<n])) (shown k)"
    using pingpong_runs[OF assms, of esp ebp child n] by blast
  then have "pingpong_main (ksys ly 32 esp ebp ubuf child) buf g k = None" by (simp add: pingpong_main_def pingpong_loop_endless)
  with p show ?thesis by blast
qed

theorem pingpong_bounces_witness:
  "pingpong_main (ksys demo_ly 32 0 0 0x08100000 (\<lambda>_. None)) (replicate 81 0) [0, 0, 0, 0] demo_u = None"
  using pingpong_bounces[OF demo_u_ready demo_u_placed, of 2 2 "replicate 81 0" "[0, 0, 0, 0]" 0 0 "\<lambda>_. None" 3]
    demo_u_find(3) demo_u_dentries(3) demo_img_types(3) demo_u_free by (simp add: demo_u_sel)

text \<open>C16: when the next directory entry has a 32-character name, \<open>ls\<close> leaves defined behaviour:
  the kernel stores 33 bytes although 32 were asked for and returns 33, and the program stores
  its newline in \<open>buf[33]\<close>, one past the end of its array.\<close>

theorem ls_overruns_its_array:
  assumes "ready ly ubuf k" and "fs_placed k" and "dir_fd i k" and "length buf = 33"
    and "dirs_read (k_fs k) < n_dentries (k_fs k) (kview k)" and "dirs_read (k_fs k) < MAX_DENTRIES"
    and "d = dentries (k_fs k) (kview k) (dirs_read (k_fs k))" and "length (dentry_name d) = 32" and "ucast (d_type d) \<noteq> (0 :: u8)"
  shows "\<exists>b k'. s_read (ksys ly t esp ebp ubuf child) (of_nat i) buf 32 k = Some (33, b, k') \<and> aset b 33 10 = None \<and>
    ls_loop (ksys ly t esp ebp ubuf child) (of_nat i) buf k = None"
proof -
  define k1 where "k1 = user_store ubuf buf k"
  have st: "calm ly k k1" "ready ly ubuf k1" using user_store_ready[OF assms(1), of buf] assms(4) by (simp_all add: k1_def)
  note a = calm_fs[OF assms(2) st(1)]
  have sel: "k_fs k1 = k_fs k" using st(1) by (simp add: calm_def)
  let ?x = "dirs_read (k_fs k1)" and ?f = "fd_array (cur k1) i"
  have e: "dentries (k_fs k1) (kview k1) ?x = d" "?x < n_dentries (k_fs k1) (kview k1)" "?x < MAX_DENTRIES"
    using agree_dentries[OF a(1) assms(6)] agree_header[OF a(1)] assms(5-7) by (simp_all add: sel)
  have b: "buf_ok (k_fs k1) (kview k1) ubuf 33"
    using st(2) user_buf_mono[of ubuf 1025 33] by (intro placed_buf_ok[OF a(2)]) (simp add: ready_def)
  define bs where "bs = dentry_name d @ [ucast (d_type d)]"
  have "dir_read (k_fs k1) (kview k1) ?f ubuf 32 = ((k_fs k1)\<lparr> dirs_read := ?x + 1 \<rparr>, wr (kview k1) ubuf bs, 33)"
    using dir_read_full_length_name[OF e(2,3) b, of ?f 32] assms(8,9) by (simp add: e(1) bs_def)
  then obtain k' where r: "s_read (ksys ly t esp ebp ubuf child) (of_nat i) buf 32 k = Some (33, bs @ drop (length bs) buf, k')"
    using dir_read_ready[OF assms(1,3,4) k1_def, of bs "?x + 1" 33 t esp ebp child] assms(8) by (auto simp: bs_def)
  moreover have "aset (bs @ drop (length bs) buf) 33 10 = None" using assms(4,8) by (simp add: aset_def bs_def)
  ultimately show ?thesis by (auto simp: ls_loop.simps)
qed

text \<open>The state above with a 32-character first name, and the directory open as descriptor 2.\<close>

definition demo_vmem :: mem where
  "demo_vmem = demo_at (blit demo_img 0x1040 (\<lambda>_. 120) 32)"

definition demo_v :: kernel where
  "demo_v = demo_u\<lparr> processes := (\<lambda>_. demo_upcb\<lparr> fd_array := (fd_array demo_upcb)(2 := demo_file\<lparr> filetype := 1 \<rparr>) \<rparr>), k_mem := demo_vmem \<rparr>"

lemma demo_v_sel:
  "CPID demo_v = 1" "k_fs demo_v = demo_fs" "k_mem demo_v = demo_vmem" "k_mmu demo_v = snd demo_1" "k_con demo_v = demo_con"
  "processes demo_v j = demo_upcb\<lparr> fd_array := (fd_array demo_upcb)(2 := demo_file\<lparr> filetype := 1 \<rparr>) \<rparr>"
  by (simp_all add: demo_v_def demo_u_sel)

lemma demo_v_header:
  "n_dentries demo_fs (blit demo_img 0x1040 (\<lambda>_. 120) 32) = 3" "n_inodes demo_fs (blit demo_img 0x1040 (\<lambda>_. 120) 32) = 1"
  "n_datablocks demo_fs (blit demo_img 0x1040 (\<lambda>_. 120) 32) = 1" "d_type (dentries demo_fs (blit demo_img 0x1040 (\<lambda>_. 120) 32) 0) = 1"
  by (simp_all add: n_dentries_def n_inodes_def n_datablocks_def dentries_def dentry_addr_def blit_def
      demo_fs_def demo_img_def demo_mem_def rd32_def le32_def)

lemma demo_v_name: "dentry_name (dentries demo_fs (blit demo_img 0x1040 (\<lambda>_. 120) 32) 0) = replicate 32 120"
  unfolding dentry_name_key
  by (rule before_NUL_eqI) (auto simp: arr_def dentry_addr_def demo_fs_def blit_def unat_of_nat_32)

lemma demo_v_ok:
  "ready demo_ly 0x08100000 demo_v" "fs_placed demo_v" "fs_agree demo_fs (blit demo_img 0x1040 (\<lambda>_. 120) 32) (kview demo_v)"
proof -
  have s: "std_ok (cur demo_v)" by (auto simp: demo_v_sel std_ok_def demo_upcb_def demo_pcb_def demo_file_def)
  have w: "wf_fs demo_fs (blit demo_img 0x1040 (\<lambda>_. 120) 32)" by (simp add: wf_fs_def demo_v_header) (simp add: demo_fs_def)
  note d = demo_at_state[OF demo_v_sel(1,2) demo_v_sel(3)[unfolded demo_vmem_def] demo_v_sel(4,5) s demo_v_header(2,3) w]
  show "ready demo_ly 0x08100000 demo_v" "fs_placed demo_v" "fs_agree demo_fs (blit demo_img 0x1040 (\<lambda>_. 120) 32) (kview demo_v)" by (rule d)+
qed

theorem ls_overruns_its_array_witness:
  "ls_loop (ksys demo_ly 0 0 0 0x08100000 (\<lambda>_. None)) (of_nat 2) (replicate 33 0) demo_v = None"
proof -
  have "dentries demo_fs (kview demo_v) 0 = dentries demo_fs (blit demo_img 0x1040 (\<lambda>_. 120) 32) 0" "n_dentries demo_fs (kview demo_v) = 3"
    using agree_dentries[OF demo_v_ok(3), of 0] agree_header[OF demo_v_ok(3)] by (simp_all add: demo_v_header)
  moreover have "dir_fd 2 demo_v" by (simp add: dir_fd_def demo_v_sel demo_file_def)
  moreover have "dirs_read demo_fs = 0" by (simp add: demo_fs_def)
  ultimately show ?thesis
    using ls_overruns_its_array[OF demo_v_ok(1,2), of 2 "replicate 33 0" _ 0 0 0 "\<lambda>_. None"] demo_v_header(4) demo_v_name
    by (auto simp: demo_v_sel)
qed

end
