(* ===== verification/Grep.thy ===== *)
theory Grep
  imports Runs "HOL-Library.Sublist"
begin

text \<open>
  The user program grep (\<^verbatim>\<open>syscalls/ece391grep.c\<close>), which searches every file of the directory for its
  argument.  \<open>do_one_file\<close> reads a file through an array of 1025 bytes, cuts what it has read
  into lines and moves an unfinished last line to the front of the array before it reads on.
  The variables are \<open>int\<close>s; an access outside the array has no result.  What the uninitialised
  array holds when \<open>do_one_file\<close> is called is an argument.

  The reference is a function of the file's contents: for every line in which the argument
  occurs, the name of the file, a colon and the line.
\<close>

section \<open>The program\<close>

definition iget :: "u8 list \<Rightarrow> int \<Rightarrow> u8 option" where
  "iget a i = (if i < 0 then None else aget a (nat i))"

definition iset :: "u8 list \<Rightarrow> int \<Rightarrow> u8 \<Rightarrow> u8 list option" where
  "iset a i b = (if i < 0 then None else aset a (nat i) b)"

text \<open>\<open>while (line_end < last && '\n' != data[line_end]) line_end++\<close>.\<close>

function find_end :: "u8 list \<Rightarrow> int \<Rightarrow> int \<Rightarrow> int option" where
  "find_end data last' line_end =
     (if line_end < last'
      then do { c \<leftarrow> iget data line_end; if c \<noteq> 10 then find_end data last' (line_end + 1) else Some line_end }
      else Some line_end)"
  by pat_completeness auto
termination
  by (relation "measure (\<lambda>(data, last', line_end). nat (last' - line_end))") auto

text \<open>The search of one line.  \<open>s[0]\<close> is a \<open>char\<close>, which is signed, and \<open>data[check]\<close> an unsigned byte:
  they are compared as \<open>int\<close>s.\<close>

function search_line :: "'w sys \<Rightarrow> u8 list \<Rightarrow> u32 \<Rightarrow> u8 list \<Rightarrow> u8 list \<Rightarrow> int \<Rightarrow> int \<Rightarrow> int \<Rightarrow> 'w \<Rightarrow> 'w option" where
  "search_line S s s_len fname data line_start line_end check w =
     (if check < line_end
      then do { s0 \<leftarrow> aget s 0;
                c \<leftarrow> iget data check;
                found \<leftarrow> (if sint s0 = uint c then do { r \<leftarrow> ece391_strncmp (drop (nat check) data) s s_len; Some (r = 0) } else Some False);
                if found
                then do { w \<leftarrow> ece391_fdputs S 1 fname w;
                          w \<leftarrow> ece391_fdputs S 1 (str '':'') w;
                          w \<leftarrow> ece391_fdputs S 1 (drop (nat line_start) data) w;
                          ece391_fdputs S 1 (str [CHR 0x0A]) w }
                else search_line S s s_len fname data line_start line_end (check + 1) w }
      else Some w)"
  by pat_completeness auto
termination
  by (relation "measure (\<lambda>(S, s, s_len, fname, data, line_start, line_end, check, w). nat (line_end - check))") auto

declare find_end.simps [simp del] search_line.simps [simp del]

lemma find_end_ge: "find_end data last' i = Some e \<Longrightarrow> i \<le> e"
  by (induction data last' i rule: find_end.induct) (subst (asm) find_end.simps, auto split: if_splits bind_splits)

text \<open>The inner loop: the lines in the array from \<open>line_start\<close> on.  The result is the array and
  the new value of \<open>last\<close>.\<close>

function search_lines :: "'w sys \<Rightarrow> u8 list \<Rightarrow> u32 \<Rightarrow> u8 list \<Rightarrow> i32 \<Rightarrow> int \<Rightarrow> u8 list \<Rightarrow> int \<Rightarrow> 'w \<Rightarrow> (u8 list \<times> int \<times> 'w) option" where
  "search_lines S s s_len fname cnt last' data line_start w =
     do { line_end \<leftarrow> find_end data last' line_start;
          c \<leftarrow> iget data line_end;
          if c \<noteq> 10 \<and> cnt \<noteq> 0 \<and> line_start \<noteq> 0
          then do { data \<leftarrow> iset data line_end 0;
                    data \<leftarrow> ece391_strcpy data 0 (nat line_start);
                    Some (data, last' - line_start, w) }
          else do { data \<leftarrow> iset data line_end 0;
                    w \<leftarrow> search_line S s s_len fname data line_start line_end line_start w;
                    if line_end + 1 \<ge> last' then Some (data, 0, w)
                    else search_lines S s s_len fname cnt last' data (line_end + 1) w } }"
  by pat_completeness auto
termination
  by (relation "measure (\<lambda>(S, s, s_len, fname, cnt, last', data, line_start, w). nat (last' - line_start))") (auto dest: find_end_ge)

declare search_lines.simps [simp del]

text \<open>The outer loop; \<open>None\<close> in the result stands for a failed read, after which \<open>do_one_file\<close>
  returns -1.  The pointer \<open>data + last\<close> must not leave the array.\<close>

partial_function (option) search_file ::
  "'w sys \<Rightarrow> u8 list \<Rightarrow> u32 \<Rightarrow> u8 list \<Rightarrow> i32 \<Rightarrow> u8 list \<Rightarrow> int \<Rightarrow> 'w \<Rightarrow> (bool \<times> 'w) option" where
  "search_file S s s_len fname fd data last' w =
     (if last' < 0 \<or> int (length data) < last' then None
      else do { (cnt, d, w) \<leftarrow> s_read S fd (drop (nat last') data) (of_int (1024 - last')) w;
                if cnt = -1 then do { w \<leftarrow> ece391_fdputs S 1 (str ''file read failed\<newline>'') w; Some (False, w) }
                else do { (data, last', w) \<leftarrow> search_lines S s s_len fname cnt (last' + sint cnt) (take (nat last') data @ d) 0 w;
                          if cnt = 0 then Some (True, w) else search_file S s s_len fname fd data last' w } })"

definition do_one_file :: "'w sys \<Rightarrow> u8 list \<Rightarrow> u8 list \<Rightarrow> u8 list \<Rightarrow> 'w \<Rightarrow> (i32 \<times> 'w) option" where
  "do_one_file S s fname data w =
     do { s_len \<leftarrow> ece391_strlen s;
          (fd, w) \<leftarrow> s_open S fname w;
          if fd = -1 then do { w \<leftarrow> ece391_fdputs S 1 (str ''file open failed\<newline>'') w; Some (-1, w) }
          else do { (done, w) \<leftarrow> search_file S s s_len fname fd data 0 w;
                    if \<not> done then Some (-1, w)
                    else do { (r, w) \<leftarrow> s_close S fd w;
                              if r = -1 then do { w \<leftarrow> ece391_fdputs S 1 (str ''file close failed\<newline>'') w; Some (-1, w) }
                              else Some (0, w) } } }"

text \<open>The loop over the directory; \<open>junk n\<close> is what \<open>data\<close> holds in the \<open>n\<close>-th call of \<open>do_one_file\<close>.\<close>

partial_function (option) grep_loop ::
  "'w sys \<Rightarrow> i32 \<Rightarrow> u8 list \<Rightarrow> (nat \<Rightarrow> u8 list) \<Rightarrow> nat \<Rightarrow> u8 list \<Rightarrow> 'w \<Rightarrow> (i32 \<times> 'w) option" where
  "grep_loop S fd search junk n buf w =
     do { (cnt, buf, w) \<leftarrow> s_read S fd buf 32 w;
          if cnt = 0 then Some (0, w)
          else if cnt = -1 then do { w \<leftarrow> ece391_fdputs S 1 (str ''directory entry read failed\<newline>'') w; Some (3, w) }
          else do { c \<leftarrow> aget buf 0;
                    if c = 46 then grep_loop S fd search junk n buf w
                    else do { buf \<leftarrow> aset buf (unat cnt) 0;
                              (r, w) \<leftarrow> do_one_file S search buf (junk n) w;
                              if r \<noteq> 0 then Some (3, w) else grep_loop S fd search junk (n + 1) buf w } } }"

definition grep_main :: "'w sys \<Rightarrow> u8 list \<Rightarrow> u8 list \<Rightarrow> (nat \<Rightarrow> u8 list) \<Rightarrow> 'w \<Rightarrow> (i32 \<times> 'w) option" where
  "grep_main S buf search junk w =
     do { (r, search, w) \<leftarrow> s_getargs S search 1024 w;
          if r \<noteq> 0 then do { w \<leftarrow> ece391_fdputs S 1 (str ''could not read argument\<newline>'') w; Some (3, w) }
          else do { (fd, w) \<leftarrow> s_open S (str ''.'') w;
                    if fd = -1 then do { w \<leftarrow> ece391_fdputs S 1 (str ''directory open failed\<newline>'') w; Some (2, w) }
                    else grep_loop S fd search junk 0 buf w } }"

section \<open>Reference\<close>

fun lines_of :: "u8 list \<Rightarrow> u8 list list" where
  "lines_of [] = []"
| "lines_of (c # t) = (if c = 10 then [] # lines_of t else case lines_of t of [] \<Rightarrow> [[c]] | l # ls \<Rightarrow> (c # l) # ls)"

definition report :: "cstring \<Rightarrow> cstring \<Rightarrow> u8 list \<Rightarrow> u8 list" where
  "report fname s l = (if sublist s l then fname @ 58 # l @ [10] else [])"

definition matches :: "cstring \<Rightarrow> cstring \<Rightarrow> u8 list \<Rightarrow> u8 list" where
  "matches fname s t = concat (map (report fname s) (lines_of t))"

lemma lines_of_line: "10 \<notin> set l \<Longrightarrow> lines_of (l @ 10 # t) = l # lines_of t"
  by (induction l) simp_all

lemma lines_of_end: "10 \<notin> set l \<Longrightarrow> l \<noteq> [] \<Longrightarrow> lines_of l = [l]"
proof (induction l)
  case (Cons c l)
  then show ?case by (cases "l = []") simp_all
qed simp

lemma matches_line: "10 \<notin> set l \<Longrightarrow> matches fname s (l @ 10 # t) = report fname s l @ matches fname s t"
  by (simp add: matches_def lines_of_line)

lemma matches_end: "10 \<notin> set l \<Longrightarrow> s \<noteq> [] \<Longrightarrow> matches fname s l = report fname s l"
  by (cases "l = []") (simp_all add: matches_def lines_of_end report_def)

lemma lines_of_append: "u = [] \<or> last u = 10 \<Longrightarrow> lines_of (u @ t) = lines_of u @ lines_of t"
proof (induction u)
  case (Cons c u)
  show ?case
  proof (cases "u = []")
    case False
    then have "lines_of u \<noteq> []" by (cases u) (auto split: list.splits)
    then show ?thesis using False Cons by (auto split: list.splits)
  qed (use Cons in simp)
qed simp

lemma matches_append: "u = [] \<or> last u = 10 \<Longrightarrow> matches fname s (u @ t) = matches fname s u @ matches fname s t"
  by (simp add: matches_def lines_of_append)

lemma lines_of_long: "10 \<notin> set u \<Longrightarrow> u \<noteq> [] \<Longrightarrow> \<exists>l \<in> set (lines_of (u @ t)). length u \<le> length l"
proof -
  have "\<exists>l ls. lines_of (u @ t) = l # ls \<and> length u \<le> length l" if "10 \<notin> set u" "u \<noteq> []" for u
    using that
  proof (induction u)
    case (Cons c u)
    then show ?case by (cases "u = []") (auto split: list.splits)
  qed simp
  then show "10 \<notin> set u \<Longrightarrow> u \<noteq> [] \<Longrightarrow> \<exists>l \<in> set (lines_of (u @ t)). length u \<le> length l" by (metis list.set_intros(1))
qed

section \<open>One line\<close>

lemma find_end_line:
  "i \<le> n \<Longrightarrow> n \<le> length data \<Longrightarrow>
    find_end data (int n) (int i) = Some (int (i + length (takeWhile (\<lambda>c. c \<noteq> 10) (drop i (take n data)))))"
proof (induction "n - i" arbitrary: i)
  case 0
  then show ?case by (subst find_end.simps) simp
next
  case (Suc k)
  then have "i < length (take n data)" by simp
  then have d: "drop i (take n data) = data ! i # drop (Suc i) (take n data)" "i < n" using Cons_nth_drop_Suc[of i "take n data"] by simp_all
  have "find_end data (int n) (int i + 1) = Some (int (Suc i + length (takeWhile (\<lambda>c. c \<noteq> 10) (drop (Suc i) (take n data)))))"
    using Suc.hyps(1)[of "Suc i"] Suc.hyps(2) Suc.prems d(2) by (simp add: add.commute)
  then show ?case using d Suc.prems by (subst find_end.simps) (simp add: iget_def)
qed

lemma holds_drop: "holds a s \<Longrightarrow> i \<le> length s \<Longrightarrow> holds (drop i a) (drop i s)"
  by (auto simp: holds_def wf_cstring_def dest: in_set_dropD)

lemma sublist_drop: "sublist s l \<longleftrightarrow> (\<exists>j. prefix s (drop j l))"
proof
  assume "sublist s l"
  then obtain ps ss where "l = ps @ s @ ss" by (auto simp: sublist_def)
  then have "prefix s (drop (length ps) l)" by simp
  then show "\<exists>j. prefix s (drop j l)" ..
next
  assume "\<exists>j. prefix s (drop j l)"
  then obtain j ss where "drop j l = s @ ss" by (auto simp: prefix_def)
  then have "l = take j l @ s @ ss" by (metis append_take_drop_id)
  then show "sublist s l" unfolding sublist_def by blast
qed

lemma prefix_take: "prefix s t \<longleftrightarrow> take (length s) t = s"
  by (auto simp: prefix_def) (metis append_take_drop_id)

lemma array_line: "holds (drop n a) l \<Longrightarrow> c < length l \<Longrightarrow> n + c < length a \<and> a ! (n + c) = l ! c"
proof -
  assume "holds (drop n a) l" "c < length l"
  then obtain xs where x: "drop n a = l @ 0 # xs" "c < length l" by (auto simp: holds_def)
  from arg_cong[OF x(1), of length] x(2) have "n + c < length a" by simp
  moreover have "drop n a ! c = l ! c" by (simp add: x nth_append)
  ultimately show ?thesis by simp
qed

text \<open>A character of the array equals the first one of the argument, which is not above 127.\<close>

lemma same_char: "s0 < 128 \<Longrightarrow> sint s0 = uint c \<longleftrightarrow> s0 = c" for s0 c :: u8
proof -
  assume "s0 < 128"
  then have "unat s0 < 128" by (simp add: word_less_nat_alt)
  moreover have "sint (of_nat n :: u8) = int n" if "n < 128" for n using that by (simp add: signed_of_nat signed_take_bit_int_eq_self)
  ultimately have "sint (of_nat (unat s0) :: u8) = int (unat s0)" by blast
  then have "sint s0 = uint s0" by simp
  then show ?thesis by (simp add: word_uint_eq_iff)
qed

context writer
begin

lemma search_line_reports:
  assumes "holds sa s" and "s \<noteq> []" and "length s \<le> 1024" and "hd s < 128" and "holds fa fname" and "length fa \<le> 1025"
    and "holds (drop ls data) l" and "length data \<le> 1025"
  shows "ok w \<Longrightarrow> c \<le> length l \<Longrightarrow>
    \<exists>w'. search_line S sa (of_nat (length s)) fa data (int ls) (int (ls + length l)) (int (ls + c)) w = Some w' \<and> ok w' \<and> inp w' = inp w \<and>
      out w' = emit (if \<exists>j \<ge> c. prefix s (drop j l) then fname @ 58 # l @ [10] else []) (out w)"
proof (induction "length l - c" arbitrary: c)
  case 0
  then have "drop j l = []" if "c \<le> j" for j using that by simp
  then show ?case using 0 assms(2) by (subst search_line.simps) (auto simp: emit_Nil)
next
  case (Suc k)
  then have c: "c < length l" by simp
  have u: "unat (of_nat (length s) :: u32) = length s" using assms(3) by (simp add: unat_of_nat_32)
  have hd: "drop c l = l ! c # drop (Suc c) l" using c by (simp add: Cons_nth_drop_Suc)
  have g: "iget data (int (ls + c)) = Some (l ! c)" "nat (int (ls + c)) = ls + c" "aget sa 0 = Some (hd s)"
    using c array_line[OF assms(7), of c] assms(1,2) by (auto simp: iget_def aget_def holds_def nth_append hd_conv_nth nat_int_add)
  have "holds (drop (ls + c) data) (drop c l)" using holds_drop[OF assms(7), of c] c by (simp add: add.commute)
  then obtain r where r: "ece391_strncmp (drop (ls + c) data) sa (of_nat (length s)) = Some r" "r = 0 \<longleftrightarrow> take (length s) (drop c l) = s"
    using strncmp_prefix[OF _ assms(1), of "drop (ls + c) data" "drop c l" "of_nat (length s)"] by (auto simp: u)
  have p: "prefix s (drop c l) \<longleftrightarrow> sint (hd s) = uint (l ! c) \<and> r = 0"
    using same_char[OF assms(4)] assms(2) unfolding r(2) hd prefix_take by (cases s) auto
  show ?case
  proof (cases "prefix s (drop c l)")
    case True
    have dl: "length (drop ls data) \<le> 1025" using assms(8) by simp
    obtain w1 where 1: "ece391_fdputs S 1 fa w = Some w1" "ok w1" "inp w1 = inp w" "out w1 = emit fname (out w)" using fdputs_emits[OF Suc.prems(1) assms(5,6)] by blast
    obtain w2 where 2: "ece391_fdputs S 1 (str '':'') w1 = Some w2" "ok w2" "inp w2 = inp w" "out w2 = emit [58] (out w1)"
      using puts_literal[OF 1(2), of "'':''"] 1(3) by (auto simp: lit_def byte_of_def)
    obtain w3 where 3: "ece391_fdputs S 1 (drop ls data) w2 = Some w3" "ok w3" "inp w3 = inp w" "out w3 = emit l (out w2)"
      using fdputs_emits[OF 2(2) assms(7) dl] 2(3) by auto
    obtain w4 where 4: "ece391_fdputs S 1 (str [CHR 0x0A]) w3 = Some w4" "ok w4" "inp w4 = inp w" "out w4 = emit [10] (out w3)"
      using puts_literal[OF 3(2), of "[CHR 0x0A]"] 3(3) by (auto simp: lit_def byte_of_def)
    have "out w4 = emit (fname @ 58 # l @ [10]) (out w)" using emit_append[of fname "58 # l @ [10]"] emit_append[of "[58]" "l @ [10]"]
      by (simp add: 1(4) 2(4) 3(4) 4(4) emit_append)
    then show ?thesis using True c p g r(1) 1(1) 2(1) 3(1) 4(1-3) by (subst search_line.simps) auto
  next
    case False
    have kc: "k = length l - Suc c" using Suc.hyps(2) by simp
    obtain w' where w': "search_line S sa (of_nat (length s)) fa data (int ls) (int (ls + length l)) (int (ls + c) + 1) w = Some w'" "ok w'" "inp w' = inp w"
      "out w' = emit (if \<exists>j \<ge> Suc c. prefix s (drop j l) then fname @ 58 # l @ [10] else []) (out w)"
      using Suc.hyps(1)[OF kc Suc.prems(1)] c by (auto simp: add.commute add.left_commute)
    have "(\<exists>j \<ge> c. prefix s (drop j l)) \<longleftrightarrow> (\<exists>j \<ge> Suc c. prefix s (drop j l))" using False by (metis Suc_leD le_antisym not_less_eq_eq)
    then show ?thesis using False c p g r(1) w' by (subst search_line.simps) auto
  qed
qed

end

section \<open>The lines in the array\<close>

lemma array_segment:
  assumes "i + length l < length a" and "\<And>j. j < length l \<Longrightarrow> a ! (i + j) = l ! j" and "a ! (i + length l) = 0" and "0 \<notin> set l"
  shows "holds (drop i a) l"
proof -
  have "take (length l) (drop i a) = l" using assms(1,2) by (intro nth_equalityI) simp_all
  moreover have "drop (length l) (drop i a) = 0 # drop (Suc (i + length l)) a"
    using Cons_nth_drop_Suc[OF assms(1)] assms(3) by (simp add: add.commute)
  ultimately have "drop i a = l @ 0 # drop (Suc (i + length l)) a" by (metis append_take_drop_id)
  then show ?thesis using assms(4) unfolding holds_def wf_cstring_def by blast
qed

text \<open>What the inner loop makes of the bytes \<open>drop i (take n data)\<close>: it prints the matches of the
  lines \<open>u\<close> and leaves the unfinished line \<open>t\<close> at the front of the array.\<close>

definition cut_off :: "u8 list \<Rightarrow> u8 list \<Rightarrow> u8 list \<Rightarrow> bool \<Rightarrow> u8 list \<Rightarrow> nat \<Rightarrow> bool" where
  "cut_off d u t ended data n \<longleftrightarrow> d = u @ t \<and> (t = [] \<and> ended \<or> u = [] \<or> last u = 10) \<and> 10 \<notin> set t \<and> length t = n \<and> take n data = t \<and>
     length data = 1025 \<and> data ! 1024 \<noteq> 10 \<and> n < 1024"

context writer
begin

lemma search_lines_cut:
  assumes "holds sa s" and "s \<noteq> []" and "length s \<le> 1024" and "hd s < 128" and "holds fa fname" and "length fa \<le> 1025"
    and "n \<le> 1024" and "cnt = 0 \<or> n < 1024 \<Longrightarrow> ended"
  shows "ok w \<Longrightarrow> i \<le> n \<Longrightarrow> length data = 1025 \<Longrightarrow> data ! 1024 \<noteq> 10 \<Longrightarrow> 0 \<notin> set (drop i (take n data)) \<Longrightarrow>
    i = 0 \<and> n = 1024 \<longrightarrow> 10 \<in> set (take n data) \<Longrightarrow>
    \<exists>data' n' w' u t. search_lines S sa (of_nat (length s)) fa cnt (int n) data (int i) w = Some (data', int n', w') \<and> ok w' \<and> inp w' = inp w \<and>
      cut_off (drop i (take n data)) u t ended data' n' \<and> out w' = emit (matches fname s u) (out w) \<and> (cnt = 0 \<longrightarrow> t = [])"
proof (induction "n - i" arbitrary: i data w rule: less_induct)
  case less
  let ?d = "drop i (take n data)"
  define l where "l = takeWhile (\<lambda>c. c \<noteq> 10) ?d"
  define e where "e = i + length l"
  have le: "length l \<le> n - i" using length_takeWhile_le[of "\<lambda>c. c \<noteq> 10" ?d] less.prems(3) assms(7) by (simp add: l_def)
  have en: "e \<le> n" "e < length data" using le less.prems(2,3) assms(7) by (simp_all add: e_def)
  have fe: "find_end data (int n) (int i) = Some (int e)" using find_end_line[of i n data] less.prems(2,3) assms(7) by (simp add: l_def e_def)
  have l0: "0 \<notin> set l" "10 \<notin> set l" using less.prems(5) by (auto simp: l_def dest: set_takeWhileD)
  have lj: "data ! (i + j) = l ! j" if "j < length l" for j
  proof -
    have "l ! j = ?d ! j" using that unfolding l_def by (rule takeWhile_nth)
    then show ?thesis using that le less.prems(2,3) assms(7) by simp
  qed
  define data1 where "data1 = data[e := 0]"
  have h: "holds (drop i data1) l"
    by (rule array_segment) (use lj en l0 in \<open>auto simp: data1_def e_def\<close>)
  have d1: "length data1 = 1025" "data1 ! 1024 \<noteq> 10" "iset data (int e) 0 = Some data1" "iget data (int e) = Some (data ! e)"
    using less.prems(3,4) en by (auto simp: data1_def nth_list_update iset_def iget_def)
  obtain w1 where w1: "search_line S sa (of_nat (length s)) fa data1 (int i) (int e) (int i) w = Some w1" "ok w1" "inp w1 = inp w"
    "out w1 = emit (report fname s l) (out w)"
    using search_line_reports[OF assms(1-6) h _ less.prems(1), of 0] d1(1) by (auto simp: e_def report_def sublist_drop)
  show ?case
  proof (cases "10 \<in> set ?d")
    case True
    define r where "r = drop (Suc e) (take n data)"
    have dw: "dropWhile (\<lambda>c. c \<noteq> 10) ?d \<noteq> []" using True by auto
    then have "length l < length ?d" unfolding l_def using takeWhile_dropWhile_id[of "\<lambda>c. c \<noteq> 10" ?d] by (metis append_Nil2 length_append length_greater_0_conv less_add_same_cancel1)
    then have e: "e < n" by (simp add: e_def)
    have dl: "drop (length l) ?d = data ! e # r"
      using Cons_nth_drop_Suc[of e "take n data"] e en less.prems(3) assms(7) by (simp add: e_def r_def add.commute)
    moreover have "drop (length l) ?d = dropWhile (\<lambda>c. c \<noteq> 10) ?d" by (simp add: l_def dropWhile_eq_drop)
    ultimately have ce: "data ! e = 10" using hd_dropWhile[OF dw] by (metis list.sel(1))
    have ds: "?d = l @ 10 # r" using dl takeWhile_dropWhile_id[of "\<lambda>c. c \<noteq> 10" ?d] by (simp add: l_def[symmetric] dropWhile_eq_drop ce)
    show ?thesis
    proof (cases "n \<le> Suc e")
      case True
      then have r: "r = []" by (simp add: r_def)
      have "search_lines S sa (of_nat (length s)) fa cnt (int n) data (int i) w = Some (data1, int 0, w1)"
        using True by (subst search_lines.simps) (simp add: fe d1(3,4) ce w1(1))
      moreover have "cut_off ?d ?d [] ended data1 0" using d1(1,2) by (simp add: cut_off_def ds r)
      moreover have "matches fname s ?d = report fname s l" using matches_line[OF l0(2), of fname s "[]"] by (simp add: ds r matches_def)
      ultimately show ?thesis using w1(2-4) by metis
    next
      case False
      have d1r: "drop (Suc e) (take n data1) = r" by (simp add: data1_def r_def take_update_swap drop_update_cancel)
      have m: "n - Suc e < n - i" using False by (simp add: e_def)
      have "0 \<notin> set r" using less.prems(5) by (simp add: ds)
      then obtain data' n' w' u t where rec: "search_lines S sa (of_nat (length s)) fa cnt (int n) data1 (int (Suc e)) w1 = Some (data', int n', w')"
        "ok w'" "inp w' = inp w1" "cut_off r u t ended data' n'" "out w' = emit (matches fname s u) (out w1)" "cnt = 0 \<longrightarrow> t = []"
        using less.hyps[OF m w1(2) _ d1(1,2)] False unfolding d1r by auto
      have "search_lines S sa (of_nat (length s)) fa cnt (int n) data (int i) w = Some (data', int n', w')"
        using False rec(1) by (subst search_lines.simps) (simp add: fe d1(3,4) ce w1(1) add.commute)
      moreover have "cut_off ?d (l @ 10 # u) t ended data' n'" using rec(4) by (auto simp: cut_off_def ds)
      moreover have "out w' = emit (matches fname s (l @ 10 # u)) (out w)" by (simp add: rec(5) w1(4) matches_line[OF l0(2)] emit_append)
      ultimately show ?thesis using rec(2,3,6) w1(3) by metis
    qed
  next
    case False
    then have l: "l = ?d" unfolding l_def by (simp add: takeWhile_eq_all_conv) metis
    have e: "e = n" using less.prems(2,3) assms(7) by (simp add: e_def l)
    show ?thesis
    proof (cases "data ! n \<noteq> 10 \<and> cnt \<noteq> 0 \<and> i \<noteq> 0")
      case True
      define data' where "data' = l @ 0 # drop (length l + 1) data1"
      have ll: "length l = n - i" using less.prems(2,3) assms(7) by (simp add: l)
      have ll': "length l < 1024" using True assms(7) unfolding ll by linarith
      have "ece391_strcpy data1 0 i = Some data'"
        using strcpy_down[of l i data1 0] h l0(1) True by (simp add: wf_cstring_def data'_def)
      then have "search_lines S sa (of_nat (length s)) fa cnt (int n) data (int i) w = Some (data', int (length l), w)"
        using True less.prems(2) by (subst search_lines.simps) (simp add: fe[unfolded e] d1(3,4)[unfolded e] ll of_nat_diff)
      moreover have "data' ! 1024 = data1 ! 1024" using ll' d1(1) by (simp add: data'_def nth_append)
      then have "cut_off ?d [] l ended data' (length l)" using l0(2) ll' d1(1,2) by (simp add: cut_off_def l[symmetric] data'_def)
      moreover have "out w = emit (matches fname s []) (out w)" by (simp add: matches_def emit_Nil)
      ultimately show ?thesis using less.prems(1) True by metis
    next
      case nc: False
      have "n < 1024 \<or> cnt = 0" using nc less.prems(4,6) False assms(7) by (cases "n = 1024") auto
      then have fin: "ended" using assms(8) by blast
      have "search_lines S sa (of_nat (length s)) fa cnt (int n) data (int i) w = Some (data1, int 0, w1)"
        using nc by (subst search_lines.simps) (auto simp: fe[unfolded e] d1(3,4)[unfolded e] w1(1)[unfolded e])
      moreover have "cut_off ?d l [] ended data1 0" using d1(1,2) fin by (simp add: cut_off_def l[symmetric])
      moreover have "matches fname s l = report fname s l" by (rule matches_end[OF l0(2) assms(2)])
      ultimately show ?thesis using w1(2-4) by metis
    qed
  qed
qed

end

section \<open>The whole file\<close>

context reader
begin

lemma search_file_matches:
  assumes "holds sa s" and "s \<noteq> []" and "length s \<le> 1024" and "hd s < 128" and "holds fa fname" and "length fa \<le> 1025"
  shows "ok w \<Longrightarrow> length data = 1025 \<Longrightarrow> data ! 1024 \<noteq> 10 \<Longrightarrow> n < 1024 \<Longrightarrow> 10 \<notin> set (take n data) \<Longrightarrow> 0 \<notin> set (take n data @ inp w) \<Longrightarrow>
    \<forall>l \<in> set (lines_of (take n data @ inp w)). length l \<le> 1023 \<Longrightarrow>
    \<exists>w'. search_file S sa (of_nat (length s)) fa fd data (int n) w = Some (True, w') \<and> ok w' \<and>
      out w' = emit (matches fname s (take n data @ inp w)) (out w)"
proof (induction "length (inp w)" arbitrary: w data n rule: less_induct)
  case less
  let ?t = "take n data"
  define m d data0 where "m = 1024 - n" and "d = take m (inp w)" and "data0 = ?t @ d @ drop (n + length d) data"
  have m: "0 < m" "n + length d \<le> 1024" "m \<le> 1025 - n" using less.prems(4) by (auto simp: m_def d_def)
  note cnt = count_word[of "length d"]
  have lt: "length ?t = n" using less.prems(2,4) by simp
  obtain w1 where w1: "s_read S fd (drop n data) (of_nat m) w = Some (of_nat (length d), d @ drop (length d) (drop n data), w1)"
    "ok w1" "out w1 = out w" "inp w1 = drop m (inp w)"
    using read_delivers[OF less.prems(1), of "drop n data" m, folded d_def] less.prems(2) m(3) by auto
  have w1': "(1024 - of_nat n :: i32) = of_nat m" using less.prems(4) by (simp add: m_def of_nat_diff)
  have d0: "length data0 = 1025" "data0 ! 1024 \<noteq> 10" "take (n + length d) data0 = ?t @ d" "?t @ d @ drop (length d) (drop n data) = data0"
    using less.prems(2,3) m(2) lt by (auto simp: data0_def nth_append add.commute)
  have full: "?t @ inp w = (?t @ d) @ inp w1" by (simp add: d_def w1(4))
  have e1: "inp w1 = []" if "of_nat (length d) = (0 :: i32) \<or> n + length d < 1024"
    using that cnt(2) m by (auto simp: w1(4) d_def m_def)
  have e2: "0 = 0 \<and> n + length d = 1024 \<longrightarrow> 10 \<in> set (take (n + length d) data0)"
  proof (rule impI, rule ccontr)
    assume h: "0 = 0 \<and> n + length d = 1024" "10 \<notin> set (take (n + length d) data0)"
    then have "length (?t @ d) = 1024" using lt by simp
    moreover obtain l where "l \<in> set (lines_of (?t @ inp w))" "length (?t @ d) \<le> length l"
      using lines_of_long[of "?t @ d" "inp w1"] h lt unfolding d0(3) full by force
    ultimately show False using less.prems(7) by fastforce
  qed
  have z: "0 \<notin> set (drop 0 (take (n + length d) data0))" using less.prems(6) unfolding d0(3) full by simp
  obtain data' n' w2 u t where s: "search_lines S sa (of_nat (length s)) fa (of_nat (length d)) (int (n + length d)) data0 (int 0) w1 = Some (data', int n', w2)"
    "ok w2" "inp w2 = inp w1" "cut_off (?t @ d) u t (inp w1 = []) data' n'" "out w2 = emit (matches fname s u) (out w1)" "of_nat (length d) = (0 :: i32) \<longrightarrow> t = []"
    using search_lines_cut[where cnt = "of_nat (length d)", OF assms m(2) e1 w1(2) _ d0(1,2) z e2] unfolding d0(3) by auto
  have sc: "sint (of_nat (length d) :: i32) = int (length d)" using m(2) by (intro sint_of_nat_small) simp
  have c: "?t @ d = u @ t" "t = [] \<and> inp w1 = [] \<or> u = [] \<or> last u = 10" "10 \<notin> set t" "take n' data' = t" "length data' = 1025" "data' ! 1024 \<noteq> 10" "n' < 1024"
    using s(4) by (simp_all add: cut_off_def)
  have full': "?t @ inp w = u @ t @ inp w1" unfolding full c(1) by simp
  have mt: "matches fname s (?t @ inp w) = matches fname s u @ matches fname s (t @ inp w1)"
    using c(2) matches_append[of u fname s "t @ inp w1"] unfolding full' by (auto simp: matches_def)
  have step: "search_file S sa (of_nat (length s)) fa fd data (int n) w =
      (if length d = 0 then Some (True, w2) else search_file S sa (of_nat (length s)) fa fd data' (int n') w2)"
  proof -
    have rd: "s_read S fd (drop n data) (of_int (1024 - int n)) w = Some (of_nat (length d), d @ drop (length d) (drop n data), w1)"
      using w1(1) w1' by simp
    have sl: "search_lines S sa (of_nat (length s)) fa (of_nat (length d)) (int n + int (length d)) data0 0 w1 = Some (data', int n', w2)" using s(1) by simp
    show ?thesis using less.prems(2,4) cnt(2,3) m(2)
      by (subst search_file.simps) (simp only: rd Option.bind.simps case_prod_conv nat_int d0(4) sc sl, simp)
  qed
  show ?case
  proof (cases "length d = 0")
    case True
    then have "inp w1 = []" "t = []" using e1 s(6) by auto
    then show ?thesis using step True s(2,5) mt w1(3) by (auto simp: matches_def)
  next
    case False
    have "length (inp w2) < length (inp w)" using False m(1) by (auto simp: s(3) w1(4) d_def)
    moreover have "0 \<notin> set (t @ inp w1)" using less.prems(6) unfolding full' by simp
    moreover have "\<forall>l \<in> set (lines_of (t @ inp w1)). length l \<le> 1023"
      using c(2) less.prems(7) lines_of_append[of u "t @ inp w1"] unfolding full' by auto
    ultimately obtain w' where w': "search_file S sa (of_nat (length s)) fa fd data' (int n') w2 = Some (True, w')" "ok w'"
      "out w' = emit (matches fname s (t @ inp w1)) (out w2)"
      using less.hyps[OF _ s(2) c(5-7)] c(3) unfolding c(4) s(3) by blast
    then show ?thesis using step False by (simp add: mt s(5) w1(3) emit_append)
  qed
qed

end

section \<open>On this kernel\<close>

lemma close_stream:
  assumes "streaming ly ubuf i inode k"
  shows "\<exists>k'. s_close (ksys ly t esp ebp ubuf child) (of_nat i) k = Some (0, k') \<and> shown k' = shown k"
proof -
  have s: "2 \<le> i" "i < MAX_FD" "used_fd (cur k) i" "jumptable (fd_array (cur k) i) = Fs_jumptable" "filetype (fd_array (cur k) i) = 2"
    using assms by (simp_all add: streaming_def)
  show ?thesis using s(4,5) by (simp add: ksys_calls close_spec[OF s(1-3)] set_in_use_def shown_def Let_def)
qed

lemma one_file_matches:
  assumes "ready ly ubuf k" and "fs_placed k" and "holds fa fname" and "length fa \<le> 1025"
    and "find_dentry (k_fs k) (kview k) (take 33 fname) = Some ix" and "lowest_free (cur k) = Some i"
    and "d = dentries (k_fs k) (kview k) ix" and "d_type d = 2"
    and "file_ok (k_fs k) (kview k) (d_inode d)" and "data_valid (k_fs k) (kview k) (d_inode d)"
    and "f = file_bytes (k_fs k) (kview k) (d_inode d)" and "0 \<notin> set f" and "\<forall>l \<in> set (lines_of f). length l \<le> 1023"
    and "holds sa s" and "s \<noteq> []" and "length s \<le> 1024" and "hd s < 128" and "length data = 1025" and "data ! 1024 \<noteq> 10"
  shows "\<exists>k'. do_one_file (ksys ly t esp ebp ubuf child) sa fa data k = Some (0, k') \<and> shown k' = emit_screen (matches fname s f) (shown k)"
proof -
  let ?S = "ksys ly t esp ebp ubuf child"
  obtain k1 where k1: "s_open ?S fa k = Some (of_nat i, k1)" "streaming ly ubuf i (d_inode d) k1" "unread i (d_inode d) k1 = f" "shown k1 = shown k"
    "(of_nat i :: i32) \<noteq> -1" using open_file[OF assms(1-10), of t esp ebp child] assms(11) by blast
  obtain k2 where k2: "search_file ?S sa (of_nat (length s)) fa (of_nat i) data 0 k1 = Some (True, k2)" "streaming ly ubuf i (d_inode d) k2"
    "shown k2 = emit_screen (matches fname s f) (shown k)"
    using strm.search_file_matches[OF assms(14-17,3,4) k1(2) assms(18,19), of 0 t esp ebp child] assms(12,13) k1(3,4) by auto
  obtain k3 where "s_close ?S (of_nat i) k2 = Some (0, k3)" "shown k3 = shown k2" using close_stream[OF k2(2)] by blast
  then show ?thesis using k1(1,5) k2(1,3) holds_strlen[OF assms(14)] by (simp add: do_one_file_def)
qed

text \<open>C12: searching one file.  \<open>do_one_file\<close> opens the file, prints, for exactly those lines of it in which the
  search string occurs and in their order, the name of the file, a colon and the line, closes the
  file and returns 0: for a text file (no NUL) with lines of at most 1023 characters, a search
  string that is not empty and does not start with a byte above 127, and whatever the uninitialised
  array holds, except for a newline in its last byte.  Lines that cross the end of the 1024 bytes
  read at a time are found too.\<close>

theorem grep_prints_matches:
  assumes "ready ly ubuf k" and "fs_placed k" and "holds fa fname" and "length fa \<le> 1025"
    and "find_dentry (k_fs k) (kview k) (take 33 fname) = Some ix" and "lowest_free (cur k) = Some i"
    and "d = dentries (k_fs k) (kview k) ix" and "d_type d = 2"
    and "file_ok (k_fs k) (kview k) (d_inode d)" and "data_valid (k_fs k) (kview k) (d_inode d)"
    and "f = file_bytes (k_fs k) (kview k) (d_inode d)" and "0 \<notin> set f" and "\<forall>l \<in> set (lines_of f). length l \<le> 1023"
    and "holds sa s" and "s \<noteq> []" and "length s \<le> 1024" and "hd s < 128" and "length data = 1025" and "data ! 1024 \<noteq> 10"
  shows "\<exists>k'. do_one_file (ksys ly t esp ebp ubuf child) sa fa data k = Some (0, k') \<and>
    shown k' = emit_screen (concat (map (\<lambda>l. fname @ 58 # l @ [10]) (filter (sublist s) (lines_of f)))) (shown k)"
proof -
  have "concat (map (report fname s) ls) = concat (map (\<lambda>l. fname @ 58 # l @ [10]) (filter (sublist s) ls))" for ls
    by (induction ls) (simp_all add: report_def)
  then show ?thesis using one_file_matches[OF assms, of t esp ebp child] unfolding matches_def by simp
qed

theorem grep_prints_matches_witness:
  "\<exists>k'. do_one_file (ksys demo_ly 0 0 0 0x08100000 (\<lambda>_. None)) [105, 0] [97, 0] (replicate 1025 0) demo_u = Some (0, k') \<and>
    shown k' = emit_screen [97, 58, 72, 105, 10] (shown demo_u)"
proof -
  have f: "file_ok demo_fs (kview demo_u) 0" "data_valid demo_fs (kview demo_u) 0" "file_bytes demo_fs (kview demo_u) 0 = [72, 105, 10]"
    using agree_file_ok[OF demo_u_agree demo_img_ok(1,2)] agree_data_valid[OF demo_u_agree demo_img_ok(1,2)]
      agree_file_bytes[OF demo_u_agree demo_img_ok(1-3)] demo_img_ok(3,4) by simp_all
  have h: "holds [97, 0] [97]" "holds [105, 0] [105]" by (simp_all add: holds_def wf_cstring_def)
  have r: "filter (sublist [105]) (lines_of [72, 105, 10]) = [[72, 105 :: u8]]" by (simp add: sublist_Cons_right)
  show ?thesis
    using grep_prints_matches[OF demo_u_ready demo_u_placed h(1) _ _ _ refl, of 1 2 "[72, 105, 10]" "[105, 0]" "[105]" "replicate 1025 0" 0 0 0 "\<lambda>_. None"]
      demo_u_find(2) demo_u_dentries(2) demo_u_free demo_img_types(2,4) f h(2) unfolding r by (simp add: demo_u_sel)
qed

text \<open>A search string whose first byte is above 127 is never found: as a \<open>char\<close> it is negative.\<close>

lemma high_byte_never_found:
  assumes "aget sa 0 = Some c" and "128 \<le> c" and "0 \<le> i" and "n \<le> int (length data)"
  shows "search_line S sa len fa data ls n i w = Some w"
  using assms(3)
proof (induction "nat (n - i)" arbitrary: i)
  case 0
  then show ?case by (subst search_line.simps) simp
next
  case (Suc k)
  have "sint c \<noteq> uint b" for b :: u8
  proof
    assume e: "sint c = uint b"
    have "sint c < 2 ^ (LENGTH(8) - 1)" by (rule sint_lt)
    moreover from arg_cong[OF e, of "of_int :: int \<Rightarrow> u8"] have "c = b" by simp
    ultimately show False using e assms(2) by (simp add: word_le_def)
  qed
  then show ?case using Suc assms(1,4) by (subst search_line.simps) (auto simp: iget_def aget_def)
qed

end
