(* ===== verification/Fish.thy ===== *)
theory Fish
  imports Userlib
begin

text \<open>
  The fish program (\<^verbatim>\<open>fish/fish.c\<close>) and its driver of blinking characters
  (\<^verbatim>\<open>fish/blink.S\<close>, \<^verbatim>\<open>fish/blink.h\<close>).  The driver keeps the characters in a linked list
  whose elements it takes from a static array of 2000 structures; an element is free when its
  location is 0.  The array is the list of its structures, a pointer into it the address of an
  element, and following a pointer that is no element's address has no result.

  What the program does to the rest of its memory is a record \<open>process\<close>: the addresses of
  \<open>blink_array\<close> and \<open>vmem_base_addr\<close>, loading a word and storing a byte, and what
  uninitialised structures on the stack hold.  The list refines a plain list of structures: the
  driver's operations on pointers are the obvious operations on it.
\<close>

section \<open>The data\<close>

record mp1_blink_struct =
  location :: u16
  on_char :: u8
  off_char :: u8
  on_length :: u16
  off_length :: u16
  countdown :: u16
  status :: u16
  next_ptr :: u32

record mp1 =
  blink_array :: "mp1_blink_struct list"
  mp1_list_head :: u32

record 'w process =
  p_array :: u32
  p_vmem :: u32
  p_load :: "u32 \<Rightarrow> 'w \<Rightarrow> u32"
  p_store :: "u32 \<Rightarrow> u8 \<Rightarrow> 'w \<Rightarrow> 'w option"
  p_junk :: mp1_blink_struct

abbreviation (input) CELLS :: nat where "CELLS \<equiv> 2000"
abbreviation (input) STRUCT_SIZE :: nat where "STRUCT_SIZE \<equiv> 16"

text \<open>The layout of the packed structure.\<close>

definition w16_bytes :: "u16 \<Rightarrow> u8 list" where
  "w16_bytes v = [ucast v, ucast (drop_bit 8 v)]"

definition w32_bytes :: "u32 \<Rightarrow> u8 list" where
  "w32_bytes v = [ucast v, ucast (drop_bit 8 v), ucast (drop_bit 16 v), ucast (drop_bit 24 v)]"

definition w16_of :: "u8 list \<Rightarrow> nat \<Rightarrow> u16" where
  "w16_of bs i = ucast (bs ! i) OR push_bit 8 (ucast (bs ! (i + 1)))"

definition blink_bytes :: "mp1_blink_struct \<Rightarrow> u8 list" where
  "blink_bytes b = w16_bytes (location b) @ [on_char b, off_char b] @ w16_bytes (on_length b) @ w16_bytes (off_length b) @
     w16_bytes (countdown b) @ w16_bytes (status b) @ w32_bytes (next_ptr b)"

definition blink_of :: "u8 list \<Rightarrow> mp1_blink_struct" where
  "blink_of bs = \<lparr> location = w16_of bs 0, on_char = bs ! 2, off_char = bs ! 3, on_length = w16_of bs 4, off_length = w16_of bs 6,
     countdown = w16_of bs 8, status = w16_of bs 10, next_ptr = le32 ((!) bs) 12 \<rparr>"

function blinks_of :: "u8 list \<Rightarrow> mp1_blink_struct list" where
  "blinks_of bs = (if length bs < STRUCT_SIZE then [] else blink_of (take STRUCT_SIZE bs) # blinks_of (drop STRUCT_SIZE bs))"
  by pat_completeness auto
termination by (relation "measure length") auto

section \<open>Memory (fish.c)\<close>

primrec memset_loop :: "u8 list \<Rightarrow> u8 \<Rightarrow> nat \<Rightarrow> nat \<Rightarrow> u8 list option" where
  "memset_loop a c i 0 = Some a"
| "memset_loop a c i (Suc k) = do { a \<leftarrow> aset a i c; memset_loop a c (i + 1) k }"

definition ece391_memset :: "u8 list \<Rightarrow> u8 \<Rightarrow> int \<Rightarrow> u8 list option" where
  "ece391_memset memory c n = memset_loop memory c 0 (nat n)"

primrec memcpy_loop :: "u8 list \<Rightarrow> u8 list \<Rightarrow> nat \<Rightarrow> nat \<Rightarrow> u8 list option" where
  "memcpy_loop d s i 0 = Some d"
| "memcpy_loop d s i (Suc k) = do { b \<leftarrow> aget s i; d \<leftarrow> aset d i b; memcpy_loop d s (i + 1) k }"

definition ece391_memcpy :: "u8 list \<Rightarrow> u8 list \<Rightarrow> int \<Rightarrow> (i32 \<times> u8 list) option" where
  "ece391_memcpy dest src n = do { d \<leftarrow> memcpy_loop dest src 0 (nat n); Some (0, d) }"

text \<open>\<open>memcpy\<close> from one structure to another.\<close>

definition copy_struct :: "mp1_blink_struct \<Rightarrow> mp1_blink_struct \<Rightarrow> (i32 \<times> mp1_blink_struct) option" where
  "copy_struct d s = do { (r, bs) \<leftarrow> ece391_memcpy (blink_bytes d) (blink_bytes s) (int STRUCT_SIZE); Some (r, blink_of bs) }"

definition elem_addr :: "'w process \<Rightarrow> nat \<Rightarrow> u32" where
  "elem_addr P i = p_array P + of_nat (STRUCT_SIZE * i)"

text \<open>The element a pointer points to.\<close>

definition elem :: "'w process \<Rightarrow> mp1 \<Rightarrow> u32 \<Rightarrow> nat option" where
  "elem P x p = (let off = unat (p - p_array P)
     in if off mod STRUCT_SIZE = 0 \<and> off div STRUCT_SIZE < length (blink_array x) then Some (off div STRUCT_SIZE) else None)"

definition upd_elem :: "nat \<Rightarrow> (mp1_blink_struct \<Rightarrow> mp1_blink_struct) \<Rightarrow> mp1 \<Rightarrow> mp1" where
  "upd_elem i f x = x\<lparr> blink_array := (blink_array x)[i := f (blink_array x ! i)] \<rparr>"

function malloc_loop :: "'w process \<Rightarrow> mp1 \<Rightarrow> nat \<Rightarrow> u32 option" where
  "malloc_loop P x i =
     (if i < CELLS then
        if i < length (blink_array x) then
          if location (blink_array x ! i) = 0 then Some (elem_addr P i) else malloc_loop P x (i + 1)
        else None
      else Some 0)"
  by pat_completeness auto
termination by (relation "measure (\<lambda>(P, x, i). CELLS - i)") auto

definition mp1_malloc :: "'w process \<Rightarrow> mp1 \<Rightarrow> u32 option" where
  "mp1_malloc P x = malloc_loop P x 0"

definition mp1_free :: "'w process \<Rightarrow> u32 \<Rightarrow> mp1 \<Rightarrow> mp1 option" where
  "mp1_free P p x =
     do { i \<leftarrow> elem P x p;
          bs \<leftarrow> ece391_memset (blink_bytes (blink_array x ! i)) 0 (int STRUCT_SIZE);
          Some (upd_elem i (\<lambda>_. blink_of bs) x) }"

section \<open>The driver (blink.S)\<close>

definition mp1_poke :: "'w process \<Rightarrow> u8 \<Rightarrow> u32 \<Rightarrow> 'w \<Rightarrow> 'w option" where
  "mp1_poke P cl eax w = p_store P (p_load P (p_vmem P) w + eax) cl w"

text \<open>The interrupt's work on one element.\<close>

definition tick_elem :: "'w process \<Rightarrow> mp1_blink_struct \<Rightarrow> 'w \<Rightarrow> (mp1_blink_struct \<times> 'w) option" where
  "tick_elem P b w =
     (let b = b\<lparr> countdown := countdown b - 1 \<rparr>
      in if 0 < sint (countdown b) then Some (b, w)
         else let eax = push_bit 1 (ucast (location b))
              in if bit (status b) 0
                 then do { w \<leftarrow> mp1_poke P (off_char b) eax w;
                           Some (b\<lparr> countdown := off_length b, status := status b XOR 1 \<rparr>, w) }
                 else do { w \<leftarrow> mp1_poke P (on_char b) eax w;
                           Some (b\<lparr> countdown := on_length b, status := status b XOR 1 \<rparr>, w) })"

partial_function (option) tasklet_loop :: "'w process \<Rightarrow> u32 \<Rightarrow> mp1 \<Rightarrow> 'w \<Rightarrow> (mp1 \<times> 'w) option" where
  "tasklet_loop pr ebx d w =
     (if ebx = 0 then Some (d, w)
      else do { i \<leftarrow> elem pr d ebx;
                (b, w) \<leftarrow> tick_elem pr (blink_array d ! i) w;
                tasklet_loop pr (next_ptr b) (upd_elem i (\<lambda>_. b) d) w })"

definition mp1_rtc_tasklet :: "'w process \<Rightarrow> mp1 \<Rightarrow> 'w \<Rightarrow> (mp1 \<times> 'w) option" where
  "mp1_rtc_tasklet P x w = tasklet_loop P (mp1_list_head x) x w"

partial_function (option) find_loop :: "'w process \<Rightarrow> u16 \<Rightarrow> u32 \<Rightarrow> mp1 \<Rightarrow> u32 option" where
  "find_loop P ax ebx x =
     (if ebx = 0 then Some 0
      else do { i \<leftarrow> elem P x ebx;
                if location (blink_array x ! i) = ax then Some ebx
                else find_loop P ax (next_ptr (blink_array x ! i)) x })"

definition mp1_find_helper :: "'w process \<Rightarrow> u32 \<Rightarrow> mp1 \<Rightarrow> u32 option" where
  "mp1_find_helper P arg x = find_loop P (ucast arg) (mp1_list_head x) x"

definition mp1_ioctl_add :: "'w process \<Rightarrow> mp1_blink_struct \<Rightarrow> mp1 \<Rightarrow> 'w \<Rightarrow> (i32 \<times> mp1 \<times> 'w) option" where
  "mp1_ioctl_add P arg x w =
     do { (r, b) \<leftarrow> copy_struct (p_junk P) arg;
          if r \<noteq> 0 \<or> 2000 \<le> location b then Some (-1, x, w)
          else do {
            let b = b\<lparr> status := 1, countdown := on_length b \<rparr>;
            p \<leftarrow> mp1_malloc P x;
            if p = 0 then Some (-1, x, w)
            else do {
              i \<leftarrow> elem P x p;
              (_, b) \<leftarrow> copy_struct (blink_array x ! i) b;
              let x = (upd_elem i (\<lambda>_. b\<lparr> next_ptr := mp1_list_head x \<rparr>) x)\<lparr> mp1_list_head := p \<rparr>;
              w \<leftarrow> mp1_poke P (on_char b) (push_bit 1 (ucast (location b))) w;
              Some (0, x, w) } } }"

text \<open>The place of a pointer: the list head, or the \<open>next\<close> of an element.\<close>

definition link :: "nat option \<Rightarrow> mp1 \<Rightarrow> u32" where
  "link prev x = (case prev of None \<Rightarrow> mp1_list_head x | Some i \<Rightarrow> next_ptr (blink_array x ! i))"

definition set_link :: "nat option \<Rightarrow> u32 \<Rightarrow> mp1 \<Rightarrow> mp1" where
  "set_link prev p x = (case prev of None \<Rightarrow> x\<lparr> mp1_list_head := p \<rparr> | Some i \<Rightarrow> upd_elem i (\<lambda>b. b\<lparr> next_ptr := p \<rparr>) x)"

partial_function (option) find_prev :: "'w process \<Rightarrow> u32 \<Rightarrow> nat option \<Rightarrow> mp1 \<Rightarrow> nat option option" where
  "find_prev P eax prev x =
     (if link prev x = eax then Some prev
      else do { i \<leftarrow> elem P x (link prev x); find_prev P eax (Some i) x })"

definition mp1_ioctl_remove :: "'w process \<Rightarrow> u32 \<Rightarrow> mp1 \<Rightarrow> (i32 \<times> mp1) option" where
  "mp1_ioctl_remove P arg x =
     do { eax \<leftarrow> mp1_find_helper P arg x;
          if eax = 0 then Some (-1, x)
          else do { prev \<leftarrow> find_prev P eax None x;
                    i \<leftarrow> elem P x eax;
                    let x = set_link prev (next_ptr (blink_array x ! i)) x;
                    x \<leftarrow> mp1_free P eax x;
                    Some (0, x) } }"

text \<open>After \<open>testb $0x1,STATUS(%edi)\<close> the move \<open>cmovl\<close> is done when the sign flag differs from the
  overflow flag, that is, when the byte tested is negative.\<close>

definition mp1_ioctl_sync :: "'w process \<Rightarrow> u32 \<Rightarrow> mp1 \<Rightarrow> 'w \<Rightarrow> (i32 \<times> mp1 \<times> 'w) option" where
  "mp1_ioctl_sync P arg x w =
     do { esi \<leftarrow> mp1_find_helper P (drop_bit 16 arg) x;
          if esi = 0 then Some (-1, x, w)
          else do {
            edi \<leftarrow> mp1_find_helper P (arg AND 0xFFFF) x;
            if edi = 0 then Some (-1, x, w)
            else do {
              i \<leftarrow> elem P x esi;
              j \<leftarrow> elem P x edi;
              let s = blink_array x ! i;
              let x = upd_elem j (\<lambda>d. d\<lparr> on_length := on_length s, off_length := off_length s, countdown := countdown s, status := status s \<rparr>) x;
              let d = blink_array x ! j;
              let ecx = (if sint (ucast (status d) AND 1 :: u8) < 0 then on_char d else off_char d);
              w \<leftarrow> mp1_poke P ecx (push_bit 1 (ucast (location d))) w;
              Some (0, x, w) } } }"

definition mp1_ioctl_find :: "'w process \<Rightarrow> mp1_blink_struct \<Rightarrow> mp1 \<Rightarrow> (i32 \<times> mp1_blink_struct) option" where
  "mp1_ioctl_find P arg x =
     do { (r, bs) \<leftarrow> ece391_memcpy (take 2 (blink_bytes (p_junk P))) (blink_bytes arg) 2;
          if r \<noteq> 0 then Some (-1, arg)
          else do {
            eax \<leftarrow> mp1_find_helper P (ucast (w16_of bs 0)) x;
            if eax = 0 then Some (-1, arg)
            else do { i \<leftarrow> elem P x eax;
                      (r, arg) \<leftarrow> copy_struct arg (blink_array x ! i);
                      Some (if r = 0 then 0 else -1, arg) } } }"

text \<open>The argument of \<open>mp1_ioctl\<close> is a number, or the address of a structure.\<close>

datatype ioctl_arg = Number u32 | Struct mp1_blink_struct

definition mp1_ioctl :: "'w process \<Rightarrow> ioctl_arg \<Rightarrow> u32 \<Rightarrow> mp1 \<Rightarrow> 'w \<Rightarrow> (i32 \<times> ioctl_arg \<times> mp1 \<times> 'w) option" where
  "mp1_ioctl P arg cmd x w =
     (case arg of
        Struct b \<Rightarrow>
          if cmd = 0 then do { (r, x, w) \<leftarrow> mp1_ioctl_add P b x w; Some (r, arg, x, w) }
          else if cmd = 2 then do { (r, b) \<leftarrow> mp1_ioctl_find P b x; Some (r, Struct b, x, w) }
          else None
      | Number n \<Rightarrow>
          if cmd = 1 then do { (r, x) \<leftarrow> mp1_ioctl_remove P n x; Some (r, arg, x, w) }
          else if cmd = 3 then do { (r, x, w) \<leftarrow> mp1_ioctl_sync P n x w; Some (r, arg, x, w) }
          else None)"

section \<open>The program (fish.c)\<close>

abbreviation (input) RTC_ADD :: u32 where "RTC_ADD \<equiv> 0"
abbreviation (input) RTC_REMOVE :: u32 where "RTC_REMOVE \<equiv> 1"
abbreviation (input) RTC_SYNC :: u32 where "RTC_SYNC \<equiv> 3"
abbreviation (input) WAIT :: nat where "WAIT \<equiv> 200"

text \<open>\<open>if(c != '\n') { ... }\<close>: the next byte of a frame's line.\<close>

definition next_byte :: "'w sys \<Rightarrow> i32 \<Rightarrow> u8 \<Rightarrow> bool \<Rightarrow> 'w \<Rightarrow> (u8 \<times> bool \<times> 'w) option" where
  "next_byte S fd c eof w =
     (if c \<noteq> 10 then
        do { (num_bytes, b, w) \<leftarrow> s_read S fd [c] 1 w;
             c \<leftarrow> aget b 0;
             if num_bytes = 0 then Some (10, True, w) else Some (c, eof, w) }
      else Some (c, eof, w))"

definition frame_blink :: "'w process \<Rightarrow> u8 \<Rightarrow> u8 \<Rightarrow> int \<Rightarrow> mp1_blink_struct" where
  "frame_blink P c0 c1 loc =
     (p_junk P)\<lparr> on_length := 15, off_length := 15, on_char := (if c0 = 10 then 32 else c0),
       off_char := (if c1 = 10 then 32 else c1), location := of_int loc \<rparr>"

partial_function (option) frame_row ::
  "'w process \<Rightarrow> 'w sys \<Rightarrow> i32 \<Rightarrow> i32 \<Rightarrow> int \<Rightarrow> int \<Rightarrow> u8 \<Rightarrow> bool \<Rightarrow> u8 \<Rightarrow> bool \<Rightarrow> mp1 \<Rightarrow> 'w \<Rightarrow> (bool \<times> bool \<times> mp1 \<times> 'w) option" where
  "frame_row P S fd0 fd1 row col c0 eof0 c1 eof1 x w =
     do { (c0, eof0, w) \<leftarrow> next_byte S fd0 c0 eof0 w;
          (c1, eof1, w) \<leftarrow> next_byte S fd1 c1 eof1 w;
          if c0 = 10 \<and> c1 = 10 then Some (eof0, eof1, x, w)
          else if c0 \<noteq> 32 \<and> c0 \<noteq> 10 \<or> c1 \<noteq> 32 \<and> c1 \<noteq> 10
          then do { (_, _, x, w) \<leftarrow> mp1_ioctl P (Struct (frame_blink P c0 c1 (row * 80 + col + 40))) RTC_ADD x w;
                    frame_row P S fd0 fd1 row (col + 1) c0 eof0 c1 eof1 x w }
          else frame_row P S fd0 fd1 row (col + 1) c0 eof0 c1 eof1 x w }"

text \<open>\<open>if(eof) { c = '\n'; close(fd); } else c = '0'\<close>.\<close>

definition line_end :: "'w sys \<Rightarrow> i32 \<Rightarrow> bool \<Rightarrow> 'w \<Rightarrow> (u8 \<times> 'w) option" where
  "line_end S fd eof w = (if eof then do { (_, w) \<leftarrow> s_close S fd w; Some (10, w) } else Some (48, w))"

partial_function (option) frame_rows ::
  "'w process \<Rightarrow> 'w sys \<Rightarrow> i32 \<Rightarrow> i32 \<Rightarrow> int \<Rightarrow> u8 \<Rightarrow> bool \<Rightarrow> u8 \<Rightarrow> bool \<Rightarrow> mp1 \<Rightarrow> 'w \<Rightarrow> (mp1 \<times> 'w) option" where
  "frame_rows P S fd0 fd1 row c0 eof0 c1 eof1 x w =
     (if \<not> eof0 \<or> \<not> eof1
      then do { (eof0, eof1, x, w) \<leftarrow> frame_row P S fd0 fd1 row 0 c0 eof0 c1 eof1 x w;
                (c0, w) \<leftarrow> line_end S fd0 eof0 w;
                (c1, w) \<leftarrow> line_end S fd1 eof1 w;
                frame_rows P S fd0 fd1 (row + 1) c0 eof0 c1 eof1 x w }
      else Some (x, w))"

text \<open>\<open>ece391_halt\<close> does not return: \<open>Inl\<close> is its argument.\<close>

definition add_frames :: "'w process \<Rightarrow> 'w sys \<Rightarrow> u8 list \<Rightarrow> u8 list \<Rightarrow> mp1 \<Rightarrow> 'w \<Rightarrow> (u8 \<times> 'w + mp1 \<times> 'w) option" where
  "add_frames P S f0 f1 x w =
     do { (fd0, w) \<leftarrow> s_open S f0 w;
          if sint fd0 < 0 then Some (Inl (-1, w))
          else do {
            (fd1, w) \<leftarrow> s_open S f1 w;
            if sint fd1 < 0 then Some (Inl (-1, w))
            else do { (x, w) \<leftarrow> frame_rows P S fd0 fd1 0 48 False 48 False x w; Some (Inr (x, w)) } } }"

definition mp1_set_video_mode :: "'w process \<Rightarrow> 'w sys \<Rightarrow> 'w \<Rightarrow> (u32 \<times> 'w) option" where
  "mp1_set_video_mode P S w =
     do { (r, w) \<leftarrow> s_vidmap S (p_vmem P) w;
          if r = -1 then Some (0, w) else Some (p_load P (p_vmem P) w, w) }"

text \<open>\<open>n\<close> rounds of waiting for the clock and updating the screen; \<open>g\<close> is \<open>garbage\<close>.\<close>

primrec fish_wait :: "'w process \<Rightarrow> 'w sys \<Rightarrow> i32 \<Rightarrow> nat \<Rightarrow> u8 list \<Rightarrow> mp1 \<Rightarrow> 'w \<Rightarrow> (u8 list \<times> mp1 \<times> 'w) option" where
  "fish_wait P S fd 0 g x w = Some (g, x, w)"
| "fish_wait P S fd (Suc n) g x w =
     do { (_, g, w) \<leftarrow> s_read S fd g 4 w;
          (x, w) \<leftarrow> mp1_rtc_tasklet P x w;
          fish_wait P S fd n g x w }"

definition fish_show :: "'w process \<Rightarrow> 'w sys \<Rightarrow> i32 \<Rightarrow> u8 list \<Rightarrow> mp1 \<Rightarrow> 'w \<Rightarrow> (mp1 \<times> 'w) option" where
  "fish_show P S rtc_fd g x w =
     do { (_, w) \<leftarrow> s_write S rtc_fd [32, 0, 0, 0] 4 w;
          (g, x, w) \<leftarrow> fish_wait P S rtc_fd WAIT g x w;
          (_, _, x, w) \<leftarrow> mp1_ioctl P (Struct ((p_junk P)\<lparr> on_char := 73, off_char := 77, on_length := 7, off_length := 6, location := 6 * 80 + 60 \<rparr>)) RTC_ADD x w;
          (g, x, w) \<leftarrow> fish_wait P S rtc_fd WAIT g x w;
          (_, _, x, w) \<leftarrow> mp1_ioctl P (Number (push_bit 16 40 OR (6 * 80 + 60))) RTC_SYNC x w;
          (g, x, w) \<leftarrow> fish_wait P S rtc_fd WAIT g x w;
          (_, _, x, w) \<leftarrow> mp1_ioctl P (Number (of_nat WAIT)) RTC_REMOVE x w;
          (g, x, w) \<leftarrow> fish_wait P S rtc_fd CELLS g x w;
          (_, w) \<leftarrow> s_close S rtc_fd w;
          Some (x, w) }"

datatype fish_end = Fish_returned i32 | Fish_halted u8

definition fish_main :: "'w process \<Rightarrow> 'w sys \<Rightarrow> u8 list \<Rightarrow> mp1 \<Rightarrow> 'w \<Rightarrow> (fish_end \<times> mp1 \<times> 'w) option" where
  "fish_main P S g x w =
     do { bs \<leftarrow> ece391_memset (concat (map blink_bytes (blink_array x))) 0 (int (STRUCT_SIZE * CELLS));
          let x = x\<lparr> blink_array := blinks_of bs \<rparr>;
          (base, w) \<leftarrow> mp1_set_video_mode P S w;
          if base = 0 then Some (Fish_returned (-1), x, w)
          else do {
            (rtc_fd, w) \<leftarrow> s_open S (str ''rtc'') w;
            r \<leftarrow> add_frames P S (str ''frame0.txt'') (str ''frame1.txt'') x w;
            (case r of Inl (s, w) \<Rightarrow> Some (Fish_halted s, x, w)
             | Inr (x, w) \<Rightarrow> do { (x, w) \<leftarrow> fish_show P S rtc_fd g x w; Some (Fish_returned 0, x, w) }) } }"

section \<open>Copying and clearing structures\<close>

declare malloc_loop.simps [simp del] blinks_of.simps [simp del]

lemma memset_loop_fill: "i + k \<le> length a \<Longrightarrow> memset_loop a c i k = Some (take i a @ replicate k c @ drop (i + k) a)"
proof (induction k arbitrary: a i)
  case (Suc k)
  then have "memset_loop a c i (Suc k) = memset_loop (a[i := c]) c (i + 1) k" by simp
  then show ?case using Suc by (simp add: take_update_swap take_Suc_conv_app_nth list_update_append)
qed simp

lemma memcpy_loop_copy:
  "i + k \<le> length d \<Longrightarrow> i + k \<le> length s \<Longrightarrow> memcpy_loop d s i k = Some (take i d @ take k (drop i s) @ drop (i + k) d)"
proof (induction k arbitrary: d i)
  case (Suc k)
  then have "memcpy_loop d s i (Suc k) = memcpy_loop (d[i := s ! i]) s (i + 1) k" by simp
  moreover have "take (Suc k) (drop i s) = s ! i # take k (drop (Suc i) s)"
    using Suc.prems(2) by (simp add: Cons_nth_drop_Suc[symmetric])
  ultimately show ?case using Suc by (simp add: take_update_swap take_Suc_conv_app_nth list_update_append)
qed simp

lemma blink_bytes_length [simp]: "length (blink_bytes b) = 16"
  by (simp add: blink_bytes_def w16_bytes_def w32_bytes_def)

lemma w16_bytes_round_trip: "ucast (ucast v :: u8) OR push_bit 8 (ucast (ucast (drop_bit 8 v) :: u8)) = v" for v :: u16
  by (rule bit_word_eqI) (auto simp: bit_simps)

lemma w32_bytes_round_trip:
  "ucast (ucast v :: u8) OR push_bit 8 (ucast (ucast (drop_bit 8 v) :: u8)) OR push_bit 16 (ucast (ucast (drop_bit 16 v) :: u8))
     OR push_bit 24 (ucast (ucast (drop_bit 24 v) :: u8)) = v" for v :: u32
proof (rule bit_word_eqI)
  fix n assume "n < LENGTH(32)"
  then show "bit (ucast (ucast v :: u8) OR push_bit 8 (ucast (ucast (drop_bit 8 v) :: u8)) OR push_bit 16 (ucast (ucast (drop_bit 16 v) :: u8))
     OR push_bit 24 (ucast (ucast (drop_bit 24 v) :: u8)) :: u32) n = bit v n"
    by (cases "24 \<le> n"; cases "16 \<le> n") (auto simp: bit_simps)
qed

lemma blink_of_bytes [simp]: "blink_of (blink_bytes b) = b"
  by (simp add: blink_of_def blink_bytes_def w16_bytes_def w32_bytes_def w16_of_def le32_def w16_bytes_round_trip w32_bytes_round_trip)

lemma copy_struct_eq [simp]: "copy_struct d s = Some (0, s)"
  by (simp add: copy_struct_def ece391_memcpy_def memcpy_loop_copy)

definition zero_blink :: mp1_blink_struct where
  "zero_blink = \<lparr> location = 0, on_char = 0, off_char = 0, on_length = 0, off_length = 0, countdown = 0, status = 0, next_ptr = 0 \<rparr>"

lemma blink_of_zero: "blink_of (replicate 16 0) = zero_blink"
  by (simp add: blink_of_def w16_of_def le32_def zero_blink_def)

lemma blinks_of_zero: "blinks_of (replicate (16 * n) 0) = replicate n zero_blink"
  by (induction n) (simp_all add: blinks_of.simps[of "replicate (16 + _) _"] blinks_of.simps[of "[]"] blink_of_zero)

lemma memset_array:
  assumes "length a = n"
  shows "ece391_memset (concat (map blink_bytes a)) 0 (int (16 * n)) = Some (replicate (16 * n) 0)"
proof -
  have "length (concat (map blink_bytes a)) = 16 * n" using assms by (induction a arbitrary: n) (auto simp: length_concat)
  then show ?thesis by (simp add: ece391_memset_def memset_loop_fill nat_mult_distrib)
qed

section \<open>The list as a list\<close>

text \<open>The array is in memory, with no element at address 0.\<close>

definition array_ok :: "'w process \<Rightarrow> bool" where
  "array_ok P \<longleftrightarrow> 0 < unat (p_array P) \<and> unat (p_array P) + 32000 \<le> 2 ^ 32"

primrec linked :: "'w process \<Rightarrow> mp1_blink_struct list \<Rightarrow> u32 \<Rightarrow> nat list \<Rightarrow> bool" where
  "linked P a p [] \<longleftrightarrow> p = 0"
| "linked P a p (i # is) \<longleftrightarrow> p = elem_addr P i \<and> i < length a \<and> linked P a (next_ptr (a ! i)) is"

definition content :: "mp1_blink_struct \<Rightarrow> mp1_blink_struct" where
  "content b = b\<lparr> next_ptr := 0 \<rparr>"

text \<open>The elements \<open>is\<close> are linked from the head, they are the elements in use, and \<open>bs\<close> is what
  they hold.\<close>

definition rep :: "'w process \<Rightarrow> mp1 \<Rightarrow> nat list \<Rightarrow> mp1_blink_struct list \<Rightarrow> bool" where
  "rep P x is bs \<longleftrightarrow> array_ok P \<and> length (blink_array x) = CELLS \<and> linked P (blink_array x) (mp1_list_head x) is \<and> distinct is \<and>
     (\<forall>i < CELLS. i \<in> set is \<longleftrightarrow> location (blink_array x ! i) \<noteq> 0) \<and> bs = map (\<lambda>i. content (blink_array x ! i)) is"

lemma content_sel [simp]:
  "location (content b) = location b" "on_char (content b) = on_char b" "off_char (content b) = off_char b"
  "on_length (content b) = on_length b" "off_length (content b) = off_length b" "countdown (content b) = countdown b"
  "status (content b) = status b" "next_ptr (content b) = 0"
  by (simp_all add: content_def)

lemma unat_elem_addr: "array_ok P \<Longrightarrow> i < CELLS \<Longrightarrow> unat (elem_addr P i) = unat (p_array P) + 16 * i"
proof -
  assume a: "array_ok P" "i < CELLS"
  then have "unat (of_nat (16 * i) :: u32) = 16 * i" by (intro unat_of_nat_32) simp
  then show ?thesis using a unfolding elem_addr_def by (simp add: array_ok_def unat_word_ariths)
qed

lemma elem_addr_nonzero: "array_ok P \<Longrightarrow> i < CELLS \<Longrightarrow> elem_addr P i \<noteq> 0"
  using unat_elem_addr[of P i] by (auto simp: array_ok_def)

lemma elem_addr_inj: "array_ok P \<Longrightarrow> i < CELLS \<Longrightarrow> j < CELLS \<Longrightarrow> elem_addr P i = elem_addr P j \<longleftrightarrow> i = j"
  by (auto dest: arg_cong[of _ _ unat] simp: unat_elem_addr)

lemma elem_elem_addr: "array_ok P \<Longrightarrow> length (blink_array x) = CELLS \<Longrightarrow> i < CELLS \<Longrightarrow> elem P x (elem_addr P i) = Some i"
proof -
  assume a: "array_ok P" "length (blink_array x) = CELLS" "i < CELLS"
  have "unat (of_nat (16 * i) :: u32) = 16 * i" using a(3) by (intro unat_of_nat_32) simp
  then show ?thesis using a by (simp add: elem_def elem_addr_def Let_def)
qed

lemma linked_update: "i \<notin> set is \<Longrightarrow> linked P (a[i := b]) p is \<longleftrightarrow> linked P a p is"
  by (induction "is" arbitrary: p) auto

text \<open>Changing a structure but not its link.\<close>

lemma linked_keep: "(\<And>i. i < length a \<Longrightarrow> next_ptr (a' ! i) = next_ptr (a ! i)) \<Longrightarrow> length a' = length a \<Longrightarrow> linked P a' p is \<longleftrightarrow> linked P a p is"
  by (induction "is" arbitrary: p) auto

lemma linked_less: "linked P a p is \<Longrightarrow> i \<in> set is \<Longrightarrow> i < length a"
  by (induction "is" arbitrary: p) auto

lemma rep_less: "rep P x is bs \<Longrightarrow> i \<in> set is \<Longrightarrow> i < CELLS"
  using linked_less[of P "blink_array x" "mp1_list_head x" "is" i] by (simp add: rep_def)

lemma upd_elem_sel [simp]:
  "length (blink_array (upd_elem i f x)) = length (blink_array x)" "mp1_list_head (upd_elem i f x) = mp1_list_head x"
  "i < length (blink_array x) \<Longrightarrow> blink_array (upd_elem i f x) ! j = (if i = j then f (blink_array x ! i) else blink_array x ! j)"
  by (simp_all add: upd_elem_def nth_list_update)

section \<open>The operations on the list\<close>

primrec a_tick :: "'w process \<Rightarrow> mp1_blink_struct list \<Rightarrow> 'w \<Rightarrow> (mp1_blink_struct list \<times> 'w) option" where
  "a_tick P [] w = Some ([], w)"
| "a_tick P (b # bs) w = do { (b, w) \<leftarrow> tick_elem P b w; (bs, w) \<leftarrow> a_tick P bs w; Some (b # bs, w) }"

primrec upd_first :: "('a \<Rightarrow> bool) \<Rightarrow> ('a \<Rightarrow> 'a) \<Rightarrow> 'a list \<Rightarrow> 'a list" where
  "upd_first q f [] = []"
| "upd_first q f (b # bs) = (if q b then f b # bs else b # upd_first q f bs)"

primrec drop_first :: "('a \<Rightarrow> bool) \<Rightarrow> 'a list \<Rightarrow> 'a list" where
  "drop_first q [] = []"
| "drop_first q (b # bs) = (if q b then bs else b # drop_first q bs)"

abbreviation (input) placed :: "u16 \<Rightarrow> mp1_blink_struct \<Rightarrow> bool" where
  "placed l b \<equiv> location b = l"

lemma first_split:
  assumes "\<forall>b \<in> set bs. \<not> q b" and "q b"
  shows "find q (bs @ b # ds) = Some b" and "upd_first q f (bs @ b # ds) = bs @ f b # ds" and "drop_first q (bs @ b # ds) = bs @ ds"
  using assms by (induction bs) simp_all

text \<open>What a search in the pointer structure finds, in terms of the list.\<close>

lemma rep_find:
  assumes "rep P x is bs"
  obtains (absent) "find (placed l) bs = None" "\<forall>i \<in> set is. location (blink_array x ! i) \<noteq> l"
  | (found) pre i post where "is = pre @ i # post" "location (blink_array x ! i) = l" "\<forall>j \<in> set pre. location (blink_array x ! j) \<noteq> l"
      "find (placed l) bs = Some (content (blink_array x ! i))"
proof (cases "\<exists>i \<in> set is. location (blink_array x ! i) = l")
  case True
  then obtain pre i post where s: "is = pre @ i # post" "location (blink_array x ! i) = l" "\<forall>j \<in> set pre. location (blink_array x ! j) \<noteq> l"
    by (elim split_list_first_propE) blast
  have "find (placed l) bs = Some (content (blink_array x ! i))"
    using assms s(2,3) first_split(1)[of "map (\<lambda>i. content (blink_array x ! i)) pre" "placed l"] by (simp add: rep_def s(1))
  with s found show thesis by blast
next
  case False
  then have "find (placed l) bs = None" using assms by (auto simp: rep_def find_None_iff)
  with False absent show thesis by blast
qed

lemma find_loop_none:
  "array_ok P \<Longrightarrow> length (blink_array x) = CELLS \<Longrightarrow> linked P (blink_array x) p is \<Longrightarrow> \<forall>i \<in> set is. location (blink_array x ! i) \<noteq> l \<Longrightarrow>
    find_loop P l p x = Some 0"
  by (induction "is" arbitrary: p) (simp_all add: find_loop.simps elem_elem_addr elem_addr_nonzero)

lemma find_loop_some:
  "array_ok P \<Longrightarrow> length (blink_array x) = CELLS \<Longrightarrow> linked P (blink_array x) p (pre @ i # post) \<Longrightarrow>
    \<forall>j \<in> set pre. location (blink_array x ! j) \<noteq> l \<Longrightarrow> location (blink_array x ! i) = l \<Longrightarrow> find_loop P l p x = Some (elem_addr P i)"
  by (induction pre arbitrary: p) (simp_all add: find_loop.simps elem_elem_addr elem_addr_nonzero)

lemma find_prev_split:
  "array_ok P \<Longrightarrow> length (blink_array x) = CELLS \<Longrightarrow> linked P (blink_array x) (link prev x) (pre @ i # post) \<Longrightarrow> i \<notin> set pre \<Longrightarrow>
    find_prev P (elem_addr P i) prev x = Some (if pre = [] then prev else Some (last pre))"
proof (induction pre arbitrary: prev)
  case (Cons j pre)
  have j: "j < CELLS" "link prev x = elem_addr P j" using Cons.prems(2,3) by auto
  have i: "i < CELLS" using linked_less[OF Cons.prems(3), of i] Cons.prems(2) by simp
  have "elem_addr P j \<noteq> elem_addr P i" using elem_addr_inj[OF Cons.prems(1) j(1) i] Cons.prems(4) by auto
  then show ?case using Cons.IH[of "Some j"] Cons.prems j by (subst find_prev.simps) (simp add: elem_elem_addr link_def)
qed (simp add: find_prev.simps)

lemma malloc_loop_cases:
  "length (blink_array x) = CELLS \<Longrightarrow>
    malloc_loop P x i = Some 0 \<and> (\<forall>j. i \<le> j \<and> j < CELLS \<longrightarrow> location (blink_array x ! j) \<noteq> 0) \<or>
    (\<exists>j < CELLS. malloc_loop P x i = Some (elem_addr P j) \<and> location (blink_array x ! j) = 0)"
proof (induction "CELLS - i" arbitrary: i)
  case 0
  then show ?case by (intro disjI1) (subst malloc_loop.simps, auto)
next
  case (Suc k)
  then have i: "i < CELLS" by simp
  show ?case
  proof (cases "location (blink_array x ! i) = 0")
    case True
    then show ?thesis using i Suc.prems by (intro disjI2 exI[of _ i]) (simp add: malloc_loop.simps)
  next
    case False
    then have "malloc_loop P x i = malloc_loop P x (i + 1)" using i Suc.prems by (subst malloc_loop.simps) simp
    moreover have "\<forall>j. i \<le> j \<longrightarrow> j = i \<or> i + 1 \<le> j" by auto
    ultimately show ?thesis using Suc.hyps(1)[of "i + 1"] Suc.hyps(2) Suc.prems False by auto
  qed
qed

lemma rep_malloc:
  assumes "rep P x is bs"
  obtains (full) "mp1_malloc P x = Some 0" "length bs = CELLS"
  | (free) i where "mp1_malloc P x = Some (elem_addr P i)" "i < CELLS" "i \<notin> set is" "length bs < CELLS"
proof -
  have r: "length (blink_array x) = CELLS" "length bs = length is" "length is = card (set is)" "set is \<subseteq> {..<CELLS}"
    "\<forall>i < CELLS. i \<in> set is \<longleftrightarrow> location (blink_array x ! i) \<noteq> 0"
    using assms rep_less[OF assms] distinct_card[of "is"] by (auto simp: rep_def)
  from malloc_loop_cases[OF r(1), of P 0] consider
    "malloc_loop P x 0 = Some 0" "\<forall>j < CELLS. location (blink_array x ! j) \<noteq> 0" |
    j where "j < CELLS" "malloc_loop P x 0 = Some (elem_addr P j)" "location (blink_array x ! j) = 0" by auto
  then show thesis
  proof cases
    case 1
    then have "set is = {..<CELLS}" using r(4,5) by auto
    then show thesis using full 1(1) r(2,3) by (simp add: mp1_malloc_def)
  next
    case 2
    then have j: "j \<notin> set is" using r(5) by blast
    then have "set is \<subset> {..<CELLS}" using r(4) 2(1) by blast
    then have "length bs < CELLS" using psubset_card_mono[of "{..<CELLS}" "set is"] r(2,3) by simp
    then show thesis using free 2(1,2) j by (simp add: mp1_malloc_def)
  qed
qed

text \<open>Adding: a new structure at the front, shown at once.\<close>

definition started :: "mp1_blink_struct \<Rightarrow> mp1_blink_struct" where
  "started b = content (b\<lparr> status := 1, countdown := on_length b \<rparr>)"

lemma rep_add_cell:
  assumes "rep P x is bs" and "i < CELLS" and "i \<notin> set is" and "location b \<noteq> 0"
  shows "rep P ((upd_elem i (\<lambda>_. b\<lparr> next_ptr := mp1_list_head x \<rparr>) x)\<lparr> mp1_list_head := elem_addr P i \<rparr>) (i # is) (content b # bs)"
proof -
  have "linked P ((blink_array x)[i := b\<lparr> next_ptr := mp1_list_head x \<rparr>]) (mp1_list_head x) is"
    using assms(1,3) by (simp add: rep_def linked_update)
  moreover have "map (\<lambda>j. content ((blink_array x)[i := b\<lparr> next_ptr := mp1_list_head x \<rparr>] ! j)) is = bs"
    using assms(1,3) by (auto simp: rep_def) (metis nth_list_update_neq)
  ultimately show ?thesis using assms
    by (auto simp: rep_def upd_elem_def nth_list_update content_def)
qed

lemma add_refines:
  assumes "rep P x is bs" and "location b \<noteq> 0"
  shows "2000 \<le> location b \<or> length bs = CELLS \<Longrightarrow> mp1_ioctl_add P b x w = Some (-1, x, w)"
    and "location b < 2000 \<Longrightarrow> length bs < CELLS \<Longrightarrow>
      \<exists>x' is'. rep P x' is' (started b # bs) \<and>
        mp1_ioctl_add P b x w = do { w \<leftarrow> mp1_poke P (on_char b) (push_bit 1 (ucast (location b))) w; Some (0, x', w) }"
proof -
  show "mp1_ioctl_add P b x w = Some (-1, x, w)" if "2000 \<le> location b \<or> length bs = CELLS"
    using assms(1) that by (elim rep_malloc) (auto simp: mp1_ioctl_add_def Let_def)
  show "\<exists>x' is'. rep P x' is' (started b # bs) \<and>
        mp1_ioctl_add P b x w = do { w \<leftarrow> mp1_poke P (on_char b) (push_bit 1 (ucast (location b))) w; Some (0, x', w) }"
    if l: "location b < 2000" "length bs < CELLS"
    using assms(1)
  proof (cases rule: rep_malloc)
    case (free i)
    have a: "array_ok P" "length (blink_array x) = CELLS" using assms(1) by (simp_all add: rep_def)
    let ?b = "b\<lparr> status := 1, countdown := on_length b \<rparr>"
    show ?thesis
      using rep_add_cell[OF assms(1) free(2,3), of ?b] assms(2) l(1) free(1) elem_elem_addr[OF a free(2)] elem_addr_nonzero[OF a(1) free(2)]
      by (intro exI conjI) (auto simp: mp1_ioctl_add_def started_def Let_def not_le)
  qed (use l in simp)
qed

text \<open>Removing: the first structure at the location.\<close>

lemma linked_remove:
  assumes "linked P a p (pre @ i # post)" and "distinct (pre @ i # post)" and "pre \<noteq> []"
  shows "linked P (a[last pre := (a ! last pre)\<lparr> next_ptr := next_ptr (a ! i) \<rparr>]) p (pre @ post)"
  using assms
proof (induction pre arbitrary: p)
  case (Cons j pre)
  show ?case
  proof (cases "pre = []")
    case True
    then have "j \<notin> set post" using Cons.prems(2) by simp
    then show ?thesis using Cons.prems(1) True by (simp add: linked_update)
  next
    case False
    then have "j \<noteq> last pre" using Cons.prems(2) last_in_set[of pre] by auto
    then show ?thesis using Cons False by simp
  qed
qed simp

lemma free_eq:
  assumes "array_ok P" and "length (blink_array x) = CELLS" and "i < CELLS"
  shows "mp1_free P (elem_addr P i) x = Some (upd_elem i (\<lambda>_. zero_blink) x)"
  using assms by (simp add: mp1_free_def elem_elem_addr ece391_memset_def memset_loop_fill blink_of_zero)

lemma rep_unlink:
  assumes "rep P x (pre @ i # post) bs"
  shows "rep P (upd_elem i (\<lambda>_. zero_blink) (set_link (if pre = [] then None else Some (last pre)) (next_ptr (blink_array x ! i)) x))
    (pre @ post) (map (\<lambda>i. content (blink_array x ! i)) (pre @ post))"
proof -
  let ?x = "set_link (if pre = [] then None else Some (last pre)) (next_ptr (blink_array x ! i)) x"
  have r: "array_ok P" "length (blink_array x) = CELLS" "linked P (blink_array x) (mp1_list_head x) (pre @ i # post)" "distinct (pre @ i # post)"
    "\<forall>j < CELLS. j \<in> set (pre @ i # post) \<longleftrightarrow> location (blink_array x ! j) \<noteq> 0" using assms by (simp_all add: rep_def)
  have i: "i < CELLS" "last pre < CELLS \<or> pre = []" using rep_less[OF assms, of i] rep_less[OF assms, of "last pre"] by auto
  have l: "linked P (blink_array ?x) (mp1_list_head ?x) (pre @ post)"
    using r(3) linked_remove[OF r(3,4)] by (auto simp: set_link_def upd_elem_def)
  have s: "length (blink_array ?x) = CELLS" "content (blink_array ?x ! j) = content (blink_array x ! j)"
    "location (blink_array ?x ! j) = location (blink_array x ! j)" if "j < CELLS" for j
    using r(2) i that by (auto simp: set_link_def upd_elem_def nth_list_update content_def)
  have n: "i \<notin> set (pre @ post)" using r(4) by auto
  have "linked P (blink_array (upd_elem i (\<lambda>_. zero_blink) ?x)) (mp1_list_head ?x) (pre @ post)"
    using l n by (simp add: upd_elem_def linked_update)
  moreover have "j \<in> set (pre @ post) \<longleftrightarrow> location (blink_array (upd_elem i (\<lambda>_. zero_blink) ?x) ! j) \<noteq> 0" if "j < CELLS" for j
    using r(5) s(3)[OF that] n i s(1)[OF i(1)] that by (cases "j = i") (auto simp: zero_blink_def)
  moreover have "content (blink_array (upd_elem i (\<lambda>_. zero_blink) ?x) ! j) = content (blink_array x ! j)" if "j \<in> set (pre @ post)" for j
    using s[of j] rep_less[OF assms, of j] that n i s(1)[OF i(1)] by auto
  ultimately show ?thesis using r(1,4) s(1)[OF i(1)] by (auto simp: rep_def)
qed

lemma remove_refines:
  assumes "rep P x is bs"
  shows "find (placed (ucast n)) bs = None \<Longrightarrow> mp1_ioctl_remove P n x = Some (-1, x)"
    and "find (placed (ucast n)) bs \<noteq> None \<Longrightarrow>
      \<exists>x' is'. mp1_ioctl_remove P n x = Some (0, x') \<and> rep P x' is' (drop_first (placed (ucast n)) bs)"
proof -
  have r: "array_ok P" "length (blink_array x) = CELLS" "linked P (blink_array x) (mp1_list_head x) is" using assms by (simp_all add: rep_def)
  show "mp1_ioctl_remove P n x = Some (-1, x)" if "find (placed (ucast n)) bs = None"
    using assms that by (cases rule: rep_find[where l = "ucast n"]) (simp_all add: mp1_ioctl_remove_def mp1_find_helper_def find_loop_none[OF r])
  show "\<exists>x' is'. mp1_ioctl_remove P n x = Some (0, x') \<and> rep P x' is' (drop_first (placed (ucast n)) bs)"
    if "find (placed (ucast n)) bs \<noteq> None"
    using assms
  proof (cases rule: rep_find[where l = "ucast n"])
    case (found pre i post)
    let ?prev = "if pre = [] then None else Some (last pre)"
    let ?x = "set_link ?prev (next_ptr (blink_array x ! i)) x"
    have d: "i \<notin> set pre" using assms by (auto simp: rep_def found(1))
    have i: "i < CELLS" using rep_less[OF assms, of i] by (simp add: found(1))
    have f: "mp1_find_helper P n x = Some (elem_addr P i)"
      using find_loop_some[OF r(1,2), of "mp1_list_head x" pre i post "ucast n"] r(3) found(1-3) by (simp add: mp1_find_helper_def)
    have p: "find_prev P (elem_addr P i) None x = Some ?prev"
      using find_prev_split[OF r(1,2), of None pre i post] r(3) d by (simp add: link_def found(1))
    have len: "length (blink_array ?x) = CELLS" using r(2) by (simp add: set_link_def)
    have bs: "drop_first (placed (ucast n)) bs = map (\<lambda>i. content (blink_array x ! i)) (pre @ post)"
      using assms found(2,3) first_split(3)[of "map (\<lambda>i. content (blink_array x ! i)) pre" "placed (ucast n)"] by (simp add: rep_def found(1))
    have "mp1_ioctl_remove P n x = Some (0, upd_elem i (\<lambda>_. zero_blink) ?x)"
      using f p elem_elem_addr[OF r(1,2) i] elem_addr_nonzero[OF r(1) i] free_eq[OF r(1) len i] by (simp add: mp1_ioctl_remove_def Let_def)
    then show ?thesis using rep_unlink[of P x pre i post bs] assms unfolding found(1) bs by blast
  qed (use that in simp)
qed

text \<open>Looking up: the first structure at the location, copied to the caller with its pointer.\<close>

lemma find_helper_refines:
  assumes "rep P x is bs"
  shows "find (placed (ucast n)) bs = None \<Longrightarrow> mp1_find_helper P n x = Some 0"
    and "find (placed (ucast n)) bs = Some b \<Longrightarrow>
      \<exists>pre i post. is = pre @ i # post \<and> mp1_find_helper P n x = Some (elem_addr P i) \<and> elem_addr P i \<noteq> 0 \<and>
        elem P x (elem_addr P i) = Some i \<and> i < CELLS \<and> b = content (blink_array x ! i) \<and> location b = ucast n \<and>
        (\<forall>j \<in> set pre. location (blink_array x ! j) \<noteq> ucast n)"
proof -
  have r: "array_ok P" "length (blink_array x) = CELLS" "linked P (blink_array x) (mp1_list_head x) is" using assms by (simp_all add: rep_def)
  show "mp1_find_helper P n x = Some 0" if "find (placed (ucast n)) bs = None"
    using assms that by (cases rule: rep_find[where l = "ucast n"]) (simp_all add: mp1_find_helper_def find_loop_none[OF r])
  show "\<exists>pre i post. is = pre @ i # post \<and> mp1_find_helper P n x = Some (elem_addr P i) \<and> elem_addr P i \<noteq> 0 \<and>
        elem P x (elem_addr P i) = Some i \<and> i < CELLS \<and> b = content (blink_array x ! i) \<and> location b = ucast n \<and>
        (\<forall>j \<in> set pre. location (blink_array x ! j) \<noteq> ucast n)"
    if b: "find (placed (ucast n)) bs = Some b"
    using assms
  proof (cases rule: rep_find[where l = "ucast n"])
    case (found pre i post)
    have i: "i < CELLS" using rep_less[OF assms, of i] by (simp add: found(1))
    show ?thesis
      using found b i elem_elem_addr[OF r(1,2) i] elem_addr_nonzero[OF r(1) i] find_loop_some[OF r(1,2), of "mp1_list_head x" pre i post "ucast n"] r(3)
      by (intro exI[of _ pre] exI[of _ i] exI[of _ post]) (simp add: mp1_find_helper_def)
  qed (use b in simp)
qed

lemma find_refines:
  assumes "rep P x is bs"
  shows "\<exists>r b. mp1_ioctl_find P arg x = Some (r, b) \<and>
    (case find (placed (location arg)) bs of None \<Rightarrow> r = -1 \<and> b = arg | Some c \<Rightarrow> r = 0 \<and> content b = c)"
proof -
  have l: "w16_of (take 2 (blink_bytes arg)) 0 = location arg"
    by (simp add: w16_of_def blink_bytes_def w16_bytes_def w16_bytes_round_trip)
  have m: "ece391_memcpy (take 2 (blink_bytes (p_junk P))) (blink_bytes arg) 2 = Some (0, take 2 (blink_bytes arg))"
    by (simp add: ece391_memcpy_def memcpy_loop_copy)
  have u: "ucast (ucast (location arg) :: u32) = location arg" by (rule bit_word_eqI) (simp add: bit_simps)
  show ?thesis
  proof (cases "find (placed (location arg)) bs")
    case None
    then show ?thesis using find_helper_refines(1)[OF assms, of "ucast (location arg)"] by (simp add: mp1_ioctl_find_def m l u)
  next
    case (Some c)
    then show ?thesis using find_helper_refines(2)[OF assms, of "ucast (location arg)" c] by (auto simp: mp1_ioctl_find_def m l u)
  qed
qed

text \<open>Synchronising: the second structure gets the lengths and the phase of the first.  The character
  shown is the off-character, whatever the status.\<close>

definition synced :: "mp1_blink_struct \<Rightarrow> mp1_blink_struct \<Rightarrow> mp1_blink_struct" where
  "synced s d = d\<lparr> on_length := on_length s, off_length := off_length s, countdown := countdown s, status := status s \<rparr>"

lemma and_1_nonneg: "\<not> sint (v AND 1 :: u8) < 0"
  by (simp add: and_one_eq mod2_eq_if)

lemma rep_update:
  assumes "rep P x (pre @ i # post) bs" and "\<And>b. location (f b) = location b" and "\<And>b. next_ptr (f b) = next_ptr b"
    and "\<And>b. content (f b) = f (content b)"
  shows "rep P (upd_elem i f x) (pre @ i # post)
    (map (\<lambda>i. content (blink_array x ! i)) pre @ f (content (blink_array x ! i)) # map (\<lambda>i. content (blink_array x ! i)) post)"
proof -
  have i: "i < CELLS" using rep_less[OF assms(1), of i] by simp
  have r: "length (blink_array x) = CELLS" "distinct (pre @ i # post)" using assms(1) by (simp_all add: rep_def)
  have "linked P (blink_array (upd_elem i f x)) (mp1_list_head x) (pre @ i # post)"
    by (subst linked_keep[of "blink_array x"]) (use assms(1,3) r i in \<open>auto simp: rep_def\<close>)
  moreover have "map (\<lambda>j. content (blink_array (upd_elem i f x) ! j)) js = map (\<lambda>j. content (blink_array x ! j)) js" if "i \<notin> set js" for js
    using that r(1) i by auto
  ultimately show ?thesis using assms i r unfolding rep_def by (simp add: assms(2))
qed

lemma sync_refines:
  assumes "rep P x is bs"
  shows "find (placed (ucast (drop_bit 16 n))) bs = None \<or> find (placed (ucast n)) bs = None \<Longrightarrow> mp1_ioctl_sync P n x w = Some (-1, x, w)"
    and "find (placed (ucast (drop_bit 16 n))) bs = Some s \<Longrightarrow> find (placed (ucast n)) bs = Some d \<Longrightarrow>
      \<exists>x' is'. rep P x' is' (upd_first (placed (ucast n)) (synced s) bs) \<and>
        mp1_ioctl_sync P n x w = do { w \<leftarrow> mp1_poke P (off_char d) (push_bit 1 (ucast (location d))) w; Some (0, x', w) }"
proof -
  have k: "(0xFFFF :: u32) = mask 16" by (simp add: mask_eq_exp_minus_1)
  have u: "(ucast (n AND 0xFFFF) :: u16) = ucast n" unfolding k by (intro bit_word_eqI) (auto simp: bit_simps)
  note h = find_helper_refines[OF assms]
  show "mp1_ioctl_sync P n x w = Some (-1, x, w)"
    if "find (placed (ucast (drop_bit 16 n))) bs = None \<or> find (placed (ucast n)) bs = None"
    using that h(1)[of "drop_bit 16 n"] h(1)[of "n AND 0xFFFF"] h(2)[of "drop_bit 16 n"]
    by (cases "find (placed (ucast (drop_bit 16 n))) bs") (auto simp: mp1_ioctl_sync_def u)
  show "\<exists>x' is'. rep P x' is' (upd_first (placed (ucast n)) (synced s) bs) \<and>
        mp1_ioctl_sync P n x w = do { w \<leftarrow> mp1_poke P (off_char d) (push_bit 1 (ucast (location d))) w; Some (0, x', w) }"
    if s: "find (placed (ucast (drop_bit 16 n))) bs = Some s" and d: "find (placed (ucast n)) bs = Some d"
  proof -
    obtain i where i: "mp1_find_helper P (drop_bit 16 n) x = Some (elem_addr P i)" "elem_addr P i \<noteq> 0" "elem P x (elem_addr P i) = Some i"
      "s = content (blink_array x ! i)" using h(2)[OF s] by blast
    obtain pre j post where j: "is = pre @ j # post" "mp1_find_helper P (n AND 0xFFFF) x = Some (elem_addr P j)" "elem_addr P j \<noteq> 0"
      "elem P x (elem_addr P j) = Some j" "j < CELLS" "d = content (blink_array x ! j)" "location d = ucast n"
      "\<forall>k \<in> set pre. location (blink_array x ! k) \<noteq> ucast n"
      using h(2)[of "n AND 0xFFFF" d] d unfolding u by blast
    have len: "length (blink_array x) = CELLS" using assms by (simp add: rep_def)
    have bs: "upd_first (placed (ucast n)) (synced s) bs =
        map (\<lambda>i. content (blink_array x ! i)) pre @ synced s (content (blink_array x ! j)) # map (\<lambda>i. content (blink_array x ! i)) post"
      using assms j(1,6-8) first_split(2)[of "map (\<lambda>i. content (blink_array x ! i)) pre" "placed (ucast n)"] by (simp add: rep_def)
    have "rep P (upd_elem j (synced s) x) is (upd_first (placed (ucast n)) (synced s) bs)"
      unfolding bs j(1) by (rule rep_update) (use assms j(1) in \<open>simp_all add: synced_def content_def\<close>)
    moreover have "mp1_ioctl_sync P n x w = do { w \<leftarrow> mp1_poke P (off_char d) (push_bit 1 (ucast (location d))) w; Some (0, upd_elem j (synced s) x, w) }"
      using i j len by (simp add: mp1_ioctl_sync_def synced_def[abs_def] and_1_nonneg Let_def)
    ultimately show ?thesis by blast
  qed
qed

text \<open>The clock interrupt.\<close>

lemma tick_elem_content:
  "tick_elem P (content b) w = map_option (\<lambda>(b, w). (content b, w)) (tick_elem P b w)"
  "tick_elem P b w = Some (b', w') \<Longrightarrow> next_ptr b' = next_ptr b \<and> location b' = location b"
  by (auto simp: tick_elem_def Let_def content_def split: if_splits Option.bind_splits)

lemma tasklet_linked:
  "array_ok P \<Longrightarrow> length (blink_array x) = CELLS \<Longrightarrow> linked P (blink_array x) p is \<Longrightarrow> distinct is \<Longrightarrow>
    (case a_tick P (map (\<lambda>i. content (blink_array x ! i)) is) w of None \<Rightarrow> tasklet_loop P p x w = None
     | Some (bs, w') \<Rightarrow> \<exists>x'. tasklet_loop P p x w = Some (x', w') \<and> length (blink_array x') = CELLS \<and> mp1_list_head x' = mp1_list_head x \<and>
         map (\<lambda>i. content (blink_array x' ! i)) is = bs \<and> (\<forall>i. i \<notin> set is \<longrightarrow> blink_array x' ! i = blink_array x ! i) \<and>
         (\<forall>i < CELLS. next_ptr (blink_array x' ! i) = next_ptr (blink_array x ! i) \<and> location (blink_array x' ! i) = location (blink_array x ! i)))"
proof (induction "is" arbitrary: p x w)
  case Nil
  then show ?case by (simp add: tasklet_loop.simps)
next
  case (Cons i "is")
  have i: "i < CELLS" "p = elem_addr P i" using Cons.prems(2,3) by auto
  note e = elem_elem_addr[OF Cons.prems(1,2) i(1)] elem_addr_nonzero[OF Cons.prems(1) i(1)]
  show ?case
  proof (cases "tick_elem P (blink_array x ! i) w")
    case None
    then show ?thesis using e i(2) by (simp add: tick_elem_content(1)) (subst tasklet_loop.simps, simp)
  next
    case (Some bw)
    obtain b w1 where b: "tick_elem P (blink_array x ! i) w = Some (b, w1)" using Some by (cases bw) auto
    note keep = tick_elem_content(2)[OF b]
    define y where "y = upd_elem i (\<lambda>_. b) x"
    have y: "length (blink_array y) = CELLS" "mp1_list_head y = mp1_list_head x" "blink_array y ! i = b"
      "\<And>j. j \<noteq> i \<Longrightarrow> blink_array y ! j = blink_array x ! j" using Cons.prems(2) i(1) by (simp_all add: y_def)
    have ln: "linked P (blink_array y) (next_ptr b) is"
      using Cons.prems(3,4) keep by (simp add: y_def upd_elem_def linked_update)
    have m: "map (\<lambda>j. content (blink_array y ! j)) is = map (\<lambda>j. content (blink_array x ! j)) is"
    proof (rule map_cong[OF refl])
      fix j assume "j \<in> set is"
      then have "j \<noteq> i" using Cons.prems(4) by auto
      then show "content (blink_array y ! j) = content (blink_array x ! j)" by (simp add: y(4))
    qed
    have t: "tasklet_loop P p x w = tasklet_loop P (next_ptr b) y w1"
      using e i(2) b by (subst tasklet_loop.simps) (simp add: y_def)
    have d: "distinct is" "i \<notin> set is" using Cons.prems(4) by simp_all
    have at: "a_tick P (map (\<lambda>i. content (blink_array x ! i)) (i # is)) w =
        map_option (\<lambda>(bs, w). (content b # bs, w)) (a_tick P (map (\<lambda>i. content (blink_array y ! i)) is) w1)"
      unfolding m by (auto simp: tick_elem_content(1) b split: Option.bind_splits)
    show ?thesis unfolding t at
      using Cons.IH[OF Cons.prems(1) y(1) ln d(1), of w1] d(2) y keep by (auto split: option.splits) metis+
  qed
qed

lemma tasklet_refines:
  assumes "rep P x is bs"
  shows "case a_tick P bs w of None \<Rightarrow> mp1_rtc_tasklet P x w = None
    | Some (bs', w') \<Rightarrow> \<exists>x'. mp1_rtc_tasklet P x w = Some (x', w') \<and> rep P x' is bs'"
proof -
  have r: "array_ok P" "length (blink_array x) = CELLS" "linked P (blink_array x) (mp1_list_head x) is" "distinct is"
    "bs = map (\<lambda>i. content (blink_array x ! i)) is" using assms by (simp_all add: rep_def)
  have "linked P (blink_array x') p is \<longleftrightarrow> linked P (blink_array x) p is"
    if "length (blink_array x') = CELLS" "\<forall>i < CELLS. next_ptr (blink_array x' ! i) = next_ptr (blink_array x ! i)" for x' p
    using that r(2) linked_keep[of "blink_array x" "blink_array x'" P p "is"] by simp
  then show ?thesis using tasklet_linked[OF r(1-4), of w] assms
    by (auto simp: mp1_rtc_tasklet_def rep_def split: option.splits) blast
qed

text \<open>C15: the driver of blinking characters implements a plain list.  From a state that represents
  the list \<open>bs\<close>: adding a structure with a location from 1 to 1999 puts it in front, on and with
  its full count, and shows its character, and fails exactly when the location is too large or
  all 2000 elements are in use; removing takes out the first structure at the location, or fails
  when there is none; looking up copies it; synchronising copies lengths and phase from one to
  the other; and a clock interrupt updates the structures in the order of the list.\<close>

theorem blink_driver_refines_list:
  assumes "rep P x is bs"
  shows "(\<forall>b w. location b \<noteq> 0 \<and> location b < 2000 \<and> length bs < CELLS \<longrightarrow>
      (\<exists>x' is'. rep P x' is' (started b # bs) \<and>
        mp1_ioctl P (Struct b) RTC_ADD x w = do { w \<leftarrow> mp1_poke P (on_char b) (push_bit 1 (ucast (location b))) w; Some (0, Struct b, x', w) }))
    \<and> (\<forall>b w. location b \<noteq> 0 \<and> (2000 \<le> location b \<or> length bs = CELLS) \<longrightarrow> mp1_ioctl P (Struct b) RTC_ADD x w = Some (-1, Struct b, x, w))
    \<and> (\<forall>n w. case find (placed (ucast n)) bs of None \<Rightarrow> mp1_ioctl P (Number n) RTC_REMOVE x w = Some (-1, Number n, x, w)
        | Some _ \<Rightarrow> \<exists>x' is'. rep P x' is' (drop_first (placed (ucast n)) bs) \<and> mp1_ioctl P (Number n) RTC_REMOVE x w = Some (0, Number n, x', w))
    \<and> (\<forall>b w. case find (placed (location b)) bs of None \<Rightarrow> mp1_ioctl P (Struct b) 2 x w = Some (-1, Struct b, x, w)
        | Some c \<Rightarrow> \<exists>b'. content b' = c \<and> mp1_ioctl P (Struct b) 2 x w = Some (0, Struct b', x, w))
    \<and> (\<forall>n s d w. find (placed (ucast (drop_bit 16 n))) bs = Some s \<and> find (placed (ucast n)) bs = Some d \<longrightarrow>
        (\<exists>x' is'. rep P x' is' (upd_first (placed (ucast n)) (synced s) bs) \<and>
          mp1_ioctl P (Number n) RTC_SYNC x w = do { w \<leftarrow> mp1_poke P (off_char d) (push_bit 1 (ucast (location d))) w; Some (0, Number n, x', w) }))
    \<and> (\<forall>w. case a_tick P bs w of None \<Rightarrow> mp1_rtc_tasklet P x w = None
        | Some (bs', w') \<Rightarrow> \<exists>x'. rep P x' is bs' \<and> mp1_rtc_tasklet P x w = Some (x', w'))"
proof (intro conjI allI impI)
  show "\<exists>x' is'. rep P x' is' (started b # bs) \<and>
      mp1_ioctl P (Struct b) RTC_ADD x w = do { w \<leftarrow> mp1_poke P (on_char b) (push_bit 1 (ucast (location b))) w; Some (0, Struct b, x', w) }"
    if "location b \<noteq> 0 \<and> location b < 2000 \<and> length bs < CELLS" for b w
    using add_refines(2)[OF assms, of b w] that by (fastforce simp: mp1_ioctl_def)
  show "mp1_ioctl P (Struct b) RTC_ADD x w = Some (-1, Struct b, x, w)"
    if "location b \<noteq> 0 \<and> (2000 \<le> location b \<or> length bs = CELLS)" for b w
    using add_refines(1)[OF assms, of b w] that by (simp add: mp1_ioctl_def)
  show "case find (placed (ucast n)) bs of None \<Rightarrow> mp1_ioctl P (Number n) RTC_REMOVE x w = Some (-1, Number n, x, w)
      | Some _ \<Rightarrow> \<exists>x' is'. rep P x' is' (drop_first (placed (ucast n)) bs) \<and> mp1_ioctl P (Number n) RTC_REMOVE x w = Some (0, Number n, x', w)" for n w
    using remove_refines[OF assms, of n] by (auto simp: mp1_ioctl_def split: option.split) blast
  show "case find (placed (location b)) bs of None \<Rightarrow> mp1_ioctl P (Struct b) 2 x w = Some (-1, Struct b, x, w)
      | Some c \<Rightarrow> \<exists>b'. content b' = c \<and> mp1_ioctl P (Struct b) 2 x w = Some (0, Struct b', x, w)" for b w
    using find_refines[OF assms, of b] by (auto simp: mp1_ioctl_def split: option.splits)
  show "\<exists>x' is'. rep P x' is' (upd_first (placed (ucast n)) (synced s) bs) \<and>
      mp1_ioctl P (Number n) RTC_SYNC x w = do { w \<leftarrow> mp1_poke P (off_char d) (push_bit 1 (ucast (location d))) w; Some (0, Number n, x', w) }"
    if "find (placed (ucast (drop_bit 16 n))) bs = Some s \<and> find (placed (ucast n)) bs = Some d" for n s d w
    using sync_refines(2)[OF assms, of n s d w] that by (fastforce simp: mp1_ioctl_def)
  show "case a_tick P bs w of None \<Rightarrow> mp1_rtc_tasklet P x w = None
      | Some (bs', w') \<Rightarrow> \<exists>x'. rep P x' is bs' \<and> mp1_rtc_tasklet P x w = Some (x', w')" for w
    using tasklet_refines[OF assms, of w] by (auto split: option.splits)
qed

text \<open>A process whose memory is a function from addresses to bytes, and the driver's state at start.\<close>

definition demo_process :: "mem process" where
  "demo_process = \<lparr> p_array = 0x8049000, p_vmem = 0x8052000, p_load = (\<lambda>p m. rd32 m p), p_store = (\<lambda>p b m. Some (m(p := b))), p_junk = zero_blink \<rparr>"

definition demo_mp1 :: mp1 where
  "demo_mp1 = \<lparr> blink_array = replicate CELLS zero_blink, mp1_list_head = 0 \<rparr>"

lemma rep_empty:
  assumes "array_ok P" and "length a = CELLS" and "\<forall>b \<in> set a. location b = 0"
  shows "rep P \<lparr> blink_array = a, mp1_list_head = 0 \<rparr> [] []"
  using assms by (simp add: rep_def)

lemma demo_rep: "rep demo_process demo_mp1 [] []"
  unfolding demo_mp1_def by (rule rep_empty) (simp_all add: array_ok_def demo_process_def zero_blink_def)

theorem blink_driver_refines_list_witness:
  "\<exists>x is m. mp1_ioctl demo_process (Struct (zero_blink\<lparr> location := 7 \<rparr>)) RTC_ADD demo_mp1 (\<lambda>_. 0) = Some (0, Struct (zero_blink\<lparr> location := 7 \<rparr>), x, m) \<and>
    rep demo_process x is [started (zero_blink\<lparr> location := 7 \<rparr>)]"
proof -
  have p: "mp1_poke demo_process c a m = Some (m(rd32 m 0x8052000 + a := c))" for c a m by (simp add: mp1_poke_def demo_process_def)
  show ?thesis using conjunct1[OF blink_driver_refines_list[OF demo_rep], rule_format, of "zero_blink\<lparr> location := 7 \<rparr>" "\<lambda>_. 0"]
    by (auto simp: p)
qed

section \<open>Location 0\<close>

text \<open>An element with location 0 counts as free, so the next addition takes it again although it
  is in the list, and links it to itself.\<close>

lemma malloc_loop_cong:
  assumes "length (blink_array y) = length (blink_array x)"
    and "\<And>i. i < length (blink_array x) \<Longrightarrow> location (blink_array y ! i) = 0 \<longleftrightarrow> location (blink_array x ! i) = 0"
  shows "malloc_loop P y i = malloc_loop P x i"
proof (induction "CELLS - i" arbitrary: i)
  case 0
  then show ?case by (subst (1 2) malloc_loop.simps) simp
next
  case (Suc k)
  then have "malloc_loop P y (i + 1) = malloc_loop P x (i + 1)" by simp
  then show ?case using assms by (subst (1 2) malloc_loop.simps) simp
qed

lemma tasklet_self_loop:
  assumes "array_ok P" and "length (blink_array x) = CELLS" and "i < CELLS" and "next_ptr (blink_array x ! i) = elem_addr P i"
  shows "tasklet_loop P (elem_addr P i) x w = None"
proof -
  have never: "length (blink_array x) = CELLS \<longrightarrow> next_ptr (blink_array x ! i) = elem_addr P i \<longrightarrow> p = elem_addr P i \<longrightarrow> array_ok P \<longrightarrow> False"
    if "tasklet_loop P p x w = Some r" for p x w r
  proof (rule tasklet_loop.raw_induct[OF _ that,
      where P = "\<lambda>P p x w r. length (blink_array x) = CELLS \<longrightarrow> next_ptr (blink_array x ! i) = elem_addr P i \<longrightarrow> p = elem_addr P i \<longrightarrow> array_ok P \<longrightarrow> False"],
      intro impI)
    fix f P p x w r
    assume IH: "\<And>P p x w r. f P p x w = Some r \<Longrightarrow>
        length (blink_array x) = CELLS \<longrightarrow> next_ptr (blink_array x ! i) = elem_addr P i \<longrightarrow> p = elem_addr P i \<longrightarrow> array_ok P \<longrightarrow> False"
      and r: "(if p = 0 then Some (x, w) else do { i \<leftarrow> elem P x p; (b, w) \<leftarrow> tick_elem P (blink_array x ! i) w; f P (next_ptr b) (upd_elem i (\<lambda>_. b) x) w }) = Some r"
      and a: "length (blink_array x) = CELLS" "next_ptr (blink_array x ! i) = elem_addr P i" "p = elem_addr P i" "array_ok P"
    note e = elem_elem_addr[OF a(4,1) assms(3)] elem_addr_nonzero[OF a(4) assms(3)]
    obtain b w' where b: "tick_elem P (blink_array x ! i) w = Some (b, w')" "f P (next_ptr b) (upd_elem i (\<lambda>_. b) x) w' = Some r"
      using r e a(3) by (auto split: Option.bind_splits)
    show False using IH[OF b(2)] tick_elem_content(2)[OF b(1)] a assms(3) by simp
  qed
  show ?thesis
  proof (cases "tasklet_loop P (elem_addr P i) x w")
    case (Some r)
    from never[OF this] assms show ?thesis by simp
  qed
qed

text \<open>C39: adding a character at location 0, the top left corner of the screen, corrupts the driver's
  list: the next addition succeeds as well, and from then on the clock interrupt's work never
  ends.\<close>

theorem zero_location_never_returns:
  assumes "rep P x [] []" and "location b = 0" and "location c < 2000"
    and "mp1_ioctl P (Struct b) RTC_ADD x w = Some (0, a1, x1, w1)" and "mp1_ioctl P (Struct c) RTC_ADD x1 w1 = Some (0, a2, x2, w2)"
  shows "mp1_rtc_tasklet P x2 w' = None"
proof -
  have r: "array_ok P" "length (blink_array x) = CELLS" "mp1_list_head x = 0" using assms(1) by (simp_all add: rep_def)
  obtain i where i: "mp1_malloc P x = Some (elem_addr P i)" "i < CELLS" using assms(1) by (cases rule: rep_malloc) auto
  have z: "location (blink_array x ! i) = 0" using assms(1) i(2) by (simp add: rep_def)
  note e = elem_elem_addr[OF r(1) _ i(2)] elem_addr_nonzero[OF r(1) i(2)]
  have x1: "x1 = (upd_elem i (\<lambda>_. b\<lparr> status := 1, countdown := on_length b, next_ptr := 0 \<rparr>) x)\<lparr> mp1_list_head := elem_addr P i \<rparr>"
    using assms(2,4) i(1) e r by (auto simp: mp1_ioctl_def mp1_ioctl_add_def Let_def split: Option.bind_splits)
  have l1: "length (blink_array x1) = CELLS" using r(2) by (simp add: x1)
  have "mp1_malloc P x1 = mp1_malloc P x"
    unfolding mp1_malloc_def using z assms(2) r(2) i(2) by (intro malloc_loop_cong) (auto simp: x1)
  then have x2: "x2 = (upd_elem i (\<lambda>_. c\<lparr> status := 1, countdown := on_length c, next_ptr := elem_addr P i \<rparr>) x1)\<lparr> mp1_list_head := elem_addr P i \<rparr>"
    using assms(3,5) i(1) e l1 by (auto simp: mp1_ioctl_def mp1_ioctl_add_def Let_def x1 not_le split: Option.bind_splits if_splits)
  show ?thesis using tasklet_self_loop[OF r(1) _ i(2), of x2 w'] l1 i(2) by (simp add: mp1_rtc_tasklet_def x2)
qed

theorem zero_location_never_returns_witness:
  "\<exists>a1 x1 m1 a2 x2 m2. mp1_ioctl demo_process (Struct zero_blink) RTC_ADD demo_mp1 (\<lambda>_. 0) = Some (0, a1, x1, m1) \<and>
    mp1_ioctl demo_process (Struct (zero_blink\<lparr> location := 7 \<rparr>)) RTC_ADD x1 m1 = Some (0, a2, x2, m2) \<and>
    mp1_rtc_tasklet demo_process x2 m2 = None"
proof -
  have p: "mp1_poke demo_process c a m = Some (m(rd32 m 0x8052000 + a := c))" for c a m by (simp add: mp1_poke_def demo_process_def)
  have a: "array_ok demo_process" by (simp add: array_ok_def demo_process_def)
  have len: "length (blink_array demo_mp1) = CELLS" by (simp add: demo_mp1_def)
  have m: "malloc_loop demo_process x 0 = Some (elem_addr demo_process 0)"
    if "length (blink_array x) = CELLS" "location (blink_array x ! 0) = 0" for x
    using that by (subst malloc_loop.simps) simp
  note e = elem_elem_addr[OF a _, of _ 0] elem_addr_nonzero[OF a, of 0]
  obtain x1 m1 where 1: "mp1_ioctl demo_process (Struct zero_blink) RTC_ADD demo_mp1 (\<lambda>_. 0) = Some (0, Struct zero_blink, x1, m1)"
    "length (blink_array x1) = CELLS" "location (blink_array x1 ! 0) = 0"
    using m[OF len] e len by (auto simp: mp1_ioctl_def mp1_ioctl_add_def mp1_malloc_def p Let_def demo_mp1_def zero_blink_def upd_elem_def)
  obtain a2 x2 m2 where 2: "mp1_ioctl demo_process (Struct (zero_blink\<lparr> location := 7 \<rparr>)) RTC_ADD x1 m1 = Some (0, a2, x2, m2)"
    using m[OF 1(2,3)] e 1(2) by (simp add: mp1_ioctl_def mp1_ioctl_add_def mp1_malloc_def p Let_def)
  show ?thesis using 1(1) 2 zero_location_never_returns[OF demo_rep _ _ 1(1) 2] by (auto simp: zero_blink_def)
qed

end
