(* ===== verification/Fishtank.thy ===== *)
theory Fishtank
  imports Fish
begin

text \<open>
  What the fish program shows.  The locale \<open>screen_process\<close> states what the program relies on:
  stores through the video window change one byte of the screen, the two frame files and the clock
  can be read, and nothing disturbs the others.  From it: the frames' characters become a list of
  blinking characters, each of them shows its on- and its off-character in turn, and the whole
  program runs to its end.
\<close>

section \<open>One blinking character\<close>

definition char_now :: "mp1_blink_struct \<Rightarrow> u8" where
  "char_now b = (if bit (status b) 0 then on_char b else off_char b)"

definition turns :: "mp1_blink_struct \<Rightarrow> bool" where
  "turns b \<longleftrightarrow> \<not> 0 < sint (countdown b - 1)"

definition ticked :: "mp1_blink_struct \<Rightarrow> mp1_blink_struct" where
  "ticked b = (if turns b then b\<lparr> countdown := (if bit (status b) 0 then off_length b else on_length b), status := status b XOR 1 \<rparr>
     else b\<lparr> countdown := countdown b - 1 \<rparr>)"

definition cell_of :: "mp1_blink_struct \<Rightarrow> nat" where
  "cell_of b = 2 * unat (location b)"

lemma ticked_sel [simp]:
  "location (ticked b) = location b" "on_char (ticked b) = on_char b" "off_char (ticked b) = off_char b"
  "on_length (ticked b) = on_length b" "off_length (ticked b) = off_length b" "cell_of (ticked b) = cell_of b"
  "content (ticked b) = ticked (content b)"
  by (simp_all add: ticked_def cell_of_def content_def turns_def)

lemma char_now_ticked: "char_now (ticked b) = (if turns b then if bit (status b) 0 then off_char b else on_char b else char_now b)"
  by (simp add: char_now_def ticked_def bit_simps)

lemma cell_word: "push_bit 1 (ucast (location b)) = (of_nat (cell_of b) :: u32)"
proof -
  have "unat (location b) < 65536" using unsigned_less[of "location b"] by simp
  then show ?thesis by (simp add: cell_of_def word_unat_eq_iff unat_word_ariths unat_of_nat_32 mult.commute)
qed

lemma tick_elem_ticked:
  "tick_elem P b w = (if turns b then do { w \<leftarrow> mp1_poke P (char_now (ticked b)) (of_nat (cell_of b)) w; Some (ticked b, w) } else Some (ticked b, w))"
  by (simp add: tick_elem_def turns_def ticked_def char_now_def cell_word[symmetric] bit_simps Let_def)

text \<open>A character with equal lengths \<open>n\<close>, \<open>k\<close> interrupts after it was started.\<close>

definition phase :: "nat \<Rightarrow> nat \<Rightarrow> mp1_blink_struct \<Rightarrow> bool" where
  "phase n k b \<longleftrightarrow> on_length b = of_nat n \<and> off_length b = of_nat n \<and> countdown b = of_nat (n - k mod n) \<and>
     (bit (status b) 0 \<longleftrightarrow> even (k div n))"

lemma sint_u16: "n < 2 ^ 15 \<Longrightarrow> sint (of_nat n :: u16) = int n"
  by (simp add: signed_of_nat signed_take_bit_int_eq_self)

lemma phase_start:
  assumes "0 < n" and "on_length b = of_nat n" and "off_length b = of_nat n"
  shows "phase n 0 (started b)"
  using assms by (simp add: phase_def started_def content_def)

lemma phase_tick:
  assumes "phase n k b" and "0 < n" and "n < 2 ^ 15"
  shows "phase n (Suc k) (ticked b)"
proof -
  have m: "0 < n - k mod n" "n - k mod n \<le> n" using assms(2) by simp_all
  have "countdown b - 1 = of_nat (n - k mod n - 1)" using assms(1) m(1) by (simp add: phase_def of_nat_diff)
  then have c: "sint (countdown b - 1) = int (n - k mod n - 1)" using sint_u16[of "n - k mod n - 1"] m(2) assms(3) by simp
  show ?thesis
  proof (cases "Suc (k mod n) = n")
    case True
    then have "turns b" "Suc k mod n = 0" "Suc k div n = Suc (k div n)" using c by (simp_all add: turns_def mod_Suc div_Suc)
    then show ?thesis using assms(1) by (auto simp: phase_def ticked_def bit_simps)
  next
    case False
    then have l: "Suc (k mod n) < n" using mod_less_divisor[OF assms(2), of k] by linarith
    then have "\<not> turns b" "Suc k mod n = Suc (k mod n)" "Suc k div n = k div n" using c by (simp_all add: turns_def mod_Suc div_Suc)
    moreover have "(of_nat (n - k mod n) :: u16) - 1 = of_nat (n - Suc (k mod n))" using l by (simp add: of_nat_diff)
    ultimately show ?thesis using assms(1) by (simp add: phase_def ticked_def)
  qed
qed

lemma phase_iter: "phase n 0 b \<Longrightarrow> 0 < n \<Longrightarrow> n < 2 ^ 15 \<Longrightarrow> phase n k ((ticked ^^ k) b)"
  by (induction k) (simp_all add: phase_tick)

lemma phase_char: "phase n k b \<Longrightarrow> char_now b = (if even (k div n) then on_char b else off_char b)"
  by (simp add: phase_def char_now_def)

section \<open>The frames\<close>

text \<open>What is left of a file, \<open>None\<close> when its end has been seen: its next line and the rest.\<close>

definition line_of :: "u8 list option \<Rightarrow> u8 list" where
  "line_of q = (case q of None \<Rightarrow> [] | Some s \<Rightarrow> takeWhile (\<lambda>c. c \<noteq> 10) s)"

definition rest_of :: "u8 list option \<Rightarrow> u8 list option" where
  "rest_of q = (case q of None \<Rightarrow> None
     | Some s \<Rightarrow> if 10 \<in> set s then Some (drop (Suc (length (takeWhile (\<lambda>c. c \<noteq> 10) s))) s) else None)"

text \<open>The character of a line in a column: lines are continued with spaces.\<close>

definition at_col :: "u8 list \<Rightarrow> nat \<Rightarrow> u8" where
  "at_col l i = (if i < length l then l ! i else 32)"

definition row_cells :: "nat \<Rightarrow> u8 list \<Rightarrow> u8 list \<Rightarrow> (nat \<times> u8 \<times> u8) list" where
  "row_cells base l0 l1 =
     filter (\<lambda>(_, c0, c1). c0 \<noteq> 32 \<or> c1 \<noteq> 32) (map (\<lambda>i. (base + i, at_col l0 i, at_col l1 i)) [0..<max (length l0) (length l1)])"

lemma row_cells_Nil [simp]: "row_cells base [] [] = []"
  by (simp add: row_cells_def)

lemma tl_shorter: "xs \<noteq> [] \<or> ys \<noteq> [] \<Longrightarrow> length (tl xs) + length (tl ys) < length xs + length ys"
  by (cases xs; cases ys) auto

lemma row_cells_step:
  assumes "l0 \<noteq> [] \<or> l1 \<noteq> []"
  shows "row_cells base l0 l1 = (if at_col l0 0 \<noteq> 32 \<or> at_col l1 0 \<noteq> 32 then [(base, at_col l0 0, at_col l1 0)] else []) @
    row_cells (Suc base) (tl l0) (tl l1)"
proof -
  let ?n = "max (length (tl l0)) (length (tl l1))"
  have n: "max (length l0) (length l1) = Suc ?n" using assms by (cases l0; cases l1) auto
  have c: "at_col l (Suc i) = at_col (tl l) i" for l i by (cases l) (auto simp: at_col_def)
  have "[0..<Suc ?n] = 0 # map Suc [0..<?n]" by (simp only: upt_conv_Cons map_Suc_upt zero_less_Suc)
  then show ?thesis unfolding row_cells_def n by (simp add: c o_def)
qed

definition left_of :: "u8 list option \<Rightarrow> nat" where
  "left_of q = (case q of None \<Rightarrow> 0 | Some s \<Rightarrow> Suc (length s))"

lemma left_of_rest: "q \<noteq> None \<Longrightarrow> left_of (rest_of q) < left_of q" "left_of (rest_of q) \<le> left_of q"
  by (auto simp: left_of_def rest_of_def split: option.splits intro!: diff_less dest: length_pos_if_in_set)

function frame_cells :: "nat \<Rightarrow> u8 list option \<Rightarrow> u8 list option \<Rightarrow> (nat \<times> u8 \<times> u8) list" where
  "frame_cells row q0 q1 = (if q0 = None \<and> q1 = None then []
     else row_cells (row * 80 + 40) (line_of q0) (line_of q1) @ frame_cells (row + 1) (rest_of q0) (rest_of q1))"
  by pat_completeness auto
termination
proof (relation "measure (\<lambda>(_, q0, q1). left_of q0 + left_of q1)")
  fix row :: nat and q0 q1 :: "u8 list option" assume "\<not> (q0 = None \<and> q1 = None)"
  then show "((row + 1, rest_of q0, rest_of q1), row, q0, q1) \<in> measure (\<lambda>(_, q0, q1). left_of q0 + left_of q1)"
    using left_of_rest[of q0] left_of_rest[of q1] by (cases "q0 = None") auto
qed simp

declare frame_cells.simps [simp del]

definition cell_blink :: "'w process \<Rightarrow> nat \<times> u8 \<times> u8 \<Rightarrow> mp1_blink_struct" where
  "cell_blink P z = started ((p_junk P)\<lparr> on_length := 15, off_length := 15, on_char := fst (snd z), off_char := snd (snd z), location := of_nat (fst z) \<rparr>)"

definition paint :: "(nat \<times> u8) list \<Rightarrow> (nat \<Rightarrow> u8) \<Rightarrow> nat \<Rightarrow> u8" where
  "paint ps f = fold (\<lambda>(a, c) f. f(a := c)) ps f"

section \<open>What the program relies on\<close>

text \<open>\<open>pix\<close> are the bytes of the screen, \<open>in0\<close> and \<open>in1\<close> what is left of the files open as \<open>fd0\<close> and
  \<open>fd1\<close>, \<open>None\<close> once they are closed.\<close>

locale screen_process =
  fixes P :: "'w process" and S :: "'w sys" and ok :: "'w \<Rightarrow> bool" and pix :: "'w \<Rightarrow> nat \<Rightarrow> u8"
    and fd0 fd1 rtc_fd :: i32 and in0 in1 :: "'w \<Rightarrow> u8 list option"
  assumes poke: "ok w \<Longrightarrow> off < 4000 \<Longrightarrow> \<exists>w'. mp1_poke P c (of_nat off) w = Some w' \<and> ok w' \<and> in0 w' = in0 w \<and> in1 w' = in1 w \<and> pix w' = (pix w)(off := c)"
    and read0: "ok w \<Longrightarrow> in0 w = Some s \<Longrightarrow> \<exists>w'. s_read S fd0 [c] 1 w = Some (of_nat (length (take 1 s)), take 1 s @ drop (length (take 1 s)) [c], w') \<and>
      ok w' \<and> in0 w' = Some (drop 1 s) \<and> in1 w' = in1 w \<and> pix w' = pix w"
    and read1: "ok w \<Longrightarrow> in1 w = Some s \<Longrightarrow> \<exists>w'. s_read S fd1 [c] 1 w = Some (of_nat (length (take 1 s)), take 1 s @ drop (length (take 1 s)) [c], w') \<and>
      ok w' \<and> in1 w' = Some (drop 1 s) \<and> in0 w' = in0 w \<and> pix w' = pix w"
    and close0: "ok w \<Longrightarrow> \<exists>r w'. s_close S fd0 w = Some (r, w') \<and> ok w' \<and> in0 w' = None \<and> in1 w' = in1 w \<and> pix w' = pix w"
    and close1: "ok w \<Longrightarrow> \<exists>r w'. s_close S fd1 w = Some (r, w') \<and> ok w' \<and> in1 w' = None \<and> in0 w' = in0 w \<and> pix w' = pix w"
    and tick: "ok w \<Longrightarrow> length g = 4 \<Longrightarrow> \<exists>r g' w'. s_read S rtc_fd g 4 w = Some (r, g', w') \<and> length g' = 4 \<and> ok w' \<and> pix w' = pix w"
    and rate: "ok w \<Longrightarrow> \<exists>r w'. s_write S rtc_fd [32, 0, 0, 0] 4 w = Some (r, w') \<and> ok w' \<and> pix w' = pix w"
    and close_rtc: "ok w \<Longrightarrow> \<exists>r w'. s_close S rtc_fd w = Some (r, w') \<and> pix w' = pix w"

section \<open>Reading a line\<close>

text \<open>One side of a row: the current character, whether the end of the file has been seen, and what
  is left.\<close>

definition side_line :: "u8 \<Rightarrow> u8 list option \<Rightarrow> u8 list" where
  "side_line c q = (if c = 10 then [] else line_of q)"

definition side_rest :: "u8 \<Rightarrow> u8 list option \<Rightarrow> u8 list option" where
  "side_rest c q = (if c = 10 then q else map_option (\<lambda>s. drop (Suc (length (line_of q))) s) q)"

definition side_eof :: "u8 \<Rightarrow> bool \<Rightarrow> u8 list option \<Rightarrow> bool" where
  "side_eof c eof q \<longleftrightarrow> eof \<or> c \<noteq> 10 \<and> (\<forall>s. q = Some s \<longrightarrow> 10 \<notin> set s)"

lemma next_byte_side:
  assumes "c \<noteq> 10 \<Longrightarrow> \<exists>s w'. q = Some s \<and> Q w' (Some (drop 1 s)) \<and>
      s_read S fd [c] 1 w = Some (of_nat (length (take 1 s)), take 1 s @ drop (length (take 1 s)) [c], w')"
    and "Q w q"
  shows "\<exists>c' eof' w' q'. next_byte S fd c eof w = Some (c', eof', w') \<and> Q w' q' \<and> (c' \<noteq> 10 \<longrightarrow> q' \<noteq> None) \<and>
    (if side_line c q = [] then c' = 10 else c' = hd (side_line c q) \<and> c' \<noteq> 10) \<and>
    side_line c' q' = tl (side_line c q) \<and> side_rest c' q' = side_rest c q \<and> side_eof c' eof' q' = side_eof c eof q"
proof (cases "c = 10")
  case True
  then show ?thesis using assms(2) by (intro exI[of _ c] exI[of _ eof] exI[of _ w] exI[of _ q]) (simp add: next_byte_def side_line_def)
next
  case False
  then obtain s w' where s: "q = Some s" "Q w' (Some (drop 1 s))"
    "s_read S fd [c] 1 w = Some (of_nat (length (take 1 s)), take 1 s @ drop (length (take 1 s)) [c], w')"
    using assms(1) by blast
  note d = next_byte_def side_line_def side_rest_def side_eof_def line_of_def
  show ?thesis
  proof (cases s)
    case Nil
    then show ?thesis using False s by (intro exI[of _ 10] exI[of _ True] exI[of _ w'] exI[of _ "Some []"]) (simp add: d)
  next
    case (Cons b bs)
    then show ?thesis using False s
      by (intro exI[of _ b] exI[of _ eof] exI[of _ w'] exI[of _ "Some bs"]) (auto simp: d)
  qed
qed

section \<open>Adding the frames\<close>

context screen_process
begin

lemma next_byte0:
  assumes "ok w" and "c \<noteq> 10 \<longrightarrow> in0 w \<noteq> None"
  shows "\<exists>c' eof' w'. next_byte S fd0 c eof w = Some (c', eof', w') \<and> ok w' \<and> in1 w' = in1 w \<and> pix w' = pix w \<and> (c' \<noteq> 10 \<longrightarrow> in0 w' \<noteq> None) \<and>
    (if side_line c (in0 w) = [] then c' = 10 else c' = hd (side_line c (in0 w)) \<and> c' \<noteq> 10) \<and>
    side_line c' (in0 w') = tl (side_line c (in0 w)) \<and> side_rest c' (in0 w') = side_rest c (in0 w) \<and> side_eof c' eof' (in0 w') = side_eof c eof (in0 w)"
proof -
  let ?Q = "\<lambda>w' q'. ok w' \<and> in0 w' = q' \<and> in1 w' = in1 w \<and> pix w' = pix w"
  have "\<exists>s w'. in0 w = Some s \<and> ?Q w' (Some (drop 1 s)) \<and>
      s_read S fd0 [c] 1 w = Some (of_nat (length (take 1 s)), take 1 s @ drop (length (take 1 s)) [c], w')" if "c \<noteq> 10"
    using assms that read0[OF assms(1)] by blast
  from next_byte_side[of c "in0 w" ?Q, OF this] assms(1) show ?thesis by blast
qed

lemma next_byte1:
  assumes "ok w" and "c \<noteq> 10 \<longrightarrow> in1 w \<noteq> None"
  shows "\<exists>c' eof' w'. next_byte S fd1 c eof w = Some (c', eof', w') \<and> ok w' \<and> in0 w' = in0 w \<and> pix w' = pix w \<and> (c' \<noteq> 10 \<longrightarrow> in1 w' \<noteq> None) \<and>
    (if side_line c (in1 w) = [] then c' = 10 else c' = hd (side_line c (in1 w)) \<and> c' \<noteq> 10) \<and>
    side_line c' (in1 w') = tl (side_line c (in1 w)) \<and> side_rest c' (in1 w') = side_rest c (in1 w) \<and> side_eof c' eof' (in1 w') = side_eof c eof (in1 w)"
proof -
  let ?Q = "\<lambda>w' q'. ok w' \<and> in1 w' = q' \<and> in0 w' = in0 w \<and> pix w' = pix w"
  have "\<exists>s w'. in1 w = Some s \<and> ?Q w' (Some (drop 1 s)) \<and>
      s_read S fd1 [c] 1 w = Some (of_nat (length (take 1 s)), take 1 s @ drop (length (take 1 s)) [c], w')" if "c \<noteq> 10"
    using assms that read1[OF assms(1)] by blast
  from next_byte_side[of c "in1 w" ?Q, OF this] assms(1) show ?thesis by blast
qed

lemma add_cell:
  assumes "ok w" and "rep P x is bs" and "0 < l" and "l < 2000" and "length bs < CELLS"
    and "b = (p_junk P)\<lparr> on_length := 15, off_length := 15, on_char := c0, off_char := c1, location := of_nat l \<rparr>"
  shows "\<exists>x' w' is'. mp1_ioctl P (Struct b) RTC_ADD x w = Some (0, Struct b, x', w') \<and> ok w' \<and> in0 w' = in0 w \<and> in1 w' = in1 w \<and>
    rep P x' is' (cell_blink P (l, c0, c1) # bs) \<and> pix w' = (pix w)(2 * l := c0)"
proof -
  have u: "unat (location b) = l" using assms(4,6) by (simp add: unat_of_nat take_bit_eq_mod)
  then have l: "location b \<noteq> 0" "location b < 2000" using assms(3,4) by (auto simp: word_less_nat_alt)
  have cell: "cell_of b = 2 * l" by (simp add: cell_of_def u)
  have oc: "on_char b = c0" by (simp add: assms(6))
  obtain x' is' where x': "rep P x' is' (started b # bs)"
    "mp1_ioctl_add P b x w = do { w \<leftarrow> mp1_poke P (on_char b) (of_nat (cell_of b)) w; Some (0, x', w) }"
    using add_refines(2)[OF assms(2) l assms(5), of w] unfolding cell_word by blast
  obtain w' where "mp1_poke P (on_char b) (of_nat (cell_of b)) w = Some w'" "ok w'" "in0 w' = in0 w" "in1 w' = in1 w" "pix w' = (pix w)(2 * l := c0)"
    using poke[OF assms(1), of "2 * l" "on_char b"] assms(4) unfolding cell oc by auto
  moreover have "cell_blink P (l, c0, c1) = started b" by (simp add: cell_blink_def assms(6))
  ultimately show ?thesis using x' by (auto simp: mp1_ioctl_def)
qed

lemma frame_row_cells:
  "ok w \<Longrightarrow> c0 \<noteq> 10 \<longrightarrow> in0 w \<noteq> None \<Longrightarrow> c1 \<noteq> 10 \<longrightarrow> in1 w \<noteq> None \<Longrightarrow> rep P x is bs \<Longrightarrow>
    cells = row_cells (row * 80 + col + 40) (side_line c0 (in0 w)) (side_line c1 (in1 w)) \<Longrightarrow>
    (\<forall>z \<in> set cells. fst z < 2000) \<Longrightarrow> length cells + length bs \<le> CELLS \<Longrightarrow>
    \<exists>x' w' is'. frame_row P S fd0 fd1 (int row) (int col) c0 eof0 c1 eof1 x w =
        Some (side_eof c0 eof0 (in0 w), side_eof c1 eof1 (in1 w), x', w') \<and> ok w' \<and>
      in0 w' = side_rest c0 (in0 w) \<and> in1 w' = side_rest c1 (in1 w) \<and> rep P x' is' (rev (map (cell_blink P) cells) @ bs) \<and>
      pix w' = paint (map (\<lambda>(l, c, _). (2 * l, c)) cells) (pix w)"
proof (induction "length (side_line c0 (in0 w)) + length (side_line c1 (in1 w))" arbitrary: col c0 eof0 c1 eof1 x w bs "is" cells rule: less_induct)
  case less
  let ?l0 = "side_line c0 (in0 w)" and ?l1 = "side_line c1 (in1 w)"
  obtain d0 e0 w1 where n0: "next_byte S fd0 c0 eof0 w = Some (d0, e0, w1)" "ok w1" "in1 w1 = in1 w" "pix w1 = pix w" "d0 \<noteq> 10 \<longrightarrow> in0 w1 \<noteq> None"
    "if ?l0 = [] then d0 = 10 else d0 = hd ?l0 \<and> d0 \<noteq> 10" "side_line d0 (in0 w1) = tl ?l0" "side_rest d0 (in0 w1) = side_rest c0 (in0 w)"
    "side_eof d0 e0 (in0 w1) = side_eof c0 eof0 (in0 w)" using next_byte0[OF less.prems(1,2)] by blast
  obtain d1 e1 w2 where n1: "next_byte S fd1 c1 eof1 w1 = Some (d1, e1, w2)" "ok w2" "in0 w2 = in0 w1" "pix w2 = pix w1" "d1 \<noteq> 10 \<longrightarrow> in1 w2 \<noteq> None"
    "if ?l1 = [] then d1 = 10 else d1 = hd ?l1 \<and> d1 \<noteq> 10" "side_line d1 (in1 w2) = tl ?l1" "side_rest d1 (in1 w2) = side_rest c1 (in1 w)"
    "side_eof d1 e1 (in1 w2) = side_eof c1 eof1 (in1 w)" using next_byte1[OF n0(2), of c1 eof1] less.prems(3) unfolding n0(3) by blast
  show ?case
  proof (cases "d0 = 10 \<and> d1 = 10")
    case True
    then have "?l0 = []" "?l1 = []" using n0(6) n1(6) by (auto split: if_splits)
    then have "cells = []" using less.prems(5) by simp
    moreover have "frame_row P S fd0 fd1 (int row) (int col) c0 eof0 c1 eof1 x w = Some (e0, e1, x, w2)"
      using n0(1) n1(1) True by (subst frame_row.simps) simp
    ultimately show ?thesis
      using True n0 n1 less.prems(4) by (auto simp: side_eof_def side_rest_def paint_def)
  next
    case False
    then have ne: "?l0 \<noteq> [] \<or> ?l1 \<noteq> []" using n0(6) n1(6) by (auto split: if_splits)
    have at: "at_col ?l0 0 = (if d0 = 10 then 32 else d0)" "at_col ?l1 0 = (if d1 = 10 then 32 else d1)"
      using n0(6) n1(6) by (auto simp: at_col_def hd_conv_nth split: if_splits)
    let ?z = "(row * 80 + col + 40, at_col ?l0 0, at_col ?l1 0)"
    define more where "more = row_cells (row * 80 + (col + 1) + 40) (tl ?l0) (tl ?l1)"
    let ?blinks = "d0 \<noteq> 32 \<and> d0 \<noteq> 10 \<or> d1 \<noteq> 32 \<and> d1 \<noteq> 10"
    have cells: "cells = (if ?blinks then [?z] else []) @ more"
      unfolding less.prems(5) row_cells_step[OF ne] more_def at by (auto simp: algebra_simps)
    have small: "length (side_line d0 (in0 w2)) + length (side_line d1 (in1 w2)) < length ?l0 + length ?l1"
      unfolding n1(3,7) n0(7) by (rule tl_shorter[OF ne])
    have more': "more = row_cells (row * 80 + (col + 1) + 40) (side_line d0 (in0 w2)) (side_line d1 (in1 w2))"
      by (simp add: more_def n0(7) n1(3,7))
    obtain x1 w3 is1 where a: "(if ?blinks then mp1_ioctl P (Struct (frame_blink P d0 d1 (int row * 80 + int col + 40))) RTC_ADD x w2 else Some (0, Number 0, x, w2)) = 
          Some (0, if ?blinks then Struct (frame_blink P d0 d1 (int row * 80 + int col + 40)) else Number 0, x1, w3)" "ok w3" "in0 w3 = in0 w2" "in1 w3 = in1 w2"
        "rep P x1 is1 ((if ?blinks then [cell_blink P ?z] else []) @ bs)" "pix w3 = (if ?blinks then (pix w2)(2 * fst ?z := fst (snd ?z)) else pix w2)"
    proof (cases ?blinks)
      case True
      have b: "frame_blink P d0 d1 (int row * 80 + int col + 40) =
          (p_junk P)\<lparr> on_length := 15, off_length := 15, on_char := at_col ?l0 0, off_char := at_col ?l1 0, location := of_nat (fst ?z) \<rparr>"
        by (simp add: frame_blink_def at)
      have "fst ?z < 2000" "length bs < CELLS" using less.prems(6,7) True by (auto simp: cells)
      then show thesis using add_cell[OF n1(2) less.prems(4) _ _ _ b] True that by fastforce
    qed (use n1(2) less.prems(4) that in auto)
    have len: "\<forall>z \<in> set more. fst z < 2000" "length more + length ((if ?blinks then [cell_blink P ?z] else []) @ bs) \<le> CELLS"
      using less.prems(6,7) by (auto simp: cells)
    obtain x' w' is' where r: "frame_row P S fd0 fd1 (int row) (int (col + 1)) d0 e0 d1 e1 x1 w3 =
          Some (side_eof d0 e0 (in0 w3), side_eof d1 e1 (in1 w3), x', w')" "ok w'" "in0 w' = side_rest d0 (in0 w3)" "in1 w' = side_rest d1 (in1 w3)"
        "rep P x' is' (rev (map (cell_blink P) more) @ (if ?blinks then [cell_blink P ?z] else []) @ bs)"
        "pix w' = paint (map (\<lambda>(l, c, _). (2 * l, c)) more) (pix w3)"
      using less.hyps[OF _ a(2) _ _ a(5) _ len, of d0 d1 "col + 1" e0 e1] small more' n0(5) n1(3,5) a(3,4) by auto
    have "frame_row P S fd0 fd1 (int row) (int col) c0 eof0 c1 eof1 x w = frame_row P S fd0 fd1 (int row) (int (col + 1)) d0 e0 d1 e1 x1 w3"
      using n0(1) n1(1) False a(1) by (subst frame_row.simps) (auto simp: add.commute split: if_splits)
    moreover have "pix w' = paint (map (\<lambda>(l, c, _). (2 * l, c)) cells) (pix w)"
      by (simp add: r(6) a(6) n1(4) n0(4) cells paint_def)
    ultimately show ?thesis
      using r(1-5) n0(8,9) n1(3,8,9) a(3,4) by (auto simp: cells)
  qed
qed

end

text \<open>The characters at the start of a row, and what a row leaves of a file.\<close>

lemma side_row:
  assumes "c = (if q = None then 10 else 48)"
  shows "side_line c q = line_of q" and "rest_of q = (if side_eof c (q = None) q then None else side_rest c q)"
    and "\<not> side_eof c (q = None) q \<Longrightarrow> side_rest c q \<noteq> None"
  using assms by (auto simp: side_line_def side_eof_def side_rest_def rest_of_def line_of_def split: option.splits)

context screen_process
begin

lemma line_end0:
  assumes "ok w"
  shows "\<exists>w'. line_end S fd0 e w = Some (if e then 10 else 48, w') \<and> ok w' \<and> in0 w' = (if e then None else in0 w) \<and> in1 w' = in1 w \<and> pix w' = pix w"
  using close0[OF assms] assms by (auto simp: line_end_def)

lemma line_end1:
  assumes "ok w"
  shows "\<exists>w'. line_end S fd1 e w = Some (if e then 10 else 48, w') \<and> ok w' \<and> in1 w' = (if e then None else in1 w) \<and> in0 w' = in0 w \<and> pix w' = pix w"
  using close1[OF assms] assms by (auto simp: line_end_def)

lemma frame_rows_cells:
  "ok w \<Longrightarrow> rep P x is bs \<Longrightarrow> cells = frame_cells row (in0 w) (in1 w) \<Longrightarrow> \<forall>z \<in> set cells. fst z < 2000 \<Longrightarrow> length cells + length bs \<le> CELLS \<Longrightarrow>
    \<exists>x' w' is'. frame_rows P S fd0 fd1 (int row) (if in0 w = None then 10 else 48) (in0 w = None) (if in1 w = None then 10 else 48) (in1 w = None) x w =
        Some (x', w') \<and> ok w' \<and> rep P x' is' (rev (map (cell_blink P) cells) @ bs) \<and> pix w' = paint (map (\<lambda>(l, c, _). (2 * l, c)) cells) (pix w)"
proof (induction "left_of (in0 w) + left_of (in1 w)" arbitrary: row x w bs "is" cells rule: less_induct)
  case less
  let ?c0 = "if in0 w = None then 10 else 48 :: u8" and ?c1 = "if in1 w = None then 10 else 48 :: u8"
  note s0 = side_row[of ?c0 "in0 w", OF refl] and s1 = side_row[of ?c1 "in1 w", OF refl]
  show ?case
  proof (cases "in0 w = None \<and> in1 w = None")
    case True
    then have "cells = []" using less.prems(3) by (simp add: frame_cells.simps)
    then show ?thesis using True less.prems(1,2) by (subst frame_rows.simps) (auto simp: paint_def)
  next
    case False
    define r0 where "r0 = row_cells (row * 80 + 40) (line_of (in0 w)) (line_of (in1 w))"
    define more where "more = frame_cells (row + 1) (rest_of (in0 w)) (rest_of (in1 w))"
    have cells: "cells = r0 @ more" using False by (auto simp: less.prems(3) frame_cells.simps[of row] r0_def more_def)
    let ?e0 = "side_eof ?c0 (in0 w = None) (in0 w)" and ?e1 = "side_eof ?c1 (in1 w = None) (in1 w)"
    have pre: "?c0 \<noteq> 10 \<longrightarrow> in0 w \<noteq> None" "?c1 \<noteq> 10 \<longrightarrow> in1 w \<noteq> None" "r0 = row_cells (row * 80 + 0 + 40) (side_line ?c0 (in0 w)) (side_line ?c1 (in1 w))"
      "\<forall>z \<in> set r0. fst z < 2000" "length r0 + length bs \<le> CELLS"
      unfolding s0(1) s1(1) using less.prems(4,5) by (simp_all add: cells r0_def)
    obtain x1 w1 is1 where r: "frame_row P S fd0 fd1 (int row) 0 ?c0 (in0 w = None) ?c1 (in1 w = None) x w = Some (?e0, ?e1, x1, w1)" "ok w1"
      "in0 w1 = side_rest ?c0 (in0 w)" "in1 w1 = side_rest ?c1 (in1 w)" "rep P x1 is1 (rev (map (cell_blink P) r0) @ bs)"
      "pix w1 = paint (map (\<lambda>(l, c, _). (2 * l, c)) r0) (pix w)"
      using frame_row_cells[OF less.prems(1) pre(1,2) less.prems(2) pre(3-5), of "in0 w = None" "in1 w = None"] by auto
    obtain w2 where w2: "line_end S fd0 ?e0 w1 = Some (if ?e0 then 10 else 48, w2)" "ok w2" "in0 w2 = rest_of (in0 w)" "in1 w2 = in1 w1" "pix w2 = pix w1"
      using line_end0[OF r(2), of ?e0] unfolding s0(2) r(3) by auto
    obtain w3 where w3: "line_end S fd1 ?e1 w2 = Some (if ?e1 then 10 else 48, w3)" "ok w3" "in1 w3 = rest_of (in1 w)" "in0 w3 = rest_of (in0 w)" "pix w3 = pix w1"
      using line_end1[OF w2(2), of ?e1] unfolding s1(2) w2(3-5) r(4) by auto
    have e: "?e0 \<longleftrightarrow> in0 w3 = None" "?e1 \<longleftrightarrow> in1 w3 = None" using s0(2,3) s1(2,3) by (auto simp: w3(3,4))
    have small: "left_of (in0 w3) + left_of (in1 w3) < left_of (in0 w) + left_of (in1 w)"
      using False left_of_rest[of "in0 w"] left_of_rest[of "in1 w"] by (cases "in0 w = None") (auto simp: w3(3,4))
    obtain x' w' is' where m: "frame_rows P S fd0 fd1 (int (row + 1)) (if in0 w3 = None then 10 else 48) (in0 w3 = None) (if in1 w3 = None then 10 else 48) (in1 w3 = None) x1 w3 =
        Some (x', w')" "ok w'" "rep P x' is' (rev (map (cell_blink P) more) @ rev (map (cell_blink P) r0) @ bs)"
        "pix w' = paint (map (\<lambda>(l, c, _). (2 * l, c)) more) (pix w3)"
      using less.hyps[OF small w3(2) r(5), of more "row + 1"] less.prems(4,5) by (auto simp: cells more_def w3(3,4))
    have "frame_rows P S fd0 fd1 (int row) ?c0 (in0 w = None) ?c1 (in1 w = None) x w =
        frame_rows P S fd0 fd1 (int (row + 1)) (if in0 w3 = None then 10 else 48) (in0 w3 = None) (if in1 w3 = None then 10 else 48) (in1 w3 = None) x1 w3"
      using False r(1) w2(1) w3(1) unfolding e by (subst frame_rows.simps) (simp add: add.commute)
    moreover have "pix w' = paint (map (\<lambda>(l, c, _). (2 * l, c)) cells) (pix w)" by (simp add: m(4) w3(5) r(6) cells paint_def)
    ultimately show ?thesis using m(1-3) by (auto simp: cells)
  qed
qed

end

section \<open>Waiting\<close>

text \<open>Every character of the list is on the screen, no two at the same place.\<close>

definition displayed :: "mp1_blink_struct list \<Rightarrow> (nat \<Rightarrow> u8) \<Rightarrow> bool" where
  "displayed bs p \<longleftrightarrow> distinct (map cell_of bs) \<and> (\<forall>b \<in> set bs. p (cell_of b) = char_now b)"

definition on_page :: "mp1_blink_struct list \<Rightarrow> bool" where
  "on_page bs \<longleftrightarrow> (\<forall>b \<in> set bs. cell_of b < 4000)"

lemma on_page_ticked [simp]: "on_page (map ticked bs) = on_page bs"
  by (simp add: on_page_def)

lemma paint_other: "a \<notin> fst ` set ps \<Longrightarrow> paint ps f a = f a"
  unfolding paint_def by (induction ps arbitrary: f) auto

lemma paint_at: "distinct (map fst ps) \<Longrightarrow> (a, c) \<in> set ps \<Longrightarrow> paint ps f a = c"
proof (induction ps arbitrary: f)
  case (Cons p ps)
  have step: "paint (p # ps) f = paint ps (f(fst p := snd p))" by (simp add: paint_def case_prod_beta)
  show ?case
  proof (cases "(a, c) = p")
    case True
    then have p: "p = (a, c)" by simp
    then have "a \<notin> fst ` set ps" using Cons.prems(1) by simp
    then show ?thesis using paint_other[of a ps] step by (simp add: p)
  next
    case False
    then show ?thesis using Cons by (simp add: step)
  qed
qed simp

context screen_process
begin

lemma a_tick_ticks:
  "ok w \<Longrightarrow> on_page bs \<Longrightarrow>
    \<exists>w'. a_tick P bs w = Some (map ticked bs, w') \<and> ok w' \<and> in0 w' = in0 w \<and> in1 w' = in1 w \<and>
      pix w' = paint (map (\<lambda>b. (cell_of b, char_now (ticked b))) (filter turns bs)) (pix w)"
proof (induction bs arbitrary: w)
  case (Cons b bs)
  have b: "cell_of b < 4000" "on_page bs" using Cons.prems(2) by (simp_all add: on_page_def)
  obtain w1 where w1: "tick_elem P b w = Some (ticked b, w1)" "ok w1" "in0 w1 = in0 w" "in1 w1 = in1 w"
    "pix w1 = (if turns b then (pix w)(cell_of b := char_now (ticked b)) else pix w)"
    using poke[OF Cons.prems(1) b(1), of "char_now (ticked b)"] Cons.prems(1) by (cases "turns b") (auto simp: tick_elem_ticked)
  then show ?case using Cons.IH[OF w1(2) b(2)] by (auto simp: paint_def)
qed (simp add: paint_def)

lemma tasklet_ticks:
  assumes "ok w" and "on_page bs" and "rep P x is bs"
  shows "\<exists>x' w'. mp1_rtc_tasklet P x w = Some (x', w') \<and> rep P x' is (map ticked bs) \<and> ok w' \<and>
    (displayed bs (pix w) \<longrightarrow> displayed (map ticked bs) (pix w')) \<and> (\<forall>a. a \<notin> cell_of ` set bs \<longrightarrow> pix w' a = pix w a)"
proof -
  obtain w' where w': "a_tick P bs w = Some (map ticked bs, w')" "ok w'"
    "pix w' = paint (map (\<lambda>b. (cell_of b, char_now (ticked b))) (filter turns bs)) (pix w)"
    using a_tick_ticks[OF assms(1,2)] by blast
  obtain x' where x': "mp1_rtc_tasklet P x w = Some (x', w')" "rep P x' is (map ticked bs)"
    using tasklet_refines[OF assms(3), of w] w'(1) by auto
  have d: "displayed (map ticked bs) (pix w')" if d: "displayed bs (pix w)"
  proof -
    have ds: "distinct (map fst (map (\<lambda>b. (cell_of b, char_now (ticked b))) (filter turns bs)))"
      using d distinct_map_filter[of cell_of bs turns] by (simp add: displayed_def o_def)
    have "pix w' (cell_of b) = char_now (ticked b)" if b: "b \<in> set bs" for b
    proof (cases "turns b")
      case True
      then show ?thesis unfolding w'(3) using b by (intro paint_at[OF ds]) auto
    next
      case False
      have "c = b" if "c \<in> set bs" "cell_of c = cell_of b" for c
        using d b that by (auto simp: displayed_def distinct_map dest: inj_onD)
      then have "cell_of b \<notin> fst ` set (map (\<lambda>b. (cell_of b, char_now (ticked b))) (filter turns bs))" using False by force
      then show ?thesis unfolding w'(3) using d b False by (simp add: paint_other displayed_def char_now_ticked)
    qed
    then show ?thesis using d by (simp add: displayed_def o_def)
  qed
  have "pix w' a = pix w a" if "a \<notin> cell_of ` set bs" for a
    unfolding w'(3) using that by (intro paint_other) auto
  then show ?thesis using x' w'(2) d by blast
qed

lemma fish_wait_ticks:
  "ok w \<Longrightarrow> on_page bs \<Longrightarrow> rep P x is bs \<Longrightarrow> length g = 4 \<Longrightarrow>
    \<exists>g' x' w'. fish_wait P S rtc_fd n g x w = Some (g', x', w') \<and> length g' = 4 \<and> ok w' \<and> rep P x' is (map (ticked ^^ n) bs) \<and>
      (displayed bs (pix w) \<longrightarrow> displayed (map (ticked ^^ n) bs) (pix w')) \<and> (\<forall>a. a \<notin> cell_of ` set bs \<longrightarrow> pix w' a = pix w a)"
proof (induction n arbitrary: g x w bs)
  case (Suc n)
  obtain r g1 w1 where w1: "s_read S rtc_fd g 4 w = Some (r, g1, w1)" "length g1 = 4" "ok w1" "pix w1 = pix w"
    using tick[OF Suc.prems(1,4)] by blast
  obtain x2 w2 where w2: "mp1_rtc_tasklet P x w1 = Some (x2, w2)" "rep P x2 is (map ticked bs)" "ok w2"
    "displayed bs (pix w) \<longrightarrow> displayed (map ticked bs) (pix w2)" "\<forall>a. a \<notin> cell_of ` set bs \<longrightarrow> pix w2 a = pix w a"
    using tasklet_ticks[OF w1(3) Suc.prems(2,3)] unfolding w1(4) by blast
  have op: "on_page (map ticked bs)" "cell_of ` set (map ticked bs) = cell_of ` set bs" using Suc.prems(2) by (simp_all add: image_image)
  have it: "map (ticked ^^ n) (map ticked bs) = map (ticked ^^ Suc n) bs" by (simp add: funpow_Suc_right del: funpow.simps)
  obtain g' x' w' where r: "fish_wait P S rtc_fd n g1 x2 w2 = Some (g', x', w')" "length g' = 4" "ok w'" "rep P x' is (map (ticked ^^ Suc n) bs)"
    "displayed (map ticked bs) (pix w2) \<longrightarrow> displayed (map (ticked ^^ Suc n) bs) (pix w')" "\<forall>a. a \<notin> cell_of ` set bs \<longrightarrow> pix w' a = pix w2 a"
    using Suc.IH[OF w2(3) op(1) w2(2) w1(2)] unfolding it op(2) by blast
  have "fish_wait P S rtc_fd (Suc n) g x w = Some (g', x', w')" using w1(1) w2(1) r(1) by simp
  then show ?case using r(2-6) w2(4,5) by (intro exI[of _ g'] exI[of _ x'] exI[of _ w']) (simp del: funpow.simps)
qed simp

end

section \<open>The whole program\<close>

text \<open>The system is in order, and so is the driver's list.\<close>

definition in_tank :: "'w process \<Rightarrow> ('w \<Rightarrow> bool) \<Rightarrow> mp1 \<Rightarrow> 'w \<Rightarrow> bool" where
  "in_tank P ok x w \<longleftrightarrow> ok w \<and> (\<exists>is bs. rep P x is bs \<and> on_page bs)"

lemma in_tankI: "ok w \<Longrightarrow> rep P x is bs \<Longrightarrow> on_page bs \<Longrightarrow> in_tank P ok x w"
  unfolding in_tank_def by blast

lemma drop_first_subset: "set (drop_first q bs) \<subseteq> set bs"
  by (induction bs) auto

lemma on_page_drop: "on_page bs \<Longrightarrow> on_page (drop_first q bs)"
  using drop_first_subset[of q bs] by (auto simp: on_page_def)

lemma on_page_upd: "(\<And>b. cell_of (f b) = cell_of b) \<Longrightarrow> on_page bs \<Longrightarrow> on_page (upd_first q f bs)"
  by (induction bs) (simp_all add: on_page_def)

lemma cell_blink_sel:
  assumes "fst z < 2000"
  shows "cell_of (cell_blink P z) = 2 * fst z" and "char_now (cell_blink P z) = fst (snd z)" and "phase 15 0 (cell_blink P z)"
    and "on_char (cell_blink P z) = fst (snd z)" and "off_char (cell_blink P z) = snd (snd z)"
  using assms phase_start[of 15] by (simp_all add: cell_blink_def cell_of_def started_def char_now_def unat_of_nat take_bit_eq_mod)

lemma iterate_ticked [simp]:
  "cell_of ((ticked ^^ n) b) = cell_of b" "on_char ((ticked ^^ n) b) = on_char b" "off_char ((ticked ^^ n) b) = off_char b"
  by (induction n) simp_all

lemma cell_blink_char:
  assumes "fst z < 2000"
  shows "char_now ((ticked ^^ n) (cell_blink P z)) = (if even (n div 15) then fst (snd z) else snd (snd z))"
  using phase_char[OF phase_iter[OF cell_blink_sel(3)[OF assms]], of n P] cell_blink_sel(4,5)[OF assms, of P] by simp

lemma cells_fit:
  fixes cells :: "(nat \<times> 'a) list"
  assumes "distinct (map fst cells)" and "\<forall>z \<in> set cells. fst z < 2000"
  shows "length cells \<le> CELLS"
proof -
  have "set (map fst cells) \<subseteq> {..<CELLS}" using assms(2) by auto
  then show ?thesis using card_mono[of "{..<CELLS}" "set (map fst cells)"] distinct_card[OF assms(1)] by simp
qed

lemma cells_displayed:
  assumes "distinct (map fst cells)" and "\<forall>z \<in> set cells. fst z < 2000"
  shows "displayed (rev (map (cell_blink P) cells)) (paint (map (\<lambda>(l, c, _). (2 * l, c)) cells) p)" and "on_page (rev (map (cell_blink P) cells))"
    and "cell_of ` set (rev (map (cell_blink P) cells)) = (\<lambda>z. 2 * fst z) ` set cells"
proof -
  have c: "map (\<lambda>z. cell_of (cell_blink P z)) cells = map ((*) 2) (map fst cells)" using assms(2) by (simp add: cell_blink_sel(1))
  have d: "distinct (map ((*) 2) (map fst cells))" using assms(1) by (simp add: distinct_map inj_on_def)
  have k: "map fst (map (\<lambda>(l, c, _). (2 * l, c)) cells) = map ((*) 2) (map fst cells)" by auto
  have "paint (map (\<lambda>(l, c, _). (2 * l, c)) cells) p (cell_of (cell_blink P z)) = char_now (cell_blink P z)" if "z \<in> set cells" for z
  proof (rule paint_at)
    show "distinct (map fst (map (\<lambda>(l, c, _). (2 * l, c)) cells))" unfolding k by (rule d)
    show "(cell_of (cell_blink P z), char_now (cell_blink P z)) \<in> set (map (\<lambda>(l, c, _). (2 * l, c)) cells)"
      using that assms(2) by (auto simp: cell_blink_sel image_iff intro!: bexI[of _ z] split: prod.split)
  qed
  then show "displayed (rev (map (cell_blink P) cells)) (paint (map (\<lambda>(l, c, _). (2 * l, c)) cells) p)"
    using d unfolding c[symmetric] by (simp add: displayed_def o_def rev_map[symmetric])
  show "on_page (rev (map (cell_blink P) cells))" using assms(2) by (auto simp: on_page_def cell_blink_sel(1))
  show "cell_of ` set (rev (map (cell_blink P) cells)) = (\<lambda>z. 2 * fst z) ` set cells"
    using assms(2) by (force simp: cell_blink_sel(1))
qed

context screen_process
begin

lemma frames_added:
  assumes "ok w" and "in0 w = Some f0" and "in1 w = Some f1" and "rep P x [] []" and "cells = frame_cells 0 (Some f0) (Some f1)"
    and "distinct (map fst cells)" and "\<forall>z \<in> set cells. fst z < 2000"
  shows "\<exists>x' w' is'. frame_rows P S fd0 fd1 0 48 False 48 False x w = Some (x', w') \<and> ok w' \<and>
    rep P x' is' (rev (map (cell_blink P) cells)) \<and> pix w' = paint (map (\<lambda>(l, c, _). (2 * l, c)) cells) (pix w)"
  using frame_rows_cells[OF assms(1,4), of cells 0] assms(2,3,5-7) cells_fit[OF assms(6,7)] by simp

lemma frames_shown:
  assumes "ok w" and "in0 w = Some f0" and "in1 w = Some f1" and "rep P x [] []" and "cells = frame_cells 0 (Some f0) (Some f1)"
    and "distinct (map fst cells)" and "\<forall>z \<in> set cells. fst z < 2000" and "length g = 4"
  shows "\<exists>x1 w1 r w2 g' x3 w3. frame_rows P S fd0 fd1 0 48 False 48 False x w = Some (x1, w1) \<and>
    s_write S rtc_fd [32, 0, 0, 0] 4 w1 = Some (r, w2) \<and> fish_wait P S rtc_fd n g x1 w2 = Some (g', x3, w3) \<and>
    (\<forall>z \<in> set cells. pix w3 (2 * fst z) = (if even (n div 15) then fst (snd z) else snd (snd z))) \<and>
    (\<forall>a. a \<notin> (\<lambda>z. 2 * fst z) ` set cells \<longrightarrow> pix w3 a = pix w a)"
proof -
  let ?bs = "rev (map (cell_blink P) cells)"
  obtain x1 w1 is1 where r: "frame_rows P S fd0 fd1 0 48 False 48 False x w = Some (x1, w1)" "ok w1" "rep P x1 is1 ?bs"
    "pix w1 = paint (map (\<lambda>(l, c, _). (2 * l, c)) cells) (pix w)" using frames_added[OF assms(1-7)] by blast
  note cd = cells_displayed[OF assms(6,7), of P]
  obtain r' w2 where w2: "s_write S rtc_fd [32, 0, 0, 0] 4 w1 = Some (r', w2)" "ok w2" "pix w2 = pix w1" using rate[OF r(2)] by blast
  obtain g' x3 w3 where w3: "fish_wait P S rtc_fd n g x1 w2 = Some (g', x3, w3)" "displayed (map (ticked ^^ n) ?bs) (pix w3)"
    "\<forall>a. a \<notin> (\<lambda>z. 2 * fst z) ` set cells \<longrightarrow> pix w3 a = pix w2 a"
    using fish_wait_ticks[OF w2(2) cd(2) r(3) assms(8), of n] cd(1)[of "pix w"] unfolding w2(3) r(4) cd(3) by blast
  have "pix w3 (2 * fst z) = (if even (n div 15) then fst (snd z) else snd (snd z))" if z: "z \<in> set cells" for z
  proof -
    have l: "fst z < 2000" using assms(7) z by blast
    have "(ticked ^^ n) (cell_blink P z) \<in> set (map (ticked ^^ n) ?bs)" using z by simp
    then have "pix w3 (cell_of ((ticked ^^ n) (cell_blink P z))) = char_now ((ticked ^^ n) (cell_blink P z))"
      using w3(2) unfolding displayed_def by blast
    then show ?thesis by (simp add: cell_blink_sel(1)[OF l] cell_blink_char[OF l])
  qed
  moreover have "pix w3 a = pix w a" if "a \<notin> (\<lambda>z. 2 * fst z) ` set cells" for a
  proof -
    have "fst ` set (map (\<lambda>(l, c, _). (2 * l, c)) cells) = (\<lambda>z. 2 * fst z) ` set cells" by (simp add: image_image case_prod_beta)
    then show ?thesis using w3(3) that paint_other[of a "map (\<lambda>(l, c, _). (2 * l, c)) cells" "pix w"] unfolding w2(3) r(4) by simp
  qed
  ultimately show ?thesis using r(1) w2(1) w3(1) by blast
qed

lemma tank_wait: "in_tank P ok x w \<Longrightarrow> length g = 4 \<Longrightarrow> \<exists>g' x' w'. fish_wait P S rtc_fd n g x w = Some (g', x', w') \<and> length g' = 4 \<and> in_tank P ok x' w'"
proof -
  assume t: "in_tank P ok x w" and g: "length g = 4"
  obtain "is" bs where b: "ok w" "rep P x is bs" "on_page bs" using t unfolding in_tank_def by blast
  have "on_page (map (ticked ^^ n) bs)" using b(3) by (simp add: on_page_def)
  then show ?thesis using fish_wait_ticks[OF b(1,3,2) g, of n] in_tankI[of ok _ P] by blast
qed

lemma tank_add:
  assumes "in_tank P ok x w" and "location b \<noteq> 0" and "location b < 2000"
  shows "\<exists>r x' w'. mp1_ioctl P (Struct b) RTC_ADD x w = Some (r, Struct b, x', w') \<and> in_tank P ok x' w'"
proof -
  obtain "is" bs where r: "ok w" "rep P x is bs" "on_page bs" using assms(1) unfolding in_tank_def by blast
  have len: "length bs < CELLS \<or> length bs = CELLS" using rep_malloc[OF r(2)] by metis
  have c: "cell_of b < 4000" using assms(3) by (simp add: cell_of_def word_less_nat_alt)
  show ?thesis
  proof (cases "length bs = CELLS")
    case True
    then show ?thesis using add_refines(1)[OF r(2) assms(2), of w] assms(1) by (simp add: mp1_ioctl_def)
  next
    case False
    then obtain x' is' where x': "rep P x' is' (started b # bs)"
      "mp1_ioctl_add P b x w = do { w \<leftarrow> mp1_poke P (on_char b) (of_nat (cell_of b)) w; Some (0, x', w) }"
      using add_refines(2)[OF r(2) assms(2,3), of w] len unfolding cell_word by blast
    have "on_page (started b # bs)" using r(3) c by (simp add: on_page_def started_def cell_of_def)
    then show ?thesis using poke[OF r(1) c, of "on_char b"] x' by (auto simp: mp1_ioctl_def intro: in_tankI)
  qed
qed

lemma tank_remove:
  assumes "in_tank P ok x w"
  shows "\<exists>r x'. mp1_ioctl P (Number n) RTC_REMOVE x w = Some (r, Number n, x', w) \<and> in_tank P ok x' w"
proof -
  obtain "is" bs where r: "ok w" "rep P x is bs" "on_page bs" using assms unfolding in_tank_def by blast
  show ?thesis
  proof (cases "find (placed (ucast n)) bs")
    case None
    then show ?thesis using remove_refines(1)[OF r(2), of n] assms by (simp add: mp1_ioctl_def)
  next
    case (Some b)
    then obtain x' is' where "mp1_ioctl_remove P n x = Some (0, x')" "rep P x' is' (drop_first (placed (ucast n)) bs)"
      using remove_refines(2)[OF r(2), of n] by auto
    then show ?thesis using r(1) on_page_drop[OF r(3)] by (auto simp: mp1_ioctl_def intro!: in_tankI)
  qed
qed

lemma tank_sync:
  assumes "in_tank P ok x w"
  shows "\<exists>r x' w'. mp1_ioctl P (Number n) RTC_SYNC x w = Some (r, Number n, x', w') \<and> in_tank P ok x' w'"
proof -
  obtain "is" bs where r: "ok w" "rep P x is bs" "on_page bs" using assms unfolding in_tank_def by blast
  show ?thesis
  proof (cases "find (placed (ucast (drop_bit 16 n))) bs = None \<or> find (placed (ucast n)) bs = None")
    case True
    then show ?thesis using sync_refines(1)[OF r(2), of n w] assms by (auto simp: mp1_ioctl_def)
  next
    case False
    then obtain s d where f: "find (placed (ucast (drop_bit 16 n))) bs = Some s" "find (placed (ucast n)) bs = Some d" by auto
    then have "cell_of d < 4000" using r(3) by (auto simp: on_page_def find_Some_iff)
    then obtain w' where w': "mp1_poke P (off_char d) (of_nat (cell_of d)) w = Some w'" "ok w'" using poke[OF r(1)] by blast
    obtain x' is' where x': "rep P x' is' (upd_first (placed (ucast n)) (synced s) bs)"
      "mp1_ioctl_sync P n x w = do { w \<leftarrow> mp1_poke P (off_char d) (of_nat (cell_of d)) w; Some (0, x', w) }"
      using sync_refines(2)[OF r(2) f, of w] unfolding cell_word by blast
    moreover have "on_page (upd_first (placed (ucast n)) (synced s) bs)" using r(3) by (intro on_page_upd) (simp_all add: synced_def cell_of_def)
    ultimately show ?thesis using w' by (auto simp: mp1_ioctl_def intro: in_tankI)
  qed
qed

lemma fish_show_returns:
  assumes "in_tank P ok x w" and "length g = 4"
  shows "\<exists>x' w'. fish_show P S rtc_fd g x w = Some (x', w')"
proof -
  let ?im = "(p_junk P)\<lparr> on_char := 73, off_char := 77, on_length := 7, off_length := 6, location := 540 \<rparr>"
  obtain r w1 where 1: "s_write S rtc_fd [32, 0, 0, 0] 4 w = Some (r, w1)" "in_tank P ok x w1" using rate[of w] assms(1) unfolding in_tank_def by blast
  obtain g2 x2 w2 where 2: "fish_wait P S rtc_fd WAIT g x w1 = Some (g2, x2, w2)" "length g2 = 4" "in_tank P ok x2 w2" using tank_wait[OF 1(2) assms(2)] by blast
  obtain r3 x3 w3 where 3: "mp1_ioctl P (Struct ?im) RTC_ADD x2 w2 = Some (r3, Struct ?im, x3, w3)" "in_tank P ok x3 w3"
    using tank_add[OF 2(3), of ?im] by auto
  obtain g4 x4 w4 where 4: "fish_wait P S rtc_fd WAIT g2 x3 w3 = Some (g4, x4, w4)" "length g4 = 4" "in_tank P ok x4 w4" using tank_wait[OF 3(2) 2(2)] by blast
  obtain r5 a5 x5 w5 where 5: "mp1_ioctl P (Number (push_bit 16 40 OR (6 * 80 + 60))) RTC_SYNC x4 w4 = Some (r5, a5, x5, w5)" "in_tank P ok x5 w5"
    using tank_sync[OF 4(3)] by blast
  obtain g6 x6 w6 where 6: "fish_wait P S rtc_fd WAIT g4 x5 w5 = Some (g6, x6, w6)" "length g6 = 4" "in_tank P ok x6 w6" using tank_wait[OF 5(2) 4(2)] by blast
  obtain r7 a7 x7 where 7: "mp1_ioctl P (Number (of_nat WAIT)) RTC_REMOVE x6 w6 = Some (r7, a7, x7, w6)" "in_tank P ok x7 w6" using tank_remove[OF 6(3)] by blast
  obtain g8 x8 w8 where 8: "fish_wait P S rtc_fd CELLS g6 x7 w6 = Some (g8, x8, w8)" "in_tank P ok x8 w8" using tank_wait[OF 7(2) 6(2)] by blast
  obtain r9 w9 where 9: "s_close S rtc_fd w8 = Some (r9, w9)" using close_rtc[of w8] 8(2) unfolding in_tank_def by blast
  have im: "(6 * 80 + 60 :: u16) = 540" by simp
  have "fish_show P S rtc_fd g x w = Some (x8, w9)"
    by (simp only: fish_show_def im Option.bind.simps case_prod_conv 1(1) 2(1) 3(1) 4(1) 5(1) 6(1) 7(1) 8(1) 9)
  then show ?thesis by blast
qed

end

end
