(* ===== verification/Fishrun.thy ===== *)
theory Fishrun
  imports Fishtank Runs
begin

text \<open>
  The fish program on this kernel.  Its stores to the screen go through the window that \<open>vidmap\<close>
  opens in its page directory, its frames come from files, its pace from the clock.  The locale
  \<open>screen_process\<close> is interpreted on the kernel, with the bytes of the screen's page in physical
  memory as the picture.
\<close>

section \<open>The process\<close>

text \<open>A store by user code through the page directory in force; without a translation the
  processor raises a page fault.\<close>

definition user_poke :: "u32 \<Rightarrow> u8 \<Rightarrow> kernel \<Rightarrow> kernel option" where
  "user_poke a b k = (case translate (k_mem k) (k_mmu k) True a of None \<Rightarrow> None | Some pa \<Rightarrow> Some (k\<lparr> k_mem := (k_mem k)(pa := b) \<rparr>))"

definition kproc :: "u32 \<Rightarrow> u32 \<Rightarrow> mp1_blink_struct \<Rightarrow> kernel process" where
  "kproc ba pv junk = \<lparr> p_array = ba, p_vmem = pv, p_load = (\<lambda>a k. rd32 (kview k) a), p_store = user_poke, p_junk = junk \<rparr>"

text \<open>The window shows the page at \<open>v\<close>, and \<open>vmem_base_addr\<close>, at \<open>pv\<close>, points to the window.\<close>

definition window :: "layout \<Rightarrow> u32 \<Rightarrow> kernel \<Rightarrow> bool" where
  "window ly v k \<longleftrightarrow> video_page v \<and>
     tbl_get (k_mem k) (pageDir (l_syms ly)) (of_nat (CPID k)) 33 = tbl_addr (video_page_tables (l_syms ly)) (of_nat (CPID k)) OR 7 \<and>
     tbl_get (k_mem k) (video_page_tables (l_syms ly)) (of_nat (CPID k)) 0 = v OR 7"

definition apart :: "u32 \<Rightarrow> u32 \<Rightarrow> bool" where
  "apart ubuf pv \<longleftrightarrow> (\<forall>i < 4. user_page (pv + of_nat i) \<and> 1025 \<le> unat (pv + of_nat i - ubuf))"

definition pointed :: "u32 \<Rightarrow> kernel \<Rightarrow> bool" where
  "pointed pv k \<longleftrightarrow> rd32 (kview k) pv = 0x08400000"

definition picture :: "u32 \<Rightarrow> kernel \<Rightarrow> nat \<Rightarrow> u8" where
  "picture v k off = (if off < 4096 then k_mem k (v + of_nat off) else 0)"

text \<open>The two files and the clock.\<close>

definition file_side :: "nat \<Rightarrow> u32 \<Rightarrow> kernel \<Rightarrow> bool" where
  "file_side i n k \<longleftrightarrow> 2 \<le> i \<and> i < MAX_FD \<and> file_ok (k_fs k) (kview k) n \<and> data_valid (k_fs k) (kview k) n \<and>
     (used_fd (cur k) i \<longrightarrow> jumptable (fd_array (cur k) i) = Fs_jumptable \<and> filetype (fd_array (cur k) i) = 2 \<and> f_inode (fd_array (cur k) i) = n)"

definition clock_side :: "nat \<Rightarrow> kernel \<Rightarrow> bool" where
  "clock_side j k \<longleftrightarrow> 2 \<le> j \<and> j < MAX_FD \<and> used_fd (cur k) j \<and> jumptable (fd_array (cur k) j) = Rtc_jumptable \<and>
     active_freq (k_rtc k) (CPID k) \<in> {0, 32}"

definition left_in :: "nat \<Rightarrow> u32 \<Rightarrow> kernel \<Rightarrow> u8 list option" where
  "left_in i n k = (if used_fd (cur k) i then Some (unread i n k) else None)"

record tank_fds =
  t_i0 :: nat
  t_n0 :: u32
  t_i1 :: nat
  t_n1 :: u32
  t_j :: nat

definition swimming :: "layout \<Rightarrow> u32 \<Rightarrow> u32 \<Rightarrow> u32 \<Rightarrow> tank_fds \<Rightarrow> kernel \<Rightarrow> bool" where
  "swimming ly ubuf pv v T k \<longleftrightarrow> ready ly ubuf k \<and> fs_placed k \<and> window ly v k \<and> apart ubuf pv \<and> pointed pv k \<and>
     file_side (t_i0 T) (t_n0 T) k \<and> file_side (t_i1 T) (t_n1 T) k \<and> clock_side (t_j T) k \<and> distinct [t_i0 T, t_i1 T, t_j T]"

section \<open>What calls leave alone\<close>

lemma kernel_not_own:
  assumes "kernel_page a" and "0 < n" and "n < 7"
  shows "\<not> own_frame (of_nat n) a"
proof
  assume "own_frame (of_nat n) a"
  then have "unat (drop_bit 22 a) = unat (of_nat n + 1 :: u32)" by (simp add: own_frame_def)
  moreover have "unat (of_nat n + 1 :: u32) = n + 1" using assms(3) by (simp add: unat_word_ariths unat_of_nat_32)
  moreover have "unat (drop_bit 22 a) < 2" using assms(1) by (simp add: drop_bit_unat kernel_page_def word_less_nat_alt less_mult_imp_div_less)
  ultimately show False using assms(2) by simp
qed

lemma page_kernel:
  assumes "video_page v" and "off < 4096"
  shows "kernel_page (v + of_nat off)" and "on_screen (v + of_nat off)" and "syms_ok sy \<Longrightarrow> \<not> pt_addr sy (v + of_nat off)"
proof -
  have u: "0xB8000 \<le> unat (v + of_nat off)" "unat (v + of_nat off) < 0xBC000"
    using assms by (auto simp: video_page_def unat_word_ariths unat_of_nat_32)
  then show "kernel_page (v + of_nat off)" "on_screen (v + of_nat off)"
    by (simp_all add: kernel_page_def on_screen_def word_le_nat_alt word_less_nat_alt)
  show "\<not> pt_addr sy (v + of_nat off)" if "syms_ok sy" using u that by (auto simp: syms_ok_def pt_addr_def)
qed

lemma calm_array_kernel:
  assumes "in_space ly k" and "calm_array ly ubuf k k'"
  shows "kernel_page a \<Longrightarrow> kview k' a = kview k a" and "kernel_page a \<Longrightarrow> k_mem k' a = k_mem k a"
proof -
  have c: "CPID k' = CPID k" "in_space ly k'" using assms(2) by (simp_all add: calm_array_def ready_def)
  have sp: "space (l_syms ly) (k_mem k) (k_mmu k) (of_nat (CPID k))" "space (l_syms ly) (k_mem k') (k_mmu k') (of_nat (CPID k))" "0 < CPID k" "CPID k < 7"
    using assms(1) c by (auto simp: in_space_def)
  show m: "k_mem k' a = k_mem k a" if "kernel_page a" for a
    using kernel_not_own[OF that sp(3,4)] assms(2) by (simp add: calm_array_def)
  show "kview k' a = kview k a" if "kernel_page a" for a
    using m[OF that] vview_kernel[OF sp(1) that] vview_kernel[OF sp(2) that] by simp
qed

lemma calm_array_keeps:
  assumes "in_space ly k" and "calm_array ly ubuf k k'"
  shows "fs_placed k \<Longrightarrow> fs_agree (k_fs k) (kview k) (kview k')" and "fs_placed k \<Longrightarrow> fs_placed k'"
    and "window ly v k \<Longrightarrow> window ly v k'" and "apart ubuf pv \<Longrightarrow> pointed pv k \<Longrightarrow> pointed pv k'"
    and "video_page v \<Longrightarrow> picture v k' = picture v k"
proof -
  note kern = calm_array_kernel[OF assms]
  have c: "CPID k' = CPID k" "k_fs k' = k_fs k" using assms(2) by (simp_all add: calm_array_def)
  have sy: "syms_ok (l_syms ly)" "(of_nat (CPID k) :: u32) < 7" using assms(1) by (auto simp: in_space_def space_def)
  show ag: "fs_agree (k_fs k) (kview k) (kview k')" if "fs_placed k" using that kern(1) by (simp add: fs_agree_def fs_placed_def)
  show "fs_placed k'" if "fs_placed k"
    using that fs_addr_agree[OF ag[OF that]] wf_fs_agree[OF ag[OF that]] by (simp add: fs_placed_def c(2))
  have "tbl_get (k_mem k') t (of_nat (CPID k)) i = tbl_get (k_mem k) t (of_nat (CPID k)) i"
    if "i < 1024" "t \<in> {pageDir (l_syms ly), first_4MB (l_syms ly), video_page_tables (l_syms ly)}" for t i
    by (rule tbl_get_cong[OF _ sy that]) (use kern(2) pt_addr_kernel[OF sy(1)] in blast)
  then show "window ly v k'" if "window ly v k" using that by (simp add: window_def c(1))
  show "pointed pv k'" if "apart ubuf pv" "pointed pv k"
  proof -
    have "rd32 (kview k') pv = rd32 (kview k) pv"
      unfolding rd32_def by (rule le32_cong) (use that(1) assms(2) in \<open>simp add: apart_def calm_array_def\<close>)
    then show ?thesis using that(2) by (simp add: pointed_def)
  qed
  show "picture v k' = picture v k" if "video_page v"
    using kern(2)[OF page_kernel(1)[OF that]] by (auto simp: picture_def)
qed

lemma file_side_keep:
  assumes "file_side i n k" and "fs_placed k" and "fs_agree (k_fs k) (kview k) (kview k')" and "k_fs k' = k_fs k"
    and "fd_array (cur k') i = fd_array (cur k) i"
  shows "file_side i n k'" and "left_in i n k' = left_in i n k"
proof -
  have wf: "wf_fs (k_fs k) (kview k)" and f: "file_ok (k_fs k) (kview k) n" "data_valid (k_fs k) (kview k) n"
    using assms(1,2) by (simp_all add: file_side_def fs_placed_def)
  show "file_side i n k'"
    using assms(1,5) f agree_file_ok[OF assms(3) wf f(1)] agree_data_valid[OF assms(3) wf f(1)] by (simp add: file_side_def assms(4))
  show "left_in i n k' = left_in i n k"
    using assms(5) agree_file_bytes[OF assms(3) wf f] by (simp add: left_in_def unread_def assms(4))
qed

section \<open>The calls the program makes\<close>

lemma swim_poke:
  assumes "swimming ly ubuf pv v T k" and "off < 4000"
  shows "\<exists>k'. mp1_poke (kproc ba pv junk) c (of_nat off) k = Some k' \<and> swimming ly ubuf pv v T k' \<and>
    left_in (t_i0 T) (t_n0 T) k' = left_in (t_i0 T) (t_n0 T) k \<and> left_in (t_i1 T) (t_n1 T) k' = left_in (t_i1 T) (t_n1 T) k \<and>
    picture v k' = (picture v k)(off := c)"
proof -
  let ?pa = "v + of_nat off" and ?P = "of_nat (CPID k) :: u32"
  define k' where "k' = k\<lparr> k_mem := (k_mem k)(?pa := c) \<rparr>"
  have s: "ready ly ubuf k" "fs_placed k" "window ly v k" "apart ubuf pv" "pointed pv k" "file_side (t_i0 T) (t_n0 T) k" "file_side (t_i1 T) (t_n1 T) k"
    "clock_side (t_j T) k" "distinct [t_i0 T, t_i1 T, t_j T]" using assms(1) by (auto simp: swimming_def)
  have sp: "space (l_syms ly) (k_mem k) (k_mmu k) ?P" "0 < CPID k" "CPID k < 7" and in0: "in_space ly k" using s(1) by (auto simp: ready_def in_space_def)
  have sy: "syms_ok (l_syms ly)" "?P < 7" "cr3 (k_mmu k) = tbl_addr (pageDir (l_syms ly)) ?P" "paging_on (k_mmu k)" using sp(1) by (auto simp: space_def)
  have w: "video_page v" "tbl_get (k_mem k) (pageDir (l_syms ly)) ?P 33 = tbl_addr (video_page_tables (l_syms ly)) ?P OR 7"
    "tbl_get (k_mem k) (video_page_tables (l_syms ly)) ?P 0 = v OR 7" using s(3) by (auto simp: window_def)
  have pg: "kernel_page ?pa" "on_screen ?pa" "\<not> pt_addr (l_syms ly) ?pa" using page_kernel[OF w(1), of off] sy(1) assms(2) by auto
  have va: "0x08400000 \<le> (0x08400000 :: u32) + of_nat off \<and> (0x08400000 :: u32) + of_nat off < 0x08401000"
    using assms(2) by (simp add: word_le_nat_alt word_less_nat_alt unat_word_ariths unat_of_nat_32)
  have poke: "mp1_poke (kproc ba pv junk) c (of_nat off) k = Some k'"
    using s(5) window_translation[OF sy(3,4) w va, of True] by (simp add: mp1_poke_def kproc_def user_poke_def pointed_def k'_def)
  have pt: "k_mem k' a = k_mem k a" if "pt_addr (l_syms ly) a" for a using that pg(3) by (auto simp: k'_def)
  have sp': "space (l_syms ly) (k_mem k') (k_mmu k') ?P"
    using sp(1) user_dir_pt_cong[of "l_syms ly" "k_mem k'" "k_mem k" ?P, OF pt sy(1,2)] by (simp add: space_def) (simp add: k'_def)
  then have in': "in_space ly k'" using sp(2,3) by (simp add: in_space_def k'_def)
  have usr: "kview k' a = kview k a" if "user_page a" for a
    using frame_arith(3)[OF sy(2) that] pg(1) sp(2,3) unat_of_nat_32[of "CPID k"]
    by (auto simp: vview_user[OF sp' that] vview_user[OF sp(1) that]) (auto simp: k'_def)
  have kern: "kview k' a = kview k a" if "kernel_page a" "\<not> on_screen a" for a
    using that pg(2) by (auto simp: vview_kernel[OF sp'] vview_kernel[OF sp(1)]) (auto simp: k'_def)
  have calm: "calm ly k k'" using in' kern pg(2) by (auto simp: calm_def k'_def)
  have r': "ready ly ubuf k'" using s(1) in' by (simp add: ready_def k'_def)
  note fs = calm_fs[OF s(2) calm]
  have "tbl_get (k_mem k') t ?P i = tbl_get (k_mem k) t ?P i"
    if "i < 1024" "t \<in> {pageDir (l_syms ly), first_4MB (l_syms ly), video_page_tables (l_syms ly)}" for t i
    by (rule tbl_get_cong[OF _ sy(1,2) that]) (rule pt)
  then have w': "window ly v k'" using s(3) by (simp add: window_def k'_def)
  have "rd32 (kview k') pv = rd32 (kview k) pv"
    unfolding rd32_def by (rule le32_cong) (use s(4) usr in \<open>simp add: apart_def\<close>)
  then have p': "pointed pv k'" using s(5) by (simp add: pointed_def)
  have sel: "processes k' = processes k" "k_fs k' = k_fs k" "k_rtc k' = k_rtc k" "CPID k' = CPID k" by (simp_all add: k'_def)
  have fd: "fd_array (cur k') j = fd_array (cur k) j" for j by (simp only: sel)
  note f0 = file_side_keep[OF s(6,2) fs(1) sel(2) fd] and f1 = file_side_keep[OF s(7,2) fs(1) sel(2) fd]
  have "clock_side (t_j T) k'" using s(8) unfolding clock_side_def sel .
  moreover have "picture v k' = (picture v k)(off := c)"
  proof
    fix x
    have "(of_nat x :: u32) = of_nat off \<longleftrightarrow> x = off" if "x < 4096" using that assms(2) by (auto simp: word_unat_eq_iff unat_of_nat_32)
    then show "picture v k' x = ((picture v k)(off := c)) x" using assms(2) by (auto simp: picture_def k'_def)
  qed
  ultimately show ?thesis using poke r' fs(2) w' s(4,9) p' f0 f1 unfolding swimming_def sel by simp
qed

lemma swim_array:
  assumes "swimming ly ubuf pv v T k" and "calm_array ly ubuf k k'" and "file_side (t_i0 T) (t_n0 T) k'" and "file_side (t_i1 T) (t_n1 T) k'"
    and "clock_side (t_j T) k'"
  shows "swimming ly ubuf pv v T k'" and "picture v k' = picture v k"
proof -
  have s: "ready ly ubuf k" "fs_placed k" "window ly v k" "apart ubuf pv" "pointed pv k" "distinct [t_i0 T, t_i1 T, t_j T]"
    using assms(1) by (auto simp: swimming_def)
  note c = calm_array_keeps[OF _ assms(2)]
  have i: "in_space ly k" "ready ly ubuf k'" using s(1) assms(2) unfolding ready_def calm_array_def by blast+
  show "swimming ly ubuf pv v T k'" using c(2-4)[OF i(1)] s i(2) assms(3-5) by (simp add: swimming_def)
  show "picture v k' = picture v k" using c(5)[OF i(1)] s(3) by (simp add: window_def)
qed

text \<open>Reading one of the files; \<open>i\<close> is its descriptor and \<open>i'\<close> the other one.\<close>

lemma swim_read:
  assumes "swimming ly ubuf pv v T k" and "left_in i n k = Some s" and "file_side i n k" and "file_side i' n' k" and "i' \<noteq> i" and "t_j T \<noteq> i"
  shows "\<exists>k'. s_read (ksys ly t esp ebp ubuf child) (of_nat i) [c] 1 k = Some (of_nat (length (take 1 s)), take 1 s @ drop (length (take 1 s)) [c], k') \<and>
    calm_array ly ubuf k k' \<and> file_side i n k' \<and> file_side i' n' k' \<and> clock_side (t_j T) k' \<and>
    left_in i n k' = Some (drop 1 s) \<and> left_in i' n' k' = left_in i' n' k"
proof -
  have s: "ready ly ubuf k" "fs_placed k" "clock_side (t_j T) k" using assms(1) by (auto simp: swimming_def)
  have u: "used_fd (cur k) i" "unread i n k = s" using assms(2) by (auto simp: left_in_def split: if_splits)
  have st: "streaming ly ubuf i n k" using s assms(3) u(1) by (simp add: streaming_def file_side_def)
  obtain k' p where k': "s_read (ksys ly t esp ebp ubuf child) (of_nat i) [c] (of_nat 1) k =
      Some (of_nat (length (take 1 s)), take 1 s @ drop (length (take 1 s)) [c], k')" "streaming ly ubuf i n k'" "unread i n k' = drop 1 s"
    "calm_array ly ubuf k k'" "k_rtc k' = k_rtc k" "processes k' = (processes k)(CPID k := upd_fd i (\<lambda>f. f\<lparr> position := p \<rparr>) (cur k))"
    using read_stream_frame[OF st, of "[c]" 1 t esp ebp child] unfolding u(2) by auto
  have sel: "CPID k' = CPID k" "k_fs k' = k_fs k" using k'(4) by (simp_all add: calm_array_def)
  have i: "in_space ly k" using s(1) by (simp add: ready_def)
  have fd: "fd_array (cur k') j = fd_array (cur k) j" if "j \<noteq> i" for j using that by (simp add: k'(6) sel(1))
  note f1 = file_side_keep[OF assms(4) s(2) calm_array_keeps(1)[OF i k'(4) s(2)] sel(2) fd[OF assms(5)]]
  have "file_side i n k'" "left_in i n k' = Some (drop 1 s)" using k'(2,3) by (simp_all add: streaming_def file_side_def left_in_def)
  moreover have "clock_side (t_j T) k'" using s(3) fd[OF assms(6)] by (simp add: clock_side_def k'(5) sel(1))
  ultimately show ?thesis using k'(1,4) f1 by simp
qed

lemma swim_close:
  assumes "swimming ly ubuf pv v T k" and "file_side i n k" and "file_side i' n' k" and "i' \<noteq> i" and "t_j T \<noteq> i"
  shows "\<exists>r k'. s_close (ksys ly t esp ebp ubuf child) (of_nat i) k = Some (r, k') \<and> calm_array ly ubuf k k' \<and>
    file_side i n k' \<and> file_side i' n' k' \<and> clock_side (t_j T) k' \<and> left_in i n k' = None \<and> left_in i' n' k' = left_in i' n' k"
proof (cases "used_fd (cur k) i")
  case False
  have i: "2 \<le> i" "i < 8" using assms(2) by (simp_all add: file_side_def)
  have "ready ly ubuf k" "clock_side (t_j T) k" using assms(1) by (auto simp: swimming_def)
  then show ?thesis using False assms(2,3) close_fail[of "of_nat i" k] i by (simp add: ksys_calls sint_fd calm_array_def left_in_def)
next
  case True
  have i: "2 \<le> i" "i < MAX_FD" "jumptable (fd_array (cur k) i) = Fs_jumptable" "filetype (fd_array (cur k) i) = 2" using assms(2) True by (simp_all add: file_side_def)
  have s: "ready ly ubuf k" "clock_side (t_j T) k" "fs_placed k" using assms(1) by (auto simp: swimming_def)
  define k' where "k' = upd_pcb (CPID k) (upd_fd i (set_in_use False)) k"
  have c: "sys_close (of_nat i) k = (k', 0)" using i by (simp add: close_spec[OF i(1,2) True] k'_def set_in_use_def Let_def)
  have sel: "CPID k' = CPID k" "k_fs k' = k_fs k" "k_mem k' = k_mem k" "k_mmu k' = k_mmu k" "k_rtc k' = k_rtc k" "k_con k' = k_con k" by (simp_all add: k'_def)
  have fd: "fd_array (cur k') j = fd_array (cur k) j" if "j \<noteq> i" for j using that by (simp add: k'_def)
  have "std_ok (cur k')" using s(1) i(1) by (auto simp: ready_def std_ok_def k'_def set_in_use_def)
  then have "ready ly ubuf k'" using s(1) by (simp add: ready_def in_space_def sel)
  then have ca: "calm_array ly ubuf k k'" by (simp add: calm_array_def sel)
  have in0: "in_space ly k" using s(1) by (simp add: ready_def)
  note f1 = file_side_keep[OF assms(3) s(3) calm_array_keeps(1)[OF in0 ca s(3)] sel(2) fd[OF assms(4)]]
  have "file_side i n k'" "left_in i n k' = None" using assms(2) by (simp_all add: file_side_def left_in_def sel) (simp_all add: k'_def set_in_use_def)
  moreover have "clock_side (t_j T) k'" using s(2) fd[OF assms(5)] by (simp add: clock_side_def sel)
  ultimately show ?thesis using ca f1 by (simp add: ksys_calls c)
qed

text \<open>A call that changes the clock driver's state only, besides the program's array.\<close>

lemma swim_clock:
  assumes "swimming ly ubuf pv v T k" and "length bs \<le> 1025" and "k1 = user_store ubuf bs k" and "k2 = k1\<lparr> k_rtc := r, k_pic := p \<rparr>"
    and "active_freq r (CPID k) \<in> {0, 32}"
  shows "swimming ly ubuf pv v T k2" and "picture v k2 = picture v k"
proof -
  have s: "ready ly ubuf k" "fs_placed k" "file_side (t_i0 T) (t_n0 T) k" "file_side (t_i1 T) (t_n1 T) k" "clock_side (t_j T) k"
    using assms(1) by (auto simp: swimming_def)
  have c1: "calm_array ly ubuf k k1" using user_store_calm[OF s(1) assms(2)] by (simp add: assms(3))
  then have "ready ly ubuf k1" by (simp add: calm_array_def)
  then have "ready ly ubuf k2" by (simp add: ready_def in_space_def assms(4))
  then have c2: "calm_array ly ubuf k k2" using c1 by (simp add: calm_array_def assms(4))
  have sel: "CPID k2 = CPID k" "k_fs k2 = k_fs k" "k_rtc k2 = r" "processes k2 = processes k" by (simp_all add: assms(3,4) user_store_def)
  have i: "in_space ly k" using s(1) by (simp add: ready_def)
  note ag = calm_array_keeps(1)[OF i c2 s(2)]
  have fd: "fd_array (cur k2) j = fd_array (cur k) j" for j by (simp only: sel)
  have "clock_side (t_j T) k2" using s(5) assms(5) unfolding clock_side_def sel by simp
  then show "swimming ly ubuf pv v T k2" "picture v k2 = picture v k"
    using swim_array[OF assms(1) c2] file_side_keep(1)[OF s(3,2) ag sel(2) fd] file_side_keep(1)[OF s(4,2) ag sel(2) fd] by simp_all
qed

lemma swim_tick:
  assumes "swimming ly ubuf pv v T k" and "length g = 4"
  shows "\<exists>r g' k'. s_read (ksys ly 32 esp ebp ubuf child) (of_nat (t_j T)) g 4 k = Some (r, g', k') \<and> length g' = 4 \<and>
    swimming ly ubuf pv v T k' \<and> picture v k' = picture v k"
proof -
  have s: "ready ly ubuf k" "clock_side (t_j T) k" using assms(1) by (auto simp: swimming_def)
  define k1 where "k1 = user_store ubuf g k"
  have sel: "processes k1 = processes k" "CPID k1 = CPID k" "k_rtc k1 = k_rtc k" by (simp_all add: k1_def user_store_def)
  have c: "CPID k < 7" using s(1) by (simp add: ready_def in_space_def)
  obtain r p n where rp: "rtc_read (CPID k1) 32 (k_rtc k1, k_pic k1) 4 = Some ((r, p), n)" "active_freq r (CPID k) \<in> {0, 32}"
  proof (cases "active_freq (k_rtc k) (CPID k) = 0")
    case True
    then show thesis using that[of "k_rtc k1" "k_pic k1" 0] by (simp add: rtc_read_def sel)
  next
    case False
    then have f: "active_freq (k_rtc k) (CPID k) = 32" using s(2) by (auto simp: clock_side_def)
    show thesis using rtc_read_due[OF c, of "k_rtc k" "k_pic k1" 4] f that[of _ _ 4] by (auto simp: valid_rate_def sel)
  qed
  define k2 where "k2 = k1\<lparr> k_rtc := r, k_pic := p \<rparr>"
  have "sys_read 32 (of_nat (t_j T)) ubuf 4 k1 = Some (k2, n)"
    using s(2) rp(1) by (simp add: clock_side_def sys_read_def sint_fd jt_read_def sel k2_def)
  then show ?thesis using swim_clock[OF assms(1) _ k1_def k2_def rp(2)] assms(2)
    by (simp add: ksys_calls k1_def[symmetric] user_load_def)
qed

lemma swim_rate:
  assumes "swimming ly ubuf pv v T k"
  shows "\<exists>r k'. s_write (ksys ly t esp ebp ubuf child) (of_nat (t_j T)) [32, 0, 0, 0] 4 k = Some (r, k') \<and>
    swimming ly ubuf pv v T k' \<and> picture v k' = picture v k"
proof -
  have s: "ready ly ubuf k" "clock_side (t_j T) k" using assms(1) by (auto simp: swimming_def)
  define k1 where "k1 = user_store ubuf [32, 0, 0, 0] k"
  note st = user_store_ready[OF s(1), of "[32, 0, 0, 0]", folded k1_def]
  have sel: "processes k1 = processes k" "CPID k1 = CPID k" by (simp_all add: k1_def user_store_def)
  have u0: "ubuf \<noteq> 0" using s(1) by (auto simp: ready_def user_buf_def user_page_def dest: spec[of _ 0])
  have rd: "rd32 (kview k1) ubuf = 32" using st(5)[of 0] st(5)[of 1] st(5)[of 2] st(5)[of 3] by (simp add: rd32_def le32_def)
  define k2 where "k2 = k1\<lparr> k_rtc := (k_rtc k1)\<lparr> active_freq := (active_freq (k_rtc k1))(CPID k := 32) \<rparr>, k_pic := k_pic k1 \<rparr>"
  have "sys_write (of_nat (t_j T)) ubuf 4 k1 = (k2, 4)"
    using s(2) u0 rd by (simp add: clock_side_def sys_write_def sint_fd jt_write_def rtc_write_def sel k2_def)
  then show ?thesis using swim_clock[OF assms _ k1_def k2_def] by (simp add: ksys_calls k1_def[symmetric])
qed

lemma swim_close_clock:
  assumes "swimming ly ubuf pv v T k"
  shows "\<exists>r k'. s_close (ksys ly t esp ebp ubuf child) (of_nat (t_j T)) k = Some (r, k') \<and> picture v k' = picture v k"
proof -
  have s: "2 \<le> t_j T" "t_j T < MAX_FD" "used_fd (cur k) (t_j T)" "jumptable (fd_array (cur k) (t_j T)) = Rtc_jumptable"
    using assms by (auto simp: swimming_def clock_side_def)
  have "k_mem (fst (sys_close (of_nat (t_j T)) k)) = k_mem k" using s(4) by (simp add: close_spec[OF s(1-3)] upd_pcb_def set_in_use_def Let_def)
  then show ?thesis by (cases "sys_close (of_nat (t_j T)) k") (simp add: ksys_calls picture_def fun_eq_iff)
qed

lemma swim_sides:
  assumes "swimming ly ubuf pv v T k"
  shows "file_side (t_i0 T) (t_n0 T) k" "file_side (t_i1 T) (t_n1 T) k" "t_i1 T \<noteq> t_i0 T" "t_i0 T \<noteq> t_i1 T" "t_j T \<noteq> t_i0 T" "t_j T \<noteq> t_i1 T"
  using assms by (auto simp: swimming_def)

interpretation fish: screen_process "kproc ba pv junk" "ksys ly 32 esp ebp ubuf child" "swimming ly ubuf pv v T"
    "picture v" "of_nat (t_i0 T)" "of_nat (t_i1 T)" "of_nat (t_j T)" "left_in (t_i0 T) (t_n0 T)" "left_in (t_i1 T) (t_n1 T)"
  for ba pv junk ly esp ebp ubuf child v T
proof (unfold_locales, goal_cases)
  case (1 w off c) then show ?case using swim_poke[of ly ubuf pv v T w off ba junk c] by blast
next
  case (2 w s c)
  then show ?case using swim_read[OF 2(1,2) swim_sides(1,2,3,5)[OF 2(1)], of 32 esp ebp child c] swim_array[OF 2(1)] by blast
next
  case (3 w s c)
  then show ?case using swim_read[OF 3(1,2) swim_sides(2,1,4,6)[OF 3(1)], of 32 esp ebp child c] swim_array[OF 3(1)] by blast
next
  case (4 w)
  then show ?case using swim_close[OF 4 swim_sides(1,2,3,5)[OF 4], of 32 esp ebp child] swim_array[OF 4] by blast
next
  case (5 w)
  then show ?case using swim_close[OF 5 swim_sides(2,1,4,6)[OF 5], of 32 esp ebp child] swim_array[OF 5] by blast
next
  case (6 w g) then show ?case using swim_tick[OF 6, of esp ebp child] by blast
next
  case (7 w) then show ?case using swim_rate[OF 7] by blast
next
  case (8 w) then show ?case using swim_close_clock[OF 8] by blast
qed

section \<open>Opening the window\<close>

text \<open>The page of the process's terminal: the visible screen when that terminal is displayed.\<close>

definition own_screen :: "kernel \<Rightarrow> u32" where
  "own_screen k = (if terminal (cur k) = cur_terminal (k_con k) then VIDEO else term_page (terminal (cur k)))"

text \<open>The file system is not in the page tables.\<close>

definition fs_clear :: "layout \<Rightarrow> kernel \<Rightarrow> bool" where
  "fs_clear ly k \<longleftrightarrow> (\<forall>a. fs_addr (k_fs k) (kview k) a \<longrightarrow> \<not> pt_addr (l_syms ly) a)"

lemma sint_small: "unat a < 2 ^ 31 \<Longrightarrow> sint a = int (unat a)" for a :: u32
  using sint_of_nat_small[of "unat a"] by simp

lemma own_screen_page: "video_page (own_screen k)"
  by (simp add: own_screen_def video_page_def term_page_def)

lemma map_video_own:
  assumes "terminal (cur k) < 3" and "new_page_directory_entry (l_syms ly) (k_mem k) (k_mmu k) (of_nat (CPID k)) 0x08400000 (own_screen k) 0 3 = (m, c, r)"
  shows "map_video ly (CPID k) k = (k\<lparr> k_mem := m, k_mmu := c \<rparr>, r)"
proof -
  have "terminal (cur k) \<in> {0, 1, 2}" using assms(1) by auto
  then show ?thesis using assms(2) by (auto simp: map_video_def own_screen_def term_page_def Let_def)
qed

lemma new_entry_space:
  assumes "in_space ly k" and "video_page v"
    and "new_page_directory_entry (l_syms ly) (k_mem k) (k_mmu k) (of_nat (CPID k)) 0x08400000 v 0 3 = (m, c, r)"
    and "k' = k\<lparr> k_mem := m, k_mmu := c \<rparr>"
  shows "in_space ly k'" and "window ly v k'" and "r = 0" and "k_mmu k' = k_mmu k" and "\<not> pt_addr (l_syms ly) a \<Longrightarrow> k_mem k' a = k_mem k a"
    and "kernel_page a \<Longrightarrow> \<not> pt_addr (l_syms ly) a \<Longrightarrow> kview k' a = kview k a" and "user_page a \<Longrightarrow> kview k' a = kview k a"
proof -
  let ?P = "of_nat (CPID k) :: u32"
  have sp: "space (l_syms ly) (k_mem k) (k_mmu k) ?P" "0 < CPID k" "CPID k < 7" using assms(1) by (auto simp: in_space_def)
  have sy: "syms_ok (l_syms ly)" "?P < 7" "user_dir (l_syms ly) (k_mem k) ?P" "paging_on (k_mmu k)" "cr3 (k_mmu k) = tbl_addr (pageDir (l_syms ly)) ?P"
    using sp(1) by (auto simp: space_def)
  note t = vidmap_tables[OF sy(1,2,2) _ assms(3)]
  show r: "r = 0" using t(5)[of 0] by simp
  have c: "c = k_mmu k" using t(4)[of 0] sy(5) by simp
  then show mmu: "k_mmu k' = k_mmu k" by (simp add: assms(4))
  show mem: "k_mem k' a = k_mem k a" if "\<not> pt_addr (l_syms ly) a" for a using new_entry_outside[OF sy(1,2) assms(3) that] by (simp add: assms(4))
  have sp': "space (l_syms ly) (k_mem k') (k_mmu k') ?P"
    using sp(1) vidmap_keeps_dirs[OF sy(1,2) assms(2,3) sy(2,3)] by (simp add: space_def assms(4) c)
  then show "in_space ly k'" using sp(2,3) by (simp add: in_space_def assms(4))
  show "window ly v k'" using t(1)[of 33] t(3)[of 0] assms(2) video_page_aligned[OF assms(2)] by (simp add: window_def assms(4))
  show "kview k' a = kview k a" if "kernel_page a" "\<not> pt_addr (l_syms ly) a" for a
    using mem[OF that(2)] by (simp add: vview_kernel[OF sp' that(1)] vview_kernel[OF sp(1) that(1)])
  show "kview k' a = kview k a" if u: "user_page a" for a
  proof -
    have "\<not> kernel_page (FOUR_MB * (?P + 1) + (a - 0x08000000))"
      using frame_arith(3)[OF sy(2) u] sp(2,3) unat_of_nat_32[of "CPID k"] by auto
    then have "\<not> pt_addr (l_syms ly) (FOUR_MB * (?P + 1) + (a - 0x08000000))" using pt_addr_kernel[OF sy(1)] by blast
    from mem[OF this] show ?thesis by (simp only: vview_user[OF sp' u] vview_user[OF sp(1) u])
  qed
qed

lemma window_opens:
  assumes "ready ly ubuf k" and "fs_placed k" and "fs_clear ly k" and "apart ubuf pv" and "terminal (cur k) < 3" and "v = own_screen k"
  shows "\<exists>k'. s_vidmap (ksys ly t esp ebp ubuf child) pv k = Some (0, k') \<and> ready ly ubuf k' \<and> window ly v k' \<and> pointed pv k' \<and>
    fs_agree (k_fs k) (kview k) (kview k') \<and> k_fs k' = k_fs k \<and> CPID k' = CPID k \<and> fd_array (cur k') = fd_array (cur k) \<and>
    k_rtc k' = k_rtc k \<and> picture v k' = picture v k"
proof -
  define k1 where "k1 = upd_pcb (CPID k) (\<lambda>p. p\<lparr> using_video_mem := True \<rparr>) k"
  have s1: "CPID k1 = CPID k" "k_mem k1 = k_mem k" "k_mmu k1 = k_mmu k" "k_fs k1 = k_fs k" "k_con k1 = k_con k" "k_rtc k1 = k_rtc k"
    "fd_array (processes k1 (CPID k)) = fd_array (cur k)" "terminal (processes k1 (CPID k)) = terminal (cur k)" by (simp_all add: k1_def)
  have in1: "in_space ly k1" using assms(1) by (simp add: ready_def in_space_def s1)
  have v: "v = own_screen k1" using assms(6) by (simp only: own_screen_def s1)
  have vp: "video_page v" unfolding v by (rule own_screen_page)
  obtain m c r where e: "new_page_directory_entry (l_syms ly) (k_mem k1) (k_mmu k1) (of_nat (CPID k1)) 0x08400000 v 0 3 = (m, c, r)" by (metis prod_cases3)
  define k2 where "k2 = k1\<lparr> k_mem := m, k_mmu := c \<rparr>"
  note n = new_entry_space[OF in1 vp e k2_def]
  have s2: "CPID k2 = CPID k" "k_fs k2 = k_fs k" "k_con k2 = k_con k" "k_rtc k2 = k_rtc k" "processes k2 = processes k1" by (simp_all add: k2_def s1)
  define k3 where "k3 = with_mem (store32 (kview k2) pv 0x08400000) k2"
  have s3: "CPID k3 = CPID k" "k_fs k3 = k_fs k" "k_con k3 = k_con k" "k_rtc k3 = k_rtc k" "processes k3 = processes k1" by (simp_all add: k3_def s2)
  have "terminal (cur k1) < 3" using assms(5) by (simp only: s1)
  then have mv: "map_video ly (CPID k1) k1 = (k2, 0)" using map_video_own[OF _ e[unfolded v]] n(3) unfolding k2_def by simp
  have ub: "user_buf pv 4" using assms(4) by (auto simp: apart_def user_buf_def)
  then have up: "user_page pv" "user_page (pv + 3)" unfolding user_buf_def by (auto dest: spec[of _ 0] spec[of _ 3])
  have call: "vidmap ly pv k = (k3, 0)"
  proof -
    have "unat (pv + 3) = unat pv + 3" using up by (auto simp: user_page_def word_le_nat_alt word_less_nat_alt unat_word_ariths)
    then have u: "0x08000000 \<le> unat pv" "unat pv \<le> 0x083FFFFC" using up by (auto simp: user_page_def word_le_nat_alt word_less_nat_alt)
    then have i: "sint pv = int (unat pv)" by (intro sint_small) simp
    have "0x08000000 \<le> sint pv" "sint pv \<le> 0x083FFFFC" using u unfolding i by linarith+
    moreover have "pv \<noteq> 0" using u by auto
    ultimately show ?thesis using mv by (simp add: vidmap_def k1_def[symmetric] k3_def s1(1))
  qed
  have w: "user_write ly (store32 (kview k2) pv 0x08400000) k2 k3"
    by (rule user_writeI[OF n(1) _ ub]) (simp_all add: store32_blit blit_frame k3_def)
  have out: "store32 (kview k2) pv 0x08400000 a = kview k2 a" if "\<not> user_page a" for a
    unfolding store32_blit by (rule blit_user[OF ub that])
  have std: "std_ok (cur k3)" using assms(1) by (simp add: ready_def std_ok_def s3 s1)
  have "ready ly ubuf k3" using w assms(1) std by (simp add: ready_def user_write_def s3)
  moreover have kern: "kview k3 a = kview k a" if "kernel_page a" "\<not> pt_addr (l_syms ly) a" for a
    using w n(6)[OF that] that out[of a] user_not_kernel[of a] by (auto simp: user_write_def s1)
  moreover have "fs_agree (k_fs k) (kview k) (kview k3)"
    using assms(2,3) kern by (simp add: fs_agree_def fs_placed_def fs_clear_def)
  moreover have mem: "k_mem k3 a = k_mem k2 a" if "kernel_page a" for a
    using w kernel_not_own[OF that] in1 by (simp add: user_write_def in_space_def s1 s2)
  moreover have "window ly v k3"
    using n(2) tbl_get_cong[of "l_syms ly" "k_mem k3" "k_mem k2" "of_nat (CPID k)"] mem pt_addr_kernel in1
    by (simp add: window_def s3 s2 in_space_def space_def s1)
  moreover have "picture v k3 = picture v k"
    using mem n(5) page_kernel[OF vp] in1 by (auto simp: picture_def s1 in_space_def space_def)
  moreover have "pointed pv k3"
  proof -
    have "kview k3 (pv + of_nat i) = byte i 0x08400000" if "i < 4" for i
      using w ub that by (simp add: user_write_def user_buf_def store32_blit blit_def unat_of_nat_32)
    from this[of 0] this[of 1] this[of 2] this[of 3] show ?thesis by (simp add: pointed_def rd32_def le32_def byte_def)
  qed
  ultimately show ?thesis using call s3(1-4) s1(7) by (simp add: ksys_calls s3(5))
qed

section \<open>Starting the program\<close>

definition frame_file :: "cstring \<Rightarrow> u32 \<Rightarrow> u8 list \<Rightarrow> kernel \<Rightarrow> bool" where
  "frame_file nm n f k \<longleftrightarrow> (\<exists>ix. find_dentry (k_fs k) (kview k) nm = Some ix \<and> d_type (dentries (k_fs k) (kview k) ix) = 2 \<and>
     d_inode (dentries (k_fs k) (kview k) ix) = n) \<and>
     file_ok (k_fs k) (kview k) n \<and> data_valid (k_fs k) (kview k) n \<and> file_bytes (k_fs k) (kview k) n = f"

definition clock_file :: "kernel \<Rightarrow> bool" where
  "clock_file k \<longleftrightarrow> (\<exists>ix. find_dentry (k_fs k) (kview k) (lit ''rtc'') = Some ix \<and> d_type (dentries (k_fs k) (kview k) ix) = 0)"

text \<open>A process that has just been started, with the clock and the two frames in the directory.\<close>

definition fish_start :: "layout \<Rightarrow> u32 \<Rightarrow> u32 \<Rightarrow> u8 list \<Rightarrow> u8 list \<Rightarrow> u32 \<Rightarrow> u32 \<Rightarrow> kernel \<Rightarrow> bool" where
  "fish_start ly ubuf pv f0 f1 n0 n1 k \<longleftrightarrow> ready ly ubuf k \<and> fs_placed k \<and> fs_clear ly k \<and> apart ubuf pv \<and> terminal (cur k) < 3 \<and>
     (\<forall>i. 2 \<le> i \<and> i < MAX_FD \<longrightarrow> \<not> used_fd (cur k) i) \<and> active_freq (k_rtc k) (CPID k) \<in> {0, 32} \<and>
     clock_file k \<and> frame_file (lit ''frame0.txt'') n0 f0 k \<and> frame_file (lit ''frame1.txt'') n1 f1 k"

lemma files_agree:
  assumes "fs_placed k" and "fs_agree (k_fs k) (kview k) (kview k')" and "k_fs k' = k_fs k"
  shows "frame_file nm n f k \<Longrightarrow> frame_file nm n f k'" and "clock_file k \<Longrightarrow> clock_file k'" and "fs_placed k'"
proof -
  have wf: "wf_fs (k_fs k) (kview k)" using assms(1) by (simp add: fs_placed_def)
  have d: "dentries (k_fs k) (kview k') ix = dentries (k_fs k) (kview k) ix" if "find_dentry (k_fs k) (kview k) nm = Some ix" for nm ix
    using agree_dentries[OF assms(2), of ix] that by (simp add: find_dentry_Some)
  show "frame_file nm n f k'" if "frame_file nm n f k"
    using that d agree_file_ok[OF assms(2) wf] agree_data_valid[OF assms(2) wf] agree_file_bytes[OF assms(2) wf]
    by (auto simp: frame_file_def assms(3) find_dentry_agree[OF assms(2)])
  show "clock_file k'" if "clock_file k" using that d by (auto simp: clock_file_def assms(3) find_dentry_agree[OF assms(2)])
  show "fs_placed k'" using assms(1) fs_addr_agree[OF assms(2)] wf_fs_agree[OF assms(2)] by (simp add: fs_placed_def assms(3))
qed

lemma open_array:
  assumes "ready ly ubuf k" and "fs_placed k" and "find_dentry (k_fs k) (kview k) (lit s) = Some ix" and "lowest_free (cur k) = Some i"
    and "length s \<le> 33" and "holds (str s) (lit s)"
  shows "\<exists>k'. s_open (ksys ly t esp ebp ubuf child) (str s) k = Some (of_nat i, k') \<and> calm_array ly ubuf k k' \<and> k_rtc k' = k_rtc k \<and>
    processes k' = (processes k)(CPID k := upd_fd i (\<lambda>_. new_file (dentries (k_fs k) (kview k) ix)) (cur k)) \<and> 2 \<le> i \<and> i < MAX_FD"
proof -
  have l: "take 33 (lit s) = lit s" "length (str s) \<le> 1025" using assms(5) by (simp_all add: lit_def str_def)
  let ?d = "dentries (k_fs k) (kview k) ix"
  obtain k1 where k1: "ready ly ubuf k1" "calm ly k k1" "calm_array ly ubuf k k1" "s_open (ksys ly t esp ebp ubuf child) (str s) k = Some (of_nat i, opened i ?d k1)"
    using open_ready[OF assms(1,2,6) l(2), of t esp ebp child] assms(3,4) by (auto simp: l(1))
  have sel: "CPID k1 = CPID k" "processes k1 = processes k" "k_rtc k1 = k_rtc k" "k_fs k1 = k_fs k" using k1(2) by (simp_all add: calm_def)
  have lf: "lowest_free (cur k1) = Some i" using assms(4) by (simp only: sel)
  note o = opened_ready[OF k1(1) lf]
  have "calm_array ly ubuf k (opened i ?d k1)"
    using k1(3) o(1)[of ?d] by (simp add: calm_array_def) (simp add: opened_def)
  then show ?thesis using k1(4) o(4,5) by (simp add: opened_def sel upd_pcb_def)
qed

text \<open>The program's opens, in order: the clock and the two frames get descriptors 2, 3 and 4.\<close>

definition tank :: "u32 \<Rightarrow> u32 \<Rightarrow> tank_fds" where
  "tank n0 n1 = \<lparr> t_i0 = 3, t_n0 = n0, t_i1 = 4, t_n1 = n1, t_j = 2 \<rparr>"

lemma tank_sel [simp]: "t_i0 (tank n0 n1) = 3" "t_n0 (tank n0 n1) = n0" "t_i1 (tank n0 n1) = 4" "t_n1 (tank n0 n1) = n1" "t_j (tank n0 n1) = 2"
  by (simp_all add: tank_def)

text \<open>A state between the calls: the descriptors below \<open>n\<close> are in use.\<close>

definition waiting :: "layout \<Rightarrow> u32 \<Rightarrow> u32 \<Rightarrow> u32 \<Rightarrow> u8 list \<Rightarrow> u8 list \<Rightarrow> u32 \<Rightarrow> u32 \<Rightarrow> nat \<Rightarrow> kernel \<Rightarrow> bool" where
  "waiting ly ubuf pv v f0 f1 n0 n1 n k \<longleftrightarrow> ready ly ubuf k \<and> fs_placed k \<and> window ly v k \<and> apart ubuf pv \<and> pointed pv k \<and>
     (\<forall>i < MAX_FD. used_fd (cur k) i \<longleftrightarrow> i < n) \<and> active_freq (k_rtc k) (CPID k) \<in> {0, 32} \<and>
     clock_file k \<and> frame_file (lit ''frame0.txt'') n0 f0 k \<and> frame_file (lit ''frame1.txt'') n1 f1 k"

lemma waiting_open:
  assumes "waiting ly ubuf pv v f0 f1 n0 n1 n k" and "find_dentry (k_fs k) (kview k) (lit s) = Some ix" and "n < MAX_FD"
    and "length s \<le> 33" and "holds (str s) (lit s)"
  shows "\<exists>k'. s_open (ksys ly t esp ebp ubuf child) (str s) k = Some (of_nat n, k') \<and> waiting ly ubuf pv v f0 f1 n0 n1 (Suc n) k' \<and>
    fd_array (cur k') = (fd_array (cur k))(n := new_file (dentries (k_fs k) (kview k) ix)) \<and> k_fs k' = k_fs k \<and> picture v k' = picture v k"
proof -
  have w: "ready ly ubuf k" "fs_placed k" "window ly v k" "apart ubuf pv" "pointed pv k" "\<forall>i < MAX_FD. used_fd (cur k) i \<longleftrightarrow> i < n"
    "active_freq (k_rtc k) (CPID k) \<in> {0, 32}" "clock_file k" "frame_file (lit ''frame0.txt'') n0 f0 k" "frame_file (lit ''frame1.txt'') n1 f1 k"
    using assms(1) unfolding waiting_def by blast+
  let ?d = "dentries (k_fs k) (kview k) ix"
  have lf: "lowest_free (cur k) = Some n" using w(6) assms(3) by (simp add: lowest_free_Some)
  obtain k' where k': "s_open (ksys ly t esp ebp ubuf child) (str s) k = Some (of_nat n, k')" "calm_array ly ubuf k k'" "k_rtc k' = k_rtc k"
    "processes k' = (processes k)(CPID k := upd_fd n (\<lambda>_. new_file ?d) (cur k))"
    using open_array[OF w(1,2) assms(2) lf assms(4,5), of t esp ebp child] by blast
  have sel: "CPID k' = CPID k" "k_fs k' = k_fs k" "ready ly ubuf k'" using k'(2) by (simp_all add: calm_array_def)
  have in0: "in_space ly k" and vp: "video_page v" using w(1,3) by (simp_all add: ready_def window_def)
  note c = calm_array_keeps[OF in0 k'(2)]
  note f = files_agree[OF w(2) c(1)[OF w(2)] sel(2)]
  have fd: "fd_array (cur k') = (fd_array (cur k))(n := new_file ?d)" by (simp add: k'(4) sel(1))
  have "\<forall>i < MAX_FD. used_fd (cur k') i \<longleftrightarrow> i < Suc n" using w(6) unfolding fd by (auto simp: new_file_def less_Suc_eq)
  then have "waiting ly ubuf pv v f0 f1 n0 n1 (Suc n) k'"
    using sel(3) f c(3)[OF w(3)] w(4) c(4)[OF w(4,5)] w(7-10) by (simp add: waiting_def k'(3) sel(1))
  then show ?thesis using k'(1) fd sel(2) c(5)[OF vp] by blast
qed

lemma fish_start_waiting:
  assumes "fish_start ly ubuf pv f0 f1 n0 n1 k" and "v = own_screen k"
  shows "\<exists>k'. s_vidmap (ksys ly t esp ebp ubuf child) pv k = Some (0, k') \<and> waiting ly ubuf pv v f0 f1 n0 n1 2 k' \<and> picture v k' = picture v k"
proof -
  have s: "ready ly ubuf k" "fs_placed k" "fs_clear ly k" "apart ubuf pv" "terminal (cur k) < 3" "\<forall>i. 2 \<le> i \<and> i < MAX_FD \<longrightarrow> \<not> used_fd (cur k) i"
    "active_freq (k_rtc k) (CPID k) \<in> {0, 32}" "clock_file k" "frame_file (lit ''frame0.txt'') n0 f0 k" "frame_file (lit ''frame1.txt'') n1 f1 k"
    using assms(1) unfolding fish_start_def by blast+
  obtain k' where k': "s_vidmap (ksys ly t esp ebp ubuf child) pv k = Some (0, k')" "ready ly ubuf k'" "window ly v k'" "pointed pv k'"
    "fs_agree (k_fs k) (kview k) (kview k')" "k_fs k' = k_fs k" "CPID k' = CPID k" "fd_array (cur k') = fd_array (cur k)" "k_rtc k' = k_rtc k"
    "picture v k' = picture v k" using window_opens[OF s(1-5) assms(2), of t esp ebp child] by blast
  have "used_fd (cur k) i \<longleftrightarrow> i < 2" if "i < MAX_FD" for i
    using that s(1) s(6)[rule_format, of i] by (cases "i < 2") (auto simp: ready_def std_ok_def less_2_cases_iff)
  then have "\<forall>i < MAX_FD. used_fd (cur k') i \<longleftrightarrow> i < 2" unfolding k'(8) by blast
  then have "waiting ly ubuf pv v f0 f1 n0 n1 2 k'"
    using k'(2-4) s(4,7) files_agree[OF s(2) k'(5,6)] s(8-10) unfolding waiting_def k'(7,9) by blast
  then show ?thesis using k'(1,10) by blast
qed

lemma fish_starts:
  assumes "fish_start ly ubuf pv f0 f1 n0 n1 k" and "v = own_screen k"
  shows "\<exists>k1 k2 k3 k4. mp1_set_video_mode (kproc ba pv junk) (ksys ly t esp ebp ubuf child) k = Some (0x08400000, k1) \<and>
    s_open (ksys ly t esp ebp ubuf child) (str ''rtc'') k1 = Some (of_nat 2, k2) \<and> s_open (ksys ly t esp ebp ubuf child) (str ''frame0.txt'') k2 = Some (of_nat 3, k3) \<and>
    s_open (ksys ly t esp ebp ubuf child) (str ''frame1.txt'') k3 = Some (of_nat 4, k4) \<and> swimming ly ubuf pv v (tank n0 n1) k4 \<and>
    left_in 3 n0 k4 = Some f0 \<and> left_in 4 n1 k4 = Some f1 \<and> picture v k4 = picture v k"
proof -
  have nm: "length ''rtc'' \<le> 33" "length ''frame0.txt'' \<le> 33" "length ''frame1.txt'' \<le> 33" "holds (str ''rtc'') (lit ''rtc'')"
    "holds (str ''frame0.txt'') (lit ''frame0.txt'')" "holds (str ''frame1.txt'') (lit ''frame1.txt'')"
    by (simp_all add: holds_str)
  obtain k1 where k1: "s_vidmap (ksys ly t esp ebp ubuf child) pv k = Some (0, k1)" "waiting ly ubuf pv v f0 f1 n0 n1 2 k1" "picture v k1 = picture v k"
    using fish_start_waiting[OF assms, of t esp ebp child] by blast
  obtain ix where ix: "find_dentry (k_fs k1) (kview k1) (lit ''rtc'') = Some ix" "d_type (dentries (k_fs k1) (kview k1) ix) = 0"
    using k1(2) unfolding waiting_def clock_file_def by blast
  obtain k2 where k2: "s_open (ksys ly t esp ebp ubuf child) (str ''rtc'') k1 = Some (of_nat 2, k2)" "waiting ly ubuf pv v f0 f1 n0 n1 3 k2"
    "fd_array (cur k2) = (fd_array (cur k1))(2 := new_file (dentries (k_fs k1) (kview k1) ix))" "k_fs k2 = k_fs k1" "picture v k2 = picture v k1"
    using waiting_open[OF k1(2) ix(1) _ nm(1,4), of t esp ebp child] by auto
  obtain i0 where i0: "find_dentry (k_fs k2) (kview k2) (lit ''frame0.txt'') = Some i0" "d_type (dentries (k_fs k2) (kview k2) i0) = 2"
    "d_inode (dentries (k_fs k2) (kview k2) i0) = n0" using k2(2) unfolding waiting_def frame_file_def by blast
  obtain k3 where k3: "s_open (ksys ly t esp ebp ubuf child) (str ''frame0.txt'') k2 = Some (of_nat 3, k3)" "waiting ly ubuf pv v f0 f1 n0 n1 4 k3"
    "fd_array (cur k3) = (fd_array (cur k2))(3 := new_file (dentries (k_fs k2) (kview k2) i0))" "k_fs k3 = k_fs k2" "picture v k3 = picture v k2"
    using waiting_open[OF k2(2) i0(1) _ nm(2,5), of t esp ebp child] by auto
  obtain i1 where i1: "find_dentry (k_fs k3) (kview k3) (lit ''frame1.txt'') = Some i1" "d_type (dentries (k_fs k3) (kview k3) i1) = 2"
    "d_inode (dentries (k_fs k3) (kview k3) i1) = n1" using k3(2) unfolding waiting_def frame_file_def by blast
  obtain k4 where k4: "s_open (ksys ly t esp ebp ubuf child) (str ''frame1.txt'') k3 = Some (of_nat 4, k4)" "waiting ly ubuf pv v f0 f1 n0 n1 5 k4"
    "fd_array (cur k4) = (fd_array (cur k3))(4 := new_file (dentries (k_fs k3) (kview k3) i1))" "k_fs k4 = k_fs k3" "picture v k4 = picture v k3"
    using waiting_open[OF k3(2) i1(1) _ nm(3,6), of t esp ebp child] by auto
  have w: "\<forall>i < MAX_FD. used_fd (cur k4) i \<longleftrightarrow> i < 5" "frame_file (lit ''frame0.txt'') n0 f0 k4" "frame_file (lit ''frame1.txt'') n1 f1 k4"
    using k4(2) unfolding waiting_def by blast+
  have fd: "fd_array (cur k4) 2 = new_file (dentries (k_fs k1) (kview k1) ix)" "fd_array (cur k4) 3 = new_file (dentries (k_fs k2) (kview k2) i0)"
    "fd_array (cur k4) 4 = new_file (dentries (k_fs k3) (kview k3) i1)" unfolding k4(3) k3(3) k2(3) by simp_all
  have "file_side 3 n0 k4" "left_in 3 n0 k4 = Some f0"
    using w(1,2) i0(2,3) unfolding file_side_def left_in_def unread_def fd frame_file_def by (simp_all add: new_file_def)
  moreover have "file_side 4 n1 k4" "left_in 4 n1 k4 = Some f1"
    using w(1,3) i1(2,3) unfolding file_side_def left_in_def unread_def fd frame_file_def by (simp_all add: new_file_def)
  moreover have "clock_side 2 k4" using w(1) k4(2) ix(2) unfolding clock_side_def fd by (simp add: new_file_def waiting_def)
  moreover have "mp1_set_video_mode (kproc ba pv junk) (ksys ly t esp ebp ubuf child) k = Some (0x08400000, k1)"
    using k1(1,2) by (simp add: mp1_set_video_mode_def kproc_def waiting_def pointed_def)
  ultimately show ?thesis using k2(1,5) k3(1,5) k4(1,2,5) k1(3) unfolding swimming_def waiting_def by (simp add: tank_def)
qed

section \<open>What the program does\<close>

lemma array_cleared:
  assumes "length a = CELLS"
  shows "\<exists>bs. ece391_memset (concat (map blink_bytes a)) 0 (int (STRUCT_SIZE * CELLS)) = Some bs \<and> blinks_of bs = replicate CELLS zero_blink"
  using memset_array[OF assms] blinks_of_zero[of CELLS] by blast

lemma fish_plays:
  assumes "fish_start ly ubuf pv f0 f1 n0 n1 k" and "v = own_screen k" and "rep (kproc ba pv junk) x [] []"
    and "zs = frame_cells 0 (Some f0) (Some f1)" and "distinct (map fst zs)" and "\<forall>z \<in> set zs. fst z < 2000" and "length g = 4"
  shows "\<exists>k1 k2 x3 k3 r k4 g' x5 k5. mp1_set_video_mode (kproc ba pv junk) (ksys ly 32 esp ebp ubuf child) k = Some (0x08400000, k1) \<and>
    s_open (ksys ly 32 esp ebp ubuf child) (str ''rtc'') k1 = Some (of_nat 2, k2) \<and>
    add_frames (kproc ba pv junk) (ksys ly 32 esp ebp ubuf child) (str ''frame0.txt'') (str ''frame1.txt'') x k2 = Some (Inr (x3, k3)) \<and>
    s_write (ksys ly 32 esp ebp ubuf child) (of_nat 2) [32, 0, 0, 0] 4 k3 = Some (r, k4) \<and>
    fish_wait (kproc ba pv junk) (ksys ly 32 esp ebp ubuf child) (of_nat 2) n g x3 k4 = Some (g', x5, k5) \<and>
    (\<forall>z \<in> set zs. picture v k5 (2 * fst z) = (if even (n div 15) then fst (snd z) else snd (snd z))) \<and>
    (\<forall>a. a \<notin> (\<lambda>z. 2 * fst z) ` set zs \<longrightarrow> picture v k5 a = picture v k a) \<and>
    in_tank (kproc ba pv junk) (swimming ly ubuf pv v (tank n0 n1)) x3 k3"
proof -
  let ?P = "kproc ba pv junk" and ?S = "ksys ly 32 esp ebp ubuf child" and ?T = "tank n0 n1"
  obtain k1 k2 k3 k4 where s: "mp1_set_video_mode ?P ?S k = Some (0x08400000, k1)" "s_open ?S (str ''rtc'') k1 = Some (of_nat 2, k2)"
    "s_open ?S (str ''frame0.txt'') k2 = Some (of_nat 3, k3)" "s_open ?S (str ''frame1.txt'') k3 = Some (of_nat 4, k4)" "swimming ly ubuf pv v ?T k4"
    "left_in 3 n0 k4 = Some f0" "left_in 4 n1 k4 = Some f1" "picture v k4 = picture v k"
    using fish_starts[OF assms(1,2), of ba junk 32 esp ebp child] by blast
  have i: "left_in (t_i0 ?T) (t_n0 ?T) k4 = Some f0" "left_in (t_i1 ?T) (t_n1 ?T) k4 = Some f1" using s(6,7) by simp_all
  obtain x5 k5 is5 where 5: "frame_rows ?P ?S (of_nat 3) (of_nat 4) 0 48 False 48 False x k4 = Some (x5, k5)" "swimming ly ubuf pv v ?T k5"
    "rep ?P x5 is5 (rev (map (cell_blink ?P) zs))"
    using fish.frames_added[OF s(5) i assms(3-6), of esp ebp child] unfolding tank_sel by blast
  obtain r k6 g' x7 k7 where 6: "s_write ?S (of_nat 2) [32, 0, 0, 0] 4 k5 = Some (r, k6)" "fish_wait ?P ?S (of_nat 2) n g x5 k6 = Some (g', x7, k7)"
    "\<forall>z \<in> set zs. picture v k7 (2 * fst z) = (if even (n div 15) then fst (snd z) else snd (snd z))"
    "\<forall>a. a \<notin> (\<lambda>z. 2 * fst z) ` set zs \<longrightarrow> picture v k7 a = picture v k4 a"
    using fish.frames_shown[OF s(5) i assms(3-7), of esp ebp child n] 5(1) unfolding tank_sel by auto
  have "add_frames ?P ?S (str ''frame0.txt'') (str ''frame1.txt'') x k2 = Some (Inr (x5, k5))"
    using s(3,4) 5(1) by (simp add: add_frames_def sint_fd)
  moreover have "in_tank ?P (swimming ly ubuf pv v ?T) x5 k5" using in_tankI[of "swimming ly ubuf pv v ?T", OF 5(2,3)] cells_displayed(2)[OF assms(5,6)] by blast
  ultimately show ?thesis using s(1,2) 6 unfolding s(8) by blast
qed

lemma fish_runs:
  assumes "fish_start ly ubuf pv f0 f1 n0 n1 k" and "array_ok (kproc ba pv junk)" and "length (blink_array x) = CELLS" and "mp1_list_head x = 0"
    and "zs = frame_cells 0 (Some f0) (Some f1)" and "distinct (map fst zs)" and "\<forall>z \<in> set zs. fst z < 2000" and "length g = 4"
  shows "\<exists>x' k'. fish_main (kproc ba pv junk) (ksys ly 32 esp ebp ubuf child) g x k = Some (Fish_returned 0, x', k')"
proof -
  let ?P = "kproc ba pv junk" and ?S = "ksys ly 32 esp ebp ubuf child"
  obtain bs where bs: "ece391_memset (concat (map blink_bytes (blink_array x))) 0 (int (STRUCT_SIZE * CELLS)) = Some bs" "blinks_of bs = replicate CELLS zero_blink"
    using array_cleared[OF assms(3)] by blast
  have r: "rep ?P (x\<lparr> blink_array := blinks_of bs \<rparr>) [] []"
    using rep_empty[OF assms(2), of "replicate CELLS zero_blink"] assms(4) by (cases x) (simp add: bs(2) zero_blink_def)
  obtain k1 k2 x3 k3 where s: "mp1_set_video_mode ?P ?S k = Some (0x08400000, k1)" "s_open ?S (str ''rtc'') k1 = Some (of_nat 2, k2)"
    "add_frames ?P ?S (str ''frame0.txt'') (str ''frame1.txt'') (x\<lparr> blink_array := blinks_of bs \<rparr>) k2 = Some (Inr (x3, k3))"
    "in_tank ?P (swimming ly ubuf pv (own_screen k) (tank n0 n1)) x3 k3"
    using fish_plays[OF assms(1) refl r assms(5-8), of esp ebp child 0] by blast
  obtain x4 k4 where "fish_show ?P ?S (of_nat 2) g x3 k3 = Some (x4, k4)"
    using fish.fish_show_returns[OF s(4) assms(8), of esp ebp child] unfolding tank_sel by blast
  then have "fish_main ?P ?S g x k = Some (Fish_returned 0, x4, k4)"
    unfolding fish_main_def bs(1) using s(1-3) by simp
  then show ?thesis by blast
qed

section \<open>The program's behaviour, and a state it runs in\<close>


text \<open>C22: the fish program ends.  Started like that, with a zero list head and frames that fit the
  page, \<open>main\<close> runs through its four stretches of clock interrupts and returns 0.\<close>

theorem fish_returns:
  assumes "fish_start ly ubuf pv f0 f1 n0 n1 k" and "array_ok (kproc ba pv junk)" and "length (blink_array x) = CELLS" and "mp1_list_head x = 0"
    and "zs = frame_cells 0 (Some f0) (Some f1)" and "distinct (map fst zs)" and "\<forall>z \<in> set zs. fst z < 2000" and "length g = 4"
  shows "\<exists>x' k'. fish_main (kproc ba pv junk) (ksys ly 32 esp ebp ubuf child) g x k = Some (Fish_returned 0, x', k')"
  by (rule fish_runs[OF assms])

text \<open>The state of the other programs with both frames in the directory, on the file of the earlier image.\<close>

definition demo_fimg :: mem where
  "demo_fimg = wr (wr (demo_img(0x1060 := 2)) 0x1040 (str ''frame0.txt'')) 0x1080 (str ''frame1.txt'')"

definition demo_f :: kernel where
  "demo_f = demo_u\<lparr> k_mem := demo_at demo_fimg, k_rtc := demo_rtc\<lparr> active_freq := \<lambda>_. 0 \<rparr> \<rparr>"

lemma demo_f_sel:
  "CPID demo_f = 1" "k_fs demo_f = demo_fs" "k_mem demo_f = demo_at demo_fimg" "k_mmu demo_f = snd demo_1" "k_con demo_f = demo_con"
  "processes demo_f 1 = demo_upcb" "processes demo_f (Suc 0) = demo_upcb"
  by (simp_all add: demo_f_def demo_u_sel)

lemma demo_fimg_at:
  "demo_fimg a = (if unat (a - 0x1080) < 11 then str ''frame1.txt'' ! unat (a - 0x1080)
     else if unat (a - 0x1040) < 11 then str ''frame0.txt'' ! unat (a - 0x1040) else if a = 0x1060 then 2 else demo_img a)"
proof -
  have "length (str ''frame0.txt'') = 11" "length (str ''frame1.txt'') = 11" by (simp_all add: str_def lit_def)
  then show ?thesis by (simp add: demo_fimg_def wr_def blit_def)
qed

lemma demo_fimg_header:
  "n_dentries demo_fs demo_fimg = 3" "n_inodes demo_fs demo_fimg = 1" "n_datablocks demo_fs demo_fimg = 1"
  "inode_length demo_fs demo_fimg 0 = 3" "datablocks demo_fs demo_fimg 0 0 = 0"
  by (simp_all add: n_dentries_def n_inodes_def n_datablocks_def inode_length_def datablocks_def
      demo_fs_def demo_fimg_at demo_img_def demo_mem_def rd32_def le32_def)

lemma demo_fimg_names:
  "name_key (arr demo_fimg (dentry_addr demo_fs 0)) = lit ''frame0.txt''" "name_key (arr demo_fimg (dentry_addr demo_fs 1)) = lit ''frame1.txt''"
  "name_key (arr demo_fimg (dentry_addr demo_fs 2)) = lit ''rtc''"
proof -
  have f0: "arr demo_fimg 0x1040 i = str ''frame0.txt'' ! i" if "i \<le> 10" for i
    using that by (simp add: arr_def demo_fimg_at unat_of_nat_32 unat_sub_if_size word_size)
  have f1: "arr demo_fimg 0x1080 i = str ''frame1.txt'' ! i" if "i \<le> 10" for i
    using that by (simp add: arr_def demo_fimg_at unat_of_nat_32)
  have f2: "arr demo_fimg 0x10C0 i = demo_img (0x10C0 + of_nat i)" if "i \<le> 3" for i
    using that by (auto simp: arr_def demo_fimg_at unat_of_nat_32 unat_sub_if_size word_size unat_word_ariths word_unat_eq_iff)
  have "str s ! i = cs (lit s) i" if "i \<le> length (lit s)" for s i using that by (auto simp: str_def cs_def nth_append)
  moreover have "length (lit ''frame0.txt'') = 10" "length (lit ''frame1.txt'') = 10" by (simp_all add: lit_def)
  moreover have "wf_cstring (lit ''frame0.txt'')" "wf_cstring (lit ''frame1.txt'')" by (simp_all add: wf_cstring_def lit_def byte_of_def)
  ultimately have "cstr_at demo_fimg 0x1040 (lit ''frame0.txt'')" "cstr_at demo_fimg 0x1080 (lit ''frame1.txt'')"
    using f0 f1 by (simp_all add: cstr_at_def)
  moreover have "cstr_at demo_fimg 0x10C0 (lit ''rtc'')"
  proof -
    have v: "arr demo_fimg 0x10C0 0 = 114" "arr demo_fimg 0x10C0 1 = 116" "arr demo_fimg 0x10C0 2 = 99" "arr demo_fimg 0x10C0 3 = 0"
      using f2[of 0] f2[of 1] f2[of 2] f2[of 3] by (simp_all add: demo_img_def demo_mem_def)
    have c: "cs (lit ''rtc'') 0 = 114" "cs (lit ''rtc'') 1 = 116" "cs (lit ''rtc'') 2 = 99" "cs (lit ''rtc'') 3 = 0" "length (lit ''rtc'') = 3"
      by (simp_all add: cs_def lit_def byte_of_def)
    have l: "i \<le> 3 \<longleftrightarrow> i = 0 \<or> i = 1 \<or> i = 2 \<or> i = 3" for i :: nat by presburger
    have "wf_cstring (lit ''rtc'')" by (simp add: wf_cstring_def lit_def byte_of_def)
    then show ?thesis unfolding cstr_at_def c(5) l using v c(1-4) by (metis (no_types))
  qed
  ultimately show "name_key (arr demo_fimg (dentry_addr demo_fs 0)) = lit ''frame0.txt''" "name_key (arr demo_fimg (dentry_addr demo_fs 1)) = lit ''frame1.txt''"
    "name_key (arr demo_fimg (dentry_addr demo_fs 2)) = lit ''rtc''"
    using name_key_cstr by (simp_all add: dentry_addr_def demo_fs_def) (simp_all add: lit_def)
qed

lemma demo_fimg_ok:
  "wf_fs demo_fs demo_fimg" "file_ok demo_fs demo_fimg 0" "data_valid demo_fs demo_fimg 0" "file_bytes demo_fs demo_fimg 0 = [72, 105, 10]"
  "d_type (dentries demo_fs demo_fimg 0) = 2" "d_type (dentries demo_fs demo_fimg 1) = 2" "d_type (dentries demo_fs demo_fimg 2) = 0"
  "d_inode (dentries demo_fs demo_fimg 0) = 0" "d_inode (dentries demo_fs demo_fimg 1) = 0"
proof -
  have l: "file_len demo_fs demo_fimg 0 = 3" by (simp add: file_len_def demo_fimg_header)
  show "wf_fs demo_fs demo_fimg" by (simp add: wf_fs_def demo_fimg_header) (simp add: demo_fs_def)
  show "file_ok demo_fs demo_fimg 0" by (simp add: file_ok_def l demo_fimg_header)
  have "file_block demo_fs demo_fimg 0 j = 0" if "j * 4096 < 3" for j
    using that by (cases j) (simp_all add: file_block_def demo_fimg_header)
  then show "data_valid demo_fs demo_fimg 0" by (simp add: data_valid_def blocks_ok_def l demo_fimg_header)
  show "file_bytes demo_fs demo_fimg 0 = [72, 105, 10]"
    by (simp add: file_bytes_def l file_byte_def file_block_def demo_fimg_header upt_rec arr_def) (simp add: demo_fs_def demo_fimg_at demo_img_def demo_mem_def)
  show "d_type (dentries demo_fs demo_fimg 0) = 2" "d_type (dentries demo_fs demo_fimg 1) = 2" "d_type (dentries demo_fs demo_fimg 2) = 0"
    "d_inode (dentries demo_fs demo_fimg 0) = 0" "d_inode (dentries demo_fs demo_fimg 1) = 0"
    by (simp_all add: dentries_def dentry_addr_def demo_fs_def demo_fimg_at demo_img_def demo_mem_def rd32_def le32_def)
qed

lemma demo_fish: "fish_start demo_ly 0x08100000 0x08052000 [72, 105, 10] [72, 105, 10] 0 0 demo_f"
proof -
  have s: "std_ok (cur demo_f)" by (auto simp: demo_f_sel std_ok_def demo_upcb_def demo_pcb_def demo_file_def)
  note d = demo_at_state[OF demo_f_sel(1-5) s demo_fimg_header(2,3) demo_fimg_ok(1)]
  have l1: "i < (1 :: u32) \<longleftrightarrow> i = 0" "i < (2 :: u32) \<longleftrightarrow> i = 0 \<or> i = 1" for i :: u32
    by (auto simp: word_less_nat_alt word_unat_eq_iff)
  have e: "find_dentry demo_fs (kview demo_f) (lit ''frame0.txt'') = Some 0" "find_dentry demo_fs (kview demo_f) (lit ''frame1.txt'') = Some 1"
    "find_dentry demo_fs (kview demo_f) (lit ''rtc'') = Some 2"
    by (auto simp: find_dentry_agree[OF d(2)] find_dentry_Some demo_fimg_header demo_fimg_names l1 lit_def byte_of_def)
  have t: "dentries demo_fs (kview demo_f) i = dentries demo_fs demo_fimg i" if "i < 3" for i
    using agree_dentries[OF d(2), of i] that by (auto simp: less_3_word)
  have f: "file_ok demo_fs (kview demo_f) 0" "data_valid demo_fs (kview demo_f) 0" "file_bytes demo_fs (kview demo_f) 0 = [72, 105, 10]"
    using agree_file_ok[OF d(2) demo_fimg_ok(1,2)] agree_data_valid[OF d(2) demo_fimg_ok(1,2)]
      agree_file_bytes[OF d(2) demo_fimg_ok(1-3)] demo_fimg_ok(3,4) by simp_all
  have "apart 0x08100000 0x08052000"
    by (auto simp: apart_def user_page_def word_le_nat_alt word_less_nat_alt unat_word_ariths unat_of_nat_32 unat_sub_if_size word_size)
  moreover have "fs_clear demo_ly demo_f" using d(4) by (simp add: fs_clear_def demo_f_sel demo_ly_def)
  moreover have "clock_file demo_f" using e(3) t[of 2] demo_fimg_ok(7) by (simp add: clock_file_def demo_f_sel)
  moreover have "frame_file (lit ''frame0.txt'') 0 [72, 105, 10] demo_f"
    using e(1) t[of 0] demo_fimg_ok(5,8) f by (simp add: frame_file_def demo_f_sel)
  moreover have "frame_file (lit ''frame1.txt'') 0 [72, 105, 10] demo_f"
    using e(2) t[of 1] demo_fimg_ok(6,9) f by (simp add: frame_file_def demo_f_sel)
  moreover have "terminal (cur demo_f) < 3" "\<forall>i. 2 \<le> i \<and> i < MAX_FD \<longrightarrow> \<not> used_fd (cur demo_f) i"
    by (auto simp: demo_f_sel demo_upcb_def demo_pcb_def demo_file_def)
  moreover have "active_freq (k_rtc demo_f) (CPID demo_f) = 0" by (simp add: demo_f_def)
  ultimately show ?thesis using d(1,3) by (simp add: fish_start_def)
qed

lemma demo_cells: "frame_cells 0 (Some [72, 105, 10]) (Some [72, 105, 10]) = [(40, 72, 72), (41, 105, 105)]"
  by (simp add: frame_cells.simps line_of_def rest_of_def row_cells_def at_col_def upt_rec)


theorem fish_returns_witness:
  "\<exists>x' k'. fish_main (kproc 0x08049000 0x08052000 zero_blink) (ksys demo_ly 32 0 0 0x08100000 (\<lambda>_. None)) [0, 0, 0, 0] demo_mp1 demo_f =
    Some (Fish_returned 0, x', k')"
  by (rule fish_returns[OF demo_fish _ _ _ refl]) (simp_all add: array_ok_def kproc_def demo_mp1_def demo_cells)

end
