(* ===== verification/Emulate.thy ===== *)
theory Emulate
  imports Userlib
begin

text \<open>
  The emulation library (\<^verbatim>\<open>syscalls/ece391emulate.c\<close>): the system call interface of the user
  programs on top of a Linux host, for running the programs without the kernel.

  What the host does is a record \<open>host\<close>: the raw results of its system calls in \<open>EAX\<close>, its
  directory functions, and what \<open>wait\<close> reports for a child that runs a program and kills itself
  with signal 9 when it cannot.  The library's own state is the directory it has open.  The
  arguments of the program (\<open>start_esp\<close>) are a list of arrays, \<open>argv\<close>.
\<close>

section \<open>The host\<close>

datatype wait_status = Exited u8 | Killed nat

record 'h host =
  h_read :: "i32 \<Rightarrow> u8 list \<Rightarrow> i32 \<Rightarrow> 'h \<Rightarrow> u32 \<times> u8 list \<times> 'h"
  h_write :: "i32 \<Rightarrow> u8 list \<Rightarrow> i32 \<Rightarrow> 'h \<Rightarrow> u32 \<times> 'h"
  h_close :: "i32 \<Rightarrow> 'h \<Rightarrow> u32 \<times> 'h"
  h_open :: "u8 list \<Rightarrow> 'h \<Rightarrow> u32 \<times> 'h"
  h_open_null :: "'h \<Rightarrow> i32 \<times> 'h"
  h_opendir :: "'h \<Rightarrow> nat option \<times> 'h"
  h_readdir :: "nat \<Rightarrow> 'h \<Rightarrow> u8 list option \<times> 'h"
  h_closedir :: "nat \<Rightarrow> 'h \<Rightarrow> 'h"
  h_run :: "u8 list \<Rightarrow> u8 list list \<Rightarrow> 'h \<Rightarrow> wait_status \<times> 'h"
  h_mmap_low :: "i32 \<Rightarrow> 'h \<Rightarrow> u32 option \<times> 'h"
  h_open_mem :: "'h \<Rightarrow> i32 \<times> 'h"

record emu =
  dir_fd :: i32
  dir :: "nat option"
  mem_fd :: i32

definition emu_init :: emu where
  "emu_init = \<lparr> dir_fd = -1, dir = None, mem_fd = -1 \<rparr>"

section \<open>The wrappers\<close>

text \<open>\<open>CMP $0xFFFFC000,%EAX; JBE 1f; MOVL $-1,%EAX\<close>.\<close>

definition DO_CALL :: "u32 \<Rightarrow> i32" where
  "DO_CALL eax = (if eax \<le> 0xFFFFC000 then eax else -1)"

definition ece391_open :: "'h host \<Rightarrow> u8 list \<Rightarrow> emu \<times> 'h \<Rightarrow> (i32 \<times> emu \<times> 'h) option" where
  "ece391_open H filename = (\<lambda>(e, h).
     do { r \<leftarrow> ece391_strcmp filename (str ''.'');
          if r = 0 then let (d, h) = h_opendir H h; (fd, h) = h_open_null H h
                        in Some (fd, e\<lparr> dir := d, dir_fd := fd \<rparr>, h)
          else let (rval, h) = h_open H filename h in Some (if rval > 0xFFFFC000 then -1 else rval, e, h) })"

text \<open>The loop that copies the name of a directory entry: \<open>from\<close> is the rest of the name.\<close>

fun copy_name :: "u8 list \<Rightarrow> u8 list \<Rightarrow> nat \<Rightarrow> i32 \<Rightarrow> (i32 option \<times> u8 list \<times> nat) option" where
  "copy_name [] buf copied nbytes = None"
| "copy_name (c # from) buf copied nbytes =
     (if c = 0 then Some (None, buf, copied)
      else do { buf \<leftarrow> aset buf copied c;
                if of_nat (copied + 1) = nbytes then Some (Some nbytes, buf, copied + 1)
                else if copied + 1 = 32 then Some (Some 32, buf, copied + 1)
                else copy_name from buf (copied + 1) nbytes })"

function pad_name :: "u8 list \<Rightarrow> nat \<Rightarrow> i32 \<Rightarrow> (u8 list \<times> nat) option" where
  "pad_name buf copied nbytes =
     (if sint nbytes > int copied \<and> copied < 32 then do { buf \<leftarrow> aset buf copied 0; pad_name buf (copied + 1) nbytes }
      else Some (buf, copied))"
  by pat_completeness auto
termination
  by (relation "measure (\<lambda>(buf, copied, nbytes). 32 - copied)") auto

definition ece391_read :: "'h host \<Rightarrow> i32 \<Rightarrow> u8 list \<Rightarrow> i32 \<Rightarrow> emu \<times> 'h \<Rightarrow> (i32 \<times> u8 list \<times> emu \<times> 'h) option" where
  "ece391_read H fd buf nbytes = (\<lambda>(e, h).
     (case dir e of
        None \<Rightarrow> let (r, buf, h) = h_read H fd buf nbytes h in Some (DO_CALL r, buf, e, h)
      | Some d \<Rightarrow>
          if dir_fd e \<noteq> fd then let (r, buf, h) = h_read H fd buf nbytes h in Some (DO_CALL r, buf, e, h)
          else let (de, h) = h_readdir H d h
               in (case de of None \<Rightarrow> Some (0, buf, e, h)
                   | Some name \<Rightarrow>
                       do { (r, buf, copied) \<leftarrow> copy_name name buf 0 nbytes;
                            (case r of Some r \<Rightarrow> Some (r, buf, e, h)
                             | None \<Rightarrow> do { (buf, copied) \<leftarrow> pad_name buf copied nbytes; Some (of_nat copied, buf, e, h) }) })))"

definition ece391_write :: "'h host \<Rightarrow> i32 \<Rightarrow> u8 list \<Rightarrow> i32 \<Rightarrow> emu \<times> 'h \<Rightarrow> i32 \<times> emu \<times> 'h" where
  "ece391_write H fd buf nbytes = (\<lambda>(e, h).
     if dir e = None \<or> dir_fd e \<noteq> fd then let (r, h) = h_write H fd buf nbytes h in (DO_CALL r, e, h) else (-1, e, h))"

definition ece391_close :: "'h host \<Rightarrow> i32 \<Rightarrow> emu \<times> 'h \<Rightarrow> i32 \<times> emu \<times> 'h" where
  "ece391_close H fd = (\<lambda>(e, h).
     (case dir e of
        None \<Rightarrow> let (r, h) = h_close H fd h in (DO_CALL r, e, h)
      | Some d \<Rightarrow>
          if dir_fd e \<noteq> fd then let (r, h) = h_close H fd h in (DO_CALL r, e, h)
          else let h = h_closedir H d h; (_, h) = h_close H (dir_fd e) h in (0, e\<lparr> dir := None, dir_fd := -1 \<rparr>, h)))"

definition ece391_vidmap :: "'h host \<Rightarrow> emu \<times> 'h \<Rightarrow> i32 \<times> u32 option \<times> emu \<times> 'h" where
  "ece391_vidmap H = (\<lambda>(e, h).
     let (e, h) = (if mem_fd e = -1 then let (fd, h) = h_open_mem H h in (e\<lparr> mem_fd := fd \<rparr>, h) else (e, h));
         (mem_image, h) = h_mmap_low H (mem_fd e) h
     in case mem_image of None \<Rightarrow> (-1, None, e, h) | Some p \<Rightarrow> (0, Some (p + 0xB8000), e, h))"

section \<open>Arguments\<close>

text \<open>\<open>strcpy\<close> from another array: \<open>dst\<close> is an index into \<open>buf\<close>.\<close>

fun copy_from :: "u8 list \<Rightarrow> nat \<Rightarrow> u8 list \<Rightarrow> u8 list option" where
  "copy_from buf dst [] = None"
| "copy_from buf dst (c # src) = do { buf \<leftarrow> aset buf dst c; if c \<noteq> 0 then copy_from buf (dst + 1) src else Some buf }"

text \<open>The loop of \<open>ece391_getargs\<close> over \<open>argv[idx], ..., argv[argc - 1]\<close>; \<open>p\<close> is \<open>buf\<close> as an index.  The
  result is \<open>None\<close> when the function returns -1.\<close>

fun args_loop :: "u8 list list \<Rightarrow> u8 list \<Rightarrow> nat \<Rightarrow> int \<Rightarrow> ((nat \<times> int) option \<times> u8 list) option" where
  "args_loop [] buf p nbytes = Some (Some (p, nbytes), buf)"
| "args_loop (arg # rest) buf p nbytes =
     do { len \<leftarrow> ece391_strlen arg;
          if sint len > nbytes then Some (None, buf)
          else do { buf \<leftarrow> copy_from buf p arg;
                    let p = p + unat len;
                    let nbytes = nbytes - sint len;
                    if rest = [] then Some (Some (p, nbytes), buf)
                    else if nbytes < 1 then Some (None, buf)
                    else do { buf \<leftarrow> aset buf p 32; args_loop rest buf (p + 1) (nbytes - 1) } } }"

definition ece391_getargs :: "u8 list list \<Rightarrow> u8 list \<Rightarrow> i32 \<Rightarrow> (i32 \<times> u8 list) option" where
  "ece391_getargs argv buf nbytes =
     do { (r, buf) \<leftarrow> args_loop (drop 1 argv) buf 0 (sint nbytes);
          (case r of None \<Rightarrow> Some (-1, buf)
           | Some (p, nbytes) \<Rightarrow> if nbytes < 1 then Some (-1, buf) else do { buf \<leftarrow> aset buf p 0; Some (0, buf) }) }"

section \<open>Running a program\<close>

text \<open>\<open>while ('\0' != *scan && ' ' != *scan && '\n' != *scan) scan++\<close>.\<close>

function scan_word :: "u8 list \<Rightarrow> nat \<Rightarrow> nat option" where
  "scan_word buf scan = do { c \<leftarrow> aget buf scan; if c \<noteq> 0 \<and> c \<noteq> 32 \<and> c \<noteq> 10 then scan_word buf (scan + 1) else Some scan }"
  by pat_completeness auto
termination
  by (relation "measure (\<lambda>(buf, scan). length buf - scan)") (auto simp: aget_iff)

text \<open>\<open>while (' ' == *scan) scan++\<close>.\<close>

function skip_spaces :: "u8 list \<Rightarrow> nat \<Rightarrow> nat option" where
  "skip_spaces buf scan = do { c \<leftarrow> aget buf scan; if c = 32 then skip_spaces buf (scan + 1) else Some scan }"
  by pat_completeness auto
termination
  by (relation "measure (\<lambda>(buf, scan). length buf - scan)") (auto simp: aget_iff)

declare pad_name.simps [simp del] scan_word.simps [simp del] skip_spaces.simps [simp del]

text \<open>The loop that parses the arguments: the array, and where the arguments start.\<close>

partial_function (option) parse_args :: "u8 list \<Rightarrow> nat \<Rightarrow> nat list \<Rightarrow> (u8 list \<times> nat list) option" where
  "parse_args buf scan args =
     do { scan \<leftarrow> skip_spaces buf scan;
          c \<leftarrow> aget buf scan;
          if c = 0 \<or> c = 10 then do { buf \<leftarrow> aset buf scan 0; Some (buf, args) }
          else do { en \<leftarrow> scan_word buf scan;
                    c \<leftarrow> aget buf en;
                    if c \<noteq> 0 then do { buf \<leftarrow> aset buf en 0; parse_args buf (en + 1) (args @ [scan]) }
                    else parse_args buf en (args @ [scan]) } }"

definition parse_command :: "u8 list \<Rightarrow> u8 list \<Rightarrow> (u8 list \<times> nat list) option" where
  "parse_command buf command =
     do { buf \<leftarrow> aset buf 0 46;
          buf \<leftarrow> aset buf 1 47;
          buf \<leftarrow> copy_from buf 2 command;
          scan \<leftarrow> scan_word buf 2;
          c \<leftarrow> aget buf scan;
          if c \<noteq> 0 then do { buf \<leftarrow> aset buf scan 0; parse_args buf (scan + 1) [0] }
          else Some (buf, [0]) }"

definition ece391_execute :: "'h host \<Rightarrow> u8 list \<Rightarrow> u8 list \<Rightarrow> emu \<times> 'h \<Rightarrow> (i32 \<times> emu \<times> 'h) option" where
  "ece391_execute H buf command = (\<lambda>(e, h).
     do { n \<leftarrow> ece391_strlen command;
          if 1023 < n then Some (-1, e, h)
          else do { (buf, args) \<leftarrow> parse_command buf command;
                    if 1024 \<le> length args then None
                    else let (status, h) = h_run H buf (map (\<lambda>i. drop i buf) args) h
                         in Some (case status of Exited n \<Rightarrow> ucast n | Killed s \<Rightarrow> if s = 9 then -1 else 256, e, h) } })"

section \<open>What they compute\<close>

text \<open>Reference: the arguments with a space between any two.\<close>

fun join :: "cstring list \<Rightarrow> cstring" where
  "join [] = []"
| "join [w] = w"
| "join (w # ws) = w @ 32 # join ws"

lemma copy_from_array:
  "holds src s \<Longrightarrow> dst + length s < length buf \<Longrightarrow> copy_from buf dst src = Some (take dst buf @ s @ 0 # drop (dst + length s + 1) buf)"
proof (induction src arbitrary: s buf dst)
  case (Cons c src)
  show ?case
  proof (cases "c = 0")
    case True
    then have "s = []" using Cons.prems(1) by (simp add: holds_Cons)
    then show ?thesis using True Cons.prems(2) by (simp add: upd_conv_take_nth_drop)
  next
    case False
    then obtain t where t: "s = c # t" "holds src t" using Cons.prems(1) by (auto simp: holds_Cons)
    have "copy_from (buf[dst := c]) (dst + 1) src = Some (take (dst + 1) (buf[dst := c]) @ t @ 0 # drop (dst + 1 + length t + 1) (buf[dst := c]))"
      using Cons.IH[OF t(2), of "dst + 1" "buf[dst := c]"] Cons.prems(2) by (simp add: t(1))
    then show ?thesis using False Cons.prems(2) by (simp add: t(1) take_Suc_conv_app_nth)
  qed
qed simp

lemma args_loop_joins:
  "list_all2 holds args ws \<Longrightarrow> int (length (join ws)) < n \<Longrightarrow> n < 2 ^ 31 \<Longrightarrow> p + length (join ws) < length buf \<Longrightarrow>
    \<exists>buf'. args_loop args buf p n = Some (Some (p + length (join ws), n - int (length (join ws))), buf') \<and>
      take (p + length (join ws)) buf' = take p buf @ join ws \<and> length buf' = length buf"
proof (induction args arbitrary: ws buf p n)
  case (Cons arg args)
  obtain w vs where w: "ws = w # vs" "holds arg w" "list_all2 holds args vs" using Cons.prems(1) by (auto simp: list_all2_Cons1)
  have jl: "length w \<le> length (join ws)" by (cases vs) (simp_all add: w(1))
  have lw: "unat (of_nat (length w) :: u32) = length w" "sint (of_nat (length w) :: u32) = int (length w)"
    using jl Cons.prems(2,3) sint_dec[of "Suc (length w)"] by (simp_all add: unat_of_nat_32)
  define b where "b = take p buf @ w @ 0 # drop (p + length w + 1) buf"
  have b: "copy_from buf p arg = Some b" "length b = length buf" "take (p + length w) b = take p buf @ w"
    using copy_from_array[OF w(2), of p buf] jl Cons.prems(4) by (simp_all add: b_def)
  note st = holds_strlen[OF w(2)]
  show ?case
  proof (cases "args = []")
    case True
    then have "vs = []" using w(3) by simp
    then show ?thesis using True jl Cons.prems(2) b st lw by (simp add: w(1))
  next
    case False
    then obtain v us where vs: "vs = v # us" using w(3) by (cases vs) auto
    have j: "length (join ws) = length w + 1 + length (join vs)" by (simp add: w(1) vs)
    obtain b' where b': "args_loop args (b[p + length w := 32]) (p + length w + 1) (n - int (length w) - 1) =
        Some (Some (p + length w + 1 + length (join vs), n - int (length w) - 1 - int (length (join vs))), b')"
      "take (p + length w + 1 + length (join vs)) b' = take (p + length w + 1) (b[p + length w := 32]) @ join vs" "length b' = length buf"
      using Cons.IH[OF w(3), of "n - int (length w) - 1" "p + length w + 1" "b[p + length w := 32]"] Cons.prems(2-4) j b(2) by auto
    have "take (p + length w + 1) (b[p + length w := 32]) = take p buf @ w @ [32]"
      using b(2,3) Cons.prems(4) j by (simp add: take_Suc_conv_app_nth)
    then show ?thesis using False st lw b b' Cons.prems(2,4) j by (simp add: w(1) vs algebra_simps)
  qed
qed simp

text \<open>The emulated \<open>getargs\<close> gives the program's arguments: it returns 0 with the arguments, joined by single spaces, as a
  string in the buffer whenever they fit with their NUL.\<close>

theorem emulated_getargs_joins:
  assumes "list_all2 holds args ws" and "length (join ws) < unat nbytes" and "unat nbytes \<le> length buf" and "unat nbytes < 2 ^ 31"
  shows "\<exists>b. ece391_getargs (name # args) buf nbytes = Some (0, b) \<and> holds b (join ws) \<and> length b = length buf"
proof -
  have n: "sint nbytes = int (unat nbytes)"
    using sint_dec[of "Suc (unat nbytes)"] assms(4) by simp
  have bn: "int (length (join ws)) < sint nbytes" "sint nbytes < 2 ^ 31"
    using assms(2,4) unfolding n by (simp_all only: of_nat_less_iff of_nat_less_numeral_power_cancel_iff)
  obtain b where b: "args_loop args buf 0 (sint nbytes) = Some (Some (length (join ws), sint nbytes - int (length (join ws))), b)"
    "take (length (join ws)) b = join ws" "length b = length buf"
    using args_loop_joins[OF assms(1) bn, of 0 buf] assms(2,3) by auto
  have wf: "wf_cstring (join ws)" using assms(1)
  proof (induction args ws rule: list_all2_induct)
    case (Cons a args w ws)
    then show ?case by (cases ws) (auto simp: holds_def wf_cstring_def)
  qed (simp add: wf_cstring_def)
  have "b[length (join ws) := 0] = join ws @ 0 # drop (Suc (length (join ws))) b"
    using b(2,3) assms(2,3) by (simp add: upd_conv_take_nth_drop)
  then show ?thesis using b bn(1) assms(2,3) wf by (auto simp: ece391_getargs_def holds_def)
qed

theorem emulated_getargs_joins_witness:
  "\<exists>b. ece391_getargs [[99, 0], [97, 0], [98, 99, 0]] [0, 0, 0, 0, 0] 5 = Some (0, b) \<and> holds b [97, 32, 98, 99]"
  using emulated_getargs_joins[of "[[97, 0], [98, 99, 0]]" "[[97], [98, 99]]" 5 "[0, 0, 0, 0, 0]" "[99, 0]"]
  by (auto simp: holds_def wf_cstring_def)

text \<open>C40: an argument exactly as long as the buffer makes it store one byte past the buffer's end, instead of returning -1:
  \<open>len > nbytes\<close> does not count the NUL that \<open>strcpy\<close> copies.\<close>

theorem emulated_getargs_overruns:
  assumes "holds arg w" and "length w = length buf" and "nbytes = of_nat (length buf)" and "length buf < 2 ^ 31"
  shows "ece391_getargs (name # arg # args) buf nbytes = None"
proof -
  have "copy_from b dst arg = None" if "holds arg w" "dst + length w = length b" for arg w dst b
    using that
  proof (induction arg arbitrary: w dst b)
    case (Cons c arg)
    show ?case
    proof (cases "c = 0")
      case True
      then show ?thesis using Cons.prems by (simp add: holds_Cons aset_def)
    next
      case False
      then obtain t where "w = c # t" "holds arg t" using Cons.prems(1) by (auto simp: holds_Cons)
      then show ?thesis using Cons.IH[of t "dst + 1" "b[dst := c]"] Cons.prems(2) False by simp
    qed
  qed simp
  then have "copy_from buf 0 arg = None" using assms(1,2) by simp
  moreover have "sint (of_nat (length buf) :: u32) = int (length buf)" using sint_dec[of "Suc (length buf)"] assms(4) by simp
  ultimately show ?thesis using holds_strlen[OF assms(1)] by (simp add: ece391_getargs_def assms(2,3))
qed

theorem emulated_getargs_overruns_witness: "ece391_getargs [[99, 0], [97, 98, 0]] [0, 0] 2 = None"
  using emulated_getargs_overruns[of "[97, 98, 0]" "[97, 98]" "[0, 0]" 2 "[99, 0]" "[]"] by (simp add: holds_def wf_cstring_def)

section \<open>The words of a command\<close>

text \<open>Reference: the maximal runs of characters other than spaces.\<close>

function words :: "u8 list \<Rightarrow> u8 list list" where
  "words s = (let t = dropWhile (\<lambda>c. c = 32) s in if t = [] then [] else takeWhile (\<lambda>c. c \<noteq> 32) t # words (dropWhile (\<lambda>c. c \<noteq> 32) t))"
  by pat_completeness auto
termination
proof (relation "measure length")
  fix s t :: "u8 list" assume t: "t = dropWhile (\<lambda>c. c = 32) s" "t \<noteq> []"
  then have "hd t \<noteq> 32" using hd_dropWhile[of "\<lambda>c. c = 32" s] by simp
  then have "length (dropWhile (\<lambda>c. c \<noteq> 32) t) < length t" using t(2) by (cases t) (auto simp: le_imp_less_Suc length_dropWhile_le)
  then show "(dropWhile (\<lambda>c. c \<noteq> 32) t, s) \<in> measure length"
    using length_dropWhile_le[of "\<lambda>c. c = 32" s] t(1) by simp
qed simp

declare words.simps [simp del]

lemma scan_word_stops:
  "0 \<notin> set w \<Longrightarrow> 32 \<notin> set w \<Longrightarrow> 10 \<notin> set w \<Longrightarrow> c \<in> {0, 32} \<Longrightarrow> scan_word (pre @ w @ c # post) (length pre) = Some (length pre + length w)"
proof (induction w arbitrary: pre)
  case Nil
  then show ?case by (subst scan_word.simps) auto
next
  case (Cons b w)
  have "scan_word (pre @ (b # w) @ c # post) (length pre + 1) = Some (length pre + 1 + length w)"
    using Cons.IH[of "pre @ [b]"] Cons.prems by simp
  then show ?case using Cons.prems by (subst scan_word.simps) (simp add: nth_append)
qed

lemma skip_spaces_stops:
  "set sp \<subseteq> {32} \<Longrightarrow> c \<noteq> 32 \<Longrightarrow> skip_spaces (pre @ sp @ c # post) (length pre) = Some (length pre + length sp)"
proof (induction sp arbitrary: pre)
  case Nil
  then show ?case by (subst skip_spaces.simps) auto
next
  case (Cons b sp)
  have "skip_spaces (pre @ (b # sp) @ c # post) (length pre + 1) = Some (length pre + 1 + length sp)"
    using Cons.IH[of "pre @ [b]"] Cons.prems by simp
  then show ?case using Cons.prems by (subst skip_spaces.simps) (simp add: nth_append)
qed

lemma parse_args_end: "parse_args (pre @ 0 # post) (length pre) is = Some (pre @ 0 # post, is)"
  using skip_spaces_stops[of "[]" 0 pre post] by (subst parse_args.simps) (simp add: nth_append list_update_append)

text \<open>The arguments found so far end before \<open>scan\<close>.\<close>

definition found :: "u8 list \<Rightarrow> nat \<Rightarrow> u8 list \<Rightarrow> bool" where
  "found pre i w \<longleftrightarrow> i \<le> length pre \<and> holds (drop i pre) w"

lemma found_append: "found pre i w \<Longrightarrow> found (pre @ xs) i w"
  by (auto simp: found_def holds_def)

lemma parse_args_words:
  "0 \<notin> set rest \<Longrightarrow> 10 \<notin> set rest \<Longrightarrow> list_all2 (found pre) is ws \<Longrightarrow>
    \<exists>b js. parse_args (pre @ rest @ 0 # post) (length pre) is = Some (b, is @ js) \<and> list_all2 (found b) (is @ js) (ws @ words rest)"
proof (induction "length rest" arbitrary: pre rest "is" ws rule: less_induct)
  case less
  define sp t where "sp = takeWhile (\<lambda>c. c = 32) rest" and "t = dropWhile (\<lambda>c. c = 32) rest"
  have rest: "rest = sp @ t" by (simp add: sp_def t_def)
  have sp: "set sp \<subseteq> {32}" by (auto simp: sp_def dest: set_takeWhileD)
  show ?case
  proof (cases "t = []")
    case True
    have "list_all2 (found (pre @ rest @ 0 # post)) is ws" using less.prems(3) by (rule list_all2_mono) (rule found_append)
    moreover have "words rest = []" by (subst words.simps) (simp add: t_def[symmetric] True)
    moreover have "parse_args (pre @ rest @ 0 # post) (length pre) is = Some (pre @ rest @ 0 # post, is)"
      using skip_spaces_stops[OF sp, of 0 pre post] True by (subst parse_args.simps) (simp add: rest nth_append list_update_append)
    ultimately show ?thesis by (intro exI[of _ "pre @ rest @ 0 # post"] exI[of _ "[]"]) simp
  next
    case False
    define w u where "w = takeWhile (\<lambda>c. c \<noteq> 32) t" and "u = dropWhile (\<lambda>c. c \<noteq> 32) t"
    have t: "t = w @ u" by (simp add: w_def u_def)
    have hd: "hd t \<noteq> 32" using hd_dropWhile[of "\<lambda>c. c = 32" rest] False by (simp add: t_def)
    then have wne: "w \<noteq> []" using False by (cases t) (simp_all add: w_def)
    have "32 \<notin> set w" unfolding w_def by (auto dest: set_takeWhileD)
    then have w: "0 \<notin> set w" "32 \<notin> set w" "10 \<notin> set w" using less.prems(1,2) by (simp_all add: rest t)
    have wr: "words rest = w # words u" by (subst words.simps) (simp add: t_def[symmetric] False w_def u_def)
    obtain c w' where cw: "w = c # w'" using wne by (cases w) auto
    have c: "c \<noteq> 0" "c \<noteq> 10" "c \<noteq> 32" using w by (auto simp: cw)
    let ?p = "pre @ sp"
    have sk: "skip_spaces (pre @ rest @ 0 # post) (length pre) = Some (length ?p)" "aget (pre @ rest @ 0 # post) (length ?p) = Some c"
      using skip_spaces_stops[OF sp c(3), of pre "w' @ u @ 0 # post"] by (simp_all add: rest t cw nth_append)
    show ?thesis
    proof (cases u)
      case Nil
      let ?b = "pre @ rest @ 0 # post"
      have sw: "scan_word ?b (length ?p) = Some (length ?p + length w)" "aget ?b (length ?p + length w) = Some 0"
        using scan_word_stops[OF w, of 0 ?p post] by (simp_all add: rest t Nil nth_append)
      have last: "parse_args ?b (length ?p + length w) (is @ [length ?p]) = Some (?b, is @ [length ?p])"
        using parse_args_end[of "?p @ w" post] by (simp add: rest t Nil add.assoc)
      have "parse_args ?b (length pre) is = Some (?b, is @ [length ?p])"
        by (subst parse_args.simps) (simp only: sk Option.bind.simps sw c simp_thms if_False not_True_eq_False last)
      moreover have "list_all2 (found ?b) is ws" using less.prems(3) by (rule list_all2_mono) (rule found_append)
      moreover have "found ?b (length ?p) w" using w by (simp add: found_def rest t Nil holds_def wf_cstring_def)
      moreover have "words u = []" by (subst words.simps) (simp add: Nil)
      ultimately show ?thesis by (intro exI[of _ ?b] exI[of _ "[length ?p]"]) (simp add: wr list_all2_appendI)
    next
      case (Cons s u')
      have s: "s = 32" using Cons unfolding u_def dropWhile_eq_Cons_conv by simp
      let ?b = "pre @ rest @ 0 # post" and ?q = "?p @ w @ [0]"
      have sw: "scan_word ?b (length ?p) = Some (length ?p + length w)" "aget ?b (length ?p + length w) = Some 32"
        using scan_word_stops[OF w, of 32 ?p "u' @ 0 # post"] by (simp_all add: rest t Cons s nth_append)
      have st: "aset ?b (length ?p + length w) 0 = Some (?q @ u' @ 0 # post)" by (simp add: rest t Cons list_update_append)
      have l: "length u' < length rest" by (simp add: rest t Cons)
      have z: "0 \<notin> set u'" "10 \<notin> set u'" using less.prems(1,2) by (auto simp: rest t Cons)
      have "list_all2 (found ?q) is ws" using less.prems(3) by (rule list_all2_mono) (simp add: found_append)
      moreover have "found ?q (length ?p) w" using w by (simp add: found_def holds_def wf_cstring_def)
      ultimately have "list_all2 (found ?q) (is @ [length ?p]) (ws @ [w])" by (simp add: list_all2_appendI)
      from less.hyps[OF l z this] obtain b js where rec: "parse_args (?q @ u' @ 0 # post) (length ?q) (is @ [length ?p]) = Some (b, (is @ [length ?p]) @ js)"
        "list_all2 (found b) ((is @ [length ?p]) @ js) ((ws @ [w]) @ words u')" by blast
      have "words u = words u'" unfolding Cons s by (subst (1 2) words.simps) simp
      moreover have "length ?p + length w + 1 = length ?q" "(32 :: u8) \<noteq> 0" by simp_all
      then have "parse_args ?b (length pre) is = Some (b, (is @ [length ?p]) @ js)"
        by (subst parse_args.simps) (simp only: sk Option.bind.simps sw c st simp_thms if_False if_True not_False_eq_True rec(1))
      ultimately show ?thesis using rec(2) by (intro exI[of _ b] exI[of _ "length ?p # js"]) (simp add: wr)
    qed
  qed
qed

lemma words_length: "length (words s) \<le> length s"
proof (induction s rule: words.induct)
  case (1 s)
  define t where "t = dropWhile (\<lambda>c. c = 32) s"
  show ?case
  proof (cases "t = []")
    case False
    then have "hd t \<noteq> 32" using hd_dropWhile[of "\<lambda>c. c = 32" s] by (simp add: t_def)
    then have "length (dropWhile (\<lambda>c. c \<noteq> 32) t) < length t" using False by (cases t) (auto simp: le_imp_less_Suc length_dropWhile_le)
    moreover have "length t \<le> length s" unfolding t_def by (rule length_dropWhile_le)
    ultimately show ?thesis using 1[OF t_def False] False by (subst words.simps) (simp add: t_def[symmetric])
  qed (subst words.simps, simp add: t_def[symmetric])
qed

lemma words_space: "words (32 # s) = words s"
  by (subst (1 2) words.simps) simp

lemma parse_command_words:
  assumes "holds command cmd" and "length cmd \<le> 1023" and "10 \<notin> set cmd" and "length buf = 1026"
  shows "\<exists>b js. parse_command buf command = Some (b, 0 # js) \<and> length js < 1023 \<and>
    list_all2 (found b) (0 # js) ((46 # 47 # takeWhile (\<lambda>c. c \<noteq> 32) cmd) # words (dropWhile (\<lambda>c. c \<noteq> 32) cmd))"
proof -
  define w u where "w = takeWhile (\<lambda>c. c \<noteq> 32) cmd" and "u = dropWhile (\<lambda>c. c \<noteq> 32) cmd"
  have cmd: "cmd = w @ u" by (simp add: w_def u_def)
  have z: "0 \<notin> set cmd" using assms(1) by (auto simp: holds_def wf_cstring_def)
  have "32 \<notin> set w" unfolding w_def by (auto dest: set_takeWhileD)
  then have w: "0 \<notin> set w" "32 \<notin> set w" "10 \<notin> set w" using z assms(3) by (simp_all add: cmd)
  obtain a a' bs where "buf = a # a' # bs" using assms(4) by (metis (no_types) Suc_length_conv numeral_eq_Suc pred_numeral_simps(2))
  moreover define post where "post = drop (Suc (length cmd)) bs"
  moreover define A where "A = [46, 47] @ cmd @ 0 # post"
  ultimately have "copy_from ((buf[0 := 46])[1 := 47]) 2 command = Some A"
    using copy_from_array[OF assms(1), of 2 "46 # 47 # bs"] assms(2,4) by simp
  then have c: "parse_command buf command = do { scan \<leftarrow> scan_word A 2; c \<leftarrow> aget A scan;
      if c \<noteq> 0 then do { buf \<leftarrow> aset A scan 0; parse_args buf (scan + 1) [0] } else Some (A, [0]) }"
    using assms(4) by (simp add: parse_command_def)
  show ?thesis
  proof (cases u)
    case Nil
    have "parse_command buf command = Some ([46, 47] @ cmd @ 0 # post, [0])"
      using scan_word_stops[OF w, of 0 "[46, 47]" post] unfolding c by (simp add: A_def cmd Nil numeral_2_eq_2)
    moreover have "found ([46, 47] @ cmd @ 0 # post) 0 (46 # 47 # w)" using w by (simp add: found_def holds_def wf_cstring_def cmd Nil)
    moreover have "words u = []" by (subst words.simps) (simp add: Nil)
    ultimately show ?thesis unfolding w_def[symmetric] u_def[symmetric] by auto
  next
    case (Cons s u')
    have s: "s = 32" using Cons unfolding u_def dropWhile_eq_Cons_conv by simp
    let ?q = "[46, 47] @ w @ [0]"
    have f: "list_all2 (found ?q) [0] [46 # 47 # w]" using w by (simp add: found_def holds_def wf_cstring_def)
    have u': "0 \<notin> set u'" "10 \<notin> set u'" using z assms(3) by (auto simp: cmd Cons)
    obtain b js where b: "parse_args (?q @ u' @ 0 # post) (length ?q) [0] = Some (b, [0] @ js)" "list_all2 (found b) ([0] @ js) ([46 # 47 # w] @ words u')"
      using parse_args_words[OF u' f, of post] by blast
    have "parse_command buf command = Some (b, 0 # js)"
    proof -
      have "scan_word A 2 = Some (Suc (Suc (length w)))"
        using scan_word_stops[OF w, of 32 "[46, 47]" "u' @ 0 # post"] by (simp add: A_def cmd Cons s numeral_2_eq_2)
      moreover have "A ! Suc (Suc (length w)) = 32" "Suc (Suc (length w)) < length A" "A[Suc (Suc (length w)) := 0] = ?q @ u' @ 0 # post"
        by (simp_all add: A_def cmd Cons s nth_append list_update_append)
      ultimately show ?thesis using b(1) unfolding c by simp
    qed
    moreover have "length js < 1023" using list_all2_lengthD[OF b(2)] words_length[of u'] assms(2) by (simp add: cmd Cons)
    ultimately show ?thesis using b(2) unfolding w_def[symmetric] u_def[symmetric] by (auto simp: Cons s words_space)
  qed
qed

text \<open>C33: the emulated \<open>execute\<close> runs the right program: for a command of at most 1023 characters and no newline, the host is
  asked to run the file named by the first word, with a leading \<open>./\<close>, and the words of the command as its arguments; the
  result is the program's exit status, -1 when the program could not be run, and 256 when a signal ended it.\<close>

theorem emulated_execute_runs:
  assumes "holds command cmd" and "length cmd \<le> 1023" and "10 \<notin> set cmd" and "length buf = 1026"
  shows "\<exists>b args. ece391_execute H buf command (e, h) =
      (let (status, h) = h_run H b args h in Some (case status of Exited n \<Rightarrow> ucast n | Killed s \<Rightarrow> if s = 9 then -1 else 256, e, h)) \<and>
    holds b (46 # 47 # takeWhile (\<lambda>c. c \<noteq> 32) cmd) \<and>
    list_all2 holds args ((46 # 47 # takeWhile (\<lambda>c. c \<noteq> 32) cmd) # words (dropWhile (\<lambda>c. c \<noteq> 32) cmd))"
proof -
  obtain b js where b: "parse_command buf command = Some (b, 0 # js)" "length js < 1023"
    "list_all2 (found b) (0 # js) ((46 # 47 # takeWhile (\<lambda>c. c \<noteq> 32) cmd) # words (dropWhile (\<lambda>c. c \<noteq> 32) cmd))"
    using parse_command_words[OF assms] by blast
  have "ece391_strlen command = Some (of_nat (length cmd))" "\<not> 1023 < (of_nat (length cmd) :: u32)"
    using holds_strlen[OF assms(1)] assms(2) by (simp_all add: word_less_nat_alt unat_of_nat_32)
  then have "ece391_execute H buf command (e, h) = (let (status, h) = h_run H b (map (\<lambda>i. drop i b) (0 # js)) h
      in Some (case status of Exited n \<Rightarrow> ucast n | Killed s \<Rightarrow> if s = 9 then -1 else 256, e, h))"
    using b(1,2) by (simp add: ece391_execute_def)
  moreover have "list_all2 holds (map (\<lambda>i. drop i b) (0 # js)) ((46 # 47 # takeWhile (\<lambda>c. c \<noteq> 32) cmd) # words (dropWhile (\<lambda>c. c \<noteq> 32) cmd))"
    using b(3) unfolding list_all2_map1 by (rule list_all2_mono) (simp add: found_def)
  moreover have "holds b (46 # 47 # takeWhile (\<lambda>c. c \<noteq> 32) cmd)" using b(3) by (simp add: found_def)
  ultimately show ?thesis by blast
qed

text \<open>A host on which every program exits with the number of its arguments.\<close>

definition demo_host :: "nat host" where
  "demo_host = \<lparr> h_read = (\<lambda>_ b _ h. (0, b, h)), h_write = (\<lambda>_ _ n h. (n, h)), h_close = (\<lambda>_ h. (0, h)), h_open = (\<lambda>_ h. (3, h)),
     h_open_null = (\<lambda>h. (4, h)), h_opendir = (\<lambda>h. (Some 0, h)), h_readdir = (\<lambda>_ h. if h = 0 then (None, 0) else (Some [97, 98, 0], h - 1)),
     h_closedir = (\<lambda>_ h. h), h_run = (\<lambda>_ args h. (Exited (of_nat (length args)), h)), h_mmap_low = (\<lambda>_ h. (None, h)), h_open_mem = (\<lambda>h. (5, h)) \<rparr>"

theorem emulated_execute_runs_witness:
  "ece391_execute demo_host (replicate 1026 0) [108, 115, 32, 32, 97, 0] (emu_init, 1) = Some (2, emu_init, 1)"
proof -
  have w: "words [32, 32, 97] = [[97 :: u8]]" by (simp add: words_space, subst words.simps) (simp add: words.simps)
  show ?thesis using emulated_execute_runs[of "[108, 115, 32, 32, 97, 0]" "[108, 115, 32, 32, 97]" "replicate 1026 0" demo_host emu_init 1]
    by (auto simp: holds_def wf_cstring_def demo_host_def w dest!: list_all2_lengthD)
qed

section \<open>Reading the directory\<close>

lemma copy_name_part:
  assumes "m = min n 32" and "m \<le> length buf" and "n < 2 ^ 31"
  shows "holds name s \<Longrightarrow> c < m \<Longrightarrow> length b = length buf \<Longrightarrow> copy_name name b c (of_nat n) =
    (if length s < m - c then Some (None, take c b @ s @ drop (c + length s) b, c + length s)
     else Some (Some (of_nat m), take c b @ take (m - c) s @ drop m b, m))"
proof (induction name arbitrary: s b c)
  case (Cons x name)
  have eq: "(of_nat (c + 1) :: i32) = of_nat n \<longleftrightarrow> c + 1 = n"
  proof -
    have "unat (of_nat n :: i32) = n" "unat (of_nat (c + 1) :: i32) = c + 1"
      using Cons.prems(2) assms(1,3) by (simp_all only: unat_of_nat_32) (simp_all add: unat_of_nat_32)
    then show ?thesis by (simp only: word_unat_eq_iff)
  qed
  have lc: "c < length b" using Cons.prems(2,3) assms(2) by simp
  show ?case
  proof (cases "x = 0")
    case True
    then show ?thesis using Cons.prems(1,2) by (simp add: holds_Cons)
  next
    case False
    then obtain t where t: "s = x # t" "holds name t" using Cons.prems(1) by (auto simp: holds_Cons)
    have tk: "take (Suc c) (b[c := x]) = take c b @ [x]" using lc by (simp add: take_Suc_conv_app_nth)
    show ?thesis
    proof (cases "Suc c = m")
      case True
      then have "c + 1 = n \<or> c + 1 = 32" "m = n \<longleftrightarrow> c + 1 = n" using assms(1) by auto
      moreover have "take c b @ take (m - c) s @ drop m b = b[c := x]" "\<not> length s < m - c"
        using lc by (auto simp: True[symmetric] t(1) upd_conv_take_nth_drop Suc_diff_le)
      ultimately show ?thesis using False lc eq True assms(1) by auto
    next
      case nm: False
      then have c: "Suc c < m" "c + 1 \<noteq> n" "c + 1 \<noteq> 32" using Cons.prems(2) assms(1) by auto
      have "m - c = Suc (m - Suc c)" using c(1) by simp
      then show ?thesis using Cons.IH[OF t(2), of "Suc c" "b[c := x]"] c False lc eq Cons.prems(3) tk by (simp add: t(1))
    qed
  qed
qed simp

lemma pad_name_zeros:
  assumes "m = min n 32" and "n < 2 ^ 31"
  shows "c \<le> m \<Longrightarrow> m \<le> length b \<Longrightarrow> pad_name b c (of_nat n) = Some (take c b @ replicate (m - c) 0 @ drop m b, m)"
proof (induction "m - c" arbitrary: b c)
  case 0
  have "sint (of_nat n :: i32) = int n" using sint_dec[of "Suc n"] assms(2) by simp
  then show ?case using 0 assms(1) by (subst pad_name.simps) auto
next
  case (Suc k)
  have n: "sint (of_nat n :: i32) = int n" using sint_dec[of "Suc n"] assms(2) by simp
  have c: "c < m" "c < n" "c < 32" using Suc.hyps(2) assms(1) by auto
  have "pad_name (b[c := 0]) (c + 1) (of_nat n) = Some (take (c + 1) (b[c := 0]) @ replicate (m - (c + 1)) 0 @ drop m (b[c := 0]), m)"
    using Suc.hyps(1)[of "c + 1" "b[c := 0]"] Suc.hyps(2) Suc.prems c by simp
  moreover have "take (c + 1) (b[c := 0]) = take c b @ [0]" using c(1) Suc.prems by (simp add: take_Suc_conv_app_nth)
  moreover have "m - c = Suc (m - (c + 1))" using c(1) by simp
  ultimately show ?case using c n Suc.prems by (subst pad_name.simps) simp
qed

text \<open>Reading the emulated directory: every read gives the next name, cut off or filled up with NULs to \<open>min nbytes 32\<close> bytes, and returns
  that number, whatever the length of the name; the rest of the buffer is unchanged.\<close>

theorem emulated_directory_read:
  assumes "dir e = Some d" and "dir_fd e = fd" and "h_readdir H d h = (Some name, h')" and "holds name s" and "0 < n" and "n < 2 ^ 31"
    and "m = min n 32" and "m \<le> length buf"
  shows "ece391_read H fd buf (of_nat n) (e, h) = Some (of_nat m, take m s @ replicate (m - length s) 0 @ drop m buf, e, h')"
proof -
  have m: "0 < m" using assms(5,7) by simp
  have c: "copy_name name buf 0 (of_nat n) = (if length s < m then Some (None, s @ drop (length s) buf, length s) else Some (Some (of_nat m), take m s @ drop m buf, m))"
    using copy_name_part[OF assms(7,8,6,4) m, of buf] by simp
  show ?thesis
  proof (cases "length s < m")
    case True
    have "pad_name (s @ drop (length s) buf) (length s) (of_nat n) = Some (s @ replicate (m - length s) 0 @ drop m buf, m)"
      using pad_name_zeros[OF assms(7,6), of "length s" "s @ drop (length s) buf"] True assms(8) by simp
    then show ?thesis using True c assms(1-3) by (simp add: ece391_read_def)
  next
    case False
    then show ?thesis using c assms(1-3) by (simp add: ece391_read_def)
  qed
qed

theorem emulated_directory_read_witness:
  "ece391_read demo_host 4 (replicate 33 7) 32 (\<lparr> dir_fd = 4, dir = Some 0, mem_fd = -1 \<rparr>, 1) =
    Some (32, 97 # 98 # replicate 30 0 @ [7], \<lparr> dir_fd = 4, dir = Some 0, mem_fd = -1 \<rparr>, 0)"
  using emulated_directory_read[of "\<lparr> dir_fd = 4, dir = Some 0, mem_fd = -1 \<rparr>" 0 4 demo_host 1 "[97, 98, 0]" 0 "[97, 98]" 32 32 "replicate 33 7"]
  by (simp add: demo_host_def holds_def wf_cstring_def)

end
