(* ===== verification/Spec2Isabelle.thy ===== *)
theory Spec2Isabelle
  imports Boot Isolation Grep Fishrun Emulate
begin

text \<open>
  \<^bold>\<open>OScelot: a verification of the kernel and its user programs\<close>

  OScelot is a small 32-bit x86 operating system (\<^verbatim>\<open>src/student-distrib\<close>): a kernel with paging,
  a read-only file system loaded by the boot loader, three text terminals, a round-robin
  scheduler and ten system calls.  \<^verbatim>\<open>src/syscalls\<close> holds the user programs and their support
  library, \<^verbatim>\<open>src/fish\<close> an animation that draws on the video memory mapped into its address space.

  \<^bold>\<open>How the parts fit together.\<close>  The boot loader calls \<open>entry\<close> (kernel.c), which sets up the
  descriptors, the interrupt controller, paging, the devices and the first shell.  A user program
  enters the kernel through interrupt 0x80; \<open>syscall_wrapper\<close> dispatches to the system calls of
  syscalls.c, which reach the file system, the clock and the terminals through the jump table of
  a file descriptor.  Device interrupts enter through the wrappers of int_wrapper.S: the keyboard
  edits the line of the visible terminal, the clock wakes waiting readers, the timer switches to
  the next terminal's process.  Every process has its own page directory.

  \<^bold>\<open>The theories\<close>, in the order in which they build on each other:
  \<^item> \<open>Prelude\<close>: machine integers, C strings, little-endian reads, shared lemmas and collections.
  \<^item> \<open>Pic\<close> (i8259.c): the cached interrupt masks and the bytes sent to the controllers; the locale
    \<open>irq_controller\<close>.
  \<^item> \<open>CMem\<close> (the memory and string routines of lib.c): the inline assembly translated instruction by
    instruction over a flat memory; each routine equals its obvious specification (one block copy,
    one block fill, a numeral that reads back as the number).
  \<^item> \<open>Filesys\<close> (filesys.c): the image in memory as the code sees it; \<open>read_data\<close> delivers exactly the
    requested slice, lookup finds the first entry of a name, reads through a descriptor form a
    stream (locale \<open>stream_source\<close>), every error return, and what goes wrong for names of 32
    characters.
  \<^item> \<open>Paging\<close> (paging.c, asm_paging.S): page tables as words in memory and the processor's page
    walk; the whole translation of a process's directory and of the video window.
  \<^item> \<open>Timers\<close> (rtc.c, pit.c): the virtualised clock notifies each process exactly at its rate.
  \<^item> \<open>Console\<close> (the output half of lib.c): \<open>putc\<close> on video memory refines an abstract screen that
    scrolls; \<open>printf\<close>.
  \<^item> \<open>Terminal\<close> (terminal.c): line editing and terminal reads.
  \<^item> \<open>Syscalls\<close> (syscalls.c, syscalls_asm.S, the handlers of pit.c and terminal.c): the record
    \<open>kernel\<close> of all state, every system call, the dispatcher, the task switch.
  \<^item> \<open>Kview\<close>: kernel code running under a process's page directory.
  \<^item> \<open>Descriptors\<close>: \<open>open\<close>, \<open>close\<close>, \<open>read\<close>, \<open>write\<close> and \<open>getargs\<close> as calls on a process; the locale
    \<open>slot_search\<close> for the two searches for a free slot.
  \<^item> \<open>Processes\<close>: the process table implements one stack of processes per terminal: a simulation of
    the step relation \<open>kstep\<close> by \<open>astep\<close>, and the invariant of all reachable states.
  \<^item> \<open>Scheduling\<close>, \<open>Loading\<close>: the fairness of the timer's round robin, \<open>execute\<close> and \<open>halt\<close> as call and
    return, the loading of a program image.
  \<^item> \<open>Idt\<close>, \<open>Handlers\<close>, \<open>Boot\<close> (idt.c, x86_desc.h, kernel_handlers.c, int_wrapper.S, kernel.c):
    descriptors, exceptions, and the boot sequence.
  \<^item> \<open>Isolation\<close>: over whole runs, user code of different processes reaches disjoint memory.
  \<^item> \<open>Userlib\<close>, \<open>Programs\<close> (ece391support.c and the programs cat, ls, hello, testprint, counter,
    pingpong, sigtest, shell): programs over an interface \<open>sys\<close> of system calls, with locales
    (\<open>writer\<close>, \<open>reader\<close>, \<open>lister\<close>, \<open>keyboard_reader\<close>, \<open>ticker\<close>) for what they rely on.
  \<^item> \<open>Userspace\<close> (ece391syscall.S): the interface implemented by this kernel, and the locales
    interpreted on it.
  \<^item> \<open>Syserr\<close> (ece391syserr.c): the self-test of the error cases, and the locale \<open>refusals\<close>.
  \<^item> \<open>Runs\<close>: what the programs print and return when they run on the kernel.
  \<^item> \<open>Grep\<close> (ece391grep.c): the search of files; on this kernel it prints exactly the lines in which
    the search string occurs.
  \<^item> \<open>Fish\<close> (fish.c, blink.S): the animation and its driver; the driver's linked list in a static
    array refines a plain list.
  \<^item> \<open>Fishtank\<close>, \<open>Fishrun\<close>: what the animation shows.  The locale \<open>screen_process\<close> says what it relies
    on (stores through the video window, two files, the clock); it is interpreted on this kernel,
    where \<open>vidmap\<close> opens the window, and the program shows its two frames in turn and ends.
  \<^item> \<open>Emulate\<close> (ece391emulate.c): the library that runs the programs on a Linux host.

  \<^bold>\<open>Conventions.\<close>  A C function is one definition with the state it uses passed in and out; where it
  may fail to return (a loop that waits, a store outside an array, a pointer to nothing) its result
  is an option and \<open>None\<close> stands for not returning or leaving defined behaviour, so a theorem that
  gives a result also says that the code returns and stays in bounds.  Loops that may run forever
  are partial functions; waiting loops take the number of interrupts that arrive as an argument, and
  the theorems say how many are enough (1024 divided by the rate for the clock).  Integers keep
  their width.  Where control leaves the kernel the model returns an outcome saying where it goes.

  \<^bold>\<open>Parameters.\<close>  The addresses the linker chooses are a record \<open>layout\<close> with the alignment and
  disjointness the code needs as a predicate; the boot loader's data are the memory given to
  \<open>entry\<close>; what a program started by \<open>execute\<close> does until it halts is an argument of the system
  call interface; the calls of the Linux host under the emulation library are a record \<open>host\<close>.  Concrete states (named \<open>demo\<close>) show that the hypotheses can hold.

  \<^bold>\<open>Not modelled.\<close>  \<^verbatim>\<open>boot.S\<close> (loads the descriptor tables and calls \<open>entry\<close>), the registers saved and
  restored around handlers, the contents of kernel stacks, the physical keyboard, clock and screen
  beyond their ports and memory, the start-up code of user programs (\<open>_start\<close>, which calls \<open>main\<close>
  and then \<open>halt\<close>), and the commented-out tests in the sources.  Headers with only
  prototypes and constants have no definitions of their own.
\<close>

end
